(* ===== verification/Prelude.thy ===== *)
theory Prelude
  imports
    "HOL-Library.Word"
    "HOL-Library.List_Lexorder"
    "HOL-Library.While_Combinator"
begin

text \<open>
  Shared vocabulary of the development.

  \<^item> Bytes and results. A byte slice or vector is a list of 8-bit words. An operation of the
    code that can fail returns a value of the sum type \<open>err + 'a\<close>: the left summand is an
    \<open>Err\<close> of \<open>anyhow::Result\<close> or an abort of the thread (\<open>Panic\<close>: a failed assertion, an index or
    slice out of range, an integer underflow with overflow checks on, an \<open>unwrap\<close> of \<open>None\<close>).
    \<open>and_then\<close> is Rust's \<open>?\<close> operator.
  \<^item> Loops. \<open>loop_until\<close> is Rust's \<open>loop\<close> over a mutable state whose body may break; a loop that
    never breaks is the error value \<open>Diverges\<close>, so that "it returns" is a theorem about the
    result and never an assumption.
  \<^item> Codecs. Big-endian integers of fixed width as \<open>to_be_bytes\<close> and \<open>bytes::BufMut\<close> write them,
    and the cursor reads of \<open>bytes::Buf\<close> on a slice.
  \<^item> Strictly sorted association lists, the abstract contents of every iterator of the program,
    with \<open>map_of\<close> as their meaning.
\<close>

named_theorems codec_simps
named_theorems res_simps

section \<open>Bytes and results\<close>

type_synonym byte = "8 word"
type_synonym bytes = "8 word list"
type_synonym u16 = "16 word"
type_synonym u32 = "32 word"
type_synonym u64 = "64 word"

datatype err =
    Panic
  | Unimplemented
  | Diverges
  | IoError
  | BlockMetaChecksumMismatch
  | BloomChecksumMismatch
  | BlockChecksumMismatch
  | PreviouslyErrored
  | ParseError

type_synonym 'a res = "err + 'a"

fun and_then :: "'a res \<Rightarrow> ('a \<Rightarrow> 'b res) \<Rightarrow> 'b res" where
  "and_then (Inl e) f = Inl e"
| "and_then (Inr x) f = f x"

fun ensure :: "bool \<Rightarrow> err \<Rightarrow> unit res" where
  "ensure True e = Inr ()"
| "ensure False e = Inl e"

fun map_res :: "('a \<Rightarrow> 'b res) \<Rightarrow> 'a list \<Rightarrow> 'b list res" where
  "map_res f [] = Inr []"
| "map_res f (x # xs) = and_then (f x) (\<lambda>y. and_then (map_res f xs) (\<lambda>ys. Inr (y # ys)))"

fun fold_res :: "('a \<Rightarrow> 's \<Rightarrow> 's res) \<Rightarrow> 'a list \<Rightarrow> 's \<Rightarrow> 's res" where
  "fold_res f [] s = Inr s"
| "fold_res f (x # xs) s = and_then (f x s) (fold_res f xs)"

fun filter_map_res :: "('a \<Rightarrow> 'b option res) \<Rightarrow> 'a list \<Rightarrow> 'b list res" where
  "filter_map_res f [] = Inr []"
| "filter_map_res f (x # xs) =
     and_then (f x) (\<lambda>r. and_then (filter_map_res f xs) (\<lambda>ys.
     Inr (case r of None \<Rightarrow> ys | Some y \<Rightarrow> y # ys)))"

text \<open>\<open>HashMap\<close> indexing and \<open>get(..).unwrap()\<close>.\<close>

definition lookup_res :: "('k \<rightharpoonup> 'v) \<Rightarrow> 'k \<Rightarrow> 'v res" where
  "lookup_res m k = (case m k of None \<Rightarrow> Inl Panic | Some v \<Rightarrow> Inr v)"

lemma filter_map_res_Inr:
  "(\<And>x. x \<in> set xs \<Longrightarrow> f x = Inr (if p x then Some (g x) else None)) \<Longrightarrow>
   filter_map_res f xs = Inr (map g (filter p xs))"
  by (induction xs) auto

text \<open>The same for methods that change a state: an early return keeps the changes made so far.\<close>

fun st_then :: "'a res \<times> 's \<Rightarrow> ('a \<Rightarrow> 's \<Rightarrow> 'b res \<times> 's) \<Rightarrow> 'b res \<times> 's" where
  "st_then (Inl e, s) f = (Inl e, s)"
| "st_then (Inr x, s) f = f x s"

lemma and_then_Inr_iff [res_simps]:
  "and_then m f = Inr y \<longleftrightarrow> (\<exists>x. m = Inr x \<and> f x = Inr y)"
  by (cases m) auto

lemma and_then_Inl_iff [res_simps]:
  "and_then m f = Inl e \<longleftrightarrow> m = Inl e \<or> (\<exists>x. m = Inr x \<and> f x = Inl e)"
  by (cases m) auto

lemma ensure_Inr_iff [res_simps]: "ensure b e = Inr u \<longleftrightarrow> b"
  by (cases b) auto

lemma map_res_Inr:
  "(\<And>x. x \<in> set xs \<Longrightarrow> f x = Inr (g x)) \<Longrightarrow> map_res f xs = Inr (map g xs)"
  by (induction xs) auto

lemma map_res_Inr_length: "map_res f xs = Inr ys \<Longrightarrow> length ys = length xs"
  by (induction xs arbitrary: ys) (auto simp: res_simps)

lemma fold_res_append:
  "fold_res f (xs @ ys) s = and_then (fold_res f xs s) (fold_res f ys)"
proof (induction xs arbitrary: s)
  case (Cons x xs)
  then show ?case by (cases "f x s") simp_all
qed simp

section \<open>Loops\<close>

text \<open>
  One iteration returns \<open>(None, s')\<close> to go round again and \<open>(Some r, s')\<close> to leave the loop with
  result \<open>r\<close>. Only a loop that never leaves has the result \<open>Diverges\<close>.
\<close>

definition loop_until :: "('s \<Rightarrow> unit res option \<times> 's) \<Rightarrow> 's \<Rightarrow> unit res \<times> 's" where
  "loop_until body s =
     (case while_option (\<lambda>(r, t). r = None) (\<lambda>(r, t). body t) (body s) of
        Some (Some r, t) \<Rightarrow> (r, t)
      | _ \<Rightarrow> (Inl Diverges, undefined))"

lemma loop_until_unfold:
  "loop_until body s =
     (case body s of (None, t) \<Rightarrow> loop_until body t | (Some r, t) \<Rightarrow> (r, t))"
proof (cases "body s")
  case (Pair r t)
  show ?thesis
  proof (cases r)
    case None
    with Pair show ?thesis
      unfolding loop_until_def by (subst while_option_unfold) simp
  next
    case (Some r')
    with Pair show ?thesis
      unfolding loop_until_def by (subst while_option_unfold) simp
  qed
qed

text \<open>
  Total correctness of a loop: an invariant, a measure that every further round decreases, and a
  postcondition established by every way out.
\<close>

lemma loop_until_rule:
  fixes m :: "'s \<Rightarrow> nat"
  assumes "I s"
    and step: "\<And>t t'. I t \<Longrightarrow> body t = (None, t') \<Longrightarrow> I t' \<and> m t' < m t"
    and exit: "\<And>t r t'. I t \<Longrightarrow> body t = (Some r, t') \<Longrightarrow> Q r t'"
  shows "case loop_until body s of (r, t) \<Rightarrow> Q r t"
  using \<open>I s\<close>
proof (induction "m s" arbitrary: s rule: less_induct)
  case less
  obtain r t where b: "body s = (r, t)" by (cases "body s")
  show ?case
  proof (cases r)
    case None
    with b step [OF less.prems] have "I t" and "m t < m s" by auto
    from less.hyps [OF \<open>m t < m s\<close> \<open>I t\<close>] b None show ?thesis by (simp add: loop_until_unfold [of body s])
  next
    case (Some r')
    with b exit [OF less.prems] show ?thesis
      by (simp add: loop_until_unfold [of body s])
  qed
qed

section \<open>Slices and cursors\<close>

definition slice :: "nat \<Rightarrow> nat \<Rightarrow> 'a list \<Rightarrow> 'a list res" where
  "slice i j xs = (if i \<le> j \<and> j \<le> length xs then Inr (take (j - i) (drop i xs)) else Inl Panic)"

definition slice_from :: "nat \<Rightarrow> 'a list \<Rightarrow> 'a list res" where
  "slice_from i xs = (if i \<le> length xs then Inr (drop i xs) else Inl Panic)"

definition index :: "'a list \<Rightarrow> nat \<Rightarrow> 'a res" where
  "index xs i = (if i < length xs then Inr (xs ! i) else Inl Panic)"

definition checked_sub :: "nat \<Rightarrow> nat \<Rightarrow> nat res" where
  "checked_sub a b = (if b \<le> a then Inr (a - b) else Inl Panic)"

definition advance :: "nat \<Rightarrow> bytes \<Rightarrow> bytes res" where
  "advance n bs = (if n \<le> length bs then Inr (drop n bs) else Inl Panic)"

text \<open>\<open>&buf[..n]\<close> followed by \<open>buf.advance(n)\<close>.\<close>

definition get_slice :: "nat \<Rightarrow> bytes \<Rightarrow> (bytes \<times> bytes) res" where
  "get_slice n bs = (if n \<le> length bs then Inr (take n bs, drop n bs) else Inl Panic)"

lemma slice_Inr [codec_simps]:
  "i \<le> j \<Longrightarrow> j \<le> length xs \<Longrightarrow> slice i j xs = Inr (take (j - i) (drop i xs))"
  by (simp add: slice_def)

lemma slice_from_Inr [codec_simps]: "i \<le> length xs \<Longrightarrow> slice_from i xs = Inr (drop i xs)"
  by (simp add: slice_from_def)

lemma index_Inr [codec_simps]: "i < length xs \<Longrightarrow> index xs i = Inr (xs ! i)"
  by (simp add: index_def)

lemma checked_sub_Inr [codec_simps]: "b \<le> a \<Longrightarrow> checked_sub a b = Inr (a - b)"
  by (simp add: checked_sub_def)

lemma get_slice_append [codec_simps]:
  "n = length xs \<Longrightarrow> get_slice n (xs @ ys) = Inr (xs, ys)"
  by (simp add: get_slice_def)

section \<open>Big-endian integers\<close>

fun put_be :: "nat \<Rightarrow> nat \<Rightarrow> bytes" where
  "put_be 0 x = []"
| "put_be (Suc n) x = word_of_nat (x div 256 ^ n) # put_be n x"

definition be_val :: "bytes \<Rightarrow> nat" where
  "be_val bs = foldl (\<lambda>acc b. acc * 256 + unat b) 0 bs"

lemma length_put_be [simp]: "length (put_be n x) = n"
  by (induction n) auto

lemma be_val_acc: "foldl (\<lambda>acc b. acc * 256 + unat b) a (bs :: bytes) = a * 256 ^ length bs + be_val bs"
proof (induction bs arbitrary: a)
  case Nil
  then show ?case by (simp add: be_val_def)
next
  case (Cons b bs)
  have "be_val (b # bs) = unat b * 256 ^ length bs + be_val bs"
    using Cons.IH [of "unat b"] by (simp add: be_val_def)
  then show ?case
    using Cons.IH [of "a * 256 + unat b"] by (simp add: algebra_simps)
qed

lemma be_val_Nil [simp]: "be_val [] = 0"
  by (simp add: be_val_def)

lemma be_val_Cons [simp]: "be_val (b # bs) = unat b * 256 ^ length bs + be_val bs"
  using be_val_acc [of "unat b" bs] by (simp add: be_val_def)

lemma be_val_put_be: "be_val (put_be n x) = x mod 256 ^ n"
proof (induction n)
  case (Suc n)
  have "x mod 256 ^ Suc n = 256 ^ n * (x div 256 ^ n mod 256) + x mod 256 ^ n"
    by (simp add: mod_mult2_eq [of x "256 ^ n" 256, symmetric] mult.commute)
  with Suc show ?case
    by (simp add: unsigned_of_nat take_bit_eq_mod mult.commute)
qed simp

definition put_u8 :: "byte \<Rightarrow> bytes" where "put_u8 w = [w]"
definition put_u16 :: "u16 \<Rightarrow> bytes" where "put_u16 w = put_be 2 (unat w)"
definition put_u32 :: "u32 \<Rightarrow> bytes" where "put_u32 w = put_be 4 (unat w)"
definition put_u64 :: "u64 \<Rightarrow> bytes" where "put_u64 w = put_be 8 (unat w)"

definition get_u16 :: "bytes \<Rightarrow> (u16 \<times> bytes) res" where
  "get_u16 bs = (if 2 \<le> length bs then Inr (word_of_nat (be_val (take 2 bs)), drop 2 bs) else Inl Panic)"

definition get_u32 :: "bytes \<Rightarrow> (u32 \<times> bytes) res" where
  "get_u32 bs = (if 4 \<le> length bs then Inr (word_of_nat (be_val (take 4 bs)), drop 4 bs) else Inl Panic)"

definition get_u64 :: "bytes \<Rightarrow> (u64 \<times> bytes) res" where
  "get_u64 bs = (if 8 \<le> length bs then Inr (word_of_nat (be_val (take 8 bs)), drop 8 bs) else Inl Panic)"

text \<open>\<open>uN::from_be_bytes(slice.try_into().unwrap())\<close>: the slice has to have exactly N/8 bytes.\<close>

definition u16_from_be :: "bytes \<Rightarrow> u16 res" where
  "u16_from_be bs = (if length bs = 2 then Inr (word_of_nat (be_val bs)) else Inl Panic)"

definition u32_from_be :: "bytes \<Rightarrow> u32 res" where
  "u32_from_be bs = (if length bs = 4 then Inr (word_of_nat (be_val bs)) else Inl Panic)"

lemma be_val_put_u16: "be_val (put_u16 w) = unat w"
proof -
  have "unat w < 2 ^ LENGTH(16)" by (rule unsigned_less)
  then show ?thesis by (simp add: put_u16_def be_val_put_be)
qed

lemma be_val_put_u32: "be_val (put_u32 w) = unat w"
proof -
  have "unat w < 2 ^ LENGTH(32)" by (rule unsigned_less)
  then show ?thesis by (simp add: put_u32_def be_val_put_be)
qed

lemma be_val_put_u64: "be_val (put_u64 w) = unat w"
proof -
  have "unat w < 2 ^ LENGTH(64)" by (rule unsigned_less)
  then show ?thesis by (simp add: put_u64_def be_val_put_be)
qed

lemma length_put_u16 [simp]: "length (put_u16 w) = 2" by (simp add: put_u16_def)
lemma length_put_u32 [simp]: "length (put_u32 w) = 4" by (simp add: put_u32_def)
lemma length_put_u64 [simp]: "length (put_u64 w) = 8" by (simp add: put_u64_def)
lemma length_put_u8 [simp]: "length (put_u8 w) = 1" by (simp add: put_u8_def)

lemma get_put_u16 [codec_simps]: "get_u16 (put_u16 w @ bs) = Inr (w, bs)"
  by (simp add: get_u16_def be_val_put_u16)

lemma get_put_u32 [codec_simps]: "get_u32 (put_u32 w @ bs) = Inr (w, bs)"
  by (simp add: get_u32_def be_val_put_u32)

lemma get_put_u64 [codec_simps]: "get_u64 (put_u64 w @ bs) = Inr (w, bs)"
  by (simp add: get_u64_def be_val_put_u64)

lemma u16_from_put [codec_simps]: "u16_from_be (put_u16 w) = Inr w"
  by (simp add: u16_from_be_def be_val_put_u16)

lemma u32_from_put [codec_simps]: "u32_from_be (put_u32 w) = Inr w"
  by (simp add: u32_from_be_def be_val_put_u32)

lemma unat_u16_of_nat [codec_simps]: "n < 65536 \<Longrightarrow> unat (word_of_nat n :: u16) = n"
  by (simp add: unsigned_of_nat take_bit_nat_eq_self)

lemma unat_u32_of_nat [codec_simps]: "n < 4294967296 \<Longrightarrow> unat (word_of_nat n :: u32) = n"
  by (simp add: unsigned_of_nat take_bit_nat_eq_self)

section \<open>Partition points\<close>

text \<open>
  \<open>slice::partition_point\<close> on a slice that is partitioned by the predicate: the number of leading
  elements that satisfy it. On any other slice its result is unspecified by the standard library.
\<close>

definition partition_point :: "('a \<Rightarrow> bool) \<Rightarrow> 'a list \<Rightarrow> nat" where
  "partition_point p xs = length (takeWhile p xs)"

section \<open>Strictly sorted association lists\<close>

abbreviation sorted1 :: "('k::linorder \<times> 'v) list \<Rightarrow> bool" where
  "sorted1 xs \<equiv> sorted_wrt (<) (map fst xs)"

lemma sorted1_distinct: "sorted1 xs \<Longrightarrow> distinct (map fst xs)"
  by (simp add: strict_sorted_iff)

lemma sorted1_Cons: "sorted1 (x # xs) \<longleftrightarrow> (\<forall>y \<in> set xs. fst x < fst y) \<and> sorted1 xs"
  by auto

lemma sorted1_append:
  "sorted1 (xs @ ys) \<longleftrightarrow> sorted1 xs \<and> sorted1 ys \<and> (\<forall>x \<in> set xs. \<forall>y \<in> set ys. fst x < fst y)"
  by (auto simp: sorted_wrt_append)

lemma sorted1_appendD1: "sorted1 (xs @ ys) \<Longrightarrow> sorted1 xs"
  and sorted1_appendD2: "sorted1 (xs @ ys) \<Longrightarrow> sorted1 ys"
  by (simp_all only: sorted1_append)

lemma sorted1_filter: "sorted1 xs \<Longrightarrow> sorted1 (filter p xs)"
  by (induction xs) auto

lemma sorted1_tl: "sorted1 xs \<Longrightarrow> sorted1 (tl xs)"
  by (cases xs) auto

lemma sorted1_drop: "sorted1 xs \<Longrightarrow> sorted1 (drop n xs)"
  by (simp add: drop_map [symmetric] sorted_wrt_drop)

text \<open>A strictly sorted list is determined by its meaning.\<close>

lemma sorted1_dom: "map fst xs = sorted_list_of_set (dom (map_of xs))" if "sorted1 xs"
  using that by (simp add: dom_map_of_conv_image_fst strict_sorted_iff
      sorted_list_of_set.idem_if_sorted_distinct flip: set_map)

lemma sorted1_map_of_eqI:
  assumes "sorted1 xs" "sorted1 ys" "map_of xs = map_of ys"
  shows "xs = ys"
proof -
  have keys: "map fst xs = map fst ys"
    using assms by (metis sorted1_dom)
  have "map snd xs = map (\<lambda>k. the (map_of xs k)) (map fst xs)"
    using sorted1_distinct [OF assms(1)] by (auto simp: map_of_is_SomeI)
  moreover have "map snd ys = map (\<lambda>k. the (map_of ys k)) (map fst ys)"
    using sorted1_distinct [OF assms(2)] by (auto simp: map_of_is_SomeI)
  ultimately have "map snd xs = map snd ys" using keys assms(3) by simp
  with keys show ?thesis by (metis zip_map_fst_snd)
qed

lemma map_of_tl: "sorted1 (x # xs) \<Longrightarrow> map_of xs = (map_of (x # xs))(fst x := None)"
proof -
  assume s: "sorted1 (x # xs)"
  then have "map_of xs (fst x) = None"
    by (auto simp: map_of_eq_None_iff)
  then show ?thesis by (cases x) (auto simp: fun_upd_def fun_eq_iff)
qed

lemma map_of_filter_key:
  "map_of (filter (\<lambda>x. p (fst x)) xs) k = (if p k then map_of xs k else None)"
  by (induction xs) auto

definition list_of_map :: "('k::linorder \<rightharpoonup> 'v) \<Rightarrow> ('k \<times> 'v) list" where
  "list_of_map m = map (\<lambda>k. (k, the (m k))) (sorted_list_of_set (dom m))"

lemma sorted1_list_of_map: "sorted1 (list_of_map m)"
  by (simp add: list_of_map_def comp_def)

lemma map_of_list_of_map: "finite (dom m) \<Longrightarrow> map_of (list_of_map m) = m"
  by (rule ext) (auto simp: list_of_map_def map_of_map_keys map_of_eq_None_iff domIff
      comp_def image_image intro!: map_of_is_SomeI)

lemma list_of_map_mem: "finite (dom m) \<Longrightarrow> e \<in> set (list_of_map m) \<Longrightarrow> m (fst e) = Some (snd e)"
  by (auto simp: list_of_map_def domIff)

lemma list_of_map_map_of: "sorted1 xs \<Longrightarrow> list_of_map (map_of xs) = xs"
  by (rule sorted1_map_of_eqI) (simp_all add: sorted1_list_of_map map_of_list_of_map finite_dom_map_of)

lemma sorted1_nth_less: "sorted1 xs \<Longrightarrow> i < j \<Longrightarrow> j < length xs \<Longrightarrow> fst (xs ! i) < fst (xs ! j)"
  using sorted_wrt_nth_less [of "(<)" "map fst xs" i j] by simp

lemma sorted1_nth_less_iff:
  "sorted1 xs \<Longrightarrow> i < length xs \<Longrightarrow> j < length xs \<Longrightarrow> fst (xs ! i) < fst (xs ! j) \<longleftrightarrow> i < j"
  by (metis linorder_neqE_nat order_less_asym order_less_irrefl sorted1_nth_less)

text \<open>The position of the first entry at or above a key.\<close>

definition lower_bound :: "'k::linorder \<Rightarrow> ('k \<times> 'v) list \<Rightarrow> nat" where
  "lower_bound k xs = length (takeWhile (\<lambda>x. fst x < k) xs)"

lemma lower_bound_eqI:
  assumes "n \<le> length xs" "\<And>j. j < n \<Longrightarrow> fst (xs ! j) < k" "n < length xs \<Longrightarrow> \<not> fst (xs ! n) < k"
  shows "lower_bound k xs = n"
proof -
  have "takeWhile (\<lambda>x. fst x < k) xs = take n xs"
    by (rule takeWhile_eq_take_P_nth) (use assms in auto)
  then show ?thesis using assms(1) by (simp add: lower_bound_def)
qed

lemma lower_bound_le: "lower_bound k xs \<le> length xs"
  by (simp add: lower_bound_def length_takeWhile_le)

lemma drop_lower_bound: "drop (lower_bound k xs) xs = dropWhile (\<lambda>x. fst x < k) xs"
  by (simp add: lower_bound_def dropWhile_eq_drop)

lemma dropWhile_less_eq_filter:
  "sorted1 xs \<Longrightarrow> dropWhile (\<lambda>x. fst x < k) xs = filter (\<lambda>x. k \<le> fst x) xs"
proof (induction xs)
  case (Cons x xs)
  show ?case
  proof (cases "fst x < k")
    case False
    then have "\<forall>y \<in> set (x # xs). k \<le> fst y" using Cons.prems by fastforce
    with False show ?thesis by (simp add: filter_id_conv)
  qed (use Cons in auto)
qed simp

lemma list_of_map_Cons:
  assumes fin: "finite (dom m)" and k: "m k = Some v" and least: "\<And>l. l \<in> dom m \<Longrightarrow> k \<le> l"
  shows "list_of_map m = (k, v) # list_of_map (m(k := None))"
proof (rule sorted1_map_of_eqI)
  have fin': "finite (dom (m(k := None)))" using fin by simp
  have keys: "set (map fst (list_of_map (m(k := None)))) = dom m - {k}"
    using fin' by (simp add: list_of_map_def comp_def)
  have "\<forall>x \<in> set (list_of_map (m(k := None))). k < fst x"
  proof
    fix x assume "x \<in> set (list_of_map (m(k := None)))"
    then have "fst x \<in> set (map fst (list_of_map (m(k := None))))" by simp
    then have "fst x \<in> dom m" "fst x \<noteq> k" unfolding keys by auto
    then show "k < fst x" using least [of "fst x"] by simp
  qed
  then show "sorted1 ((k, v) # list_of_map (m(k := None)))"
    using sorted1_list_of_map by auto
  show "map_of (list_of_map m) = map_of ((k, v) # list_of_map (m(k := None)))"
    using fin fin' k by (auto simp: map_of_list_of_map)
qed (rule sorted1_list_of_map)

lemma list_of_map_eq_Nil: "finite (dom m) \<Longrightarrow> list_of_map m = [] \<longleftrightarrow> m = Map.empty"
  by (simp add: list_of_map_def)

section \<open>Chunked lists\<close>

text \<open>
  A sorted list cut into non-empty chunks (the blocks of a table, the tables of a level). The
  chunk a key is looked for in is the last one that starts at or below the key, or the first.
\<close>

lemma partition_point_map:
  assumes "map f xs = map g ys"
  shows "partition_point (\<lambda>x. p (f x)) xs = partition_point (\<lambda>y. p (g y)) ys"
  using arg_cong [OF assms, of "\<lambda>l. length (takeWhile p l)"]
  by (simp add: partition_point_def takeWhile_map comp_def)

lemma chunk_split:
  assumes ne: "bss \<noteq> []" and blk: "\<forall>es \<in> set bss. es \<noteq> []" and s: "sorted1 (concat bss)"
    and n_def: "n = partition_point (\<lambda>es. fst (hd es) \<le> k) bss - 1"
  shows "n < length bss" "\<forall>x \<in> set (concat (take n bss)). fst x < k"
    "\<forall>x \<in> set (concat (drop (Suc n) bss)). k < fst x"
proof -
  let ?p = "\<lambda>es. fst (hd es) \<le> k"
  define c where "c = length (takeWhile ?p bss)"
  have n: "n = c - 1" by (simp add: n_def partition_point_def c_def)
  have c: "c \<le> length bss" using length_takeWhile_le [of ?p bss] by (simp add: c_def)
  then show "n < length bss" using ne by (cases bss) (auto simp: n)
  have below: "fst (hd (bss ! i)) \<le> k" if "i < c" for i
  proof -
    have "takeWhile ?p bss ! i = bss ! i" using that by (simp add: c_def takeWhile_nth)
    moreover have "takeWhile ?p bss ! i \<in> set (takeWhile ?p bss)" using that by (simp add: c_def)
    ultimately have "?p (bss ! i)" using set_takeWhileD by metis
    then show ?thesis by simp
  qed
  show "\<forall>x \<in> set (concat (take n bss)). fst x < k"
  proof
    fix x assume x: "x \<in> set (concat (take n bss))"
    then have "0 < n" by (cases n) auto
    then have nc: "n < c" "n < length bss" using c by (auto simp: n)
    have "concat bss = concat (take n bss) @ bss ! n @ concat (drop (Suc n) bss)"
      using nc(2) by (metis append_take_drop_id concat.simps(2) concat_append id_take_nth_drop append_assoc Cons_nth_drop_Suc)
    then have s': "sorted1 (concat (take n bss) @ bss ! n @ concat (drop (Suc n) bss))"
      using s by simp
    have "hd (bss ! n) \<in> set (bss ! n @ concat (drop (Suc n) bss))" using blk nc(2) by simp
    then have "fst x < fst (hd (bss ! n))" using s' [unfolded sorted1_append [of "concat (take n bss)"]] x by blast
    then show "fst x < k" using below [OF nc(1)] by simp
  qed
  show "\<forall>x \<in> set (concat (drop (Suc n) bss)). k < fst x"
  proof
    fix x assume x: "x \<in> set (concat (drop (Suc n) bss))"
    then have lt: "Suc n < length bss" by (cases "Suc n < length bss") auto
    have "\<not> ?p (bss ! c)" if "c < length bss"
      using that nth_length_takeWhile [of ?p bss] by (simp add: c_def)
    then have "k < fst (hd (bss ! Suc n))"
    proof (cases "c = 0")
      case True
      have "k < fst (hd (bss ! 0))" using ne True \<open>c < length bss \<Longrightarrow> \<not> ?p (bss ! c)\<close> by auto
      moreover have "fst (hd (bss ! 0)) < fst (hd (bss ! 1))"
      proof -
        obtain b0 b1 r where bss: "bss = b0 # b1 # r"
          using lt n True by (cases bss; cases "tl bss") auto
        then have "hd b0 \<in> set b0" "hd b1 \<in> set (b1 @ concat r)" using blk by auto
        moreover have "sorted1 (b0 @ b1 @ concat r)" using s bss by simp
        ultimately have "fst (hd b0) < fst (hd b1)" unfolding sorted1_append [of b0] by blast
        then show ?thesis by (simp add: bss)
      qed
      ultimately show ?thesis using True n by simp
    next
      case False
      then have "Suc n = c" by (simp add: n)
      then show ?thesis using lt \<open>c < length bss \<Longrightarrow> \<not> ?p (bss ! c)\<close> by auto
    qed
    moreover have "fst (hd (bss ! Suc n)) \<le> fst x"
    proof -
      have d: "drop (Suc n) bss = bss ! Suc n # drop (Suc (Suc n)) bss" using lt by (simp add: Cons_nth_drop_Suc)
      have "sorted1 (concat (drop (Suc n) bss))"
        using s append_take_drop_id [of "Suc n" bss] by (metis concat_append sorted1_append)
      moreover obtain y ys where "bss ! Suc n = y # ys" using blk lt by (metis neq_Nil_conv nth_mem)
      ultimately have "sorted1 (y # ys @ concat (drop (Suc (Suc n)) bss))" "bss ! Suc n = y # ys"
        by (simp_all add: d)
      moreover have "x \<in> set (y # ys @ concat (drop (Suc (Suc n)) bss))"
        using x calculation(2) by (simp add: d)
      ultimately show ?thesis unfolding sorted1_Cons [of y]
        by (auto intro: less_imp_le)
    qed
    ultimately show "k < fst x" by simp
  qed
qed

lemma dropWhile_less_none: "\<forall>x \<in> set xs. k < fst x \<Longrightarrow> dropWhile (\<lambda>x. fst x < k) xs = xs" for k :: "'k::linorder"
  by (cases xs) auto

lemma chunk_dropWhile:
  assumes "bss \<noteq> []" "\<forall>es \<in> set bss. es \<noteq> []" "sorted1 (concat bss)"
    and "n = partition_point (\<lambda>es. fst (hd es) \<le> k) bss - 1"
  shows "dropWhile (\<lambda>x. fst x < k) (concat bss) =
    dropWhile (\<lambda>x. fst x < k) (bss ! n) @ concat (drop (Suc n) bss)"
proof -
  note split = chunk_split [OF assms]
  have cc: "concat bss = concat (take n bss) @ bss ! n @ concat (drop (Suc n) bss)"
    using split(1) by (metis append_take_drop_id concat.simps(2) concat_append Cons_nth_drop_Suc)
  have "dropWhile (\<lambda>x. fst x < k) (concat bss) =
      dropWhile (\<lambda>x. fst x < k) (bss ! n @ concat (drop (Suc n) bss))"
    unfolding cc by (rule dropWhile_append2) (use split(2) in blast)
  then show ?thesis
    using dropWhile_less_none [OF split(3)] by (auto simp: dropWhile_append)
qed

section \<open>Overlays\<close>

text \<open>Several maps on top of each other; the first one that has a key decides.\<close>

definition overlay :: "('k \<rightharpoonup> 'v) list \<Rightarrow> ('k \<rightharpoonup> 'v)" where
  "overlay ms = foldr (\<lambda>m acc. acc ++ m) ms Map.empty"

lemma overlay_Nil [simp]: "overlay [] = Map.empty"
  by (simp add: overlay_def)

lemma overlay_Cons [simp]: "overlay (m # ms) = overlay ms ++ m"
  by (simp add: overlay_def)

lemma overlay_append: "overlay (ms @ ns) = overlay ns ++ overlay ms"
  by (induction ms) auto

lemma dom_overlay: "dom (overlay ms) = (\<Union>m \<in> set ms. dom m)"
  by (induction ms) auto

lemma overlay_at: "overlay ms k = Some v \<Longrightarrow> \<exists>m \<in> set ms. m k = Some v"
  by (induction ms) auto

text \<open>Leaving out maps that do not have the key changes nothing at the key.\<close>

lemma overlay_filter_at:
  "(\<And>x. x \<in> set xs \<Longrightarrow> \<not> p x \<Longrightarrow> f x k = None) \<Longrightarrow>
   overlay (map f (filter p xs)) k = overlay (map f xs) k"
  by (induction xs) (auto simp: map_add_def split: option.splits)

lemma overlay_cong_at:
  "(\<And>x. x \<in> set xs \<Longrightarrow> f x k = g x k) \<Longrightarrow> overlay (map f xs) k = overlay (map g xs) k"
  by (induction xs) (auto simp: map_add_def split: option.splits)

lemma map_of_concat_filter_at:
  "(\<And>x. x \<in> set xs \<Longrightarrow> \<not> p x \<Longrightarrow> map_of (f x) k = None) \<Longrightarrow>
   map_of (concat (map f (filter p xs))) k = map_of (concat (map f xs)) k"
  by (induction xs) (auto simp: map_add_def split: option.splits)

lemma finite_dom_overlay: "(\<And>m. m \<in> set ms \<Longrightarrow> finite (dom m)) \<Longrightarrow> finite (dom (overlay ms))"
  by (simp add: dom_overlay)

lemma overlay_filter_empty: "overlay (filter (\<lambda>m. m \<noteq> Map.empty) ms) = overlay ms"
  by (induction ms) auto

end
