(* ===== verification/Keys.thy ===== *)
theory Keys
  imports Prelude
begin

text \<open>
  \<open>src/key.rs\<close>: user keys with a version timestamp. \<open>Key<T>(T, u64)\<close> is one datatype for the three
  instances \<open>KeySlice\<close>, \<open>KeyVec\<close> and \<open>KeyBytes\<close>, which differ in who owns the bytes. The order is
  the one of \<open>impl Ord for Key\<close>: ascending user key, and for one user key newest version first.
\<close>

datatype key = Key (key_ref: bytes) (key_ts: u64)

definition TS_DEFAULT :: u64 where "TS_DEFAULT = 0"
definition TS_MAX :: u64 where "TS_MAX = - 1"
definition TS_MIN :: u64 where "TS_MIN = 0"
definition TS_RANGE_BEGIN :: u64 where "TS_RANGE_BEGIN = - 1"
definition TS_RANGE_END :: u64 where "TS_RANGE_END = 0"

definition key_len :: "key \<Rightarrow> nat" where
  "key_len k = length (key_ref k)"

definition raw_len :: "key \<Rightarrow> nat" where
  "raw_len k = length (key_ref k) + 8"

definition key_is_empty :: "key \<Rightarrow> bool" where
  "key_is_empty k \<longleftrightarrow> key_ref k = []"

definition key_new :: key where
  "key_new = Key [] TS_DEFAULT"

definition key_clear :: "key \<Rightarrow> key" where
  "key_clear k = Key [] (key_ts k)"

definition key_append :: "key \<Rightarrow> bytes \<Rightarrow> key" where
  "key_append k data = Key (key_ref k @ data) (key_ts k)"

definition key_set_ts :: "key \<Rightarrow> u64 \<Rightarrow> key" where
  "key_set_ts k ts = Key (key_ref k) ts"

definition key_set_from_slice :: "key \<Rightarrow> key \<Rightarrow> key" where
  "key_set_from_slice k s = Key (key_ref s) (key_ts s)"

lemmas key_simps =
  key_len_def raw_len_def key_is_empty_def key_new_def key_clear_def key_append_def
  key_set_ts_def key_set_from_slice_def

text \<open>
  The order of keys: user keys ascending, and of the same user key the newest version first.
  \<open>key_lt\<close> and \<open>key_le\<close> are \<open><\<close> and \<open>\<le>\<close> of the comparison of the pairs of bytes and reversed
  timestamp.
\<close>

definition key_lt :: "key \<Rightarrow> key \<Rightarrow> bool" where
  "key_lt a b \<longleftrightarrow> key_ref a < key_ref b \<or> key_ref a = key_ref b \<and> key_ts b < key_ts a"

definition key_le :: "key \<Rightarrow> key \<Rightarrow> bool" where
  "key_le a b \<longleftrightarrow> key_ref a < key_ref b \<or> key_ref a = key_ref b \<and> key_ts b \<le> key_ts a"

instantiation key :: linorder
begin

definition less_key :: "key \<Rightarrow> key \<Rightarrow> bool" where
  "less_key = key_lt"

definition less_eq_key :: "key \<Rightarrow> key \<Rightarrow> bool" where
  "less_eq_key = key_le"

instance
proof
  fix a b c :: key
  note defs = less_key_def less_eq_key_def key_lt_def key_le_def
  show "a < b \<longleftrightarrow> a \<le> b \<and> \<not> b \<le> a" by (auto simp: defs)
  show "a \<le> a" by (simp add: defs)
  show "a \<le> b \<Longrightarrow> b \<le> c \<Longrightarrow> a \<le> c" by (auto simp: defs)
  show "a \<le> b \<Longrightarrow> b \<le> a \<Longrightarrow> a = b" by (auto simp: defs key.expand)
  show "a \<le> b \<or> b \<le> a" by (auto simp: defs)
qed

end

lemma less_key_iff [simp]:
  "Key u t < Key v s \<longleftrightarrow> u < v \<or> u = v \<and> s < t"
  by (simp add: less_key_def key_lt_def)

lemma less_eq_key_iff [simp]:
  "Key u t \<le> Key v s \<longleftrightarrow> u < v \<or> u = v \<and> s \<le> t"
  by (simp add: less_eq_key_def key_le_def)

lemma key_le_refD: "a \<le> b \<Longrightarrow> key_ref a \<le> key_ref b"
  by (cases a; cases b) auto

lemma key_ref_lessD: "key_ref a < key_ref b \<Longrightarrow> a < b"
  by (cases a; cases b) auto

lemma ts_le_max [simp]: "(t :: u64) \<le> - 1"
  by (rule word_order.extremum)

text \<open>
  \<open>(u, TS_RANGE_BEGIN)\<close> is the first and \<open>(u, TS_RANGE_END)\<close> the last version of a user key: the
  pair of bounds every range read of the program uses.
\<close>

lemma range_begin_least: "key_ref k = u \<Longrightarrow> Key u TS_RANGE_BEGIN \<le> k"
  by (cases k) (simp add: TS_RANGE_BEGIN_def)

lemma range_end_greatest: "key_ref k = u \<Longrightarrow> k \<le> Key u TS_RANGE_END"
  by (cases k) (simp add: TS_RANGE_END_def)

lemma range_begin_le_iff: "Key u TS_RANGE_BEGIN \<le> k \<longleftrightarrow> u \<le> key_ref k"
  by (cases k) (auto simp: TS_RANGE_BEGIN_def order.order_iff_strict [of u])

lemma range_end_ge_iff: "k \<le> Key u TS_RANGE_END \<longleftrightarrow> key_ref k \<le> u"
  by (cases k) (auto simp: TS_RANGE_END_def order.order_iff_strict [of _ u])

lemma range_end_less_iff: "Key u TS_RANGE_END < k \<longleftrightarrow> u < key_ref k"
  using range_end_ge_iff [of k u] by (simp add: not_le [symmetric])

lemma less_range_begin_iff: "k < Key u TS_RANGE_BEGIN \<longleftrightarrow> key_ref k < u"
  using range_begin_le_iff [of u k] by (simp add: not_le [symmetric])

section \<open>Range bounds\<close>

text \<open>\<open>std::ops::Bound\<close>.\<close>

datatype 'a bound = Included 'a | Excluded 'a | Unbounded

fun above_bound :: "'a::linorder bound \<Rightarrow> 'a \<Rightarrow> bool" where
  "above_bound (Included b) x \<longleftrightarrow> b \<le> x"
| "above_bound (Excluded b) x \<longleftrightarrow> b < x"
| "above_bound Unbounded x \<longleftrightarrow> True"

fun below_bound :: "'a::linorder bound \<Rightarrow> 'a \<Rightarrow> bool" where
  "below_bound (Included b) x \<longleftrightarrow> x \<le> b"
| "below_bound (Excluded b) x \<longleftrightarrow> x < b"
| "below_bound Unbounded x \<longleftrightarrow> True"

definition in_bounds :: "'a::linorder bound \<Rightarrow> 'a bound \<Rightarrow> 'a \<Rightarrow> bool" where
  "in_bounds lo hi x \<longleftrightarrow> above_bound lo x \<and> below_bound hi x"

end
