(* ===== verification/SkipMaps.thy ===== *)
theory SkipMaps
  imports Keys "HOL-Library.RBT"
begin

text \<open>
  The interface of \<open>crossbeam_skiplist::SkipMap\<close>, the ordered map inside a memtable and inside a
  transaction. The crate is not part of the repository: a map is a value of a type parameter, its
  methods are a record, and what the code relies on are the laws of the locale \<open>skip_map\<close>. The laws
  are the documented behaviour of an ordered map: iteration ascends, \<open>insert\<close> replaces, \<open>range\<close>
  gives the entries between two bounds. The red-black trees of the library satisfy them.
\<close>

record ('m, 'k, 'v) skip_ops =
  sm_new :: 'm
  sm_insert :: "'k \<Rightarrow> 'v \<Rightarrow> 'm \<Rightarrow> 'm"
  sm_get :: "'m \<Rightarrow> 'k \<Rightarrow> 'v option"
  sm_range :: "'k bound \<Rightarrow> 'k bound \<Rightarrow> 'm \<Rightarrow> ('k \<times> 'v) list"
  sm_iter :: "'m \<Rightarrow> ('k \<times> 'v) list"
  sm_is_empty :: "'m \<Rightarrow> bool"

locale skip_map =
  fixes S :: "('m, 'k::linorder, 'v) skip_ops"
  assumes iter_sorted: "sorted1 (sm_iter S m)"
    and iter_new: "sm_iter S (sm_new S) = []"
    and map_insert: "map_of (sm_iter S (sm_insert S k v m)) = (map_of (sm_iter S m))(k \<mapsto> v)"
    and get_iter: "sm_get S m k = map_of (sm_iter S m) k"
    and range_iter: "sm_range S lo hi m = filter (\<lambda>e. in_bounds lo hi (fst e)) (sm_iter S m)"
    and is_empty_iter: "sm_is_empty S m \<longleftrightarrow> sm_iter S m = []"

context skip_map
begin

lemma range_sorted: "sorted1 (sm_range S lo hi m)"
  by (simp add: range_iter sorted1_filter iter_sorted)

lemma map_range: "map_of (sm_range S lo hi m) k = (if in_bounds lo hi k then map_of (sm_iter S m) k else None)"
  by (simp add: range_iter map_of_filter_key)

lemma set_insert: "set (sm_iter S (sm_insert S k v m)) = insert (k, v) {e \<in> set (sm_iter S m). fst e \<noteq> k}"
proof -
  have entries: "e \<in> set (sm_iter S n) \<longleftrightarrow> map_of (sm_iter S n) (fst e) = Some (snd e)" for n e
    using sorted1_distinct [OF iter_sorted, of n] by (cases e) simp
  show ?thesis
    unfolding set_eq_iff
  proof
    fix e
    show "e \<in> set (sm_iter S (sm_insert S k v m)) \<longleftrightarrow> e \<in> insert (k, v) {e \<in> set (sm_iter S m). fst e \<noteq> k}"
      by (cases e) (auto simp: entries map_insert split: if_splits)
  qed
qed

lemma map_insert_all:
  "map_of (sm_iter S (fold (\<lambda>(k, v). sm_insert S k v) es m)) = map_of (sm_iter S m) ++ map_of (rev es)"
proof (induction es arbitrary: m)
  case (Cons e es)
  then show ?case by (cases e) (simp add: map_insert map_add_def fun_eq_iff split: option.splits)
qed simp

text \<open>Two maps with the same meaning cannot be told apart by their entries.\<close>

lemma iter_eqI: "map_of (sm_iter S m) = map_of xs \<Longrightarrow> sorted1 xs \<Longrightarrow> sm_iter S m = xs"
  by (rule sorted1_map_of_eqI) (simp_all add: iter_sorted)

end

section \<open>An implementation\<close>

definition rbt_ops :: "(('k::linorder, 'v) rbt, 'k, 'v) skip_ops" where
  "rbt_ops =
     \<lparr>sm_new = RBT.empty, sm_insert = RBT.insert, sm_get = RBT.lookup,
      sm_range = (\<lambda>lo hi m. filter (\<lambda>e. in_bounds lo hi (fst e)) (RBT.entries m)),
      sm_iter = RBT.entries, sm_is_empty = RBT.is_empty\<rparr>"

interpretation rbt: skip_map "rbt_ops :: (('k::linorder, 'v) rbt, 'k, 'v) skip_ops"
proof
  fix m :: "('k, 'v) rbt" and k v
  have "distinct (map fst (RBT.entries m))" by (rule RBT.distinct_entries)
  then show "sorted1 (sm_iter rbt_ops m)"
    using RBT.sorted_entries [of m] by (simp add: rbt_ops_def strict_sorted_iff)
  show "map_of (sm_iter rbt_ops (sm_insert rbt_ops k v m)) = (map_of (sm_iter rbt_ops m))(k \<mapsto> v)"
    by (simp add: rbt_ops_def)
  show "sm_is_empty rbt_ops m \<longleftrightarrow> sm_iter rbt_ops m = []"
    by (simp add: rbt_ops_def) (metis RBT.is_empty_empty RBT.lookup_empty_empty RBT.map_of_entries map_of_eq_empty_iff)
  have "map_of (RBT.entries (RBT.empty :: ('k, 'v) rbt)) = Map.empty" by simp
  then show "sm_iter rbt_ops (sm_new (rbt_ops :: (('k, 'v) rbt, 'k, 'v) skip_ops)) = []"
    unfolding map_of_eq_empty_iff by (simp add: rbt_ops_def)
qed (simp_all add: rbt_ops_def)

end
