(* ===== verification/Wal.thy ===== *)
theory Wal
  imports SkipMaps
begin

text \<open>
  \<open>src/wal.rs\<close>: the write-ahead log of a memtable. A log is its file and the buffer of the
  \<open>BufWriter\<close> in front of it (8 KiB, flushed when a record does not fit any more), so that what is
  on disk after a crash is a state component of its own. The checksum covers the fields in the
  byte order of the machine, as \<open>Hasher::write_u16\<close> and \<open>write_u64\<close> feed them (little-endian on
  the supported targets), while the record itself is big-endian.
\<close>

record wal =
  wal_disk :: bytes
  wal_buf :: bytes

definition buf_capacity :: nat where "buf_capacity = 8192"

text \<open>\<open>BufWriter::write_all\<close> and \<open>BufWriter::flush\<close>.\<close>

definition buf_write_all :: "bytes \<Rightarrow> wal \<Rightarrow> wal" where
  "buf_write_all bs w =
     (if length bs < buf_capacity - length (wal_buf w) then w\<lparr>wal_buf := wal_buf w @ bs\<rparr>
      else
        let w = (if buf_capacity - length (wal_buf w) < length bs
                 then w\<lparr>wal_disk := wal_disk w @ wal_buf w, wal_buf := []\<rparr> else w)
        in if buf_capacity \<le> length bs then w\<lparr>wal_disk := wal_disk w @ bs\<rparr>
           else w\<lparr>wal_buf := wal_buf w @ bs\<rparr>)"

definition buf_flush :: "wal \<Rightarrow> wal" where
  "buf_flush w = w\<lparr>wal_disk := wal_disk w @ wal_buf w, wal_buf := []\<rparr>"

text \<open>\<open>to_ne_bytes\<close>.\<close>

definition ne_u16 :: "u16 \<Rightarrow> bytes" where "ne_u16 w = rev (put_u16 w)"
definition ne_u64 :: "u64 \<Rightarrow> bytes" where "ne_u64 w = rev (put_u64 w)"

text \<open>\<open>create_new\<close>: the argument is what the path holds before.\<close>

definition wal_create :: "bytes option \<Rightarrow> wal res" where
  "wal_create existing =
     (case existing of Some _ \<Rightarrow> Inl IoError | None \<Rightarrow> Inr \<lparr>wal_disk = [], wal_buf = []\<rparr>)"

definition wal_checksum :: "(bytes \<Rightarrow> u32) \<Rightarrow> u16 \<Rightarrow> bytes \<Rightarrow> u64 \<Rightarrow> u16 \<Rightarrow> bytes \<Rightarrow> u32" where
  "wal_checksum crc klen key ts value_len value =
     crc (ne_u16 klen @ key @ ne_u64 ts @ ne_u16 value_len @ value)"

definition wal_read_record :: "(bytes \<Rightarrow> u32) \<Rightarrow> bytes \<Rightarrow> ((key \<times> bytes) \<times> bytes) res" where
  "wal_read_record crc data =
     and_then (get_u16 data) (\<lambda>(key_len, data).
     and_then (get_slice (unat key_len) data) (\<lambda>(key, data).
     and_then (get_u64 data) (\<lambda>(ts, data).
     and_then (get_u16 data) (\<lambda>(value_len, data).
     and_then (get_slice (unat value_len) data) (\<lambda>(value, data).
     and_then (get_u32 data) (\<lambda>(actual, data).
     and_then (ensure (wal_checksum crc key_len key ts value_len value = actual) Panic) (\<lambda>_.
     Inr ((Key key ts, value), data))))))))"

lemma wal_read_record_shorter:
  "wal_read_record crc data = Inr (e, rest) \<Longrightarrow> length rest < length data"
  by (auto simp: wal_read_record_def res_simps get_u16_def get_u32_def get_u64_def get_slice_def
      split: if_splits)

function wal_recover_loop ::
    "(bytes \<Rightarrow> u32) \<Rightarrow> ('m, key, bytes) skip_ops \<Rightarrow> bytes \<Rightarrow> 'm \<Rightarrow> 'm res" where
  "wal_recover_loop crc S data skiplist =
     (if data = [] then Inr skiplist
      else case wal_read_record crc data of
             Inl e \<Rightarrow> Inl e
           | Inr ((k, v), rest) \<Rightarrow> wal_recover_loop crc S rest (sm_insert S k v skiplist))"
  by pat_completeness auto
termination
  by (relation "measure (\<lambda>(crc, S, data, skiplist). length data)")
    (auto dest: wal_read_record_shorter)

declare wal_recover_loop.simps [simp del]

definition wal_recover ::
    "(bytes \<Rightarrow> u32) \<Rightarrow> ('m, key, bytes) skip_ops \<Rightarrow> bytes option \<Rightarrow> 'm \<Rightarrow> (wal \<times> 'm) res" where
  "wal_recover crc S existing skiplist =
     (case existing of
        None \<Rightarrow> Inl IoError
      | Some contents \<Rightarrow>
          and_then (wal_recover_loop crc S contents skiplist) (\<lambda>skiplist.
          Inr (\<lparr>wal_disk = contents, wal_buf = []\<rparr>, skiplist)))"

definition wal_record :: "(bytes \<Rightarrow> u32) \<Rightarrow> key \<Rightarrow> bytes \<Rightarrow> bytes" where
  "wal_record crc key value =
     (let klen = word_of_nat (key_len key); vlen = word_of_nat (length value)
      in put_u16 klen @ key_ref key @ put_u64 (key_ts key) @ put_u16 vlen @ value @
         put_u32 (wal_checksum crc klen (key_ref key) (key_ts key) vlen value))"

definition wal_put :: "(bytes \<Rightarrow> u32) \<Rightarrow> wal \<Rightarrow> key \<Rightarrow> bytes \<Rightarrow> wal" where
  "wal_put crc w key value = buf_write_all (wal_record crc key value) w"

definition wal_put_batch :: "wal \<Rightarrow> (key \<times> bytes) list \<Rightarrow> wal res" where
  "wal_put_batch w data = Inl Unimplemented"

definition wal_sync :: "wal \<Rightarrow> wal" where
  "wal_sync w = buf_flush w"

section \<open>The log is a sequence of whole records\<close>

text \<open>Keys and values whose lengths fit their 16-bit fields.\<close>

definition record_ok :: "key \<times> bytes \<Rightarrow> bool" where
  "record_ok e \<longleftrightarrow> length (key_ref (fst e)) < 65536 \<and> length (snd e) < 65536"

definition log_bytes :: "(bytes \<Rightarrow> u32) \<Rightarrow> (key \<times> bytes) list \<Rightarrow> bytes" where
  "log_bytes crc es = concat (map (\<lambda>e. wal_record crc (fst e) (snd e)) es)"

lemma log_bytes_simps [simp]:
  "log_bytes crc [] = []"
  "log_bytes crc (e # es) = wal_record crc (fst e) (snd e) @ log_bytes crc es"
  "log_bytes crc (es @ fs) = log_bytes crc es @ log_bytes crc fs"
  by (simp_all add: log_bytes_def)

lemma wal_read_record_put:
  "record_ok (k, v) \<Longrightarrow> wal_read_record crc (wal_record crc k v @ rest) = Inr ((k, v), rest)"
  by (simp add: wal_read_record_def wal_record_def Let_def record_ok_def key_len_def codec_simps)

lemma wal_record_nonempty [simp]: "wal_record crc k v \<noteq> []"
proof -
  have "put_u16 (word_of_nat (key_len k)) \<noteq> []"
    using length_put_u16 [of "word_of_nat (key_len k)"] by force
  then show ?thesis by (simp add: wal_record_def Let_def)
qed

lemma wal_recover_loop_log:
  "\<forall>e \<in> set es. record_ok e \<Longrightarrow>
   wal_recover_loop crc S (log_bytes crc es) m = Inr (fold (\<lambda>(k, v). sm_insert S k v) es m)"
proof (induction es arbitrary: m)
  case Nil
  then show ?case by (simp add: wal_recover_loop.simps)
next
  case (Cons e es)
  obtain k v where e: "e = (k, v)" by (cases e)
  have "wal_read_record crc (log_bytes crc (e # es)) = Inr ((k, v), log_bytes crc es)"
    using Cons.prems by (simp add: e wal_read_record_put)
  then show ?case
    using Cons by (subst wal_recover_loop.simps) (simp add: e)
qed

text \<open>\<open>wal_holds crc w flushed buffered\<close>: the file holds \<open>flushed\<close>, the buffer holds \<open>buffered\<close>.\<close>

definition wal_holds :: "(bytes \<Rightarrow> u32) \<Rightarrow> wal \<Rightarrow> (key \<times> bytes) list \<Rightarrow> (key \<times> bytes) list \<Rightarrow> bool" where
  "wal_holds crc w flushed buffered \<longleftrightarrow>
     wal_disk w = log_bytes crc flushed \<and> wal_buf w = log_bytes crc buffered"

lemma wal_put_holds:
  assumes "wal_holds crc w fs bs"
  obtains fs' bs' where "wal_holds crc (wal_put crc w k v) fs' bs'" "fs' @ bs' = fs @ bs @ [(k, v)]"
    "\<exists>gs. fs' = fs @ gs"
proof -
  consider "length (wal_record crc k v) < buf_capacity - length (wal_buf w)"
    | "\<not> length (wal_record crc k v) < buf_capacity - length (wal_buf w)"
      "buf_capacity \<le> length (wal_record crc k v)"
    | "\<not> length (wal_record crc k v) < buf_capacity - length (wal_buf w)"
      "\<not> buf_capacity \<le> length (wal_record crc k v)"
    by blast
  then show thesis
  proof cases
    case 1
    then show thesis
      using assms by (intro that [of fs "bs @ [(k, v)]"]) (auto simp: wal_put_def buf_write_all_def wal_holds_def)
  next
    case 2
    show thesis
    proof (cases "buf_capacity - length (wal_buf w) < length (wal_record crc k v)")
      case True
      then show thesis
        using 2 assms
        by (intro that [of "fs @ bs @ [(k, v)]" "[]"]) (auto simp: wal_put_def buf_write_all_def wal_holds_def Let_def)
    next
      case False
      then have "wal_buf w = []" using 2 by (cases "wal_buf w") (auto simp: buf_capacity_def)
      then have "bs = []" using assms by (cases bs) (auto simp: wal_holds_def)
      then show thesis
        using 2 False assms
        by (intro that [of "fs @ [(k, v)]" "[]"]) (auto simp: wal_put_def buf_write_all_def wal_holds_def Let_def)
    qed
  next
    case 3
    show thesis
    proof (cases "buf_capacity - length (wal_buf w) < length (wal_record crc k v)")
      case True
      then show thesis
        using 3 assms
        by (intro that [of "fs @ bs" "[(k, v)]"]) (auto simp: wal_put_def buf_write_all_def wal_holds_def Let_def)
    next
      case False
      then show thesis
        using 3 assms
        by (intro that [of fs "bs @ [(k, v)]"]) (auto simp: wal_put_def buf_write_all_def wal_holds_def Let_def)
    qed
  qed
qed

text \<open>A run of \<open>put\<close> calls on a fresh log.\<close>

definition wal_put_all :: "(bytes \<Rightarrow> u32) \<Rightarrow> (key \<times> bytes) list \<Rightarrow> wal \<Rightarrow> wal" where
  "wal_put_all crc es w = fold (\<lambda>(k, v) w. wal_put crc w k v) es w"

lemma wal_put_all_holds:
  assumes "wal_holds crc w fs bs"
  shows "\<exists>fs' bs'. wal_holds crc (wal_put_all crc es w) fs' bs' \<and> fs' @ bs' = fs @ bs @ es"
  using assms
proof (induction es arbitrary: w fs bs)
  case Nil
  then show ?case by (auto simp: wal_put_all_def)
next
  case (Cons e es)
  obtain k v where e: "e = (k, v)" by (cases e)
  obtain fs1 bs1 where 1: "wal_holds crc (wal_put crc w k v) fs1 bs1" "fs1 @ bs1 = fs @ bs @ [(k, v)]"
    using wal_put_holds [OF Cons.prems] by blast
  obtain fs2 bs2 where 2: "wal_holds crc (wal_put_all crc es (wal_put crc w k v)) fs2 bs2"
      "fs2 @ bs2 = fs1 @ bs1 @ es"
    using Cons.IH [OF 1(1)] by blast
  have "fs2 @ bs2 = fs @ bs @ e # es" using 1(2) 2(2) e by (metis append.assoc append_Cons append_Nil)
  moreover have "wal_put_all crc (e # es) w = wal_put_all crc es (wal_put crc w k v)"
    by (simp add: wal_put_all_def e)
  ultimately show ?case using 2(1) by metis
qed

section \<open>Properties\<close>

text \<open>
  C25: A crash loses a suffix of the log only. After any sequence of puts on a new log, the file
  (without what is still in the writer's buffer) recovers without a panic, and it recovers exactly
  a prefix of the puts; once the log is synced, it recovers all of them. Keys and values have to
  be shorter than 64 KiB.
\<close>

theorem wal_crash_prefix:
  assumes "\<forall>e \<in> set es. record_ok e"
  shows "\<exists>w fs bs. wal_create None = Inr w \<and> fs @ bs = es \<and>
    wal_recover crc S (Some (wal_disk (wal_put_all crc es w))) m =
      Inr (\<lparr>wal_disk = log_bytes crc fs, wal_buf = []\<rparr>, fold (\<lambda>(k, v). sm_insert S k v) fs m) \<and>
    wal_recover crc S (Some (wal_disk (wal_sync (wal_put_all crc es w)))) m =
      Inr (\<lparr>wal_disk = log_bytes crc es, wal_buf = []\<rparr>, fold (\<lambda>(k, v). sm_insert S k v) es m)"
proof -
  let ?w = "\<lparr>wal_disk = [], wal_buf = []\<rparr>"
  have "wal_holds crc ?w [] []" by (simp add: wal_holds_def)
  from wal_put_all_holds [OF this, of es] obtain fs bs where
    fs: "wal_holds crc (wal_put_all crc es ?w) fs bs" "fs @ bs = es" by auto
  have "\<forall>e \<in> set fs. record_ok e" using assms fs(2) by auto
  note rec = wal_recover_loop_log [OF this] wal_recover_loop_log [OF assms]
  have disk: "wal_disk (wal_put_all crc es ?w) = log_bytes crc fs"
      "wal_disk (wal_sync (wal_put_all crc es ?w)) = log_bytes crc es"
    using fs by (auto simp: wal_holds_def wal_sync_def buf_flush_def)
  show ?thesis
    by (intro exI [of _ ?w] exI [of _ fs] exI [of _ bs])
      (simp add: wal_create_def wal_recover_def disk rec fs(2))
qed

theorem wal_crash_prefix_witness:
  "\<exists>w fs bs. wal_create None = Inr w \<and> fs @ bs = [(Key [1] 5, [7])] \<and>
    wal_recover (\<lambda>_. 0) rbt_ops (Some (wal_disk (wal_put_all (\<lambda>_. 0) [(Key [1] 5, [7])] w))) RBT.empty =
      Inr (\<lparr>wal_disk = log_bytes (\<lambda>_. 0) fs, wal_buf = []\<rparr>, fold (\<lambda>(k, v). sm_insert rbt_ops k v) fs RBT.empty) \<and>
    wal_recover (\<lambda>_. 0) rbt_ops (Some (wal_disk (wal_sync (wal_put_all (\<lambda>_. 0) [(Key [1] 5, [7])] w)))) RBT.empty =
      Inr (\<lparr>wal_disk = log_bytes (\<lambda>_. 0) [(Key [1] 5, [7])], wal_buf = []\<rparr>,
           fold (\<lambda>(k, v). sm_insert rbt_ops k v) [(Key [1] 5, [7])] RBT.empty)"
  by (rule wal_crash_prefix) (simp add: record_ok_def)

end
