(* ===== verification/Blocks.thy ===== *)
theory Blocks
  imports Keys
begin

text \<open>
  \<open>src/block.rs\<close>, \<open>src/block/builder.rs\<close>, \<open>src/block/iterator.rs\<close>: the data block, the unit of
  reading and caching. The builder appends prefix-compressed entries, \<open>encode\<close> and \<open>decode\<close> are
  the on-disk format, the iterator decodes one entry at a time and seeks by binary search.
  The lemmas show what a built block contains, that the format round-trips, that the iterator
  walks exactly the entries that were added, and that seeking finds the first key at or above
  the target.

  \<open>crc32fast\<close> is not part of the repository: the checksum is a parameter \<open>crc\<close>.
\<close>

section \<open>The builder\<close>

record block =
  blk_data :: bytes
  blk_offsets :: "u16 list"

record block_builder =
  bb_offsets :: "u16 list"
  bb_data :: bytes
  bb_block_size :: nat
  bb_first_key :: key

definition SIZEOF_U16 :: nat where "SIZEOF_U16 = 2"

definition compute_overlap :: "key \<Rightarrow> key \<Rightarrow> nat" where
  "compute_overlap first_key key =
     length (takeWhile (\<lambda>(x, y). x = y) (zip (key_ref first_key) (key_ref key)))"

definition block_builder_new :: "nat \<Rightarrow> block_builder" where
  "block_builder_new block_size =
     \<lparr>bb_offsets = [], bb_data = [], bb_block_size = block_size, bb_first_key = key_new\<rparr>"

definition bb_estimated_size :: "block_builder \<Rightarrow> nat" where
  "bb_estimated_size b = SIZEOF_U16 + length (bb_offsets b) * SIZEOF_U16 + length (bb_data b)"

definition bb_is_empty :: "block_builder \<Rightarrow> bool" where
  "bb_is_empty b \<longleftrightarrow> bb_offsets b = []"

text \<open>The bytes of one entry, for a key that shares \<open>overlap\<close> leading bytes with the first key.\<close>

definition entry_bytes :: "nat \<Rightarrow> key \<Rightarrow> bytes \<Rightarrow> bytes" where
  "entry_bytes overlap key value =
     put_u16 (word_of_nat overlap) @
     put_u16 (word_of_nat (key_len key - overlap)) @
     drop overlap (key_ref key) @
     put_u64 (key_ts key) @
     put_u16 (word_of_nat (length value)) @
     value"

definition block_add :: "block_builder \<Rightarrow> key \<Rightarrow> bytes \<Rightarrow> (bool \<times> block_builder) res" where
  "block_add b key value =
     and_then (ensure (\<not> key_is_empty key) Panic) (\<lambda>_.
     if bb_estimated_size b + raw_len key + length value + SIZEOF_U16 * 3 > bb_block_size b
        \<and> \<not> bb_is_empty b
     then Inr (False, b)
     else
       let overlap = compute_overlap (bb_first_key b) key in
       Inr (True, b\<lparr>
         bb_offsets := bb_offsets b @ [word_of_nat (length (bb_data b))],
         bb_data := bb_data b @ entry_bytes overlap key value,
         bb_first_key := (if key_is_empty (bb_first_key b) then key else bb_first_key b)\<rparr>))"

definition block_build :: "block_builder \<Rightarrow> block" where
  "block_build b = \<lparr>blk_data = bb_data b, blk_offsets = bb_offsets b\<rparr>"

section \<open>The on-disk format\<close>

definition block_encode :: "(bytes \<Rightarrow> u32) \<Rightarrow> block \<Rightarrow> bytes" where
  "block_encode crc b =
     blk_data b @ put_u32 (crc (blk_data b)) @ concat (map put_u16 (blk_offsets b)) @
     put_u16 (word_of_nat (length (blk_offsets b)))"

fun decode_offsets :: "bytes \<Rightarrow> u16 list res" where
  "decode_offsets [] = Inr []"
| "decode_offsets [a] = Inl Panic"
| "decode_offsets (a # b # bs) =
     and_then (u16_from_be [a, b]) (\<lambda>offset.
     and_then (decode_offsets bs) (\<lambda>offsets. Inr (offset # offsets)))"

text \<open>The checksum is read (and so has to be present) but not compared.\<close>

definition block_decode :: "bytes \<Rightarrow> block res" where
  "block_decode data =
     and_then (checked_sub (length data) 2) (\<lambda>offset_end.
     and_then (slice offset_end (length data) data) (\<lambda>n_bytes.
     and_then (u16_from_be n_bytes) (\<lambda>num_entries.
     and_then (checked_sub offset_end (2 * unat num_entries)) (\<lambda>offset_start.
     and_then (slice offset_start offset_end data) (\<lambda>tmp.
     and_then (decode_offsets tmp) (\<lambda>offsets.
     and_then (checked_sub offset_start 4) (\<lambda>data_end.
     and_then (slice data_end offset_start data) (\<lambda>sum_bytes.
     and_then (u32_from_be sum_bytes) (\<lambda>checksum.
     and_then (slice 0 data_end data) (\<lambda>decoded_data.
     Inr \<lparr>blk_data = decoded_data, blk_offsets = offsets\<rparr>))))))))))"

definition get_first_key :: "block \<Rightarrow> key res" where
  "get_first_key b =
     and_then (get_u16 (blk_data b)) (\<lambda>(_, buf).
     and_then (get_u16 buf) (\<lambda>(key_len, buf).
     and_then (get_slice (unat key_len) buf) (\<lambda>(key, buf).
     and_then (get_u64 buf) (\<lambda>(ts, buf).
     Inr (Key key ts)))))"

section \<open>The iterator\<close>

record block_iter =
  bi_block :: block
  bi_key :: key
  bi_value_range :: "nat \<times> nat"
  bi_idx :: nat
  bi_first_key :: key

definition block_iter_new :: "block \<Rightarrow> block_iter res" where
  "block_iter_new b =
     and_then (get_first_key b) (\<lambda>first_key.
     Inr \<lparr>bi_block = b, bi_key = key_new, bi_value_range = (0, 0), bi_idx = 0,
          bi_first_key = first_key\<rparr>)"

definition bi_get_key :: "block_iter \<Rightarrow> key res" where
  "bi_get_key it = and_then (ensure (\<not> key_is_empty (bi_key it)) Panic) (\<lambda>_. Inr (bi_key it))"

definition bi_value :: "block_iter \<Rightarrow> bytes res" where
  "bi_value it =
     and_then (ensure (\<not> key_is_empty (bi_key it)) Panic) (\<lambda>_.
     slice (fst (bi_value_range it)) (snd (bi_value_range it)) (blk_data (bi_block it)))"

definition bi_is_valid :: "block_iter \<Rightarrow> bool" where
  "bi_is_valid it \<longleftrightarrow> \<not> key_is_empty (bi_key it)"

definition seek_to_offset :: "block_iter \<Rightarrow> nat \<Rightarrow> block_iter res" where
  "seek_to_offset it offset =
     and_then (slice_from offset (blk_data (bi_block it))) (\<lambda>entry.
     and_then (get_u16 entry) (\<lambda>(overlap_len, entry).
     and_then (get_u16 entry) (\<lambda>(key_suffix_len, entry).
     and_then (get_slice (unat key_suffix_len) entry) (\<lambda>(key_suffix, entry).
     and_then (slice 0 (unat overlap_len) (key_ref (bi_first_key it))) (\<lambda>prefix.
     and_then (get_u64 entry) (\<lambda>(ts, entry).
     and_then (get_u16 entry) (\<lambda>(value_len, entry).
     let key = key_set_ts (key_append (key_append (key_clear (bi_key it)) prefix) key_suffix) ts;
         value_offset_begin =
           offset + SIZEOF_U16 + SIZEOF_U16 + unat key_suffix_len + 8 + SIZEOF_U16;
         value_offset_end = value_offset_begin + unat value_len
     in Inr (it\<lparr>bi_key := key,
                bi_value_range := (value_offset_begin, value_offset_end)\<rparr>))))))))"

definition bi_seek_to :: "block_iter \<Rightarrow> nat \<Rightarrow> block_iter res" where
  "bi_seek_to it idx =
     (if length (blk_offsets (bi_block it)) \<le> idx
      then Inr (it\<lparr>bi_key := key_clear (bi_key it), bi_value_range := (0, 0)\<rparr>)
      else
        and_then (seek_to_offset it (unat (blk_offsets (bi_block it) ! idx))) (\<lambda>it'.
        Inr (it'\<lparr>bi_idx := idx\<rparr>)))"

definition bi_seek_to_first :: "block_iter \<Rightarrow> block_iter res" where
  "bi_seek_to_first it = bi_seek_to it 0"

definition bi_next :: "block_iter \<Rightarrow> block_iter res" where
  "bi_next it =
     (let it' = it\<lparr>bi_idx := bi_idx it + 1\<rparr> in bi_seek_to it' (bi_idx it'))"

function bi_search :: "block_iter \<Rightarrow> key \<Rightarrow> nat \<Rightarrow> nat \<Rightarrow> block_iter res" where
  "bi_search it key start stop =
     (if start < stop then
        let mid = (start + stop) div 2 in
        and_then (bi_seek_to it mid) (\<lambda>it.
        and_then (bi_get_key it) (\<lambda>mid_key.
        if mid_key < key then bi_search it key (mid + 1) stop
        else if key < mid_key then bi_search it key start mid
        else Inr it))
      else bi_seek_to it start)"
  by pat_completeness auto
termination
  by (relation "measure (\<lambda>(it, key, start, stop). stop - start)") auto

declare bi_search.simps [simp del]

definition bi_seek_to_key :: "block_iter \<Rightarrow> key \<Rightarrow> block_iter res" where
  "bi_seek_to_key it key = bi_search it key 0 (length (blk_offsets (bi_block it)))"

definition bi_create_and_seek_to_first :: "block \<Rightarrow> block_iter res" where
  "bi_create_and_seek_to_first b = and_then (block_iter_new b) bi_seek_to_first"

definition bi_create_and_seek_to_key :: "block \<Rightarrow> key \<Rightarrow> block_iter res" where
  "bi_create_and_seek_to_key b key = and_then (block_iter_new b) (\<lambda>it. bi_seek_to_key it key)"

section \<open>The format round-trips\<close>

lemma length_concat_put_u16 [simp]: "length (concat (map put_u16 ws)) = 2 * length ws"
  by (induction ws) auto

lemma decode_offsets_put: "decode_offsets (concat (map put_u16 ws)) = Inr ws"
proof (induction ws)
  case (Cons w ws)
  obtain a b where ab: "put_u16 w = [a, b]"
    by (metis (no_types, opaque_lifting) length_0_conv length_Suc_conv length_put_u16 numeral_2_eq_2)
  with Cons u16_from_put [of w] show ?case by simp
qed simp

lemma block_decode_encode:
  assumes "length (blk_offsets b) < 65536"
  shows "block_decode (block_encode crc b) = Inr b"
proof -
  obtain data ws where b: "b = \<lparr>blk_data = data, blk_offsets = ws\<rparr>" by (cases b)
  have n: "unat (word_of_nat (length ws) :: u16) = length ws"
    using assms by (simp add: b codec_simps)
  show ?thesis
    by (simp add: b block_decode_def block_encode_def codec_simps n decode_offsets_put)
qed

section \<open>What a built block holds\<close>

text \<open>The entries the format can represent: a non-empty key, lengths that fit 16 bits.\<close>

definition entry_ok :: "key \<times> bytes \<Rightarrow> bool" where
  "entry_ok e \<longleftrightarrow> key_ref (fst e) \<noteq> [] \<and> length (key_ref (fst e)) < 65536 \<and> length (snd e) < 65536"

definition entry_at :: "key \<Rightarrow> bytes \<Rightarrow> nat \<Rightarrow> key \<times> bytes \<Rightarrow> bool" where
  "entry_at f data offset e \<longleftrightarrow>
     (\<exists>n rest. n \<le> length (key_ref f) \<and> n \<le> length (key_ref (fst e)) \<and>
        take n (key_ref f) = take n (key_ref (fst e)) \<and>
        offset \<le> length data \<and> drop offset data = entry_bytes n (fst e) (snd e) @ rest)"

definition bb_inv :: "block_builder \<Rightarrow> (key \<times> bytes) list \<Rightarrow> bool" where
  "bb_inv b es \<longleftrightarrow>
     length (bb_offsets b) = length es \<and>
     (es = [] \<longrightarrow> bb_data b = [] \<and> bb_first_key b = key_new) \<and>
     (es \<noteq> [] \<longrightarrow> bb_first_key b = fst (hd es) \<and>
        (\<exists>rest. bb_data b = entry_bytes 0 (fst (hd es)) (snd (hd es)) @ rest)) \<and>
     (\<forall>i < length es. entry_at (bb_first_key b) (bb_data b) (unat (bb_offsets b ! i)) (es ! i)) \<and>
     (\<forall>e \<in> set es. entry_ok e)"

definition block_holds :: "block \<Rightarrow> (key \<times> bytes) list \<Rightarrow> bool" where
  "block_holds b es \<longleftrightarrow>
     es \<noteq> [] \<and> length (blk_offsets b) = length es \<and> get_first_key b = Inr (fst (hd es)) \<and>
     (\<forall>i < length es. entry_at (fst (hd es)) (blk_data b) (unat (blk_offsets b ! i)) (es ! i)) \<and>
     (\<forall>e \<in> set es. entry_ok e)"

lemma length_entry_bytes:
  "n \<le> length (key_ref k) \<Longrightarrow> length (entry_bytes n k v) = 14 + (length (key_ref k) - n) + length v"
  by (simp add: entry_bytes_def)

lemma overlap_common:
  "length (takeWhile (\<lambda>(x, y). x = y) (zip xs ys)) \<le> length xs \<and>
   length (takeWhile (\<lambda>(x, y). x = y) (zip xs ys)) \<le> length ys \<and>
   take (length (takeWhile (\<lambda>(x, y). x = y) (zip xs ys))) xs =
   take (length (takeWhile (\<lambda>(x, y). x = y) (zip xs ys))) ys"
proof (induction xs arbitrary: ys)
  case (Cons x xs)
  then show ?case by (cases ys) auto
qed simp

lemma compute_overlap_common:
  "compute_overlap f k \<le> length (key_ref f)"
  "compute_overlap f k \<le> length (key_ref k)"
  "take (compute_overlap f k) (key_ref f) = take (compute_overlap f k) (key_ref k)"
  unfolding compute_overlap_def using overlap_common by blast+

lemma entry_at_append: "entry_at f data i e \<Longrightarrow> entry_at f (data @ rest) i e"
  unfolding entry_at_def by fastforce

lemma block_add_accepted:
  assumes "block_add b k v = Inr (True, b')"
  shows "b' = b\<lparr>bb_offsets := bb_offsets b @ [word_of_nat (length (bb_data b))],
                bb_data := bb_data b @ entry_bytes (compute_overlap (bb_first_key b) k) k v,
                bb_first_key := (if key_is_empty (bb_first_key b) then k else bb_first_key b)\<rparr>"
    and "\<not> key_is_empty k"
    and "bb_is_empty b \<or>
         bb_estimated_size b + raw_len k + length v + SIZEOF_U16 * 3 \<le> bb_block_size b"
  using assms by (auto simp: block_add_def Let_def res_simps split: if_splits)

lemma block_add_total:
  assumes "\<not> key_is_empty k"
  obtains b' where "block_add b k v = Inr (True, b')"
  | "block_add b k v = Inr (False, b)" "\<not> bb_is_empty b"
  using assms by (cases "block_add b k v") (auto simp: block_add_def Let_def split: if_splits)

lemma bb_inv_new [simp]: "bb_inv (block_builder_new n) []"
  by (simp add: bb_inv_def block_builder_new_def)

lemma bb_inv_is_empty: "bb_inv b es \<Longrightarrow> bb_is_empty b \<longleftrightarrow> es = []"
  by (auto simp: bb_inv_def bb_is_empty_def)

text \<open>
  An accepted entry extends the contents by one. Entry offsets are stored in 16 bits, which is
  enough as long as the block size limit is at most 64 KiB.
\<close>

lemma bb_inv_add:
  assumes inv: "bb_inv b es" and add: "block_add b k v = Inr (True, b')"
    and ok: "entry_ok (k, v)" and size: "bb_block_size b \<le> 65536"
  shows "bb_inv b' (es @ [(k, v)])" and "bb_block_size b' = bb_block_size b"
proof -
  note b' = block_add_accepted [OF add]
  show "bb_block_size b' = bb_block_size b" by (simp add: b'(1))
  show "bb_inv b' (es @ [(k, v)])"
  proof (cases "es = []")
    case True
    have "compute_overlap key_new k = 0"
      using compute_overlap_common(1) [of key_new k] by (simp add: key_simps)
    with inv True ok b' show ?thesis
      by (auto simp: bb_inv_def key_simps entry_at_def)
  next
    case False
    have room: "length (bb_data b) < 65536"
      using b'(3) inv False size
      by (auto simp: bb_inv_is_empty bb_estimated_size_def SIZEOF_U16_def)
    have first: "bb_first_key b = fst (hd es)" "\<not> key_is_empty (bb_first_key b)"
      using inv False by (auto simp: bb_inv_def entry_ok_def key_simps)
    define n where "n = compute_overlap (bb_first_key b) k"
    have "entry_at (bb_first_key b) (bb_data b @ entry_bytes n k v)
            (unat (word_of_nat (length (bb_data b)) :: u16)) (k, v)"
      unfolding entry_at_def unat_u16_of_nat [OF room] n_def
      by (rule exI [of _ "compute_overlap (bb_first_key b) k"], rule exI [of _ "[]"])
        (simp add: compute_overlap_common)
    moreover have "entry_at (bb_first_key b) (bb_data b @ entry_bytes n k v)
        (unat (bb_offsets b ! i)) (es ! i)" if "i < length es" for i
      using inv that by (auto simp: bb_inv_def intro: entry_at_append)
    ultimately show ?thesis
      using inv False ok first b'(1)
      by (auto simp: bb_inv_def nth_append n_def less_Suc_eq)
  qed
qed

lemma get_first_key_entry:
  assumes "length (key_ref k) < 65536"
  shows "get_first_key \<lparr>blk_data = entry_bytes 0 k v @ rest, blk_offsets = os\<rparr> = Inr k"
  using assms by (simp add: get_first_key_def entry_bytes_def key_simps codec_simps)

lemma block_holds_build:
  assumes "bb_inv b es" "es \<noteq> []"
  shows "block_holds (block_build b) es"
  using assms get_first_key_entry
  by (fastforce simp: bb_inv_def block_holds_def block_build_def entry_ok_def)

lemma block_holds_length: "block_holds b es \<Longrightarrow> length (blk_offsets b) = length es"
  by (simp add: block_holds_def)

section \<open>Decoding one entry\<close>

lemma seek_to_offset_entry:
  assumes at: "entry_at (bi_first_key it) (blk_data (bi_block it)) off e" and ok: "entry_ok e"
  obtains it' where "seek_to_offset it off = Inr it'"
    "bi_block it' = bi_block it" "bi_first_key it' = bi_first_key it" "bi_idx it' = bi_idx it"
    "bi_key it' = fst e" "bi_value it' = Inr (snd e)"
proof -
  obtain k v where e: "e = (k, v)" by (cases e)
  obtain n rest where n: "n \<le> length (key_ref (bi_first_key it))" "n \<le> length (key_ref k)"
      "take n (key_ref (bi_first_key it)) = take n (key_ref k)"
    and off: "off \<le> length (blk_data (bi_block it))"
    and d: "drop off (blk_data (bi_block it)) = entry_bytes n k v @ rest"
    using at by (auto simp: entry_at_def e)
  define pos where "pos = 14 + (off + (length (key_ref k) - n))"
  have small: "n < 65536" "length (key_ref k) - n < 65536" "length v < 65536" "key_ref k \<noteq> []"
    using ok n by (auto simp: entry_ok_def e)
  have val: "slice pos (pos + length v) (blk_data (bi_block it)) = Inr v"
  proof -
    have "length (drop off (blk_data (bi_block it))) = 14 + (length (key_ref k) - n) + length v + length rest"
      by (simp add: d length_entry_bytes n)
    moreover have "drop pos (blk_data (bi_block it)) = drop (14 + (length (key_ref k) - n)) (entry_bytes n k v @ rest)"
      by (simp add: pos_def d [symmetric] add.commute add.left_commute)
    ultimately show ?thesis
      using off small(4) by (simp add: slice_def pos_def entry_bytes_def)
  qed
  have "seek_to_offset it off =
      Inr (it\<lparr>bi_key := k, bi_value_range := (pos, pos + length v)\<rparr>)"
    using small n
    by (simp add: seek_to_offset_def slice_from_Inr [OF off] d entry_bytes_def codec_simps key_simps
        Let_def SIZEOF_U16_def pos_def del: of_nat_diff)
  then show thesis
    by (rule that) (simp_all add: e bi_value_def key_simps small val)
qed

section \<open>Positions of the iterator\<close>

text \<open>
  \<open>bi_at it b es i\<close>: the iterator over a block that holds \<open>es\<close> stands at entry \<open>i\<close>; a position
  at or past the end is an invalid iterator that stays invalid.
\<close>

definition bi_over :: "block_iter \<Rightarrow> block \<Rightarrow> (key \<times> bytes) list \<Rightarrow> bool" where
  "bi_over it b es \<longleftrightarrow> block_holds b es \<and> bi_block it = b \<and> bi_first_key it = fst (hd es)"

definition bi_at :: "block_iter \<Rightarrow> block \<Rightarrow> (key \<times> bytes) list \<Rightarrow> nat \<Rightarrow> bool" where
  "bi_at it b es i \<longleftrightarrow> bi_over it b es \<and>
     (if i < length es
      then bi_idx it = i \<and> bi_key it = fst (es ! i) \<and> bi_value it = Inr (snd (es ! i))
      else key_is_empty (bi_key it) \<and> length es \<le> bi_idx it + 1)"

lemma bi_over_nonempty: "bi_over it b es \<Longrightarrow> es \<noteq> []"
  by (simp add: bi_over_def block_holds_def)

lemma block_holds_key_nonempty:
  "block_holds b es \<Longrightarrow> i < length es \<Longrightarrow> key_ref (fst (es ! i)) \<noteq> []"
  by (simp add: block_holds_def entry_ok_def)

lemma bi_at_valid: "bi_at it b es i \<Longrightarrow> bi_is_valid it \<longleftrightarrow> i < length es"
  by (auto simp: bi_at_def bi_is_valid_def bi_over_def key_is_empty_def
      dest: block_holds_key_nonempty split: if_splits)

lemma bi_at_key: "bi_at it b es i \<Longrightarrow> i < length es \<Longrightarrow> bi_get_key it = Inr (fst (es ! i))"
  using bi_at_valid [of it b es i]
  by (auto simp: bi_at_def bi_get_key_def bi_is_valid_def)

lemma bi_at_value: "bi_at it b es i \<Longrightarrow> i < length es \<Longrightarrow> bi_value it = Inr (snd (es ! i))"
  by (simp add: bi_at_def)

lemma bi_seek_to_at:
  assumes over: "bi_over it b es" and past: "length es \<le> i \<Longrightarrow> length es \<le> bi_idx it + 1"
  obtains it' where "bi_seek_to it i = Inr it'" "bi_at it' b es i"
proof (cases "i < length es")
  case True
  have h: "block_holds b es" "bi_block it = b" "bi_first_key it = fst (hd es)"
    using over by (auto simp: bi_over_def)
  have at: "entry_at (bi_first_key it) (blk_data (bi_block it)) (unat (blk_offsets b ! i)) (es ! i)"
    using h True by (simp add: block_holds_def)
  have ok: "entry_ok (es ! i)" using h(1) True by (simp add: block_holds_def)
  obtain it' where it': "seek_to_offset it (unat (blk_offsets b ! i)) = Inr it'"
      "bi_block it' = bi_block it" "bi_first_key it' = bi_first_key it"
      "bi_key it' = fst (es ! i)" "bi_value it' = Inr (snd (es ! i))"
    using seek_to_offset_entry [OF at ok] by metis
  show thesis
  proof (rule that [of "it'\<lparr>bi_idx := i\<rparr>"])
    show "bi_seek_to it i = Inr (it'\<lparr>bi_idx := i\<rparr>)"
      using h True it'(1) by (simp add: bi_seek_to_def block_holds_length)
    show "bi_at (it'\<lparr>bi_idx := i\<rparr>) b es i"
      using h True it' by (simp add: bi_at_def bi_over_def bi_value_def)
  qed
next
  case False
  have h: "block_holds b es" "bi_block it = b" using over by (auto simp: bi_over_def)
  show thesis
  proof (rule that)
    show "bi_seek_to it i = Inr (it\<lparr>bi_key := key_clear (bi_key it), bi_value_range := (0, 0)\<rparr>)"
      using h False by (simp add: bi_seek_to_def block_holds_length)
    show "bi_at (it\<lparr>bi_key := key_clear (bi_key it), bi_value_range := (0, 0)\<rparr>) b es i"
      using over False past by (simp add: bi_at_def bi_over_def key_simps)
  qed
qed

lemma bi_next_at:
  assumes "bi_at it b es i"
  obtains it' where "bi_next it = Inr it'" "bi_at it' b es (Suc i)"
proof -
  let ?it = "it\<lparr>bi_idx := bi_idx it + 1\<rparr>"
  have over: "bi_over ?it b es" using assms by (simp add: bi_at_def bi_over_def)
  show thesis
  proof (cases "i < length es")
    case True
    then have idx: "bi_idx it = i" using assms by (simp add: bi_at_def)
    obtain it' where "bi_seek_to ?it (Suc i) = Inr it'" "bi_at it' b es (Suc i)"
      using bi_seek_to_at [OF over, of "Suc i"] idx by auto
    then show thesis using that idx by (simp add: bi_next_def)
  next
    case False
    then have past: "length es \<le> bi_idx it + 1" using assms by (simp add: bi_at_def)
    obtain it' where it': "bi_seek_to ?it (bi_idx it + 1) = Inr it'" "bi_at it' b es (bi_idx it + 1)"
      using bi_seek_to_at [OF over, of "bi_idx it + 1"] past by auto
    have "bi_at it' b es (Suc i)" using it'(2) past False by (simp add: bi_at_def)
    then show thesis using that it'(1) by (simp add: bi_next_def)
  qed
qed

lemma bi_over_new:
  assumes "block_holds b es"
  obtains it where "block_iter_new b = Inr it" "bi_over it b es" "bi_idx it = 0"
  using assms by (simp add: block_iter_new_def block_holds_def bi_over_def)

lemma bi_seek_to_first_at:
  assumes "block_holds b es"
  obtains it where "bi_create_and_seek_to_first b = Inr it" "bi_at it b es 0"
proof -
  obtain it where it: "block_iter_new b = Inr it" "bi_over it b es"
    using bi_over_new [OF assms] by blast
  obtain it' where "bi_seek_to it 0 = Inr it'" "bi_at it' b es 0"
    using bi_seek_to_at [OF it(2), of 0] bi_over_nonempty [OF it(2)] by auto
  then show thesis
    using that it(1) by (simp add: bi_create_and_seek_to_first_def bi_seek_to_first_def)
qed

section \<open>Seeking by binary search\<close>

lemma bi_search_at:
  assumes "bi_over it b es" "sorted1 es" "start \<le> stop" "stop \<le> length es"
    and "\<And>j. j < start \<Longrightarrow> fst (es ! j) < k"
    and "\<And>j. stop \<le> j \<Longrightarrow> j < length es \<Longrightarrow> k < fst (es ! j)"
    and "start = length es \<Longrightarrow> length es \<le> bi_idx it + 1"
  shows "\<exists>it'. bi_search it k start stop = Inr it' \<and> bi_at it' b es (lower_bound k es)"
  using assms
proof (induction it k start stop rule: bi_search.induct)
  case (1 it k start stop)
  note prems = "1.prems"
  show ?case
  proof (cases "start < stop")
    case False
    then have "lower_bound k es = start"
      using prems by (intro lower_bound_eqI) (auto dest: order_less_asym)
    moreover obtain it' where "bi_seek_to it start = Inr it'" "bi_at it' b es start"
      using bi_seek_to_at [OF prems(1), of start] prems by auto
    ultimately show ?thesis using False by (simp add: bi_search.simps [of it])
  next
    case True
    define mid where "mid = (start + stop) div 2"
    have mid: "start \<le> mid" "mid < stop" "mid < length es" using True prems by (auto simp: mid_def)
    obtain it' where it': "bi_seek_to it mid = Inr it'" "bi_at it' b es mid"
      using bi_seek_to_at [OF prems(1), of mid] mid by auto
    have over': "bi_over it' b es" "bi_idx it' = mid" and key: "bi_get_key it' = Inr (fst (es ! mid))"
      using it'(2) mid bi_at_key by (auto simp: bi_at_def)
    consider "fst (es ! mid) < k" | "k < fst (es ! mid)" | "fst (es ! mid) = k"
      by (rule linorder_cases)
    then show ?thesis
    proof cases
      case 1
      have "\<exists>it''. bi_search it' k (mid + 1) stop = Inr it'' \<and> bi_at it'' b es (lower_bound k es)"
      proof (rule "1.IH"(1) [OF True mid_def 1])
        show "fst (es ! j) < k" if "j < mid + 1" for j
          using that 1 sorted1_nth_less [OF prems(2), of j mid] mid
          by (cases "j = mid") (auto dest: order_less_trans)
      qed (use over' mid prems in auto)
      with 1 True it'(1) key show ?thesis by (simp add: bi_search.simps [of it] mid_def Let_def)
    next
      case 2
      have "\<exists>it''. bi_search it' k start mid = Inr it'' \<and> bi_at it'' b es (lower_bound k es)"
      proof (rule "1.IH"(2) [OF True mid_def order_less_not_sym [OF 2] 2])
        show "k < fst (es ! j)" if "mid \<le> j" "j < length es" for j
          using that 2 sorted1_nth_less [OF prems(2), of mid j] mid
          by (cases "j = mid") (auto dest: order_less_trans)
      qed (use over' mid prems 2 in auto)
      with 2 order_less_not_sym [OF 2] True it'(1) key show ?thesis
        by (simp add: bi_search.simps [of it] mid_def Let_def)
    next
      case 3
      have "lower_bound k es = mid"
        using 3 mid sorted1_nth_less [OF prems(2), of _ mid] by (intro lower_bound_eqI) auto
      with 3 True it' key show ?thesis by (simp add: bi_search.simps [of it] mid_def Let_def)
    qed
  qed
qed

lemma bi_seek_to_key_at:
  assumes "block_holds b es" "sorted1 es"
  obtains it where "bi_create_and_seek_to_key b k = Inr it" "bi_at it b es (lower_bound k es)"
proof -
  obtain it where it: "block_iter_new b = Inr it" "bi_over it b es"
    using bi_over_new [OF assms(1)] by blast
  have "es \<noteq> []" "bi_block it = b" using it(2) by (auto simp: bi_over_def block_holds_def)
  then obtain it' where "bi_search it k 0 (length es) = Inr it'" "bi_at it' b es (lower_bound k es)"
    using bi_search_at [OF it(2) assms(2), of 0 "length es" k] by auto
  then show thesis
    using that it assms(1) \<open>bi_block it = b\<close>
    by (simp add: bi_create_and_seek_to_key_def bi_seek_to_key_def block_holds_length)
qed

section \<open>Whole blocks\<close>

text \<open>
  Adding a list of entries to a block as long as every one is accepted, and reading an iterator
  out: the two ends of the block's contract.
\<close>

fun block_add_all :: "block_builder \<Rightarrow> (key \<times> bytes) list \<Rightarrow> block_builder option" where
  "block_add_all b [] = Some b"
| "block_add_all b ((k, v) # es) =
     (case block_add b k v of Inr (True, b') \<Rightarrow> block_add_all b' es | _ \<Rightarrow> None)"

fun bi_drain :: "nat \<Rightarrow> block_iter \<Rightarrow> (key \<times> bytes) list res" where
  "bi_drain 0 it = (if bi_is_valid it then Inl Diverges else Inr [])"
| "bi_drain (Suc n) it =
     (if bi_is_valid it then
        and_then (bi_get_key it) (\<lambda>k.
        and_then (bi_value it) (\<lambda>v.
        and_then (bi_next it) (\<lambda>it'.
        and_then (bi_drain n it') (\<lambda>es. Inr ((k, v) # es)))))
      else Inr [])"

lemma block_add_all_inv:
  assumes "block_add_all b es = Some b'" "bb_inv b es0" "bb_block_size b \<le> 65536"
    and "\<forall>e \<in> set es. entry_ok e"
  shows "bb_inv b' (es0 @ es)"
  using assms
proof (induction es arbitrary: b es0)
  case (Cons e es)
  obtain k v where e: "e = (k, v)" by (cases e)
  obtain b1 where b1: "block_add b k v = Inr (True, b1)" "block_add_all b1 es = Some b'"
    using Cons.prems(1) e by (auto split: sum.splits bool.splits)
  have ok: "entry_ok (k, v)" using Cons.prems(4) e by simp
  note step = bb_inv_add [OF Cons.prems(2) b1(1) ok Cons.prems(3)]
  have "bb_inv b' ((es0 @ [(k, v)]) @ es)"
    by (rule Cons.IH [OF b1(2) step(1)]) (use step(2) Cons.prems in auto)
  then show ?case by (simp add: e)
qed simp

lemma bi_drain_at:
  "bi_at it b es i \<Longrightarrow> length es - i \<le> n \<Longrightarrow> bi_drain n it = Inr (drop i es)"
proof (induction n arbitrary: it i)
  case 0
  then show ?case by (simp add: bi_at_valid)
next
  case (Suc n)
  show ?case
  proof (cases "i < length es")
    case True
    obtain it' where "bi_next it = Inr it'" "bi_at it' b es (Suc i)"
      using bi_next_at [OF Suc.prems(1)] by blast
    with True Suc show ?thesis
      by (simp add: bi_at_valid bi_at_key bi_at_value Cons_nth_drop_Suc)
  next
    case False
    with Suc.prems show ?thesis by (simp add: bi_at_valid)
  qed
qed

section \<open>Sizes\<close>

lemma length_entry_bytes_overlap:
  "length (entry_bytes (compute_overlap f k) k v) \<le> raw_len k + length v + 6"
  using compute_overlap_common(2) [of f k]
  by (simp add: length_entry_bytes raw_len_def)

text \<open>
  The admission test charges 6 bytes of headers where an entry with its offset takes 8, so a
  block may exceed its limit, by at most two bytes.
\<close>

lemma block_add_size:
  assumes "block_add b k v = Inr (True, b')" "\<not> bb_is_empty b"
  shows "bb_estimated_size b' \<le> bb_block_size b + 2"
  using block_add_accepted [OF assms(1)] assms(2)
    length_entry_bytes_overlap [of "bb_first_key b" k v]
  by (simp add: bb_estimated_size_def SIZEOF_U16_def)

lemma length_block_encode:
  "length (block_encode crc (block_build b)) = bb_estimated_size b + 4"
  by (simp add: block_encode_def block_build_def bb_estimated_size_def SIZEOF_U16_def)

lemma block_add_offsets_small:
  assumes "block_add b k v = Inr (True, b')" "bb_block_size b \<le> 65536"
  shows "length (bb_offsets b') < 65536"
  using block_add_accepted [OF assms(1)] assms(2)
  by (auto simp: bb_is_empty_def bb_estimated_size_def SIZEOF_U16_def)

text \<open>Every block the builder can make fits the 16-bit entry count of the format.\<close>

lemma block_add_all_small:
  assumes "block_add_all b es = Some b'" "bb_block_size b \<le> 65536" "length (bb_offsets b) < 65536"
  shows "length (bb_offsets b') < 65536"
  using assms
proof (induction es arbitrary: b)
  case (Cons e es)
  obtain k v where e: "e = (k, v)" by (cases e)
  obtain b1 where b1: "block_add b k v = Inr (True, b1)" "block_add_all b1 es = Some b'"
    using Cons.prems(1) e by (auto split: sum.splits bool.splits)
  have "bb_block_size b1 = bb_block_size b" using block_add_accepted(1) [OF b1(1)] by simp
  then show ?case
    using Cons.IH [OF b1(2)] block_add_offsets_small [OF b1(1) Cons.prems(2)] Cons.prems(2) by simp
qed simp

lemma block_add_all_bound:
  assumes "block_add_all b es = Some b'"
    and "bb_is_empty b \<or> length (bb_offsets b) = 1 \<or> bb_estimated_size b \<le> bb_block_size b + 2"
  shows "bb_is_empty b' \<or> length (bb_offsets b') = 1 \<or> bb_estimated_size b' \<le> bb_block_size b' + 2"
  using assms
proof (induction es arbitrary: b)
  case (Cons e es)
  obtain k v where e: "e = (k, v)" by (cases e)
  obtain b1 where b1: "block_add b k v = Inr (True, b1)" "block_add_all b1 es = Some b'"
    using Cons.prems(1) e by (auto split: sum.splits bool.splits)
  have "length (bb_offsets b1) = 1 \<or> bb_estimated_size b1 \<le> bb_block_size b1 + 2"
    using block_add_accepted(1) [OF b1(1)] block_add_size [OF b1(1)]
    by (cases "bb_is_empty b") (auto simp: bb_is_empty_def)
  then show ?case using Cons.IH [OF b1(2)] by blast
qed simp

lemma block_build_holds:
  assumes "block_add_all (block_builder_new n) es = Some b" "n \<le> 65536" "\<forall>e \<in> set es. entry_ok e" "es \<noteq> []"
  shows "block_holds (block_build b) es"
    and "block_decode (block_encode crc (block_build b)) = Inr (block_build b)"
proof -
  have "bb_inv b es"
    using block_add_all_inv [OF assms(1) bb_inv_new] assms(2,3) by (simp add: block_builder_new_def)
  then show "block_holds (block_build b) es" using assms(4) by (rule block_holds_build)
  have "length (bb_offsets b) < 65536"
    using block_add_all_small [OF assms(1)] assms(2) by (simp add: block_builder_new_def)
  then show "block_decode (block_encode crc (block_build b)) = Inr (block_build b)"
    by (intro block_decode_encode) (simp add: block_build_def)
qed

section \<open>Properties\<close>

text \<open>
  C17: A block built from entries that were all accepted, encoded, decoded again and read from its
  first entry to its end gives exactly these entries, in their order: the prefix compression, the
  16-bit lengths and offsets and the checksum in between lose nothing.
\<close>

theorem block_roundtrip:
  assumes "block_add_all (block_builder_new n) es = Some b" "n \<le> 65536"
    and "\<forall>e \<in> set es. entry_ok e" "es \<noteq> []"
  shows "\<exists>it. and_then (block_decode (block_encode crc (block_build b))) bi_create_and_seek_to_first = Inr it \<and>
    bi_drain (length es) it = Inr es"
proof -
  note holds = block_build_holds [OF assms]
  obtain it where "bi_create_and_seek_to_first (block_build b) = Inr it" "bi_at it (block_build b) es 0"
    using bi_seek_to_first_at [OF holds(1)] by blast
  then show ?thesis using holds(2) bi_drain_at [of it "block_build b" es 0 "length es"] by simp
qed

definition sample_entries :: "(key \<times> bytes) list" where
  "sample_entries = [(Key [1, 2] 5, [7]), (Key [1, 2] 3, []), (Key [1, 3] 4, [8, 9])]"

lemmas block_add_eval =
  block_add_def Let_def bb_estimated_size_def bb_is_empty_def SIZEOF_U16_def entry_bytes_def
  compute_overlap_def key_simps block_builder_new_def

lemma sample_block:
  "\<exists>b. block_add_all (block_builder_new 64) sample_entries = Some b \<and> length (bb_offsets b) = 3"
  by (simp add: sample_entries_def block_add_eval)

lemma sample_entries_ok: "\<forall>e \<in> set sample_entries. entry_ok e" "sorted1 sample_entries"
  by (simp_all add: sample_entries_def entry_ok_def)

theorem block_roundtrip_witness:
  "\<exists>it. and_then (block_decode (block_encode (\<lambda>_. 0)
     (block_build (the (block_add_all (block_builder_new 64) sample_entries))))) bi_create_and_seek_to_first = Inr it \<and>
   bi_drain (length sample_entries) it = Inr sample_entries"
proof (rule block_roundtrip)
  show "block_add_all (block_builder_new 64) sample_entries =
      Some (the (block_add_all (block_builder_new 64) sample_entries))" using sample_block by auto
qed (use sample_entries_ok in \<open>simp_all add: sample_entries_def\<close>)

text \<open>
  C36: Seeking in a decoded block: the binary search over the offsets lands on the first entry at
  or above the key, so that reading on gives exactly the entries that are not below the key.
\<close>

theorem block_seek:
  assumes "block_add_all (block_builder_new n) es = Some b" "n \<le> 65536"
    and "\<forall>e \<in> set es. entry_ok e" "es \<noteq> []" "sorted1 es"
  shows "\<exists>it. and_then (block_decode (block_encode crc (block_build b)))
       (\<lambda>blk. bi_create_and_seek_to_key blk k) = Inr it \<and>
    bi_drain (length es) it = Inr (filter (\<lambda>e. k \<le> fst e) es)"
proof -
  note holds = block_build_holds [OF assms(1-4)]
  obtain it where it: "bi_create_and_seek_to_key (block_build b) k = Inr it"
      "bi_at it (block_build b) es (lower_bound k es)"
    using bi_seek_to_key_at [OF holds(1) assms(5)] by blast
  then have "bi_drain (length es) it = Inr (drop (lower_bound k es) es)"
    by (intro bi_drain_at) simp_all
  with it(1) holds(2) show ?thesis
    by (simp add: drop_lower_bound dropWhile_less_eq_filter [OF assms(5)])
qed

theorem block_seek_witness:
  "\<exists>it. and_then (block_decode (block_encode (\<lambda>_. 0)
     (block_build (the (block_add_all (block_builder_new 64) sample_entries)))))
       (\<lambda>blk. bi_create_and_seek_to_key blk (Key [1, 2] 4)) = Inr it \<and>
   bi_drain (length sample_entries) it = Inr (filter (\<lambda>e. Key [1, 2] 4 \<le> fst e) sample_entries)"
proof (rule block_seek)
  show "block_add_all (block_builder_new 64) sample_entries =
      Some (the (block_add_all (block_builder_new 64) sample_entries))" using sample_block by auto
qed (use sample_entries_ok in \<open>simp_all add: sample_entries_def\<close>)

text \<open>
  C39: The size of a block: with more than one entry, the encoded block has at most
  \<open>block_size + 6\<close> bytes. The admission test leaves out two bytes of each entry and the four bytes
  of the block's own checksum; a first entry is accepted whatever its size.
\<close>

theorem block_size_bound:
  assumes "block_add_all (block_builder_new n) es = Some b" "1 < length (bb_offsets b)"
  shows "length (block_encode crc (block_build b)) \<le> n + 6"
proof -
  have size: "bb_block_size b = bb_block_size c" if "block_add_all c es = Some b" for c
    using that
  proof (induction es arbitrary: c)
    case (Cons e es)
    obtain k v where e: "e = (k, v)" by (cases e)
    obtain c1 where c1: "block_add c k v = Inr (True, c1)" "block_add_all c1 es = Some b"
      using Cons.prems e by (auto split: sum.splits bool.splits)
    show ?case using Cons.IH [OF c1(2)] block_add_accepted(1) [OF c1(1)] by simp
  qed simp
  have "bb_estimated_size b \<le> bb_block_size b + 2"
    using block_add_all_bound [OF assms(1)] assms(2)
    by (auto simp: bb_is_empty_def block_builder_new_def)
  then show ?thesis
    using size [OF assms(1)] by (simp add: length_block_encode block_builder_new_def)
qed

theorem block_size_bound_witness:
  "length (block_encode (\<lambda>_. 0)
     (block_build (the (block_add_all (block_builder_new 64) sample_entries)))) \<le> 64 + 6"
proof (rule block_size_bound)
  show "block_add_all (block_builder_new 64) sample_entries =
      Some (the (block_add_all (block_builder_new 64) sample_entries))" using sample_block by auto
  show "1 < length (bb_offsets (the (block_add_all (block_builder_new 64) sample_entries)))"
    using sample_block by auto
qed

end
