(* ===== verification/BloomFilter.thy ===== *)
theory BloomFilter
  imports Prelude Complex_Main
begin

unbundle bit_operations_syntax

text \<open>
  \<open>src/table/bloom.rs\<close>: the bloom filter stored with every table. The lemmas show that building
  never fails, that a built filter never denies a key it was built from, whatever the number of
  bits per key, and that its encoding round-trips.

  Floating point occurs twice. \<open>bloom_bits_per_key\<close> is stated over the reals and evaluated by a
  lemma at the only rate the program uses. In \<open>build_from_key_hashes\<close> the product
  \<open>bits_per_key as f64 * 0.69\<close> is truncated and clamped to 1..30: below 44 the rounding error of
  the product (less than 1e-13) is far smaller than its distance from the nearest integer other
  than itself, and from 44 on the clamp gives 30, so \<open>69 * bits_per_key div 100\<close> is exact.
\<close>

record bloom =
  bloom_filter :: bytes
  bloom_k :: byte

section \<open>Bits of a byte slice\<close>

definition bits_get_bit :: "bytes \<Rightarrow> nat \<Rightarrow> bool res" where
  "bits_get_bit bs idx =
     (let pos = idx div 8; offset = idx mod 8 in
      and_then (index bs pos) (\<lambda>b. Inr (b AND push_bit offset 1 \<noteq> 0)))"

definition bits_bit_len :: "bytes \<Rightarrow> nat" where
  "bits_bit_len bs = length bs * 8"

definition bits_set_bit :: "bytes \<Rightarrow> nat \<Rightarrow> bool \<Rightarrow> bytes res" where
  "bits_set_bit bs idx val =
     (let pos = idx div 8; offset = idx mod 8 in
      and_then (index bs pos) (\<lambda>b.
      Inr (if val then bs[pos := b OR push_bit offset 1]
           else bs[pos := b AND NOT (push_bit offset 1)])))"

section \<open>The filter\<close>

definition bloom_bits_per_key :: "nat \<Rightarrow> real \<Rightarrow> nat" where
  "bloom_bits_per_key entries false_positive_rate =
     (let size = - real entries * ln false_positive_rate / (ln 2)\<^sup>2;
          locs = \<lceil>size / real entries\<rceil>
      in nat locs)"

definition bloom_num_hashes :: "nat \<Rightarrow> nat" where
  "bloom_num_hashes bits_per_key = max 1 (min 30 (69 * bits_per_key div 100))"

fun bloom_set_probes :: "nat \<Rightarrow> nat \<Rightarrow> u32 \<Rightarrow> u32 \<Rightarrow> bytes \<Rightarrow> bytes res" where
  "bloom_set_probes 0 nbits delta h bs = Inr bs"
| "bloom_set_probes (Suc k) nbits delta h bs =
     and_then (bits_set_bit bs (unat h mod nbits) True)
       (bloom_set_probes k nbits delta (h + delta))"

definition bloom_build_from_key_hashes :: "u32 list \<Rightarrow> nat \<Rightarrow> bloom res" where
  "bloom_build_from_key_hashes keys bits_per_key =
     (let k = bloom_num_hashes bits_per_key;
          nbytes = (max (length keys * bits_per_key) 64 + 7) div 8;
          nbits = nbytes * 8
      in and_then
           (fold_res (\<lambda>h. bloom_set_probes k nbits (word_rotl 15 h) h) keys (replicate nbytes 0))
           (\<lambda>bs. Inr \<lparr>bloom_filter = bs, bloom_k = word_of_nat k\<rparr>))"

fun bloom_check_probes :: "nat \<Rightarrow> u32 \<Rightarrow> u32 \<Rightarrow> bytes \<Rightarrow> bool res" where
  "bloom_check_probes 0 delta h bs = Inr True"
| "bloom_check_probes (Suc k) delta h bs =
     and_then (ensure (bits_bit_len bs \<noteq> 0) Panic) (\<lambda>_.
     and_then (bits_get_bit bs (unat h mod bits_bit_len bs)) (\<lambda>set.
     if set then bloom_check_probes k delta (h + delta) bs else Inr False))"

definition bloom_may_contain :: "bloom \<Rightarrow> u32 \<Rightarrow> bool res" where
  "bloom_may_contain b h =
     (if 30 < bloom_k b then Inr True
      else bloom_check_probes (unat (bloom_k b)) (word_rotl 15 h) h (bloom_filter b))"

definition bloom_encode :: "(bytes \<Rightarrow> u32) \<Rightarrow> bloom \<Rightarrow> bytes \<Rightarrow> bytes" where
  "bloom_encode crc b buf =
     (let payload = bloom_filter b @ put_u8 (bloom_k b) in buf @ payload @ put_u32 (crc payload))"

definition bloom_decode :: "(bytes \<Rightarrow> u32) \<Rightarrow> bytes \<Rightarrow> bloom res" where
  "bloom_decode crc buf =
     and_then (checked_sub (length buf) 4) (\<lambda>data_len.
     and_then (slice 0 data_len buf) (\<lambda>payload.
     and_then (slice_from data_len buf) (\<lambda>sum_bytes.
     and_then (u32_from_be sum_bytes) (\<lambda>actual.
     and_then (ensure (crc payload = actual) BloomChecksumMismatch) (\<lambda>_.
     and_then (checked_sub data_len 1) (\<lambda>k_pos.
     and_then (index buf k_pos) (\<lambda>k.
     and_then (slice 0 k_pos buf) (\<lambda>filter_bytes.
     Inr \<lparr>bloom_filter = filter_bytes, bloom_k = k\<rparr>))))))))"

section \<open>Setting and testing bits\<close>

definition bit_at :: "bytes \<Rightarrow> nat \<Rightarrow> bool" where
  "bit_at bs p \<longleftrightarrow> bit (bs ! (p div 8)) (p mod 8)"

lemma div8_less [simp]: "p < 8 * n \<Longrightarrow> p div 8 < n" for p n :: nat
  by (simp add: less_mult_imp_div_less mult.commute)

lemma bits_get_bit_eq: "p < 8 * length bs \<Longrightarrow> bits_get_bit bs p = Inr (bit_at bs p)"
  by (simp add: bits_get_bit_def Let_def codec_simps bit_at_def bit_iff_and_push_bit_not_eq_0)

lemma bits_set_bit_True:
  assumes "p < 8 * length bs"
  obtains bs' where "bits_set_bit bs p True = Inr bs'" "length bs' = length bs"
    "\<And>q. q < 8 * length bs \<Longrightarrow> bit_at bs' q \<longleftrightarrow> q = p \<or> bit_at bs q"
proof
  let ?bs = "bs[p div 8 := bs ! (p div 8) OR push_bit (p mod 8) 1]"
  show "bits_set_bit bs p True = Inr ?bs" using assms
    by (simp add: bits_set_bit_def Let_def codec_simps)
  show "length ?bs = length bs" by simp
  fix q assume q: "q < 8 * length bs"
  have "bit (push_bit (p mod 8) (1 :: byte)) (q mod 8) \<longleftrightarrow> p mod 8 = q mod 8"
    by (auto simp: bit_simps)
  moreover have "p div 8 = q div 8 \<and> p mod 8 = q mod 8 \<longleftrightarrow> q = p"
    by (metis div_mult_mod_eq)
  ultimately show "bit_at ?bs q \<longleftrightarrow> q = p \<or> bit_at bs q"
    using assms q by (auto simp: bit_at_def nth_list_update bit_or_iff)
qed

text \<open>The positions a hash value probes.\<close>

fun probes :: "nat \<Rightarrow> nat \<Rightarrow> u32 \<Rightarrow> u32 \<Rightarrow> nat set" where
  "probes 0 nbits delta h = {}"
| "probes (Suc k) nbits delta h = insert (unat h mod nbits) (probes k nbits delta (h + delta))"

lemma bloom_set_probes_ok:
  assumes "bs \<noteq> []" "nbits = 8 * length bs"
  shows "\<exists>bs'. bloom_set_probes k nbits delta h bs = Inr bs' \<and> length bs' = length bs \<and>
    (\<forall>q < nbits. bit_at bs' q \<longleftrightarrow> q \<in> probes k nbits delta h \<or> bit_at bs q)"
  using assms
proof (induction k arbitrary: h bs)
  case (Suc k)
  have "unat h mod nbits < 8 * length bs" using Suc.prems by simp
  then obtain bs1 where bs1: "bits_set_bit bs (unat h mod nbits) True = Inr bs1"
      "length bs1 = length bs"
      "\<And>q. q < 8 * length bs \<Longrightarrow> bit_at bs1 q \<longleftrightarrow> q = unat h mod nbits \<or> bit_at bs q"
    using bits_set_bit_True by blast
  from bs1(2) Suc.prems have "bs1 \<noteq> []" "nbits = 8 * length bs1" by auto
  from Suc.IH [OF this, of "h + delta"] bs1 Suc.prems(2) show ?case by auto
qed simp

lemma bloom_check_probes_ok:
  assumes "bs \<noteq> []" "\<forall>q \<in> probes k (8 * length bs) delta h. bit_at bs q"
  shows "bloom_check_probes k delta h bs = Inr True"
  using assms
proof (induction k arbitrary: h)
  case (Suc k)
  have "unat h mod (8 * length bs) < 8 * length bs" using Suc.prems(1) by simp
  with Suc show ?case
    by (simp add: bits_bit_len_def bits_get_bit_eq mult.commute)
qed simp

lemma probes_less: "0 < nbits \<Longrightarrow> q \<in> probes k nbits delta h \<Longrightarrow> q < nbits"
  by (induction k arbitrary: h) auto

section \<open>No false negatives\<close>

lemma bloom_fill_ok:
  assumes "bs \<noteq> []" "nbits = 8 * length bs"
  shows "\<exists>bs'. fold_res (\<lambda>h. bloom_set_probes k nbits (word_rotl 15 h) h) keys bs = Inr bs' \<and>
    length bs' = length bs \<and>
    (\<forall>q < nbits. bit_at bs' q \<longleftrightarrow>
       (\<exists>h \<in> set keys. q \<in> probes k nbits (word_rotl 15 h) h) \<or> bit_at bs q)"
  using assms
proof (induction keys arbitrary: bs)
  case (Cons h keys)
  obtain bs1 where bs1: "bloom_set_probes k nbits (word_rotl 15 h) h bs = Inr bs1"
      "length bs1 = length bs"
      "\<forall>q < nbits. bit_at bs1 q \<longleftrightarrow> q \<in> probes k nbits (word_rotl 15 h) h \<or> bit_at bs q"
    using bloom_set_probes_ok [OF Cons.prems] by blast
  from bs1(2) Cons.prems have "bs1 \<noteq> []" "nbits = 8 * length bs1" by auto
  from Cons.IH [OF this] bs1 show ?case by auto
qed simp

lemma bloom_num_hashes_bounds: "1 \<le> bloom_num_hashes n" "bloom_num_hashes n \<le> 30"
  by (auto simp: bloom_num_hashes_def)

lemma bloom_build_complete:
  "\<exists>b. bloom_build_from_key_hashes keys bits_per_key = Inr b \<and>
       (\<forall>h \<in> set keys. bloom_may_contain b h = Inr True)"
proof -
  define k where "k = bloom_num_hashes bits_per_key"
  define nbytes where "nbytes = (max (length keys * bits_per_key) 64 + 7) div 8"
  have "0 < nbytes" by (simp add: nbytes_def)
  then obtain bs where bs:
      "fold_res (\<lambda>h. bloom_set_probes k (nbytes * 8) (word_rotl 15 h) h) keys (replicate nbytes 0) = Inr bs"
      "length bs = nbytes"
      "\<forall>q < nbytes * 8. bit_at bs q \<longleftrightarrow>
        (\<exists>h \<in> set keys. q \<in> probes k (nbytes * 8) (word_rotl 15 h) h) \<or>
        bit_at (replicate nbytes 0) q"
    using bloom_fill_ok [of "replicate nbytes 0" "nbytes * 8" k keys] by auto
  have k30: "unat (word_of_nat k :: byte) = k" "\<not> 30 < (word_of_nat k :: byte)"
  proof -
    have "k \<le> 30" by (simp add: k_def bloom_num_hashes_bounds)
    then show "unat (word_of_nat k :: byte) = k"
      by (simp add: unsigned_of_nat take_bit_nat_eq_self)
    with \<open>k \<le> 30\<close> show "\<not> 30 < (word_of_nat k :: byte)"
      by (simp add: word_less_nat_alt)
  qed
  have "bloom_may_contain \<lparr>bloom_filter = bs, bloom_k = word_of_nat k\<rparr> h = Inr True"
    if "h \<in> set keys" for h
  proof -
    have "\<forall>q \<in> probes k (8 * length bs) (word_rotl 15 h) h. bit_at bs q"
      using bs(2,3) that probes_less [of "nbytes * 8"] \<open>0 < nbytes\<close>
      by (auto simp: mult.commute [of 8])
    moreover have "bs \<noteq> []" using bs(2) \<open>0 < nbytes\<close> by auto
    ultimately show ?thesis
      using bloom_check_probes_ok k30 by (simp add: bloom_may_contain_def)
  qed
  with bs(1) show ?thesis
    by (simp add: bloom_build_from_key_hashes_def Let_def flip: k_def nbytes_def)
qed

text \<open>A built filter answers every question, for the keys it was built from and for any other.\<close>

lemma bloom_check_probes_total: "bs \<noteq> [] \<Longrightarrow> \<exists>r. bloom_check_probes k delta h bs = Inr r"
proof (induction k arbitrary: h)
  case (Suc k)
  have "unat h mod (8 * length bs) < 8 * length bs" using Suc.prems by simp
  then show ?case
    using Suc.IH [OF Suc.prems, of "h + delta"] Suc.prems
    by (cases "bit_at bs (unat h mod (8 * length bs))")
      (simp_all add: bits_bit_len_def bits_get_bit_eq mult.commute ex_bool_eq)
qed (simp add: ex_bool_eq)

lemma bloom_build_total:
  assumes "bloom_build_from_key_hashes keys bits_per_key = Inr b"
  shows "\<exists>r. bloom_may_contain b h = Inr r"
proof -
  define k where "k = bloom_num_hashes bits_per_key"
  define nbytes where "nbytes = (max (length keys * bits_per_key) 64 + 7) div 8"
  have "0 < nbytes" by (simp add: nbytes_def)
  then obtain bs where bs:
      "fold_res (\<lambda>h. bloom_set_probes k (nbytes * 8) (word_rotl 15 h) h) keys (replicate nbytes 0) = Inr bs"
      "length bs = nbytes"
    using bloom_fill_ok [of "replicate nbytes 0" "nbytes * 8" k keys] by auto
  then have b: "b = \<lparr>bloom_filter = bs, bloom_k = word_of_nat k\<rparr>"
    using assms by (simp add: bloom_build_from_key_hashes_def Let_def flip: k_def nbytes_def)
  have "bs \<noteq> []" using bs(2) \<open>0 < nbytes\<close> by auto
  then show ?thesis
    using bloom_check_probes_total [of bs "unat (word_of_nat k :: byte)" "word_rotl 15 h" h]
    by (cases "30 < (word_of_nat k :: byte)") (simp_all add: bloom_may_contain_def b ex_bool_eq)
qed

section \<open>Encoding and parameters\<close>

lemma bloom_decode_encode: "bloom_decode crc (bloom_encode crc b []) = Inr b"
  by (cases b) (simp add: bloom_decode_def bloom_encode_def Let_def codec_simps put_u8_def nth_append)

lemma bloom_encode_buf: "bloom_encode crc b buf = buf @ bloom_encode crc b []"
  by (simp add: bloom_encode_def Let_def)

lemma ln_Suc_bounds:
  assumes "0 < k"
  shows "1 / real (Suc k) \<le> ln (real (Suc k)) - ln (real k)"
    and "ln (real (Suc k)) - ln (real k) \<le> 1 / real k"
proof -
  have "ln (real k / real (Suc k)) \<le> real k / real (Suc k) - 1"
    by (rule ln_le_minus_one) (use assms in simp)
  then show "1 / real (Suc k) \<le> ln (real (Suc k)) - ln (real k)"
    using assms by (simp add: ln_div field_simps)
  have "ln (real (Suc k) / real k) \<le> real (Suc k) / real k - 1"
    by (rule ln_le_minus_one) (use assms in simp)
  then show "ln (real (Suc k)) - ln (real k) \<le> 1 / real k"
    using assms by (simp add: ln_div field_simps)
qed

lemma ln_2_bounds: "2 / 3 \<le> ln (2 :: real)" "ln (2 :: real) \<le> 18 / 25"
proof -
  have "ln (20 :: real) = ln 2 + ln 10" using ln_mult [of 2 "10 :: real"] by simp
  then show "2 / 3 \<le> ln (2 :: real)" "ln (2 :: real) \<le> 18 / 25"
    using ln_Suc_bounds [of 10] ln_Suc_bounds [of 11] ln_Suc_bounds [of 12] ln_Suc_bounds [of 13]
      ln_Suc_bounds [of 14] ln_Suc_bounds [of 15] ln_Suc_bounds [of 16] ln_Suc_bounds [of 17]
      ln_Suc_bounds [of 18] ln_Suc_bounds [of 19]
    by simp_all
qed

lemma bloom_bits_per_key_001:
  "bloom_bits_per_key entries (1 / 100) = (if entries = 0 then 0 else 10)"
proof (cases "entries = 0")
  case True
  then show ?thesis by (simp add: bloom_bits_per_key_def)
next
  case False
  define L where "L = ln (2 :: real)"
  have L: "2 / 3 \<le> L" "L \<le> 18 / 25" using ln_2_bounds by (simp_all add: L_def)
  have up: "3 * ln 10 \<le> 10 * L"
  proof -
    have "3 * ln 10 = ln (1000 :: real)" using ln_realpow [of "10 :: real" 3] by simp
    also have "\<dots> \<le> ln 1024" by simp
    also have "\<dots> = 10 * L" using ln_realpow [of "2 :: real" 10] by (simp add: L_def)
    finally show ?thesis .
  qed
  have lo: "13 * L \<le> 4 * ln 10"
  proof -
    have "13 * L = ln (8192 :: real)" using ln_realpow [of "2 :: real" 13] by (simp add: L_def)
    also have "\<dots> \<le> ln 10000" by simp
    also have "\<dots> = 4 * ln 10" using ln_realpow [of "10 :: real" 4] by simp
    finally show ?thesis .
  qed
  have ln100: "ln (1 / 100 :: real) = - (2 * ln 10)"
    using ln_realpow [of "10 :: real" 2] by (simp add: ln_div)
  have "9 < 2 * ln 10 / L\<^sup>2"
  proof -
    have "9 * L * L \<le> 9 * L * (18 / 25)" using L by (intro mult_left_mono) auto
    also have "\<dots> < 13 / 2 * L" using L by simp
    also have "\<dots> \<le> 2 * ln 10" using lo by simp
    finally show ?thesis using L by (simp add: pos_less_divide_eq power2_eq_square)
  qed
  moreover have "2 * ln 10 / L\<^sup>2 \<le> 10"
  proof -
    have "2 * ln 10 \<le> 10 * L * (2 / 3)" using up by simp
    also have "\<dots> \<le> 10 * L * L" using L by (intro mult_left_mono) auto
    finally show ?thesis using L by (simp add: pos_divide_le_eq power2_eq_square)
  qed
  ultimately have "\<lceil>2 * ln 10 / L\<^sup>2\<rceil> = 10" by (simp add: ceiling_eq_iff)
  with False show ?thesis by (simp add: bloom_bits_per_key_def ln100 flip: L_def)
qed

section \<open>Properties\<close>

text \<open>
  C38: No false negatives, through the file: a filter built from any keys with any number of bits
  per key can be encoded and decoded, and the decoded filter answers "maybe" for every one of the
  keys.
\<close>

theorem bloom_no_false_negative:
  "\<exists>b. and_then (bloom_build_from_key_hashes keys bits_per_key)
      (\<lambda>b. bloom_decode crc (bloom_encode crc b [])) = Inr b \<and>
    set keys \<subseteq> {h. bloom_may_contain b h = Inr True}"
  using bloom_build_complete [of keys bits_per_key] by (auto simp: bloom_decode_encode)

end
