(* ===== verification/Tables.thy ===== *)
theory Tables
  imports Blocks BloomFilter
begin

text \<open>
  \<open>src/table.rs\<close> and \<open>src/table/builder.rs\<close>: sorted string tables. \<open>SsTableBuilder\<close> cuts a stream of
  entries into blocks, \<open>build\<close> writes blocks, block metadata and bloom filter into one file,
  \<open>open\<close> reads such a file back, \<open>read_block\<close> fetches one block.

  Parameters for code outside the repository: \<open>crc\<close> (\<open>crc32fast::hash\<close>), \<open>fp\<close>
  (\<open>farmhash::fingerprint32\<close>) and the block cache (\<open>moka\<close>), which is the function that says what
  its \<open>get\<close> answers; an answer of \<open>None\<close> covers an entry that was evicted or never inserted.
\<close>

section \<open>Block metadata\<close>

record block_meta =
  bm_offset :: nat
  bm_first_key :: key
  bm_last_key :: key

definition key_field :: "key \<Rightarrow> bytes" where
  "key_field k = put_u16 (word_of_nat (key_len k)) @ key_ref k @ put_u64 (key_ts k)"

definition meta_bytes :: "block_meta \<Rightarrow> bytes" where
  "meta_bytes bm = put_u32 (word_of_nat (bm_offset bm)) @ key_field (bm_first_key bm) @
     key_field (bm_last_key bm)"

definition encode_block_meta :: "(bytes \<Rightarrow> u32) \<Rightarrow> block_meta list \<Rightarrow> bytes \<Rightarrow> bytes" where
  "encode_block_meta crc metas buf =
     (let payload = put_u32 (word_of_nat (length metas)) @ concat (map meta_bytes metas)
      in buf @ payload @ put_u32 (crc payload))"

definition read_key_field :: "bytes \<Rightarrow> (key \<times> bytes) res" where
  "read_key_field reader =
     and_then (get_u16 reader) (\<lambda>(len, reader).
     and_then (get_slice (unat len) reader) (\<lambda>(key, reader).
     and_then (get_u64 reader) (\<lambda>(ts, reader).
     Inr (Key key ts, reader))))"

fun decode_metas :: "nat \<Rightarrow> bytes \<Rightarrow> block_meta list res" where
  "decode_metas 0 reader = Inr []"
| "decode_metas (Suc n) reader =
     and_then (get_u32 reader) (\<lambda>(block_offset, reader).
     and_then (read_key_field reader) (\<lambda>(first_key, reader).
     and_then (read_key_field reader) (\<lambda>(last_key, reader).
     and_then (decode_metas n reader) (\<lambda>metas.
     Inr (\<lparr>bm_offset = unat block_offset, bm_first_key = first_key, bm_last_key = last_key\<rparr>
          # metas)))))"

definition decode_block_meta :: "(bytes \<Rightarrow> u32) \<Rightarrow> bytes \<Rightarrow> block_meta list res" where
  "decode_block_meta crc buf =
     and_then (checked_sub (length buf) 4) (\<lambda>data_len.
     and_then (slice 0 data_len buf) (\<lambda>payload.
     and_then (slice_from data_len buf) (\<lambda>sum_bytes.
     and_then (u32_from_be sum_bytes) (\<lambda>actual.
     and_then (ensure (crc payload = actual) BlockMetaChecksumMismatch) (\<lambda>_.
     and_then (get_u32 payload) (\<lambda>(num_blocks, reader).
     decode_metas (unat num_blocks) reader))))))"

section \<open>Files\<close>

text \<open>\<open>FileObject(Option<File>, u64)\<close>: a file is its contents, which never change once written.\<close>

record file_object =
  fo_file :: "bytes option"
  fo_size :: nat

definition file_read :: "file_object \<Rightarrow> nat \<Rightarrow> nat \<Rightarrow> bytes res" where
  "file_read f offset len =
     (case fo_file f of
        None \<Rightarrow> Inl Panic
      | Some data \<Rightarrow>
          if offset + len \<le> length data then Inr (take len (drop offset data)) else Inl IoError)"

definition file_create :: "bytes \<Rightarrow> file_object" where
  "file_create data = \<lparr>fo_file = Some data, fo_size = length data\<rparr>"

section \<open>Tables\<close>

type_synonym block_cache = "nat \<times> nat \<Rightarrow> block option"

record sstable =
  sst_file :: file_object
  sst_block_meta :: "block_meta list"
  sst_block_meta_offset :: nat
  sst_id :: nat
  sst_block_cache :: "block_cache option"
  sst_first_key :: key
  sst_last_key :: key
  sst_bloom :: "bloom option"
  sst_max_ts :: u64

definition max_list :: "u64 list \<Rightarrow> u64" where
  "max_list ts = fold max ts 0"

definition sst_open ::
    "(bytes \<Rightarrow> u32) \<Rightarrow> nat \<Rightarrow> block_cache option \<Rightarrow> file_object \<Rightarrow> sstable res" where
  "sst_open crc sst_no cache file =
     and_then (file_read file 0 (fo_size file)) (\<lambda>encoded_sst.
     let sst_len = length encoded_sst in
     and_then (checked_sub sst_len 4) (\<lambda>tail.
     and_then (slice_from tail encoded_sst) (\<lambda>b.
     and_then (u32_from_be b) (\<lambda>w.
     let bloom_section_start = unat w in
     and_then (checked_sub bloom_section_start 4) (\<lambda>meta_end.
     and_then (slice meta_end bloom_section_start encoded_sst) (\<lambda>b.
     and_then (u32_from_be b) (\<lambda>w.
     let block_meta_offset = unat w in
     and_then (slice block_meta_offset meta_end encoded_sst) (\<lambda>meta_blob.
     and_then (decode_block_meta crc meta_blob) (\<lambda>block_meta.
     and_then (slice bloom_section_start tail encoded_sst) (\<lambda>bloom_blob.
     and_then (slice 0 4 bloom_blob) (\<lambda>b.
     and_then (u32_from_be b) (\<lambda>w.
     let bloom_payload_len = unat w in
     and_then (slice 4 (4 + bloom_payload_len) bloom_blob) (\<lambda>b.
     and_then (bloom_decode crc b) (\<lambda>bloom.
     and_then (index block_meta 0) (\<lambda>first.
     and_then (index block_meta (length block_meta - 1)) (\<lambda>last.
     let max_ts = max_list (concat (map (\<lambda>m. [key_ts (bm_first_key m), key_ts (bm_last_key m)]) block_meta))
     in Inr \<lparr>sst_file = file, sst_block_meta = block_meta,
             sst_block_meta_offset = block_meta_offset, sst_id = sst_no, sst_block_cache = cache,
             sst_first_key = bm_first_key first, sst_last_key = bm_last_key last,
             sst_bloom = Some bloom, sst_max_ts = max_ts\<rparr>))))))))))))))))"

definition sst_create_meta_only :: "nat \<Rightarrow> nat \<Rightarrow> key \<Rightarrow> key \<Rightarrow> sstable" where
  "sst_create_meta_only sst_no file_size first_key last_key =
     \<lparr>sst_file = \<lparr>fo_file = None, fo_size = file_size\<rparr>, sst_block_meta = [],
      sst_block_meta_offset = 0, sst_id = sst_no, sst_block_cache = None,
      sst_first_key = first_key, sst_last_key = last_key, sst_bloom = None, sst_max_ts = 0\<rparr>"

definition sst_read_block :: "(bytes \<Rightarrow> u32) \<Rightarrow> sstable \<Rightarrow> nat \<Rightarrow> block res" where
  "sst_read_block crc t block_idx =
     and_then (index (sst_block_meta t) block_idx) (\<lambda>bm.
     let offset = bm_offset bm in
     and_then (if block_idx + 1 < length (sst_block_meta t)
               then checked_sub (bm_offset (sst_block_meta t ! (block_idx + 1))) offset
               else checked_sub (sst_block_meta_offset t) offset) (\<lambda>block_len_with_checksum.
     and_then (checked_sub block_len_with_checksum 4) (\<lambda>block_len.
     and_then (file_read (sst_file t) offset block_len_with_checksum) (\<lambda>raw.
     and_then (slice 0 block_len raw) (\<lambda>body.
     and_then (slice_from block_len raw) (\<lambda>sum_bytes.
     and_then (u32_from_be sum_bytes) (\<lambda>actual.
     and_then (ensure (crc body = actual) BlockChecksumMismatch) (\<lambda>_.
     block_decode body))))))))"

text \<open>The block and the cache afterwards.\<close>

definition sst_read_block_cached ::
    "(bytes \<Rightarrow> u32) \<Rightarrow> sstable \<Rightarrow> nat \<Rightarrow> block res \<times> block_cache option" where
  "sst_read_block_cached crc t block_idx =
     (case sst_block_cache t of
        Some cache \<Rightarrow>
          (case cache (sst_id t, block_idx) of
             Some b \<Rightarrow> (Inr b, Some cache)
           | None \<Rightarrow>
               (case sst_read_block crc t block_idx of
                  Inl e \<Rightarrow> (Inl e, Some cache)
                | Inr b \<Rightarrow> (Inr b, Some (cache((sst_id t, block_idx) := Some b)))))
      | None \<Rightarrow> (sst_read_block crc t block_idx, None))"

definition sst_find_block_idx :: "sstable \<Rightarrow> key \<Rightarrow> nat" where
  "sst_find_block_idx t key = partition_point (\<lambda>m. bm_first_key m \<le> key) (sst_block_meta t) - 1"

definition sst_num_of_blocks :: "sstable \<Rightarrow> nat" where
  "sst_num_of_blocks t = length (sst_block_meta t)"

definition sst_table_size :: "sstable \<Rightarrow> nat" where
  "sst_table_size t = fo_size (sst_file t)"

section \<open>The builder\<close>

record sst_builder =
  sb_builder :: block_builder
  sb_first_key :: key
  sb_last_key :: key
  sb_data :: bytes
  sb_meta :: "block_meta list"
  sb_block_size :: nat
  sb_key_hashes :: "u32 list"
  sb_max_ts :: u64

definition sst_builder_new :: "nat \<Rightarrow> sst_builder" where
  "sst_builder_new block_size =
     \<lparr>sb_builder = block_builder_new block_size, sb_first_key = key_new, sb_last_key = key_new,
      sb_data = [], sb_meta = [], sb_block_size = block_size, sb_key_hashes = [], sb_max_ts = 0\<rparr>"

text \<open>Closing a block: its metadata, its encoding and the checksum of the encoding.\<close>

definition sb_finish_block :: "(bytes \<Rightarrow> u32) \<Rightarrow> block_builder \<Rightarrow> sst_builder \<Rightarrow> sst_builder" where
  "sb_finish_block crc old sb =
     (let block_meta = \<lparr>bm_offset = length (sb_data sb), bm_first_key = bb_first_key old,
                        bm_last_key = sb_last_key sb\<rparr>;
          encoded_block = block_encode crc (block_build old)
      in sb\<lparr>sb_meta := sb_meta sb @ [block_meta],
            sb_data := sb_data sb @ encoded_block @ put_u32 (crc encoded_block)\<rparr>)"

definition sst_add ::
    "(bytes \<Rightarrow> u32) \<Rightarrow> (bytes \<Rightarrow> u32) \<Rightarrow> sst_builder \<Rightarrow> key \<Rightarrow> bytes \<Rightarrow> sst_builder res" where
  "sst_add crc fp sb key value =
     (let sb = sb\<lparr>sb_max_ts := max (sb_max_ts sb) (key_ts key),
                  sb_key_hashes := sb_key_hashes sb @ [fp (key_ref key)],
                  sb_first_key := (if key_is_empty (sb_first_key sb) then key else sb_first_key sb)\<rparr>
      in and_then (block_add (sb_builder sb) key value) (\<lambda>(is_added, builder).
      if is_added then Inr (sb\<lparr>sb_builder := builder, sb_last_key := key\<rparr>)
      else
        let sb = sb_finish_block crc builder sb in
        and_then (block_add (block_builder_new (sb_block_size sb)) key value) (\<lambda>(_, fresh).
        Inr (sb\<lparr>sb_builder := fresh, sb_last_key := key\<rparr>))))"

definition sb_estimated_size :: "sst_builder \<Rightarrow> nat" where
  "sb_estimated_size sb = length (sb_data sb)"

definition sst_build ::
    "(bytes \<Rightarrow> u32) \<Rightarrow> sst_builder \<Rightarrow> nat \<Rightarrow> block_cache option \<Rightarrow> sstable res" where
  "sst_build crc sb sst_no cache =
     (let sb = (if bb_is_empty (sb_builder sb) then sb
                else sb_finish_block crc (sb_builder sb) sb);
          block_meta_offset = length (sb_data sb);
          data = encode_block_meta crc (sb_meta sb) (sb_data sb) @
                 put_u32 (word_of_nat block_meta_offset);
          bits_per_key = bloom_bits_per_key (length (sb_key_hashes sb)) (1 / 100)
      in and_then (bloom_build_from_key_hashes (sb_key_hashes sb) bits_per_key) (\<lambda>bloom.
      let encoded_bloom_buf = bloom_encode crc bloom [];
          bloom_offset = length data;
          data = data @ put_u32 (word_of_nat (length encoded_bloom_buf)) @ encoded_bloom_buf @
                 put_u32 (word_of_nat bloom_offset)
      in Inr \<lparr>sst_file = file_create data, sst_block_meta = sb_meta sb,
              sst_block_meta_offset = block_meta_offset, sst_id = sst_no, sst_block_cache = cache,
              sst_first_key = sb_first_key sb, sst_last_key = sb_last_key sb,
              sst_bloom = Some bloom, sst_max_ts = sb_max_ts sb\<rparr>))"

section \<open>Metadata round-trips\<close>

definition key_fits :: "key \<Rightarrow> bool" where
  "key_fits k \<longleftrightarrow> length (key_ref k) < 65536"

definition meta_fits :: "block_meta \<Rightarrow> bool" where
  "meta_fits m \<longleftrightarrow> bm_offset m < 4294967296 \<and> key_fits (bm_first_key m) \<and> key_fits (bm_last_key m)"

lemma read_key_field_put [codec_simps]:
  "key_fits k \<Longrightarrow> read_key_field (key_field k @ rest) = Inr (k, rest)"
  by (simp add: read_key_field_def key_field_def key_fits_def key_len_def codec_simps)

lemma decode_metas_put:
  "\<forall>m \<in> set ms. meta_fits m \<Longrightarrow>
   decode_metas (length ms) (concat (map meta_bytes ms) @ rest) = Inr ms"
  by (induction ms) (simp_all add: meta_bytes_def meta_fits_def codec_simps)

lemma decode_encode_block_meta:
  assumes "\<forall>m \<in> set ms. meta_fits m" "length ms < 4294967296"
  shows "decode_block_meta crc (encode_block_meta crc ms []) = Inr ms"
  using decode_metas_put [OF assms(1), of "[]"] assms(2)
  by (simp add: decode_block_meta_def encode_block_meta_def Let_def codec_simps)

lemma encode_block_meta_buf: "encode_block_meta crc ms buf = buf @ encode_block_meta crc ms []"
  by (simp add: encode_block_meta_def Let_def)

section \<open>Reading blocks back\<close>

definition block_seg :: "(bytes \<Rightarrow> u32) \<Rightarrow> block \<Rightarrow> bytes" where
  "block_seg crc b = block_encode crc b @ put_u32 (crc (block_encode crc b))"

definition blocks_bytes :: "(bytes \<Rightarrow> u32) \<Rightarrow> block list \<Rightarrow> bytes" where
  "blocks_bytes crc blks = concat (map (block_seg crc) blks)"

definition table_layout :: "(bytes \<Rightarrow> u32) \<Rightarrow> sstable \<Rightarrow> block list \<Rightarrow> bool" where
  "table_layout crc t blks \<longleftrightarrow>
     (\<exists>rest. fo_file (sst_file t) = Some (blocks_bytes crc blks @ rest)) \<and>
     length (sst_block_meta t) = length blks \<and>
     (\<forall>i < length blks. bm_offset (sst_block_meta t ! i) = length (blocks_bytes crc (take i blks))) \<and>
     sst_block_meta_offset t = length (blocks_bytes crc blks) \<and>
     (\<forall>b \<in> set blks. length (blk_offsets b) < 65536)"

lemma blocks_bytes_take_Suc:
  "i < length blks \<Longrightarrow>
   blocks_bytes crc (take (Suc i) blks) = blocks_bytes crc (take i blks) @ block_seg crc (blks ! i)"
  by (simp add: blocks_bytes_def take_Suc_conv_app_nth)

lemma blocks_bytes_split:
  "i < length blks \<Longrightarrow> blocks_bytes crc blks =
     blocks_bytes crc (take i blks) @ block_seg crc (blks ! i) @ blocks_bytes crc (drop (Suc i) blks)"
  using id_take_nth_drop [of i blks]
  by (metis append.assoc blocks_bytes_def blocks_bytes_take_Suc append_take_drop_id concat_append map_append)

lemma sst_read_block_layout:
  assumes lay: "table_layout crc t blks" and i: "i < length blks"
  shows "sst_read_block crc t i = Inr (blks ! i)"
proof -
  obtain rest where contents: "fo_file (sst_file t) = Some (blocks_bytes crc blks @ rest)"
    using lay by (auto simp: table_layout_def)
  define off where "off = length (blocks_bytes crc (take i blks))"
  define seg where "seg = block_seg crc (blks ! i)"
  have len: "length (sst_block_meta t) = length blks" and m: "bm_offset (sst_block_meta t ! i) = off"
    using lay i by (auto simp: table_layout_def off_def)
  have nxt: "Suc i < length blks \<Longrightarrow> checked_sub (bm_offset (sst_block_meta t ! Suc i)) off = Inr (length seg)"
    "\<not> Suc i < length blks \<Longrightarrow> checked_sub (sst_block_meta_offset t) off = Inr (length seg)"
  proof -
    have "length (blocks_bytes crc (take (Suc i) blks)) = off + length seg"
      using i by (simp add: blocks_bytes_take_Suc off_def seg_def)
    then show "Suc i < length blks \<Longrightarrow> checked_sub (bm_offset (sst_block_meta t ! Suc i)) off = Inr (length seg)"
      and "\<not> Suc i < length blks \<Longrightarrow> checked_sub (sst_block_meta_offset t) off = Inr (length seg)"
      using lay by (auto simp: table_layout_def checked_sub_def)
  qed
  have raw: "file_read (sst_file t) off (length seg) = Inr seg"
    using blocks_bytes_split [OF i, of crc] by (simp add: file_read_def contents off_def seg_def)
  have fits: "length (blk_offsets (blks ! i)) < 65536" using lay i by (auto simp: table_layout_def)
  show ?thesis
    using block_decode_encode [OF fits, of crc]
    by (cases "Suc i < length blks")
      (simp_all add: sst_read_block_def len i m nxt raw codec_simps,
       simp_all add: seg_def block_seg_def codec_simps)
qed

text \<open>The cache only ever answers with what reading the file would give.\<close>

definition cache_coherent :: "(bytes \<Rightarrow> u32) \<Rightarrow> sstable \<Rightarrow> block_cache option \<Rightarrow> bool" where
  "cache_coherent crc t c \<longleftrightarrow>
     (\<forall>cache i b. c = Some cache \<longrightarrow> cache (sst_id t, i) = Some b \<longrightarrow> sst_read_block crc t i = Inr b)"

lemma sst_read_block_cached_fst:
  assumes "cache_coherent crc t (sst_block_cache t)"
  shows "fst (sst_read_block_cached crc t i) = sst_read_block crc t i"
  using assms
  by (auto simp: sst_read_block_cached_def cache_coherent_def split: option.splits sum.splits)

lemma sst_read_block_cached_coherent:
  assumes "cache_coherent crc t (sst_block_cache t)"
  shows "cache_coherent crc t (snd (sst_read_block_cached crc t i))"
  using assms
  by (auto simp: sst_read_block_cached_def cache_coherent_def split: option.splits sum.splits)

section \<open>What a table holds\<close>

text \<open>\<open>table_holds crc t bss\<close>: block \<open>i\<close> of the table holds exactly the entries \<open>bss ! i\<close>.\<close>

definition table_holds :: "(bytes \<Rightarrow> u32) \<Rightarrow> sstable \<Rightarrow> (key \<times> bytes) list list \<Rightarrow> bool" where
  "table_holds crc t bss \<longleftrightarrow>
     (\<exists>blks. table_layout crc t blks \<and> list_all2 block_holds blks bss) \<and>
     bss \<noteq> [] \<and>
     map bm_first_key (sst_block_meta t) = map (\<lambda>es. fst (hd es)) bss \<and>
     map bm_last_key (sst_block_meta t) = map (\<lambda>es. fst (last es)) bss \<and>
     sst_first_key t = fst (hd (hd bss)) \<and> sst_last_key t = fst (last (last bss))"

lemma table_holds_read:
  assumes "table_holds crc t bss" "i < length bss"
  obtains b where "sst_read_block crc t i = Inr b" "block_holds b (bss ! i)"
  using assms sst_read_block_layout
  by (auto simp: table_holds_def list_all2_conv_all_nth)

lemma table_holds_num: "table_holds crc t bss \<Longrightarrow> sst_num_of_blocks t = length bss"
  unfolding table_holds_def sst_num_of_blocks_def
  by (metis length_map)

lemma table_holds_blocks: "table_holds crc t bss \<Longrightarrow> es \<in> set bss \<Longrightarrow> es \<noteq> [] \<and> (\<forall>e \<in> set es. entry_ok e)"
  by (auto simp: table_holds_def list_all2_conv_all_nth in_set_conv_nth block_holds_def)

section \<open>The builder's invariant\<close>

definition sb_closed :: "(bytes \<Rightarrow> u32) \<Rightarrow> bytes \<Rightarrow> block_meta list \<Rightarrow> (key \<times> bytes) list list \<Rightarrow> bool" where
  "sb_closed crc data metas bss \<longleftrightarrow>
     (\<exists>blks. data = blocks_bytes crc blks \<and> list_all2 block_holds blks bss \<and>
        (\<forall>b \<in> set blks. length (blk_offsets b) < 65536) \<and>
        map bm_offset metas = map (\<lambda>i. length (blocks_bytes crc (take i blks))) [0..<length blks]) \<and>
     map bm_first_key metas = map (\<lambda>es. fst (hd es)) bss \<and>
     map bm_last_key metas = map (\<lambda>es. fst (last es)) bss"

definition sb_inv ::
    "(bytes \<Rightarrow> u32) \<Rightarrow> (bytes \<Rightarrow> u32) \<Rightarrow> sst_builder \<Rightarrow> (key \<times> bytes) list list \<Rightarrow>
     (key \<times> bytes) list \<Rightarrow> bool" where
  "sb_inv crc fp sb bss cur \<longleftrightarrow>
     sb_closed crc (sb_data sb) (sb_meta sb) bss \<and>
     bb_inv (sb_builder sb) cur \<and> length (bb_offsets (sb_builder sb)) < 65536 \<and>
     bb_block_size (sb_builder sb) = sb_block_size sb \<and> sb_block_size sb \<le> 65536 \<and>
     (cur = [] \<longrightarrow> bss = [] \<and> sb_first_key sb = key_new \<and> sb_last_key sb = key_new) \<and>
     (cur \<noteq> [] \<longrightarrow> sb_first_key sb = fst (hd (concat bss @ cur)) \<and> sb_last_key sb = fst (last cur)) \<and>
     sb_key_hashes sb = map (\<lambda>e. fp (key_ref (fst e))) (concat bss @ cur) \<and>
     sb_max_ts sb = max_list (map (\<lambda>e. key_ts (fst e)) (concat bss @ cur))"

lemma max_list_snoc: "max_list (ts @ [t]) = max (max_list ts) t"
  by (simp add: max_list_def max.commute)

lemma max_list_snoc2: "max_list (ss @ ts @ [t]) = max (max_list (ss @ ts)) t"
  using max_list_snoc [of "ss @ ts" t] by simp

lemma max_list_ge: "t \<in> set ts \<Longrightarrow> t \<le> max_list ts"
proof (induction ts rule: rev_induct)
  case (snoc x xs)
  then show ?case by (auto simp: max_list_snoc le_max_iff_disj)
qed simp

lemma sb_inv_new: "n \<le> 65536 \<Longrightarrow> sb_inv crc fp (sst_builder_new n) [] []"
  by (auto simp: sb_inv_def sst_builder_new_def sb_closed_def blocks_bytes_def max_list_def)
    (auto simp: block_builder_new_def)

lemma sb_closed_snoc:
  assumes closed: "sb_closed crc data metas bss" and bb: "bb_inv b cur" "cur \<noteq> []"
    and small: "length (bb_offsets b) < 65536"
  shows "sb_closed crc (data @ block_seg crc (block_build b))
    (metas @ [\<lparr>bm_offset = length data, bm_first_key = bb_first_key b, bm_last_key = fst (last cur)\<rparr>])
    (bss @ [cur])"
proof -
  obtain blks where blks: "data = blocks_bytes crc blks" "list_all2 block_holds blks bss"
      "\<forall>b \<in> set blks. length (blk_offsets b) < 65536"
      "map bm_offset metas = map (\<lambda>i. length (blocks_bytes crc (take i blks))) [0..<length blks]"
    using closed by (auto simp: sb_closed_def)
  let ?blks = "blks @ [block_build b]"
  have "blocks_bytes crc ?blks = data @ block_seg crc (block_build b)"
    by (simp add: blks(1) blocks_bytes_def)
  moreover have "list_all2 block_holds ?blks (bss @ [cur])"
    using blks(2) block_holds_build [OF bb] by (simp add: list_all2_appendI)
  moreover have "\<forall>b \<in> set ?blks. length (blk_offsets b) < 65536"
    using blks(3) small by (simp add: block_build_def)
  moreover have "map bm_offset metas @ [length data] =
      map (\<lambda>i. length (blocks_bytes crc (take i ?blks))) [0..<length ?blks]"
    by (simp add: blks(1,4))
  ultimately have "\<exists>blks. data @ block_seg crc (block_build b) = blocks_bytes crc blks \<and>
      list_all2 block_holds blks (bss @ [cur]) \<and> (\<forall>b \<in> set blks. length (blk_offsets b) < 65536) \<and>
      map bm_offset metas @ [length data] = map (\<lambda>i. length (blocks_bytes crc (take i blks))) [0..<length blks]"
    by (intro exI [of _ ?blks] conjI) (rule sym)
  moreover have "bb_first_key b = fst (hd cur)" using bb by (simp add: bb_inv_def)
  moreover have "map bm_first_key metas = map (\<lambda>es. fst (hd es)) bss"
      "map bm_last_key metas = map (\<lambda>es. fst (last es)) bss"
    using closed by (simp_all add: sb_closed_def)
  ultimately show ?thesis unfolding sb_closed_def by simp
qed

lemma holds_all_entries:
  "list_all2 block_holds blks bss \<Longrightarrow> e \<in> set (concat bss) \<Longrightarrow> entry_ok e"
  by (induction rule: list_all2_induct) (auto simp: block_holds_def)

lemma sb_inv_entries:
  assumes "sb_inv crc fp sb bss cur" "e \<in> set (concat bss @ cur)"
  shows "entry_ok e"
proof -
  obtain blks where blks: "list_all2 block_holds blks bss"
    using assms(1) by (auto simp: sb_inv_def sb_closed_def)
  have "\<forall>e \<in> set cur. entry_ok e" using assms(1) by (simp add: sb_inv_def bb_inv_def)
  with holds_all_entries [OF blks, of e] assms(2) show ?thesis by (auto simp del: set_concat)
qed

lemma block_add_new:
  assumes "\<not> key_is_empty k"
  obtains b where "block_add (block_builder_new n) k v = Inr (True, b)"
  using block_add_total [OF assms, of "block_builder_new n" v]
  by (auto simp: bb_is_empty_def block_builder_new_def)

lemma sst_add_inv:
  assumes inv: "sb_inv crc fp sb bss cur" and ok: "entry_ok (k, v)"
  obtains sb' bss' cur' where "sst_add crc fp sb k v = Inr sb'" "sb_inv crc fp sb' bss' cur'"
    "concat bss' @ cur' = concat bss @ cur @ [(k, v)]" "cur' \<noteq> []"
    "sb_block_size sb' = sb_block_size sb"
proof -
  let ?sb = "sb\<lparr>sb_max_ts := max (sb_max_ts sb) (key_ts k),
                sb_key_hashes := sb_key_hashes sb @ [fp (key_ref k)],
                sb_first_key := (if key_is_empty (sb_first_key sb) then k else sb_first_key sb)\<rparr>"
  have ne: "\<not> key_is_empty k" using ok by (simp add: entry_ok_def key_is_empty_def)
  have bb: "bb_inv (sb_builder sb) cur" and size: "bb_block_size (sb_builder sb) = sb_block_size sb"
      "sb_block_size sb \<le> 65536" and closed: "sb_closed crc (sb_data sb) (sb_meta sb) bss"
    using inv by (auto simp: sb_inv_def)
  have entries: "\<forall>e \<in> set (concat bss @ cur). key_ref (fst e) \<noteq> []"
    using sb_inv_entries [OF inv] by (simp add: entry_ok_def)
  have first: "(if key_is_empty (sb_first_key sb) then k else sb_first_key sb)
      = fst (hd (concat bss @ cur @ [(k, v)]))"
  proof (cases "cur = []")
    case True
    then show ?thesis using inv by (simp add: sb_inv_def key_is_empty_def key_new_def)
  next
    case False
    then have "concat bss @ cur \<noteq> []" by simp
    then have "hd (concat bss @ cur @ [(k, v)]) = hd (concat bss @ cur)"
      "hd (concat bss @ cur) \<in> set (concat bss @ cur)"
      by (metis append.assoc hd_append2, rule hd_in_set)
    then show ?thesis using inv False entries by (auto simp: sb_inv_def key_is_empty_def)
  qed
  consider b' where "block_add (sb_builder sb) k v = Inr (True, b')"
    | "block_add (sb_builder sb) k v = Inr (False, sb_builder sb)" "\<not> bb_is_empty (sb_builder sb)"
    using block_add_total [OF ne] by metis
  then show thesis
  proof cases
    case 1
    note step = bb_inv_add [OF bb 1 ok] and small = block_add_offsets_small [OF 1]
    show thesis
    proof (rule that)
      show "sst_add crc fp sb k v = Inr (?sb\<lparr>sb_builder := b', sb_last_key := k\<rparr>)"
        using 1 by (simp add: sst_add_def Let_def)
      show "sb_inv crc fp (?sb\<lparr>sb_builder := b', sb_last_key := k\<rparr>) bss (cur @ [(k, v)])"
        using inv step small first size by (simp add: sb_inv_def max_list_snoc2)
    qed simp_all
  next
    case 2
    then have cur: "cur \<noteq> []" using bb_inv_is_empty [OF bb] by simp
    obtain b' where b': "block_add (block_builder_new (sb_block_size sb)) k v = Inr (True, b')"
      using block_add_new [OF ne] by blast
    have new_size: "bb_block_size (block_builder_new (sb_block_size sb)) = sb_block_size sb"
      by (simp add: block_builder_new_def)
    note step = bb_inv_add [OF bb_inv_new b' ok] and small = block_add_offsets_small [OF b']
    let ?sb' = "(sb_finish_block crc (sb_builder sb) ?sb)\<lparr>sb_builder := b', sb_last_key := k\<rparr>"
    have last: "sb_last_key sb = fst (last cur)" using inv cur by (simp add: sb_inv_def)
    have "sb_closed crc (sb_data ?sb') (sb_meta ?sb') (bss @ [cur])"
      using sb_closed_snoc [OF closed bb cur] inv
      by (simp add: sb_inv_def sb_finish_block_def Let_def last block_seg_def)
    then have "sb_inv crc fp ?sb' (bss @ [cur]) [(k, v)]"
      using inv step small first size new_size
      by (simp add: sb_inv_def sb_finish_block_def Let_def max_list_snoc2)
    then show thesis
      using 2 b' by (intro that [of ?sb' "bss @ [cur]" "[(k, v)]"])
        (simp_all add: sst_add_def Let_def sb_finish_block_def)
  qed
qed

text \<open>A whole run of \<open>add\<close> calls, as the flush and the compactor make them.\<close>

definition sst_add_all ::
    "(bytes \<Rightarrow> u32) \<Rightarrow> (bytes \<Rightarrow> u32) \<Rightarrow> (key \<times> bytes) list \<Rightarrow> sst_builder \<Rightarrow> sst_builder res" where
  "sst_add_all crc fp es sb = fold_res (\<lambda>(k, v) sb. sst_add crc fp sb k v) es sb"

lemma sst_add_all_inv:
  assumes "sb_inv crc fp sb bss cur" "\<forall>e \<in> set es. entry_ok e"
  shows "\<exists>sb' bss' cur'. sst_add_all crc fp es sb = Inr sb' \<and> sb_inv crc fp sb' bss' cur' \<and>
    concat bss' @ cur' = concat bss @ cur @ es \<and> (cur' = [] \<longrightarrow> cur = [] \<and> es = [])"
  using assms
proof (induction es arbitrary: sb bss cur)
  case (Cons e es)
  obtain k v where e: "e = (k, v)" by (cases e)
  then have "entry_ok (k, v)" using Cons.prems(2) by simp
  then obtain sb1 bss1 cur1 where 1: "sst_add crc fp sb k v = Inr sb1" "sb_inv crc fp sb1 bss1 cur1"
      "concat bss1 @ cur1 = concat bss @ cur @ [(k, v)]" "cur1 \<noteq> []"
    using sst_add_inv [OF Cons.prems(1)] by blast
  obtain sb' bss' cur' where 2: "sst_add_all crc fp es sb1 = Inr sb'" "sb_inv crc fp sb' bss' cur'"
      "concat bss' @ cur' = concat bss1 @ cur1 @ es" "cur' = [] \<longrightarrow> cur1 = []"
    using Cons.IH [OF 1(2)] Cons.prems(2) by auto
  have "concat bss1 @ cur1 @ es = concat bss @ cur @ e # es"
    using arg_cong [OF 1(3), of "\<lambda>l. l @ es"] e by simp
  with 1 2 e show ?case by (auto simp: sst_add_all_def)
qed (auto simp: sst_add_all_def)

section \<open>Building and opening\<close>

definition table_file :: "(bytes \<Rightarrow> u32) \<Rightarrow> bytes \<Rightarrow> block_meta list \<Rightarrow> bloom \<Rightarrow> bytes" where
  "table_file crc data metas bloom =
     (let m = encode_block_meta crc metas []; b = bloom_encode crc bloom []
      in data @ m @ put_u32 (word_of_nat (length data)) @ put_u32 (word_of_nat (length b)) @ b @
         put_u32 (word_of_nat (length data + length m + 4)))"

lemma sst_build_holds:
  assumes inv: "sb_inv crc fp sb bss cur" and cur: "cur \<noteq> []"
  obtains t bloom where "sst_build crc sb sst_no cache = Inr t" "table_holds crc t (bss @ [cur])"
    "sst_bloom t = Some bloom"
    "\<And>e. e \<in> set (concat bss @ cur) \<Longrightarrow> bloom_may_contain bloom (fp (key_ref (fst e))) = Inr True"
    "sst_max_ts t = max_list (map (\<lambda>e. key_ts (fst e)) (concat bss @ cur))"
    "sst_id t = sst_no" "sst_block_cache t = cache"
    "\<exists>data. length data = sst_block_meta_offset t \<and>
       sst_file t = file_create (table_file crc data (sst_block_meta t) bloom)"
proof -
  define sb1 where "sb1 = sb_finish_block crc (sb_builder sb) sb"
  obtain bloom where bloom: "bloom_build_from_key_hashes (sb_key_hashes sb)
        (bloom_bits_per_key (length (sb_key_hashes sb)) (1 / 100)) = Inr bloom"
      "\<forall>h \<in> set (sb_key_hashes sb). bloom_may_contain bloom h = Inr True"
    using bloom_build_complete by blast
  have bb: "bb_inv (sb_builder sb) cur" and closed: "sb_closed crc (sb_data sb) (sb_meta sb) bss"
    and small: "length (bb_offsets (sb_builder sb)) < 65536"
    and last: "sb_last_key sb = fst (last cur)"
    and first: "sb_first_key sb = fst (hd (concat bss @ cur))"
    using inv cur by (auto simp: sb_inv_def)
  have ne: "\<not> bb_is_empty (sb_builder sb)" using bb_inv_is_empty [OF bb] cur by simp
  have closed1: "sb_closed crc (sb_data sb1) (sb_meta sb1) (bss @ [cur])"
    using sb_closed_snoc [OF closed bb cur small]
    by (simp add: sb1_def sb_finish_block_def Let_def last block_seg_def)
  then obtain blks where blks: "sb_data sb1 = blocks_bytes crc blks" "list_all2 block_holds blks (bss @ [cur])"
      "\<forall>b \<in> set blks. length (blk_offsets b) < 65536"
      "map bm_offset (sb_meta sb1) = map (\<lambda>i. length (blocks_bytes crc (take i blks))) [0..<length blks]"
    by (auto simp: sb_closed_def)
  have same: "sb_first_key sb1 = sb_first_key sb" "sb_last_key sb1 = sb_last_key sb"
      "sb_key_hashes sb1 = sb_key_hashes sb" "sb_max_ts sb1 = sb_max_ts sb"
    by (simp_all add: sb1_def sb_finish_block_def Let_def)
  define t where "t = \<lparr>sst_file = file_create (table_file crc (sb_data sb1) (sb_meta sb1) bloom),
      sst_block_meta = sb_meta sb1, sst_block_meta_offset = length (sb_data sb1), sst_id = sst_no,
      sst_block_cache = cache, sst_first_key = sb_first_key sb, sst_last_key = sb_last_key sb,
      sst_bloom = Some bloom, sst_max_ts = sb_max_ts sb\<rparr>"
  have hd_bss: "hd (concat bss @ cur) = hd (hd (bss @ [cur]))"
    using blks(2) cur by (cases bss) (auto simp: list_all2_Cons2 block_holds_def)
  have "sst_build crc sb sst_no cache = Inr t"
    using ne bloom(1)
    by (simp add: sst_build_def same Let_def t_def table_file_def encode_block_meta_buf [of _ _ "sb_data sb1"]
        flip: sb1_def)
  moreover have "table_holds crc t (bss @ [cur])"
  proof -
    have len: "length (sb_meta sb1) = length blks"
      using arg_cong [OF blks(4), of length] by simp
    have "bm_offset (sb_meta sb1 ! i) = length (blocks_bytes crc (take i blks))" if "i < length blks" for i
      using arg_cong [OF blks(4), of "\<lambda>l. l ! i"] len that by simp
    then have "table_layout crc t blks"
      using blks(1,3) len by (auto simp: table_layout_def t_def file_create_def table_file_def Let_def)
    then show ?thesis
      using blks(2) closed1 cur first last hd_bss
      by (auto simp: table_holds_def sb_closed_def t_def)
  qed
  moreover have "bloom_may_contain bloom (fp (key_ref (fst e))) = Inr True"
    if "e \<in> set (concat bss @ cur)" for e
    using inv bloom(2) that by (auto simp: sb_inv_def)
  moreover have "sst_max_ts t = max_list (map (\<lambda>e. key_ts (fst e)) (concat bss @ cur))"
    using inv by (simp add: t_def sb_inv_def)
  ultimately show thesis
    by (intro that [of t bloom]) (auto simp: t_def)
qed

lemma sst_build_bloom:
  assumes "sst_build crc sb sst_no cache = Inr t"
  shows "\<exists>b. sst_bloom t = Some b \<and> (\<forall>h. \<exists>r. bloom_may_contain b h = Inr r)"
proof -
  obtain keys bits b where "bloom_build_from_key_hashes keys bits = Inr b" "sst_bloom t = Some b"
    using assms unfolding sst_build_def Let_def and_then_Inr_iff by auto
  then show ?thesis using bloom_build_total by blast
qed

lemma sst_open_file:
  assumes metas: "\<forall>m \<in> set metas. meta_fits m" "metas \<noteq> []"
    and size: "length (table_file crc data metas bloom) < 4294967296"
  shows "sst_open crc sst_no cache (file_create (table_file crc data metas bloom)) =
    Inr \<lparr>sst_file = file_create (table_file crc data metas bloom), sst_block_meta = metas,
         sst_block_meta_offset = length data, sst_id = sst_no, sst_block_cache = cache,
         sst_first_key = bm_first_key (hd metas), sst_last_key = bm_last_key (last metas),
         sst_bloom = Some bloom,
         sst_max_ts = max_list (concat (map (\<lambda>m. [key_ts (bm_first_key m), key_ts (bm_last_key m)]) metas))\<rparr>"
proof -
  define m where "m = encode_block_meta crc metas []"
  define b where "b = bloom_encode crc bloom []"
  define f where "f = table_file crc data metas bloom"
  have f: "f = data @ m @ put_u32 (word_of_nat (length data)) @ put_u32 (word_of_nat (length b)) @ b @
         put_u32 (word_of_nat (length data + length m + 4))"
    by (simp add: f_def table_file_def Let_def m_def b_def)
  have len: "length f = length data + length m + length b + 12" by (simp add: f)
  have "length metas \<le> length m"
  proof -
    have "length metas \<le> length (concat (map meta_bytes metas))"
      by (induction metas) (auto simp: meta_bytes_def)
    then show ?thesis by (simp add: m_def encode_block_meta_def Let_def)
  qed
  then have "decode_block_meta crc m = Inr metas"
    unfolding m_def using decode_encode_block_meta [OF metas(1)] size len
    by (simp add: f_def m_def)
  moreover have "bloom_decode crc b = Inr bloom" by (simp add: b_def bloom_decode_encode)
  moreover have small: "unat (word_of_nat (length data + length m + 4) :: u32) = length data + length m + 4"
      "unat (word_of_nat (length data) :: u32) = length data"
      "unat (word_of_nat (length b) :: u32) = length b"
    by (rule unat_u32_of_nat, use size len in \<open>simp add: f_def\<close>)+
  moreover have "file_read (file_create f) 0 (fo_size (file_create f)) = Inr f"
    by (simp add: file_read_def file_create_def)
  moreover have "slice_from (length f - 4) f = Inr (put_u32 (word_of_nat (length data + length m + 4)))"
      "slice (length data + length m) (length data + length m + 4) f = Inr (put_u32 (word_of_nat (length data)))"
      "slice (length data) (length data + length m) f = Inr m"
      "slice (length data + length m + 4) (length f - 4) f = Inr (put_u32 (word_of_nat (length b)) @ b)"
    by (simp_all add: slice_from_def slice_def len) (simp_all add: f)
  ultimately show ?thesis
    using metas(2)
    by (simp add: sst_open_def Let_def codec_simps hd_conv_nth last_conv_nth len flip: f_def
        del: of_nat_add)
qed

end
