(* ===== verification/Iterators.thy ===== *)
theory Iterators
  imports Keys "HOL-Library.Multiset"
begin

text \<open>
  \<open>src/iterators.rs\<close>, \<open>src/iterators/merge_iterator.rs\<close>, \<open>src/iterators/two_merge_iterator.rs\<close>.

  The trait \<open>StorageIterator\<close> is the record \<open>iter_ops\<close> of its methods over a state type; a generic
  iterator takes the records of its type arguments and gives a record of its own, so the nesting
  of iterator types in the program is the nesting of records here. The contract that every
  iterator keeps is the locale \<open>storage_iterator\<close>: an invariant, and the list of entries the
  iterator still has to produce. \<open>sorted_iterator\<close> adds that keys ascend strictly.

  \<open>BinaryHeap\<close> is a list from which \<open>pop\<close> removes the greatest element of the order
  \<open>impl Ord for HeapWrapper\<close> (ties cannot occur, the indices being distinct).
\<close>

section \<open>The interface\<close>

record ('i, 'k) iter_ops =
  it_value :: "'i \<Rightarrow> bytes res"
  it_key :: "'i \<Rightarrow> 'k res"
  it_is_valid :: "'i \<Rightarrow> bool res"
  it_next :: "'i \<Rightarrow> unit res \<times> 'i"
  it_num_active :: "'i \<Rightarrow> nat"

locale storage_iterator =
  fixes d :: "('i, 'k::linorder) iter_ops"
    and iinv :: "'i \<Rightarrow> bool"
    and cont :: "'i \<Rightarrow> ('k \<times> bytes) list"
  assumes valid: "iinv i \<Longrightarrow> it_is_valid d i = Inr (cont i \<noteq> [])"
    and key: "iinv i \<Longrightarrow> cont i = x # xs \<Longrightarrow> it_key d i = Inr (fst x)"
    and val: "iinv i \<Longrightarrow> cont i = x # xs \<Longrightarrow> it_value d i = Inr (snd x)"
    and nxt: "iinv i \<Longrightarrow> \<exists>i'. it_next d i = (Inr (), i') \<and> iinv i' \<and> cont i' = tl (cont i)"

locale sorted_iterator = storage_iterator +
  assumes sorted: "iinv i \<Longrightarrow> sorted1 (cont i)"

text \<open>
  Reading an iterator to its end, with fuel. \<open>Diverges\<close> stands for fuel that ran out; the locale
  lemma shows that as much fuel as there are entries is enough.
\<close>

fun it_drain :: "('i, 'k) iter_ops \<Rightarrow> nat \<Rightarrow> 'i \<Rightarrow> ('k \<times> bytes) list res" where
  "it_drain d 0 i = and_then (it_is_valid d i) (\<lambda>v. if v then Inl Diverges else Inr [])"
| "it_drain d (Suc n) i =
     and_then (it_is_valid d i) (\<lambda>v.
     if v then
       and_then (it_key d i) (\<lambda>k.
       and_then (it_value d i) (\<lambda>x.
       case it_next d i of
         (Inl e, _) \<Rightarrow> Inl e
       | (Inr _, i') \<Rightarrow> and_then (it_drain d n i') (\<lambda>es. Inr ((k, x) # es))))
     else Inr [])"

text \<open>\<open>while iter.is_valid() \<and> p(iter.key()) { iter.next()? }\<close>, the skipping loop of several callers.\<close>

definition it_skip_while :: "('i, 'k) iter_ops \<Rightarrow> ('k \<Rightarrow> bool) \<Rightarrow> 'i \<Rightarrow> unit res \<times> 'i" where
  "it_skip_while d p =
     loop_until (\<lambda>i.
       case it_is_valid d i of
         Inl e \<Rightarrow> (Some (Inl e), i)
       | Inr False \<Rightarrow> (Some (Inr ()), i)
       | Inr True \<Rightarrow>
           (case it_key d i of
              Inl e \<Rightarrow> (Some (Inl e), i)
            | Inr k \<Rightarrow>
                if \<not> p k then (Some (Inr ()), i)
                else (case it_next d i of
                        (Inl e, i') \<Rightarrow> (Some (Inl e), i')
                      | (Inr _, i') \<Rightarrow> (None, i'))))"

text \<open>\<open>while iter.is_valid() { f(iter.key(), iter.value())?; iter.next()? }\<close> over a state that \<open>f\<close> updates.\<close>

definition it_for_each ::
    "('i, 'k) iter_ops \<Rightarrow> ('k \<Rightarrow> bytes \<Rightarrow> 's \<Rightarrow> 's res) \<Rightarrow> 'i \<Rightarrow> 's \<Rightarrow> 's res" where
  "it_for_each d f i s =
     (case loop_until (\<lambda>(i, s).
         case it_is_valid d i of
           Inl e \<Rightarrow> (Some (Inl e), i, s)
         | Inr False \<Rightarrow> (Some (Inr ()), i, s)
         | Inr True \<Rightarrow>
             (case and_then (it_key d i) (\<lambda>k. and_then (it_value d i) (\<lambda>v. f k v s)) of
                Inl e \<Rightarrow> (Some (Inl e), i, s)
              | Inr s' \<Rightarrow>
                  (case it_next d i of
                     (Inl e, i') \<Rightarrow> (Some (Inl e), i', s')
                   | (Inr _, i') \<Rightarrow> (None, i', s')))) (i, s) of
        (r, i', s') \<Rightarrow> and_then r (\<lambda>_. Inr s'))"

context storage_iterator
begin

lemma for_each: "iinv i \<Longrightarrow> it_for_each d f i s = fold_res (\<lambda>(k, v). f k v) (cont i) s"
proof (induction "length (cont i)" arbitrary: i s)
  case 0
  then show ?case by (simp add: it_for_each_def loop_until_unfold [where s = "(i, s)"] valid)
next
  case (Suc n)
  obtain x xs where Cons: "cont i = x # xs" using Suc.hyps(2) by (cases "cont i") auto
  obtain i' where i': "it_next d i = (Inr (), i')" "iinv i'" "cont i' = xs"
    using nxt [OF Suc.prems] Cons by auto
  have n: "n = length (cont i')" using Suc.hyps(2) Cons i'(3) by simp
  show ?case
  proof (cases "f (fst x) (snd x) s")
    case (Inl e)
    with Suc.prems Cons show ?thesis
      by (cases x)
        (simp add: it_for_each_def loop_until_unfold [where s = "(i, s)"] valid key [OF _ Cons] val [OF _ Cons])
  next
    case (Inr s')
    have "it_for_each d f i s = it_for_each d f i' s'"
      using Suc.prems Cons i' Inr
      by (simp add: it_for_each_def loop_until_unfold [where s = "(i, s)"] valid key [OF _ Cons] val [OF _ Cons])
    then show ?thesis
      using Suc.hyps(1) [OF n i'(2)] i'(3) Cons Inr by (cases x) simp
  qed
qed

lemma drain: "iinv i \<Longrightarrow> length (cont i) \<le> n \<Longrightarrow> it_drain d n i = Inr (cont i)"
proof (induction n arbitrary: i)
  case 0
  then show ?case by (simp add: valid)
next
  case (Suc n)
  show ?case
  proof (cases "cont i")
    case Nil
    with Suc.prems show ?thesis by (simp add: valid)
  next
    case (Cons x xs)
    obtain i' where i': "it_next d i = (Inr (), i')" "iinv i'" "cont i' = xs"
      using nxt [OF Suc.prems(1)] Cons by auto
    with Suc.IH [OF i'(2)] Suc.prems Cons show ?thesis
      by (simp add: valid key [OF _ Cons] val [OF _ Cons])
  qed
qed

lemma next_end: "iinv i \<Longrightarrow> cont i = [] \<Longrightarrow> \<exists>i'. it_next d i = (Inr (), i') \<and> iinv i' \<and> cont i' = []"
  using nxt [of i] by auto

lemma next_Cons:
  assumes "iinv i" "cont i = x # xs"
  obtains i' where "it_next d i = (Inr (), i')" "iinv i'" "cont i' = xs"
  using nxt [OF assms(1)] assms(2) by auto

lemma skip_while:
  assumes "iinv i"
  obtains i' where "it_skip_while d p i = (Inr (), i')" "iinv i'"
    "cont i' = dropWhile (\<lambda>x. p (fst x)) (cont i)"
  using assms
proof (induction "length (cont i)" arbitrary: i thesis)
  case 0
  then show ?case
    by (intro "0.prems"(1) [of i])
      (simp_all add: it_skip_while_def loop_until_unfold [where s = i] valid)
next
  case (Suc n)
  obtain x xs where Cons: "cont i = x # xs" using Suc.hyps(2) by (cases "cont i") auto
  show ?case
  proof (cases "p (fst x)")
    case False
    with Cons Suc.prems show ?thesis
      by (intro Suc.prems(1) [of i])
        (simp_all add: it_skip_while_def loop_until_unfold [where s = i] valid key [OF _ Cons])
  next
    case True
    obtain i1 where i1: "it_next d i = (Inr (), i1)" "iinv i1" "cont i1 = xs"
      using next_Cons [OF Suc.prems(2) Cons] by blast
    have n: "n = length (cont i1)" using Suc.hyps(2) Cons i1(3) by simp
    obtain i' where i': "it_skip_while d p i1 = (Inr (), i')" "iinv i'"
        "cont i' = dropWhile (\<lambda>x. p (fst x)) (cont i1)"
      using Suc.hyps(1) [OF n _ i1(2)] by blast
    show ?thesis
    proof (rule Suc.prems(1))
      show "it_skip_while d p i = (Inr (), i')"
        using True Cons i1 i'(1) Suc.prems(2)
        by (simp add: it_skip_while_def loop_until_unfold [where s = i] valid key [OF _ Cons])
    qed (use i' i1 True Cons in simp_all)
  qed
qed

end

section \<open>Merging two iterators\<close>

record ('a, 'b) two_merge_iter =
  tm_a :: 'a
  tm_b :: 'b
  tm_num_iterators :: nat

definition two_merge_create ::
    "('a, 'k) iter_ops \<Rightarrow> ('b, 'k) iter_ops \<Rightarrow> 'a \<Rightarrow> 'b \<Rightarrow> ('a, 'b) two_merge_iter" where
  "two_merge_create da db a b =
     \<lparr>tm_a = a, tm_b = b, tm_num_iterators = it_num_active da a + it_num_active db b\<rparr>"

text \<open>Which side the current entry comes from, as \<open>key\<close> and \<open>value\<close> decide it.\<close>

definition two_merge_from_a ::
    "('a, 'k::linorder) iter_ops \<Rightarrow> ('b, 'k) iter_ops \<Rightarrow> ('a, 'b) two_merge_iter \<Rightarrow> bool res" where
  "two_merge_from_a da db t =
     and_then (it_is_valid db (tm_b t)) (\<lambda>b_valid.
     if \<not> b_valid then Inr True
     else and_then (it_is_valid da (tm_a t)) (\<lambda>a_valid.
     if \<not> a_valid then Inr False
     else and_then (it_key da (tm_a t)) (\<lambda>ka.
     and_then (it_key db (tm_b t)) (\<lambda>kb. Inr (ka \<le> kb)))))"

definition two_merge_key ::
    "('a, 'k::linorder) iter_ops \<Rightarrow> ('b, 'k) iter_ops \<Rightarrow> ('a, 'b) two_merge_iter \<Rightarrow> 'k res" where
  "two_merge_key da db t =
     and_then (two_merge_from_a da db t) (\<lambda>from_a.
     if from_a then it_key da (tm_a t) else it_key db (tm_b t))"

definition two_merge_value ::
    "('a, 'k::linorder) iter_ops \<Rightarrow> ('b, 'k) iter_ops \<Rightarrow> ('a, 'b) two_merge_iter \<Rightarrow> bytes res" where
  "two_merge_value da db t =
     and_then (two_merge_from_a da db t) (\<lambda>from_a.
     if from_a then it_value da (tm_a t) else it_value db (tm_b t))"

definition two_merge_is_valid ::
    "('a, 'k) iter_ops \<Rightarrow> ('b, 'k) iter_ops \<Rightarrow> ('a, 'b) two_merge_iter \<Rightarrow> bool res" where
  "two_merge_is_valid da db t =
     and_then (it_is_valid da (tm_a t)) (\<lambda>a_valid.
     if a_valid then Inr True else it_is_valid db (tm_b t))"

definition next_a :: "('a, 'k) iter_ops \<Rightarrow> ('a, 'b) two_merge_iter \<Rightarrow> unit res \<times> ('a, 'b) two_merge_iter" where
  "next_a da t = (case it_next da (tm_a t) of (r, a) \<Rightarrow> (r, t\<lparr>tm_a := a\<rparr>))"

definition next_b :: "('b, 'k) iter_ops \<Rightarrow> ('a, 'b) two_merge_iter \<Rightarrow> unit res \<times> ('a, 'b) two_merge_iter" where
  "next_b db t = (case it_next db (tm_b t) of (r, b) \<Rightarrow> (r, t\<lparr>tm_b := b\<rparr>))"

definition two_merge_next ::
    "('a, 'k::linorder) iter_ops \<Rightarrow> ('b, 'k) iter_ops \<Rightarrow> ('a, 'b) two_merge_iter \<Rightarrow>
     unit res \<times> ('a, 'b) two_merge_iter" where
  "two_merge_next da db t =
     (case it_is_valid db (tm_b t) of
        Inl e \<Rightarrow> (Inl e, t)
      | Inr False \<Rightarrow> next_a da t
      | Inr True \<Rightarrow>
     (case it_is_valid da (tm_a t) of
        Inl e \<Rightarrow> (Inl e, t)
      | Inr False \<Rightarrow> next_b db t
      | Inr True \<Rightarrow>
     (case and_then (it_key da (tm_a t)) (\<lambda>ka. and_then (it_key db (tm_b t)) (\<lambda>kb. Inr (ka, kb))) of
        Inl e \<Rightarrow> (Inl e, t)
      | Inr (ka, kb) \<Rightarrow>
          if ka < kb then next_a da t
          else if kb < ka then next_b db t
          else (case next_a da t of (ra, t) \<Rightarrow>
                case next_b db t of (rb, t) \<Rightarrow> (and_then ra (\<lambda>_. rb), t)))))"

definition two_merge_ops ::
    "('a, 'k::linorder) iter_ops \<Rightarrow> ('b, 'k) iter_ops \<Rightarrow> (('a, 'b) two_merge_iter, 'k) iter_ops" where
  "two_merge_ops da db =
     \<lparr>it_value = two_merge_value da db, it_key = two_merge_key da db,
      it_is_valid = two_merge_is_valid da db, it_next = two_merge_next da db,
      it_num_active = tm_num_iterators\<rparr>"

text \<open>The merge of two strictly sorted lists that prefers the first on equal keys.\<close>

fun kmerge :: "('k::linorder \<times> 'v) list \<Rightarrow> ('k \<times> 'v) list \<Rightarrow> ('k \<times> 'v) list" where
  "kmerge [] ys = ys"
| "kmerge xs [] = xs"
| "kmerge (x # xs) (y # ys) =
     (if fst x < fst y then x # kmerge xs (y # ys)
      else if fst y < fst x then y # kmerge (x # xs) ys
      else x # kmerge xs ys)"

lemma kmerge_Nil2 [simp]: "kmerge xs [] = xs"
  by (cases xs) auto

lemma set_kmerge: "set (kmerge xs ys) \<subseteq> set xs \<union> set ys"
  by (induction xs ys rule: kmerge.induct) auto

lemma keys_kmerge: "fst ` set (kmerge xs ys) = fst ` set xs \<union> fst ` set ys"
  by (induction xs ys rule: kmerge.induct) auto

lemma sorted1_kmerge: "sorted1 xs \<Longrightarrow> sorted1 ys \<Longrightarrow> sorted1 (kmerge xs ys)"
proof (induction xs ys rule: kmerge.induct)
  case (3 x xs y ys)
  have "\<forall>z \<in> set (kmerge xs (y # ys)). fst x < fst z" if "fst x < fst y"
    using that "3.prems" set_kmerge [of xs "y # ys"] by fastforce
  moreover have "\<forall>z \<in> set (kmerge (x # xs) ys). fst y < fst z" if "fst y < fst x"
    using that "3.prems" set_kmerge [of "x # xs" ys] by fastforce
  moreover have "\<forall>z \<in> set (kmerge xs ys). fst x < fst z" if "fst x = fst y"
    using that "3.prems" set_kmerge [of xs ys] by fastforce
  ultimately show ?case using 3 by (auto simp: not_less) force
qed auto

lemma map_of_kmerge:
  "sorted1 xs \<Longrightarrow> sorted1 ys \<Longrightarrow> map_of (kmerge xs ys) = map_of ys ++ map_of xs"
proof (induction xs ys rule: kmerge.induct)
  case (3 x xs y ys)
  obtain k v l w where xy: "x = (k, v)" "y = (l, w)" by (cases x; cases y)
  have "map_of xs l = None" if "l \<le> k"
    using that "3.prems" xy by (fastforce simp: map_of_eq_None_iff)
  with 3 xy show ?case
    by (auto simp: fun_eq_iff map_add_def not_less split: option.splits)
qed (auto simp: map_add_def split: option.splits)

lemma kmerge_eq_Nil [simp]: "kmerge xs ys = [] \<longleftrightarrow> xs = [] \<and> ys = []"
  by (induction xs ys rule: kmerge.induct) auto

locale two_merge =
  a: sorted_iterator da inva conta + b: sorted_iterator db invb contb
  for da :: "('a, 'k::linorder) iter_ops" and inva conta
    and db :: "('b, 'k) iter_ops" and invb contb

definition two_merge_inv :: "('a \<Rightarrow> bool) \<Rightarrow> ('b \<Rightarrow> bool) \<Rightarrow> ('a, 'b) two_merge_iter \<Rightarrow> bool" where
  "two_merge_inv inva invb t \<longleftrightarrow> inva (tm_a t) \<and> invb (tm_b t)"

definition two_merge_cont ::
    "('a \<Rightarrow> ('k::linorder \<times> bytes) list) \<Rightarrow> ('b \<Rightarrow> ('k \<times> bytes) list) \<Rightarrow>
     ('a, 'b) two_merge_iter \<Rightarrow> ('k \<times> bytes) list" where
  "two_merge_cont conta contb t = kmerge (conta (tm_a t)) (contb (tm_b t))"

context two_merge
begin

lemma from_a:
  assumes "inva (tm_a t)" "invb (tm_b t)"
  shows "two_merge_from_a da db t =
    Inr (contb (tm_b t) = [] \<or> conta (tm_a t) \<noteq> [] \<and> fst (hd (conta (tm_a t))) \<le> fst (hd (contb (tm_b t))))"
  using assms
  by (cases "conta (tm_a t)"; cases "contb (tm_b t)")
    (simp_all add: two_merge_from_a_def a.valid b.valid a.key b.key)

lemma next_both:
  assumes "inva (tm_a t)" "invb (tm_b t)"
  shows "\<exists>t'. two_merge_next da db t = (Inr (), t') \<and> two_merge_inv inva invb t' \<and>
    two_merge_cont conta contb t' = tl (two_merge_cont conta contb t)"
proof -
  obtain a' where a': "it_next da (tm_a t) = (Inr (), a')" "inva a'" "conta a' = tl (conta (tm_a t))"
    using a.nxt [OF assms(1)] by blast
  obtain b' where b': "it_next db (tm_b t) = (Inr (), b')" "invb b'" "contb b' = tl (contb (tm_b t))"
    using b.nxt [OF assms(2)] by blast
  show ?thesis
  proof (cases "contb (tm_b t)")
    case Nil
    with assms a' show ?thesis
      by (simp add: two_merge_next_def b.valid next_a_def two_merge_inv_def two_merge_cont_def)
  next
    case B: (Cons y ys)
    show ?thesis
    proof (cases "conta (tm_a t)")
      case Nil
      with B assms b' show ?thesis
        by (simp add: two_merge_next_def a.valid b.valid next_b_def two_merge_inv_def two_merge_cont_def)
    next
      case A: (Cons x xs)
      with B assms a' b' show ?thesis
        by (simp add: two_merge_next_def a.valid b.valid a.key b.key next_a_def next_b_def
            two_merge_inv_def two_merge_cont_def)
    qed
  qed
qed

end

sublocale two_merge \<subseteq> out: sorted_iterator "two_merge_ops da db" "two_merge_inv inva invb"
  "two_merge_cont conta contb"
proof
  fix t :: "('a, 'b) two_merge_iter"
  assume "two_merge_inv inva invb t"
  then have i: "inva (tm_a t)" "invb (tm_b t)" by (simp_all add: two_merge_inv_def)
  show "it_is_valid (two_merge_ops da db) t = Inr (two_merge_cont conta contb t \<noteq> [])"
    using i by (simp add: two_merge_ops_def two_merge_is_valid_def two_merge_cont_def a.valid b.valid)
  show "\<exists>t'. it_next (two_merge_ops da db) t = (Inr (), t') \<and> two_merge_inv inva invb t' \<and>
      two_merge_cont conta contb t' = tl (two_merge_cont conta contb t)"
    using next_both [OF i] by (simp add: two_merge_ops_def)
  show "sorted1 (two_merge_cont conta contb t)"
    using i by (simp add: two_merge_cont_def sorted1_kmerge a.sorted b.sorted)
  fix x xs
  assume c: "two_merge_cont conta contb t = x # xs"
  show "it_key (two_merge_ops da db) t = Inr (fst x)" "it_value (two_merge_ops da db) t = Inr (snd x)"
    using i c
    by (cases "conta (tm_a t)"; cases "contb (tm_b t)";
        auto simp: two_merge_ops_def two_merge_key_def two_merge_value_def two_merge_cont_def
          from_a a.key b.key a.val b.val split: if_splits)+
qed

section \<open>Merging many iterators of one type\<close>

type_synonym 'i heap_wrapper = "nat \<times> 'i"

record 'i merge_iter =
  mi_iters :: "'i heap_wrapper list"
  mi_current :: "'i heap_wrapper option"
  mi_num_iterators :: nat

text \<open>
  \<open>BinaryHeap::pop\<close> for the reversed order of \<open>HeapWrapper\<close>: the entry with the least key, and
  among equal keys the one with the least index.
\<close>

fun heap_pop ::
    "('i, 'k::linorder) iter_ops \<Rightarrow> 'i heap_wrapper list \<Rightarrow> ('i heap_wrapper \<times> 'i heap_wrapper list) option res" where
  "heap_pop d [] = Inr None"
| "heap_pop d (w # ws) =
     and_then (heap_pop d ws) (\<lambda>r. case r of
       None \<Rightarrow> Inr (Some (w, []))
     | Some (m, rest) \<Rightarrow>
         and_then (it_key d (snd w)) (\<lambda>kw.
         and_then (it_key d (snd m)) (\<lambda>km.
         if kw < km \<or> kw = km \<and> fst w < fst m
         then Inr (Some (w, m # rest))
         else Inr (Some (m, w # rest)))))"

fun merge_collect ::
    "('i, 'k) iter_ops \<Rightarrow> nat \<Rightarrow> 'i list \<Rightarrow> ('i heap_wrapper list \<times> nat) res" where
  "merge_collect d n [] = Inr ([], 0)"
| "merge_collect d n (i # is) =
     and_then (it_is_valid d i) (\<lambda>v.
     and_then (merge_collect d (Suc n) is) (\<lambda>(ws, num).
     Inr (if v then ((n, i) # ws, it_num_active d i + num) else (ws, num))))"

definition merge_create :: "('i, 'k::linorder) iter_ops \<Rightarrow> 'i list \<Rightarrow> 'i merge_iter res" where
  "merge_create d iters =
     and_then (merge_collect d 0 iters) (\<lambda>(binary_heap, num_iterators).
     and_then (heap_pop d binary_heap) (\<lambda>r.
     Inr (case r of
            None \<Rightarrow> \<lparr>mi_iters = [], mi_current = None, mi_num_iterators = num_iterators\<rparr>
          | Some (w, rest) \<Rightarrow>
              \<lparr>mi_iters = rest, mi_current = Some w, mi_num_iterators = num_iterators\<rparr>)))"

definition merge_key :: "('i, key) iter_ops \<Rightarrow> 'i merge_iter \<Rightarrow> key res" where
  "merge_key d m =
     (case mi_current m of Some w \<Rightarrow> it_key d (snd w) | None \<Rightarrow> Inr (Key [] TS_DEFAULT))"

definition merge_value :: "('i, key) iter_ops \<Rightarrow> 'i merge_iter \<Rightarrow> bytes res" where
  "merge_value d m = (case mi_current m of Some w \<Rightarrow> it_value d (snd w) | None \<Rightarrow> Inr [])"

definition merge_is_valid :: "'i merge_iter \<Rightarrow> bool" where
  "merge_is_valid m \<longleftrightarrow> mi_current m \<noteq> None"

text \<open>One round of the loop of \<open>next\<close>: drop a stale entry, or take the next one as current.\<close>

definition merge_next_body ::
    "('i, key) iter_ops \<Rightarrow> key \<Rightarrow> 'i merge_iter \<Rightarrow> unit res option \<times> 'i merge_iter" where
  "merge_next_body d prev_key m =
     (case heap_pop d (mi_iters m) of
        Inl e \<Rightarrow> (Some (Inl e), m)
      | Inr None \<Rightarrow> (Some (Inr ()), m\<lparr>mi_current := None\<rparr>)
      | Inr (Some ((n, i), rest)) \<Rightarrow>
          (case it_key d i of
             Inl e \<Rightarrow> (Some (Inl e), m\<lparr>mi_iters := rest\<rparr>)
           | Inr k \<Rightarrow>
               if k = prev_key then
                 (case it_next d i of
                    (Inl e, _) \<Rightarrow> (Some (Inl e), m\<lparr>mi_iters := rest\<rparr>)
                  | (Inr _, i') \<Rightarrow>
                      (case it_is_valid d i' of
                         Inl e \<Rightarrow> (Some (Inl e), m\<lparr>mi_iters := rest\<rparr>)
                       | Inr True \<Rightarrow> (None, m\<lparr>mi_iters := (n, i') # rest\<rparr>)
                       | Inr False \<Rightarrow> (None, m\<lparr>mi_iters := rest\<rparr>)))
               else
                 (case it_is_valid d i of
                    Inl e \<Rightarrow> (Some (Inl e), m\<lparr>mi_iters := rest\<rparr>)
                  | Inr True \<Rightarrow> (Some (Inr ()), m\<lparr>mi_iters := rest, mi_current := Some (n, i)\<rparr>)
                  | Inr False \<Rightarrow> (None, m\<lparr>mi_iters := rest\<rparr>))))"

text \<open>The current iterator is taken out, advanced, and put back on the heap if it is still valid.\<close>

definition merge_advance_current ::
    "('i, key) iter_ops \<Rightarrow> 'i merge_iter \<Rightarrow> unit res \<times> 'i merge_iter" where
  "merge_advance_current d m =
     (case mi_current m of
        None \<Rightarrow> (Inr (), m)
      | Some (n, i) \<Rightarrow>
          (case it_next d i of
             (Inl e, _) \<Rightarrow> (Inl e, m\<lparr>mi_current := None\<rparr>)
           | (Inr _, i') \<Rightarrow>
               (case it_is_valid d i' of
                  Inl e \<Rightarrow> (Inl e, m\<lparr>mi_current := None\<rparr>)
                | Inr True \<Rightarrow> (Inr (), m\<lparr>mi_current := None, mi_iters := (n, i') # mi_iters m\<rparr>)
                | Inr False \<Rightarrow> (Inr (), m\<lparr>mi_current := None\<rparr>))))"

definition merge_next :: "('i, key) iter_ops \<Rightarrow> 'i merge_iter \<Rightarrow> unit res \<times> 'i merge_iter" where
  "merge_next d m =
     (case (case mi_current m of Some w \<Rightarrow> it_key d (snd w) | None \<Rightarrow> Inr key_new) of
        Inl e \<Rightarrow> (Inl e, m)
      | Inr prev_key \<Rightarrow>
          (case merge_advance_current d m of
             (Inl e, m) \<Rightarrow> (Inl e, m)
           | (Inr _, m) \<Rightarrow> loop_until (merge_next_body d prev_key) m))"

definition merge_ops :: "('i, key) iter_ops \<Rightarrow> ('i merge_iter, key) iter_ops" where
  "merge_ops d =
     \<lparr>it_value = merge_value d, it_key = merge_key d, it_is_valid = (\<lambda>m. Inr (merge_is_valid m)),
      it_next = merge_next d, it_num_active = mi_num_iterators\<rparr>"

section \<open>What the heap holds\<close>

text \<open>
  The meaning of a set of indexed iterators: their contents laid over each other, the least
  index on top.
\<close>

definition best :: "('i \<Rightarrow> ('k::linorder \<times> bytes) list) \<Rightarrow> 'i heap_wrapper list \<Rightarrow> 'k \<rightharpoonup> bytes" where
  "best cont ws = overlay (map (\<lambda>w. map_of (cont (snd w))) (sort_key fst ws))"

lemma overlay_sorted_Some:
  assumes "sorted_wrt (<) (map fst ws)"
  shows "overlay (map (\<lambda>w. f (snd w)) ws) k = Some v \<longleftrightarrow>
    (\<exists>(n :: nat) i. (n, i) \<in> set ws \<and> f i k = Some v \<and>
       (\<forall>n' i' v'. (n', i') \<in> set ws \<longrightarrow> f i' k = Some v' \<longrightarrow> n \<le> n'))"
  using assms
proof (induction ws)
  case (Cons a ws)
  obtain m j where a: "a = (m, j)" by (cases a)
  have less: "m < n" if "(n, i) \<in> set ws" for n i using Cons.prems that by (force simp: a)
  show ?case
  proof (cases "f j k")
    case None
    then have "(\<exists>n i. (n, i) \<in> set (a # ws) \<and> f i k = Some v \<and>
          (\<forall>n' i' v'. (n', i') \<in> set (a # ws) \<longrightarrow> f i' k = Some v' \<longrightarrow> n \<le> n')) \<longleftrightarrow>
        (\<exists>n i. (n, i) \<in> set ws \<and> f i k = Some v \<and>
          (\<forall>n' i' v'. (n', i') \<in> set ws \<longrightarrow> f i' k = Some v' \<longrightarrow> n \<le> n'))"
      by (auto simp: a)
    with None Cons show ?thesis by (simp add: map_add_def a)
  next
    case (Some u)
    have "(\<exists>n i. (n, i) \<in> set (a # ws) \<and> f i k = Some v \<and>
          (\<forall>n' i' v'. (n', i') \<in> set (a # ws) \<longrightarrow> f i' k = Some v' \<longrightarrow> n \<le> n')) \<longleftrightarrow> u = v"
    proof
      assume "\<exists>n i. (n, i) \<in> set (a # ws) \<and> f i k = Some v \<and>
          (\<forall>n' i' v'. (n', i') \<in> set (a # ws) \<longrightarrow> f i' k = Some v' \<longrightarrow> n \<le> n')"
      then obtain n i where ni: "(n, i) \<in> set (a # ws)" "f i k = Some v"
        and all: "\<forall>n' i' v'. (n', i') \<in> set (a # ws) \<longrightarrow> f i' k = Some v' \<longrightarrow> n \<le> n'"
        by blast
      have "n \<le> m" using all Some by (simp add: a)
      with ni less [of n i] Some show "u = v" by (auto simp: a)
    next
      assume "u = v"
      with Some show "\<exists>n i. (n, i) \<in> set (a # ws) \<and> f i k = Some v \<and>
          (\<forall>n' i' v'. (n', i') \<in> set (a # ws) \<longrightarrow> f i' k = Some v' \<longrightarrow> n \<le> n')"
        using less by (intro exI [of _ m] exI [of _ j]) (auto simp: a dest: less_imp_le)
    qed
    with Some show ?thesis by (simp add: map_add_def a)
  qed
qed simp

lemma best_Some:
  assumes "distinct (map fst ws)"
  shows "best cont ws k = Some v \<longleftrightarrow>
    (\<exists>n i. (n, i) \<in> set ws \<and> map_of (cont i) k = Some v \<and>
       (\<forall>n' i' v'. (n', i') \<in> set ws \<longrightarrow> map_of (cont i') k = Some v' \<longrightarrow> n \<le> n'))"
proof -
  have "distinct (map fst (sort_key fst ws))"
    using assms by (metis mset_map mset_sort mset_eq_imp_distinct_iff)
  then have "sorted_wrt (<) (map fst (sort_key fst ws))"
    by (simp add: strict_sorted_iff)
  from overlay_sorted_Some [OF this, of "\<lambda>i. map_of (cont i)" k v] show ?thesis
    by (simp add: best_def)
qed

lemma dom_best: "dom (best cont ws) = (\<Union>w \<in> set ws. fst ` set (cont (snd w)))"
  by (simp add: best_def dom_overlay dom_map_of_conv_image_fst)

lemma finite_dom_best [simp]: "finite (dom (best cont ws))"
  by (simp add: dom_best)

lemma best_None: "best cont ws k = None \<longleftrightarrow> (\<forall>w \<in> set ws. map_of (cont (snd w)) k = None)"
  using dom_best [of cont ws] by (auto simp: map_of_eq_None_iff domIff)

lemma option_eqI: "(\<And>v. a = Some v \<longleftrightarrow> b = Some v) \<Longrightarrow> a = b"
  by (cases a; cases b) auto

text \<open>The entry a key has depends only on which indices have a value for it.\<close>

lemma best_cong_at:
  assumes "distinct (map fst ws)" "distinct (map fst ws')"
    and "\<And>n v. (\<exists>i. (n, i) \<in> set ws \<and> map_of (cont i) k = Some v) \<longleftrightarrow>
               (\<exists>i. (n, i) \<in> set ws' \<and> map_of (cont i) k = Some v)"
  shows "best cont ws k = best cont ws' k"
proof (rule option_eqI)
  define hits where "hits ws n v \<longleftrightarrow> (\<exists>i. (n, i) \<in> set ws \<and> map_of (cont i) k = Some v)" for ws and n :: nat and v
  have best: "best cont us k = Some v \<longleftrightarrow> (\<exists>n. hits us n v \<and> (\<forall>n' v'. hits us n' v' \<longrightarrow> n \<le> n'))"
    if "distinct (map fst us)" for us v
    unfolding best_Some [OF that] hits_def by blast
  have "hits ws = hits ws'" using assms(3) by (simp add: hits_def fun_eq_iff)
  then show "best cont ws k = Some v \<longleftrightarrow> best cont ws' k = Some v" for v
    unfolding best [OF assms(1)] best [OF assms(2)] by simp
qed

lemma best_mset:
  assumes "mset ws = mset ws'" "distinct (map fst ws)"
  shows "best cont ws = best cont ws'"
proof
  fix k
  have "distinct (map fst ws')" using assms by (metis mset_map mset_eq_imp_distinct_iff)
  moreover have "set ws = set ws'" using assms(1) by (metis set_mset_mset)
  ultimately show "best cont ws k = best cont ws' k" using assms(2) by (intro best_cong_at) auto
qed

lemma best_Cons_cong:
  assumes "distinct (map fst ((n, i) # ws))" "map_of (cont i) k = map_of (cont i') k"
  shows "best cont ((n, i) # ws) k = best cont ((n, i') # ws) k"
  by (rule best_cong_at) (use assms in auto)

lemma best_Cons_skip:
  assumes "distinct (map fst ((n, i) # ws))" "map_of (cont i) k = None"
  shows "best cont ((n, i) # ws) k = best cont ws k"
  by (rule best_cong_at) (use assms in auto)

section \<open>The merged contents\<close>

definition merge_wrappers :: "'i merge_iter \<Rightarrow> 'i heap_wrapper list" where
  "merge_wrappers m = (case mi_current m of None \<Rightarrow> [] | Some w \<Rightarrow> [w]) @ mi_iters m"

definition merge_cont ::
    "('i \<Rightarrow> (key \<times> bytes) list) \<Rightarrow> 'i merge_iter \<Rightarrow> (key \<times> bytes) list" where
  "merge_cont cont m = list_of_map (best cont (merge_wrappers m))"

definition heap_inv ::
    "('i \<Rightarrow> bool) \<Rightarrow> ('i \<Rightarrow> (key \<times> bytes) list) \<Rightarrow> 'i heap_wrapper list \<Rightarrow> bool" where
  "heap_inv iinv cont ws \<longleftrightarrow> distinct (map fst ws) \<and> (\<forall>(n, i) \<in> set ws. iinv i \<and> cont i \<noteq> [])"

text \<open>The current entry is the least one: least key, and least index among equal keys.\<close>

definition is_least ::
    "('i \<Rightarrow> (key \<times> bytes) list) \<Rightarrow> 'i heap_wrapper \<Rightarrow> 'i heap_wrapper list \<Rightarrow> bool" where
  "is_least cont w ws \<longleftrightarrow> (\<forall>w' \<in> set ws.
     fst (hd (cont (snd w))) < fst (hd (cont (snd w'))) \<or>
     fst (hd (cont (snd w))) = fst (hd (cont (snd w'))) \<and> fst w \<le> fst w')"

definition merge_inv ::
    "('i \<Rightarrow> bool) \<Rightarrow> ('i \<Rightarrow> (key \<times> bytes) list) \<Rightarrow> 'i merge_iter \<Rightarrow> bool" where
  "merge_inv iinv cont m \<longleftrightarrow>
     heap_inv iinv cont (merge_wrappers m) \<and>
     (case mi_current m of None \<Rightarrow> mi_iters m = [] | Some w \<Rightarrow> is_least cont w (mi_iters m))"

locale merge_iterator = sorted_iterator d iinv cont
  for d :: "('i, key) iter_ops" and iinv cont

context merge_iterator
begin

lemma heap_pop_least:
  "heap_inv iinv cont ws \<Longrightarrow> ws \<noteq> [] \<Longrightarrow>
   \<exists>w rest. heap_pop d ws = Inr (Some (w, rest)) \<and> mset (w # rest) = mset ws \<and> is_least cont w rest"
proof (induction ws)
  case (Cons w ws)
  have key_of: "it_key d (snd w) = Inr (fst (hd (cont (snd w))))" if "w \<in> set us" "heap_inv iinv cont us" for w us
    using that key [of "snd w"] by (cases "cont (snd w)") (auto simp: heap_inv_def)
  show ?case
  proof (cases "ws = []")
    case True
    then show ?thesis by (simp add: is_least_def)
  next
    case False
    have iinv': "heap_inv iinv cont ws" using Cons.prems(1) by (auto simp: heap_inv_def)
    obtain m rest where m: "heap_pop d ws = Inr (Some (m, rest))" "mset (m # rest) = mset ws"
        "is_least cont m rest"
      using Cons.IH [OF iinv' False] by blast
    have "set (m # rest) = set ws" using m(2) by (metis set_mset_mset)
    then have mem: "m \<in> set ws" "set rest \<subseteq> set ws" by auto
    have keys: "it_key d (snd w) = Inr (fst (hd (cont (snd w))))"
        "it_key d (snd m) = Inr (fst (hd (cont (snd m))))"
      using key_of [OF _ Cons.prems(1)] key_of [OF mem(1) iinv'] by auto
    define before where "before \<longleftrightarrow> fst (hd (cont (snd w))) < fst (hd (cont (snd m))) \<or>
      fst (hd (cont (snd w))) = fst (hd (cont (snd m))) \<and> fst w < fst m"
    have pop: "heap_pop d (w # ws) = Inr (Some (if before then (w, m # rest) else (m, w # rest)))"
      using m(1) keys by (auto simp: before_def)
    show ?thesis
    proof (cases before)
      case True
      have "is_least cont w (m # rest)"
        unfolding is_least_def
      proof
        fix u assume "u \<in> set (m # rest)"
        then show "fst (hd (cont (snd w))) < fst (hd (cont (snd u))) \<or>
            fst (hd (cont (snd w))) = fst (hd (cont (snd u))) \<and> fst w \<le> fst u"
          using True m(3) unfolding before_def is_least_def
          by (auto dest: order_less_trans intro: less_imp_le)
      qed
      then show ?thesis using pop True m(2) by simp
    next
      case False
      then have "is_least cont m (w # rest)"
        using m(3) by (auto simp: is_least_def before_def)
      moreover have "mset (m # w # rest) = mset (w # ws)" using m(2) by simp
      ultimately show ?thesis using pop False by auto
    qed
  qed
qed simp

lemma heap_inv_mset: "heap_inv iinv cont ws \<Longrightarrow> mset ws = mset ws' \<Longrightarrow> heap_inv iinv cont ws'"
  using mset_eq_setD [of ws ws'] mset_eq_imp_distinct_iff [of "map fst ws" "map fst ws'"]
  by (simp add: heap_inv_def)

lemma heap_head:
  assumes "iinv i" "cont i = x # xs" "k \<in> fst ` set (cont i)"
  shows "fst x \<le> k"
  using sorted [OF assms(1)] assms(2,3) by (auto simp: less_imp_le)

text \<open>The least wrapper supplies the first entry of the merge.\<close>

lemma best_least:
  assumes "heap_inv iinv cont ((n, i) # ws)" "is_least cont (n, i) ws"
  shows "best cont ((n, i) # ws) (fst (hd (cont i))) = Some (snd (hd (cont i)))"
    and "l \<in> dom (best cont ((n, i) # ws)) \<Longrightarrow> fst (hd (cont i)) \<le> l"
proof -
  obtain x xs where x: "cont i = x # xs" using assms(1) by (cases "cont i") (auto simp: heap_inv_def)
  have heads: "\<exists>y ys. cont i' = y # ys \<and> iinv i' \<and> (fst x < fst y \<or> fst x = fst y \<and> n \<le> n')"
    if "(n', i') \<in> set ((n, i) # ws)" for n' i'
    using that assms x by (cases "cont i'") (fastforce simp: heap_inv_def is_least_def)+
  have "n \<le> n'" if mem: "(n', i') \<in> set ((n, i) # ws)" and v': "map_of (cont i') (fst x) = Some v'" for n' i' v'
  proof -
    obtain y ys where y: "cont i' = y # ys" "iinv i'" "fst x < fst y \<or> fst x = fst y \<and> n \<le> n'"
      using heads [OF mem] by blast
    have "fst y \<le> fst x"
      using heap_head [OF y(2,1)] map_of_SomeD [OF v'] by force
    with y(3) show ?thesis by auto
  qed
  then have all: "\<forall>n' i' v'. (n', i') \<in> set ((n, i) # ws) \<longrightarrow> map_of (cont i') (fst x) = Some v' \<longrightarrow> n \<le> n'"
    by blast
  have hit: "map_of (cont i) (fst x) = Some (snd x)" by (cases x) (simp add: x)
  have dist: "distinct (map fst ((n, i) # ws))" using assms(1) by (simp add: heap_inv_def)
  have "best cont ((n, i) # ws) (fst x) = Some (snd x)"
    unfolding best_Some [OF dist]
    by (rule exI [of _ n], rule exI [of _ i]) (use hit all in simp)
  then show "best cont ((n, i) # ws) (fst (hd (cont i))) = Some (snd (hd (cont i)))"
    by (simp add: x)
  assume "l \<in> dom (best cont ((n, i) # ws))"
  then obtain n' i' where l: "(n', i') \<in> set ((n, i) # ws)" "l \<in> fst ` set (cont i')"
    unfolding dom_best by force
  obtain y ys where y: "cont i' = y # ys" "iinv i'" "fst x \<le> fst y"
    using heads [OF l(1)] by auto
  then show "fst (hd (cont i)) \<le> l" using heap_head [OF y(2,1) l(2)] by (simp add: x)
qed

text \<open>Advancing the iterator that supplied key \<open>k\<close> changes nothing but the entry of \<open>k\<close>.\<close>

lemma best_advance:
  assumes h: "heap_inv iinv cont ((n, i) # ws)" and x: "cont i = x # xs" and i': "iinv i'" "cont i' = xs"
  shows "(best cont ((n, i) # ws))(fst x := None) =
         (best cont (if xs = [] then ws else (n, i') # ws))(fst x := None)"
    and "heap_inv iinv cont (if xs = [] then ws else (n, i') # ws)"
proof -
  have dist: "distinct (map fst ((n, i) # ws))" "distinct (map fst ((n, i') # ws))"
    and "iinv i" using h by (auto simp: heap_inv_def)
  have s: "sorted1 (x # xs)" using sorted [OF \<open>iinv i\<close>] x by simp
  show "heap_inv iinv cont (if xs = [] then ws else (n, i') # ws)"
    using h i' by (auto simp: heap_inv_def)
  show "(best cont ((n, i) # ws))(fst x := None) =
         (best cont (if xs = [] then ws else (n, i') # ws))(fst x := None)"
  proof
    fix k
    have "best cont ((n, i) # ws) k = best cont ((n, i') # ws) k" if "k \<noteq> fst x"
      using that map_of_tl [OF s] by (intro best_Cons_cong [OF dist(1)]) (simp add: x i'(2))
    moreover have "best cont ((n, i') # ws) k = best cont ws k" if "xs = []"
      using that i'(2) by (intro best_Cons_skip [OF dist(2)]) simp
    ultimately show "((best cont ((n, i) # ws))(fst x := None)) k =
         ((best cont (if xs = [] then ws else (n, i') # ws))(fst x := None)) k"
      by simp
  qed
qed

lemma merge_cont_current:
  assumes iinv: "merge_inv iinv cont m" and cur: "mi_current m = Some (n, i)"
  shows "merge_cont cont m =
    hd (cont i) # list_of_map ((best cont ((n, i) # mi_iters m))(fst (hd (cont i)) := None))"
proof -
  have h: "heap_inv iinv cont ((n, i) # mi_iters m)" "is_least cont (n, i) (mi_iters m)"
    using iinv cur by (simp_all add: merge_inv_def merge_wrappers_def)
  show ?thesis
    using list_of_map_Cons [OF finite_dom_best best_least(1) [OF h] best_least(2) [OF h]]
    by (simp add: merge_cont_def merge_wrappers_def cur)
qed

lemma merge_cont_none:
  "merge_inv iinv cont m \<Longrightarrow> mi_current m = None \<Longrightarrow> merge_cont cont m = []"
  by (simp add: merge_inv_def merge_cont_def merge_wrappers_def best_def list_of_map_eq_Nil)

lemma heap_pop_split:
  assumes "heap_inv iinv cont ws" "ws \<noteq> []"
  obtains n i rest x xs where "heap_pop d ws = Inr (Some ((n, i), rest))"
    "heap_inv iinv cont ((n, i) # rest)" "is_least cont (n, i) rest"
    "best cont ws = best cont ((n, i) # rest)" "mset ws = mset ((n, i) # rest)"
    "iinv i" "cont i = x # xs"
proof -
  obtain w rest where w: "heap_pop d ws = Inr (Some (w, rest))" "mset (w # rest) = mset ws"
      "is_least cont w rest"
    using heap_pop_least [OF assms] by blast
  obtain n i where ni: "w = (n, i)" by (cases w)
  have h: "heap_inv iinv cont ((n, i) # rest)"
    using heap_inv_mset [OF assms(1)] w(2) by (simp add: ni)
  then have "iinv i" "cont i \<noteq> []" by (simp_all add: heap_inv_def)
  moreover have "best cont ws = best cont (w # rest)"
    using assms(1) w(2) by (intro best_mset) (simp_all add: heap_inv_def)
  ultimately show thesis
    using w h by (cases "cont i") (auto simp: ni intro: that)
qed

text \<open>The loop of \<open>next\<close> drops every entry of the previous key and stops at the least other one.\<close>

lemma merge_loop:
  assumes "heap_inv iinv cont (mi_iters m)" "\<forall>l \<in> dom (best cont (mi_iters m)). k \<le> l"
  shows "\<exists>m'. loop_until (merge_next_body d k) m = (Inr (), m') \<and> merge_inv iinv cont m' \<and>
    merge_cont cont m' = list_of_map ((best cont (mi_iters m))(k := None))"
  using assms
proof (induction "\<Sum>w \<leftarrow> mi_iters m. length (cont (snd w))" arbitrary: m rule: less_induct)
  case less
  show ?case
  proof (cases "mi_iters m = []")
    case True
    then show ?thesis
      by (simp add: loop_until_unfold [where s = m] merge_next_body_def merge_inv_def merge_wrappers_def
          heap_inv_def merge_cont_def best_def)
  next
    case False
    obtain n i rest x xs where p: "heap_pop d (mi_iters m) = Inr (Some ((n, i), rest))"
        "heap_inv iinv cont ((n, i) # rest)" "is_least cont (n, i) rest"
        "best cont (mi_iters m) = best cont ((n, i) # rest)" "mset (mi_iters m) = mset ((n, i) # rest)"
        "iinv i" "cont i = x # xs"
      using heap_pop_split [OF less.prems(1) False] by blast
    have keyx: "it_key d i = Inr (fst x)" "it_is_valid d i = Inr True"
      using key [OF p(6,7)] valid [OF p(6)] p(7) by auto
    have size: "(\<Sum>w \<leftarrow> mi_iters m. length (cont (snd w))) = length (cont i) + (\<Sum>w \<leftarrow> rest. length (cont (snd w)))"
      using arg_cong [OF p(5), of "\<lambda>M. \<Sum>w \<in># M. length (cont (snd w))"] by (simp flip: sum_mset_sum_list)
    show ?thesis
    proof (cases "fst x = k")
      case True
      obtain i' where i': "it_next d i = (Inr (), i')" "iinv i'" "cont i' = xs"
        using next_Cons [OF p(6,7)] by blast
      let ?ws = "if xs = [] then rest else (n, i') # rest"
      define m1 where "m1 = m\<lparr>mi_iters := ?ws\<rparr>"
      have m1: "mi_iters m1 = ?ws" by (simp add: m1_def)
      note adv = best_advance [OF p(2,7) i'(2,3)]
      have step: "merge_next_body d k m = (None, m1)"
        using p(1) keyx True i' valid [OF i'(2)]
        by (simp add: merge_next_body_def m1_def)
      have same: "(best cont (mi_iters m1))(k := None) = (best cont (mi_iters m))(k := None)"
        using adv(1) p(4) True m1 by simp
      have "dom (best cont ?ws) \<subseteq> dom (best cont ((n, i) # rest))"
        using p(7) i'(3) by (auto simp: dom_best)
      then have "\<forall>l \<in> dom (best cont (mi_iters m1)). k \<le> l"
        using less.prems(2) unfolding p(4) m1 by blast
      moreover have "(\<Sum>w \<leftarrow> mi_iters m1. length (cont (snd w))) < (\<Sum>w \<leftarrow> mi_iters m. length (cont (snd w)))"
        using size p(7) i'(3) m1 by simp
      moreover have "heap_inv iinv cont (mi_iters m1)" using adv(2) m1 by simp
      ultimately obtain m' where "loop_until (merge_next_body d k) m1 = (Inr (), m')" "merge_inv iinv cont m'"
          "merge_cont cont m' = list_of_map ((best cont (mi_iters m1))(k := None))"
        using less.hyps by blast
      then show ?thesis using step same by (simp add: loop_until_unfold [where s = m])
    next
      case False
      define m' where "m' = m\<lparr>mi_iters := rest, mi_current := Some (n, i)\<rparr>"
      have "merge_next_body d k m = (Some (Inr ()), m')"
        using p(1) keyx False by (simp add: merge_next_body_def m'_def)
      moreover have "merge_inv iinv cont m'"
        using p(2,3) by (simp add: m'_def merge_inv_def merge_wrappers_def)
      moreover have "k \<notin> dom (best cont (mi_iters m))"
        using best_least(2) [OF p(2,3), of k] less.prems(2) best_least(1) [OF p(2,3)] False p(4,7)
        by (metis antisym domI list.sel(1))
      then have "(best cont (mi_iters m))(k := None) = best cont (mi_iters m)"
        by (auto simp: fun_upd_def fun_eq_iff domIff)
      ultimately show ?thesis
        using p(4) by (simp add: loop_until_unfold [where s = m] merge_cont_def merge_wrappers_def m'_def)
    qed
  qed
qed

lemma merge_next_cont:
  assumes inv: "merge_inv iinv cont m"
  shows "\<exists>m'. merge_next d m = (Inr (), m') \<and> merge_inv iinv cont m' \<and> merge_cont cont m' = tl (merge_cont cont m)"
proof (cases "mi_current m")
  case None
  then have [simp]: "mi_iters m = []" using inv by (simp add: merge_inv_def)
  have "heap_inv iinv cont (mi_iters m)" by (simp add: heap_inv_def)
  from merge_loop [OF this, of key_new] None merge_cont_none [OF inv None] show ?thesis
    by (simp add: merge_next_def merge_advance_current_def best_def) (simp add: list_of_map_def)
next
  case (Some w)
  obtain n i where w: "w = (n, i)" by (cases w)
  have h: "heap_inv iinv cont ((n, i) # mi_iters m)" "is_least cont (n, i) (mi_iters m)"
    using inv Some w by (simp_all add: merge_inv_def merge_wrappers_def)
  obtain x xs where x: "iinv i" "cont i = x # xs"
    using h(1) by (cases "cont i") (auto simp: heap_inv_def)
  obtain i' where i': "it_next d i = (Inr (), i')" "iinv i'" "cont i' = xs"
    using next_Cons [OF x] by blast
  let ?ws = "if xs = [] then mi_iters m else (n, i') # mi_iters m"
  define m1 where "m1 = m\<lparr>mi_current := None, mi_iters := ?ws\<rparr>"
  have m1: "mi_iters m1 = ?ws" by (simp add: m1_def)
  have step: "merge_advance_current d m = (Inr (), m1)"
    using Some w i' valid [OF i'(2)] by (simp add: merge_advance_current_def m1_def)
  note adv = best_advance [OF h(1) x(2) i'(2,3)]
  have "dom (best cont ?ws) \<subseteq> dom (best cont ((n, i) # mi_iters m))"
    using x(2) i'(3) by (auto simp: dom_best)
  then have low: "\<forall>l \<in> dom (best cont (mi_iters m1)). fst x \<le> l"
    using best_least(2) [OF h] unfolding m1 x(2) list.sel(1) by blast
  have "heap_inv iinv cont (mi_iters m1)" using adv(2) m1 by simp
  from merge_loop [OF this low] obtain m' where m': "loop_until (merge_next_body d (fst x)) m1 = (Inr (), m')"
      "merge_inv iinv cont m'" "merge_cont cont m' = list_of_map ((best cont (mi_iters m1))(fst x := None))"
    by blast
  have "merge_cont cont m' = tl (merge_cont cont m)"
    using m'(3) adv(1) m1 x(2) merge_cont_current [OF inv, of n i] Some w by simp
  then show ?thesis
    using m' step Some w key [OF x] by (simp add: merge_next_def)
qed

text \<open>What \<open>create\<close> starts from: each iterator under its position, the exhausted ones left out.\<close>

lemma merge_collect_valid:
  "\<forall>i \<in> set is. iinv i \<Longrightarrow>
   \<exists>num. merge_collect d n is = Inr (filter (\<lambda>w. cont (snd w) \<noteq> []) (zip [n..<n + length is] is), num)"
proof (induction "is" arbitrary: n)
  case (Cons i "is")
  then obtain num where "merge_collect d (Suc n) is =
      Inr (filter (\<lambda>w. cont (snd w) \<noteq> []) (zip [Suc n..<Suc n + length is] is), num)"
    by fastforce
  then show ?case
    using Cons.prems valid [of i]
    by (simp add: upt_conv_Cons [of n] del: upt_Suc)
qed simp

lemma best_filter_empty:
  assumes "sorted_wrt (<) (map fst ws)"
  shows "best cont (filter (\<lambda>w. cont (snd w) \<noteq> []) ws) = overlay (map (\<lambda>w. map_of (cont (snd w))) ws)"
proof -
  have s: "sorted_wrt (<) (map fst (filter (\<lambda>w. cont (snd w) \<noteq> []) ws))"
    using assms by (induction ws) auto
  then have "sort_key fst (filter (\<lambda>w. cont (snd w) \<noteq> []) ws) = filter (\<lambda>w. cont (snd w) \<noteq> []) ws"
    by (intro sort_key_id_if_sorted) (simp add: strict_sorted_iff)
  moreover have "overlay (map (\<lambda>w. map_of (cont (snd w))) (filter (\<lambda>w. cont (snd w) \<noteq> []) ws)) =
      overlay (map (\<lambda>w. map_of (cont (snd w))) ws)"
    by (induction ws) auto
  ultimately show ?thesis by (simp add: best_def)
qed

lemma merge_create_cont:
  assumes "\<forall>i \<in> set is. iinv i"
  obtains m where "merge_create d is = Inr m" "merge_inv iinv cont m"
    "merge_cont cont m = list_of_map (overlay (map (\<lambda>i. map_of (cont i)) is))"
proof -
  define ws where "ws = filter (\<lambda>w. cont (snd w) \<noteq> []) (zip [0..<length is] is)"
  obtain num where num: "merge_collect d 0 is = Inr (ws, num)"
    using merge_collect_valid [OF assms, of 0] by (auto simp: ws_def)
  have dist: "distinct (map fst ws)"
    by (simp add: ws_def distinct_map_filter)
  have h: "heap_inv iinv cont ws"
    using assms dist by (auto simp: heap_inv_def ws_def dest: set_zip_rightD)
  have best: "best cont ws = overlay (map (\<lambda>i. map_of (cont i)) is)"
  proof -
    have "map (\<lambda>w. map_of (cont (snd w))) (zip [0..<length is] is) = map (\<lambda>i. map_of (cont i)) is"
      by (rule nth_equalityI) simp_all
    then show ?thesis
      using best_filter_empty [of "zip [0..<length is] is"] by (simp add: ws_def sorted_wrt_upt)
  qed
  show thesis
  proof (cases "ws = []")
    case True
    then show thesis
      using num best [symmetric]
      by (intro that) (auto simp: merge_create_def merge_inv_def merge_wrappers_def heap_inv_def merge_cont_def)
  next
    case False
    obtain n i rest x xs where p: "heap_pop d ws = Inr (Some ((n, i), rest))"
        "heap_inv iinv cont ((n, i) # rest)" "is_least cont (n, i) rest"
        "best cont ws = best cont ((n, i) # rest)"
      using heap_pop_split [OF h False] by metis
    then show thesis
      using num best [symmetric]
      by (intro that) (auto simp: merge_create_def merge_inv_def merge_wrappers_def merge_cont_def)
  qed
qed

end

sublocale merge_iterator \<subseteq> out: sorted_iterator "merge_ops d" "merge_inv iinv cont" "merge_cont cont"
proof
  fix m
  assume inv: "merge_inv iinv cont m"
  have cur: "iinv i \<and> cont i \<noteq> []" if "mi_current m = Some (n, i)" for n i
    using inv that by (simp add: merge_inv_def heap_inv_def merge_wrappers_def)
  show "it_is_valid (merge_ops d) m = Inr (merge_cont cont m \<noteq> [])"
    using merge_cont_none [OF inv] merge_cont_current [OF inv]
    by (cases "mi_current m") (auto simp: merge_ops_def merge_is_valid_def)
  show "\<exists>m'. it_next (merge_ops d) m = (Inr (), m') \<and> merge_inv iinv cont m' \<and>
      merge_cont cont m' = tl (merge_cont cont m)"
    using merge_next_cont [OF inv] by (simp add: merge_ops_def)
  show "sorted1 (merge_cont cont m)"
    by (simp add: merge_cont_def sorted1_list_of_map)
  fix x xs
  assume c: "merge_cont cont m = x # xs"
  then obtain n i where ni: "mi_current m = Some (n, i)"
    using merge_cont_none [OF inv] by (cases "mi_current m") auto
  obtain ys where ys: "cont i = x # ys"
    using cur [OF ni] merge_cont_current [OF inv ni] c by (cases "cont i") auto
  show "it_key (merge_ops d) m = Inr (fst x)" "it_value (merge_ops d) m = Inr (snd x)"
    using ni cur [OF ni] key [OF _ ys] val [OF _ ys]
    by (simp_all add: merge_ops_def merge_key_def merge_value_def)
qed

end
