(* ===== verification/MemTable.thy ===== *)
theory MemTable
  imports Wal Tables Iterators
begin

text \<open>
  \<open>src/mem_table.rs\<close>: the in-memory table of a storage state, a skip map with its write-ahead log.
  The skip map is the parameter \<open>S\<close> (\<open>SkipMaps\<close>). A scan holds the entries of the range as they
  are when it starts; \<open>MemTableIterator\<close> keeps the current entry apart from those to come and is
  valid as long as the current key is not empty.
\<close>

record 'm memtable =
  mt_map :: 'm
  mt_wal :: "wal option"
  mt_id :: nat
  mt_approximate_size :: nat

fun map_bound_keybytes :: "bytes bound \<Rightarrow> key bound" where
  "map_bound_keybytes (Included x) = Included (Key x TS_DEFAULT)"
| "map_bound_keybytes (Excluded x) = Excluded (Key x TS_DEFAULT)"
| "map_bound_keybytes Unbounded = Unbounded"

fun map_bound_lower :: "bytes bound \<Rightarrow> key bound" where
  "map_bound_lower (Included x) = Included (Key x TS_RANGE_BEGIN)"
| "map_bound_lower (Excluded x) = Excluded (Key x TS_RANGE_END)"
| "map_bound_lower Unbounded = Unbounded"

fun map_bound_upper :: "bytes bound \<Rightarrow> key bound" where
  "map_bound_upper (Included x) = Included (Key x TS_RANGE_END)"
| "map_bound_upper (Excluded x) = Excluded (Key x TS_RANGE_BEGIN)"
| "map_bound_upper Unbounded = Unbounded"

definition mt_create :: "('m, key, bytes) skip_ops \<Rightarrow> nat \<Rightarrow> 'm memtable" where
  "mt_create S i = \<lparr>mt_map = sm_new S, mt_wal = None, mt_id = i, mt_approximate_size = 0\<rparr>"

definition mt_create_with_wal ::
    "('m, key, bytes) skip_ops \<Rightarrow> nat \<Rightarrow> bytes option \<Rightarrow> 'm memtable res" where
  "mt_create_with_wal S i existing =
     and_then (wal_create existing) (\<lambda>w.
     Inr \<lparr>mt_map = sm_new S, mt_wal = Some w, mt_id = i, mt_approximate_size = 0\<rparr>)"

definition mt_recover_from_wal ::
    "(bytes \<Rightarrow> u32) \<Rightarrow> ('m, key, bytes) skip_ops \<Rightarrow> nat \<Rightarrow> bytes option \<Rightarrow> 'm memtable res" where
  "mt_recover_from_wal crc S i existing =
     and_then (wal_recover crc S existing (sm_new S)) (\<lambda>(w, m).
     Inr \<lparr>mt_map = m, mt_wal = Some w, mt_id = i,
          mt_approximate_size = sum_list (map (\<lambda>(k, v). raw_len k + length v) (sm_iter S m))\<rparr>)"

definition mt_get :: "('m, key, bytes) skip_ops \<Rightarrow> 'm memtable \<Rightarrow> bytes \<Rightarrow> bytes option" where
  "mt_get S mt key = sm_get S (mt_map mt) (Key key TS_DEFAULT)"

definition mt_put ::
    "(bytes \<Rightarrow> u32) \<Rightarrow> ('m, key, bytes) skip_ops \<Rightarrow> 'm memtable \<Rightarrow> key \<Rightarrow> bytes \<Rightarrow> 'm memtable" where
  "mt_put crc S mt key value =
     mt\<lparr>mt_map := sm_insert S key value (mt_map mt),
        mt_approximate_size := mt_approximate_size mt + (raw_len key + length value),
        mt_wal := map_option (\<lambda>w. wal_put crc w key value) (mt_wal mt)\<rparr>"

definition mt_put_batch ::
    "(bytes \<Rightarrow> u32) \<Rightarrow> ('m, key, bytes) skip_ops \<Rightarrow> 'm memtable \<Rightarrow> (key \<times> bytes) list \<Rightarrow> 'm memtable" where
  "mt_put_batch crc S mt data = fold (\<lambda>(key, value) mt. mt_put crc S mt key value) data mt"

definition mt_sync_wal :: "'m memtable \<Rightarrow> 'm memtable" where
  "mt_sync_wal mt = mt\<lparr>mt_wal := map_option wal_sync (mt_wal mt)\<rparr>"

definition mt_is_empty :: "('m, key, bytes) skip_ops \<Rightarrow> 'm memtable \<Rightarrow> bool" where
  "mt_is_empty S mt \<longleftrightarrow> sm_is_empty S (mt_map mt)"

section \<open>The iterator\<close>

record mem_iter =
  ti_rest :: "(key \<times> bytes) list"
  ti_item :: "key \<times> bytes"

definition ti_is_valid :: "mem_iter \<Rightarrow> bool" where
  "ti_is_valid it \<longleftrightarrow> \<not> key_is_empty (fst (ti_item it))"

definition ti_next :: "mem_iter \<Rightarrow> unit res \<times> mem_iter" where
  "ti_next it =
     (case ti_rest it of
        [] \<Rightarrow> (Inr (), it\<lparr>ti_item := (key_new, [])\<rparr>)
      | e # es \<Rightarrow> (Inr (), it\<lparr>ti_rest := es, ti_item := e\<rparr>))"

definition ti_ops :: "(mem_iter, key) iter_ops" where
  "ti_ops =
     \<lparr>it_value = (\<lambda>it. Inr (snd (ti_item it))), it_key = (\<lambda>it. Inr (fst (ti_item it))),
      it_is_valid = (\<lambda>it. Inr (ti_is_valid it)), it_next = ti_next, it_num_active = (\<lambda>_. 1)\<rparr>"

definition mt_scan ::
    "('m, key, bytes) skip_ops \<Rightarrow> 'm memtable \<Rightarrow> bytes bound \<Rightarrow> bytes bound \<Rightarrow> mem_iter" where
  "mt_scan S mt lower upper =
     snd (ti_next \<lparr>ti_rest = sm_range S (map_bound_lower lower) (map_bound_upper upper) (mt_map mt),
                   ti_item = (key_new, [])\<rparr>)"

definition mt_flush ::
    "(bytes \<Rightarrow> u32) \<Rightarrow> (bytes \<Rightarrow> u32) \<Rightarrow> ('m, key, bytes) skip_ops \<Rightarrow> 'm memtable \<Rightarrow> sst_builder \<Rightarrow>
     sst_builder res" where
  "mt_flush crc fp S mt builder =
     it_for_each ti_ops (\<lambda>k v sb. sst_add crc fp sb k v) (mt_scan S mt Unbounded Unbounded) builder"

section \<open>The contract of the iterator\<close>

definition ti_inv :: "mem_iter \<Rightarrow> bool" where
  "ti_inv it \<longleftrightarrow>
     (if ti_is_valid it then sorted1 (ti_item it # ti_rest it) else ti_rest it = []) \<and>
     (\<forall>e \<in> set (ti_rest it). \<not> key_is_empty (fst e))"

definition ti_cont :: "mem_iter \<Rightarrow> (key \<times> bytes) list" where
  "ti_cont it = (if ti_is_valid it then ti_item it # ti_rest it else [])"

lemma ti_next_ok:
  assumes "ti_inv it"
  shows "\<exists>it'. ti_next it = (Inr (), it') \<and> ti_inv it' \<and> ti_cont it' = tl (ti_cont it)"
  using assms
  by (cases "ti_rest it")
    (auto simp: ti_next_def ti_inv_def ti_cont_def ti_is_valid_def key_simps split: if_splits)

interpretation ti: sorted_iterator ti_ops ti_inv ti_cont
proof
  fix it
  assume inv: "ti_inv it"
  show "it_is_valid ti_ops it = Inr (ti_cont it \<noteq> [])" by (simp add: ti_ops_def ti_cont_def)
  show "\<exists>it'. it_next ti_ops it = (Inr (), it') \<and> ti_inv it' \<and> ti_cont it' = tl (ti_cont it)"
    using ti_next_ok [OF inv] by (simp add: ti_ops_def)
  show "sorted1 (ti_cont it)" using inv by (auto simp: ti_inv_def ti_cont_def split: if_splits)
  fix x xs
  assume "ti_cont it = x # xs"
  then show "it_key ti_ops it = Inr (fst x)" "it_value ti_ops it = Inr (snd x)"
    by (simp_all add: ti_cont_def ti_ops_def split: if_splits)
qed

section \<open>The entries of a memtable\<close>

definition mt_entries :: "('m, key, bytes) skip_ops \<Rightarrow> 'm memtable \<Rightarrow> (key \<times> bytes) list" where
  "mt_entries S mt = sm_iter S (mt_map mt)"

definition no_empty_key :: "(key \<times> bytes) list \<Rightarrow> bool" where
  "no_empty_key es \<longleftrightarrow> (\<forall>e \<in> set es. key_ref (fst e) \<noteq> [])"

lemma in_bounds_versions:
  "in_bounds (map_bound_lower lower) (map_bound_upper upper) k \<longleftrightarrow> in_bounds lower upper (key_ref k)"
  by (cases lower; cases upper)
    (simp_all add: in_bounds_def range_begin_le_iff range_end_ge_iff range_end_less_iff less_range_begin_iff)


lemma mt_scan_cont:
  assumes S: "skip_map S" and ne: "no_empty_key (mt_entries S mt)"
  shows "ti_inv (mt_scan S mt lower upper)"
    and "ti_cont (mt_scan S mt lower upper) =
      filter (\<lambda>e. in_bounds lower upper (key_ref (fst e))) (mt_entries S mt)"
proof -
  define es where "es = filter (\<lambda>e. in_bounds lower upper (key_ref (fst e))) (mt_entries S mt)"
  have range: "sm_range S (map_bound_lower lower) (map_bound_upper upper) (mt_map mt) = es"
    by (simp add: es_def mt_entries_def skip_map.range_iter [OF S] in_bounds_versions)
  have s: "sorted1 es"
    by (simp add: es_def mt_entries_def sorted1_filter skip_map.iter_sorted [OF S])
  have "\<forall>e \<in> set es. \<not> key_is_empty (fst e)"
    using ne by (auto simp: es_def no_empty_key_def key_is_empty_def)
  with s have "ti_inv (mt_scan S mt lower upper) \<and> ti_cont (mt_scan S mt lower upper) = es"
    by (cases es)
      (auto simp: mt_scan_def ti_next_def range ti_inv_def ti_cont_def ti_is_valid_def key_simps)
  then show "ti_inv (mt_scan S mt lower upper)"
    and "ti_cont (mt_scan S mt lower upper) =
      filter (\<lambda>e. in_bounds lower upper (key_ref (fst e))) (mt_entries S mt)"
    by (simp_all add: es_def)
qed

lemma mt_flush_add_all:
  assumes S: "skip_map S" and ne: "no_empty_key (mt_entries S mt)"
  shows "mt_flush crc fp S mt sb = sst_add_all crc fp (mt_entries S mt) sb"
  using ti.for_each [OF mt_scan_cont(1) [OF S ne, of Unbounded Unbounded]]
  by (simp add: mt_flush_def sst_add_all_def mt_scan_cont(2) [OF S ne] in_bounds_def)

lemma mt_entries_sorted: "skip_map S \<Longrightarrow> sorted1 (mt_entries S mt)"
  by (simp add: mt_entries_def skip_map.iter_sorted)

lemma mt_entries_create: "skip_map S \<Longrightarrow> mt_entries S (mt_create S i) = []"
  by (simp add: mt_entries_def mt_create_def skip_map.iter_new)

lemma map_mt_put:
  "skip_map S \<Longrightarrow> map_of (mt_entries S (mt_put crc S mt k v)) = (map_of (mt_entries S mt))(k \<mapsto> v)"
  by (simp add: mt_entries_def mt_put_def skip_map.map_insert)

lemma mt_put_batch_map: "mt_map (mt_put_batch crc S mt es) = fold (\<lambda>(k, v). sm_insert S k v) es (mt_map mt)"
proof (induction es arbitrary: mt)
  case (Cons e es)
  then show ?case by (cases e) (simp add: mt_put_batch_def mt_put_def)
qed (simp add: mt_put_batch_def)

lemma mt_put_batch_same [simp]: "mt_id (mt_put_batch crc S mt es) = mt_id mt"
proof (induction es arbitrary: mt)
  case (Cons e es)
  then show ?case by (cases e) (simp add: mt_put_batch_def mt_put_def)
qed (simp add: mt_put_batch_def)

lemma map_mt_put_batch:
  "skip_map S \<Longrightarrow> map_of (mt_entries S (mt_put_batch crc S mt es)) = map_of (mt_entries S mt) ++ map_of (rev es)"
  by (simp add: mt_entries_def mt_put_batch_map skip_map.map_insert_all)

lemma mt_entries_put_batch_subset:
  "skip_map S \<Longrightarrow> set (mt_entries S (mt_put_batch crc S mt es)) \<subseteq> set (mt_entries S mt) \<union> set es"
proof (induction es arbitrary: mt)
  case (Cons e es)
  have "mt_put_batch crc S mt (e # es) = mt_put_batch crc S (mt_put crc S mt (fst e) (snd e)) es"
    by (simp add: mt_put_batch_def split_def)
  moreover have "set (mt_entries S (mt_put crc S mt (fst e) (snd e))) \<subseteq> set (mt_entries S mt) \<union> {e}"
    by (auto simp: mt_entries_def mt_put_def skip_map.set_insert [OF Cons.prems])
  ultimately show ?case using Cons.IH [OF Cons.prems, of "mt_put crc S mt (fst e) (snd e)"] by auto
qed (simp add: mt_put_batch_def)

lemma mt_put_batch_wal:
  "mt_wal (mt_put_batch crc S mt es) = map_option (wal_put_all crc es) (mt_wal mt)"
proof (induction es arbitrary: mt)
  case Nil
  then show ?case by (simp add: mt_put_batch_def wal_put_all_def option.map_ident)
next
  case (Cons e es)
  then show ?case
    by (cases e) (simp add: mt_put_batch_def mt_put_def wal_put_all_def option.map_comp comp_def)
qed

lemma mt_put_batch_size:
  "mt_approximate_size (mt_put_batch crc S mt es) =
   mt_approximate_size mt + sum_list (map (\<lambda>(k, v). raw_len k + length v) es)"
proof (induction es arbitrary: mt)
  case (Cons e es)
  then show ?case by (cases e) (simp add: mt_put_batch_def mt_put_def)
qed (simp add: mt_put_batch_def)

section \<open>Properties\<close>

text \<open>
  C26: A memtable is rebuilt from its log. After any batch on a new memtable with a log and a sync,
  recovering from the file gives a memtable with the same entries, whatever map implementation
  satisfies the laws of an ordered map.
\<close>

theorem memtable_recovery:
  assumes "skip_map S" "\<forall>e \<in> set es. record_ok e"
  shows "\<exists>mt w mt'. mt_create_with_wal S i None = Inr mt \<and>
    mt_wal (mt_sync_wal (mt_put_batch crc S mt es)) = Some w \<and>
    mt_recover_from_wal crc S i (Some (wal_disk w)) = Inr mt' \<and>
    mt_entries S mt' = mt_entries S (mt_put_batch crc S mt es) \<and>
    map_of (mt_entries S mt') = map_of (rev es)"
proof -
  define mt where "mt = \<lparr>mt_map = sm_new S, mt_wal = Some \<lparr>wal_disk = [], wal_buf = []\<rparr>, mt_id = i,
    mt_approximate_size = 0\<rparr>"
  have create: "mt_create_with_wal S i None = Inr mt"
    by (simp add: mt_create_with_wal_def wal_create_def mt_def)
  define w where "w = wal_sync (wal_put_all crc es \<lparr>wal_disk = [], wal_buf = []\<rparr>)"
  have wal: "mt_wal (mt_sync_wal (mt_put_batch crc S mt es)) = Some w"
    by (simp add: mt_sync_wal_def mt_put_batch_wal mt_def w_def)
  have "wal_holds crc \<lparr>wal_disk = [], wal_buf = []\<rparr> [] []" by (simp add: wal_holds_def)
  from wal_put_all_holds [OF this, of es]
  obtain fs bs where "wal_holds crc (wal_put_all crc es \<lparr>wal_disk = [], wal_buf = []\<rparr>) fs bs" "fs @ bs = es"
    by auto
  then have "wal_disk w = log_bytes crc es"
    by (auto simp: w_def wal_sync_def buf_flush_def wal_holds_def)
  then have rec: "wal_recover crc S (Some (wal_disk w)) (sm_new S) =
      Inr (\<lparr>wal_disk = wal_disk w, wal_buf = []\<rparr>, fold (\<lambda>(k, v). sm_insert S k v) es (sm_new S))"
    by (simp add: wal_recover_def wal_recover_loop_log [OF assms(2)])
  obtain mt' where mt': "mt_recover_from_wal crc S i (Some (wal_disk w)) = Inr mt'"
      "mt_map mt' = fold (\<lambda>(k, v). sm_insert S k v) es (sm_new S)"
    by (simp add: mt_recover_from_wal_def rec)
  have "mt_entries S mt' = mt_entries S (mt_put_batch crc S mt es)"
    by (simp add: mt_entries_def mt'(2) mt_put_batch_map) (simp add: mt_def)
  moreover have "map_of (mt_entries S mt') = map_of (rev es)"
    by (simp add: mt_entries_def mt'(2) skip_map.map_insert_all [OF assms(1)] skip_map.iter_new [OF assms(1)])
  ultimately show ?thesis using create wal mt'(1) by blast
qed

theorem memtable_recovery_witness:
  "\<exists>mt w mt'. mt_create_with_wal rbt_ops 4 None = Inr mt \<and>
    mt_wal (mt_sync_wal (mt_put_batch (\<lambda>_. 0) rbt_ops mt sample_entries)) = Some w \<and>
    mt_recover_from_wal (\<lambda>_. 0) rbt_ops 4 (Some (wal_disk w)) = Inr mt' \<and>
    mt_entries rbt_ops mt' = mt_entries rbt_ops (mt_put_batch (\<lambda>_. 0) rbt_ops mt sample_entries) \<and>
    map_of (mt_entries rbt_ops mt') = map_of (rev sample_entries)"
  by (rule memtable_recovery) (simp_all add: rbt.skip_map_axioms record_ok_def sample_entries_def)

text \<open>
  C27: A range read of a memtable whose keys are not empty: draining the iterator of \<open>scan\<close> gives
  exactly the entries, in key order and with all their versions, whose user key is in the bounds.
\<close>

theorem memtable_scan:
  assumes "skip_map S" "no_empty_key (mt_entries S mt)"
  shows "it_drain ti_ops (length (mt_entries S mt)) (mt_scan S mt lower upper) =
    Inr (filter (\<lambda>e. in_bounds lower upper (key_ref (fst e))) (mt_entries S mt))"
proof -
  have "length (ti_cont (mt_scan S mt lower upper)) \<le> length (mt_entries S mt)"
    by (simp add: mt_scan_cont(2) [OF assms])
  from ti.drain [OF mt_scan_cont(1) [OF assms] this] show ?thesis
    by (simp add: mt_scan_cont(2) [OF assms])
qed

theorem memtable_scan_witness:
  "it_drain ti_ops (length (mt_entries rbt_ops (mt_put (\<lambda>_. 0) rbt_ops (mt_create rbt_ops 0) (Key [1] 2) [3])))
     (mt_scan rbt_ops (mt_put (\<lambda>_. 0) rbt_ops (mt_create rbt_ops 0) (Key [1] 2) [3]) (Included [1]) Unbounded) =
    Inr (filter (\<lambda>e. in_bounds (Included [1]) Unbounded (key_ref (fst e)))
      (mt_entries rbt_ops (mt_put (\<lambda>_. 0) rbt_ops (mt_create rbt_ops 0) (Key [1] 2) [3])))"
proof (rule memtable_scan [OF rbt.skip_map_axioms])
  show "no_empty_key (mt_entries rbt_ops (mt_put (\<lambda>_. 0) rbt_ops (mt_create rbt_ops 0) (Key [1] 2) [3]))"
    by (simp add: no_empty_key_def mt_entries_def mt_put_def mt_create_def rbt.set_insert rbt.iter_new)
qed

end
