(* ===== verification/TableIter.thy ===== *)
theory TableIter
  imports Tables Iterators
begin

text \<open>
  \<open>src/table/iterator.rs\<close>: the iterator over one table. Every block read goes through the block
  cache and leaves its answer there; the iterator keeps the table with the cache as it last saw
  it. The contract is an interpretation of \<open>sorted_iterator\<close>: the entries still to come are the
  rest of the current block and the blocks behind it.
\<close>

record sst_iter =
  si_table :: sstable
  si_blk_iter :: block_iter
  si_blk_idx :: nat

definition sst_fetch :: "(bytes \<Rightarrow> u32) \<Rightarrow> sstable \<Rightarrow> nat \<Rightarrow> (block \<times> sstable) res" where
  "sst_fetch crc t i =
     (case sst_read_block_cached crc t i of
        (Inl e, _) \<Rightarrow> Inl e
      | (Inr b, c) \<Rightarrow> Inr (b, t\<lparr>sst_block_cache := c\<rparr>))"

definition si_seek_to_first_inner :: "(bytes \<Rightarrow> u32) \<Rightarrow> sstable \<Rightarrow> sst_iter res" where
  "si_seek_to_first_inner crc t =
     and_then (sst_fetch crc t 0) (\<lambda>(b, t).
     and_then (bi_create_and_seek_to_first b) (\<lambda>it.
     Inr \<lparr>si_table = t, si_blk_iter = it, si_blk_idx = 0\<rparr>))"

definition si_create_and_seek_to_first :: "(bytes \<Rightarrow> u32) \<Rightarrow> sstable \<Rightarrow> sst_iter res" where
  "si_create_and_seek_to_first crc t = si_seek_to_first_inner crc t"

definition si_seek_to_first :: "(bytes \<Rightarrow> u32) \<Rightarrow> sst_iter \<Rightarrow> sst_iter res" where
  "si_seek_to_first crc s =
     and_then (si_seek_to_first_inner crc (si_table s)) (\<lambda>r.
     Inr (s\<lparr>si_table := si_table r, si_blk_idx := si_blk_idx r, si_blk_iter := si_blk_iter r\<rparr>))"

definition si_seek_to_key_inner :: "(bytes \<Rightarrow> u32) \<Rightarrow> sstable \<Rightarrow> key \<Rightarrow> sst_iter res" where
  "si_seek_to_key_inner crc t key =
     (let blk_idx = sst_find_block_idx t key in
      and_then (sst_fetch crc t blk_idx) (\<lambda>(b, t).
      and_then (bi_create_and_seek_to_key b key) (\<lambda>it.
      if \<not> bi_is_valid it then
        let blk_idx = blk_idx + 1 in
        if blk_idx < sst_num_of_blocks t then
          and_then (sst_fetch crc t blk_idx) (\<lambda>(b, t).
          and_then (bi_create_and_seek_to_first b) (\<lambda>it.
          Inr \<lparr>si_table = t, si_blk_iter = it, si_blk_idx = blk_idx\<rparr>))
        else Inr \<lparr>si_table = t, si_blk_iter = it, si_blk_idx = blk_idx\<rparr>
      else Inr \<lparr>si_table = t, si_blk_iter = it, si_blk_idx = blk_idx\<rparr>)))"

definition si_create_and_seek_to_key :: "(bytes \<Rightarrow> u32) \<Rightarrow> sstable \<Rightarrow> key \<Rightarrow> sst_iter res" where
  "si_create_and_seek_to_key crc t key = si_seek_to_key_inner crc t key"

definition si_seek_to_key :: "(bytes \<Rightarrow> u32) \<Rightarrow> sst_iter \<Rightarrow> key \<Rightarrow> sst_iter res" where
  "si_seek_to_key crc s key =
     and_then (si_seek_to_key_inner crc (si_table s) key) (\<lambda>r.
     Inr (s\<lparr>si_table := si_table r, si_blk_iter := si_blk_iter r, si_blk_idx := si_blk_idx r\<rparr>))"

text \<open>Bounds are user keys; \<open>for_testing_from_bytes_no_ts\<close> gives them the timestamp \<open>TS_DEFAULT\<close>.\<close>

definition si_range_overlap :: "sstable \<Rightarrow> bytes bound \<Rightarrow> bytes bound \<Rightarrow> bool" where
  "si_range_overlap t lower upper \<longleftrightarrow>
     \<not> (case lower of
          Excluded b \<Rightarrow> sst_last_key t \<le> Key b TS_DEFAULT
        | Included b \<Rightarrow> sst_last_key t < Key b TS_DEFAULT
        | Unbounded \<Rightarrow> False) \<and>
     \<not> (case upper of
          Excluded b \<Rightarrow> Key b TS_DEFAULT \<le> sst_first_key t
        | Included b \<Rightarrow> Key b TS_DEFAULT < sst_first_key t
        | Unbounded \<Rightarrow> False)"

definition si_next :: "(bytes \<Rightarrow> u32) \<Rightarrow> sst_iter \<Rightarrow> unit res \<times> sst_iter" where
  "si_next crc s =
     (case bi_next (si_blk_iter s) of
        Inl e \<Rightarrow> (Inl e, s)
      | Inr it \<Rightarrow>
          let s = s\<lparr>si_blk_iter := it\<rparr> in
          if \<not> bi_is_valid it then
            let s = s\<lparr>si_blk_idx := si_blk_idx s + 1\<rparr> in
            if si_blk_idx s < sst_num_of_blocks (si_table s) then
              (case and_then (sst_fetch crc (si_table s) (si_blk_idx s)) (\<lambda>(b, t).
                    and_then (bi_create_and_seek_to_first b) (\<lambda>it. Inr (it, t))) of
                 Inl e \<Rightarrow> (Inl e, s)
               | Inr (it, t) \<Rightarrow> (Inr (), s\<lparr>si_blk_iter := it, si_table := t\<rparr>))
            else (Inr (), s)
          else (Inr (), s))"

definition si_ops :: "(bytes \<Rightarrow> u32) \<Rightarrow> (sst_iter, key) iter_ops" where
  "si_ops crc =
     \<lparr>it_value = (\<lambda>s. bi_value (si_blk_iter s)), it_key = (\<lambda>s. bi_get_key (si_blk_iter s)),
      it_is_valid = (\<lambda>s. Inr (bi_is_valid (si_blk_iter s))), it_next = si_next crc,
      it_num_active = (\<lambda>_. 1)\<rparr>"

section \<open>The entries of a table\<close>

definition blk_rest :: "block_iter \<Rightarrow> (key \<times> bytes) list" where
  "blk_rest it = (case bi_drain (length (blk_offsets (bi_block it))) it of Inr es \<Rightarrow> es | Inl _ \<Rightarrow> [])"

definition sst_block_entries :: "(bytes \<Rightarrow> u32) \<Rightarrow> sstable \<Rightarrow> nat \<Rightarrow> (key \<times> bytes) list" where
  "sst_block_entries crc t i =
     (case and_then (sst_read_block crc t i) bi_create_and_seek_to_first of
        Inr it \<Rightarrow> blk_rest it | Inl _ \<Rightarrow> [])"

definition sst_entries_from :: "(bytes \<Rightarrow> u32) \<Rightarrow> sstable \<Rightarrow> nat \<Rightarrow> (key \<times> bytes) list" where
  "sst_entries_from crc t i = concat (map (sst_block_entries crc t) [i..<sst_num_of_blocks t])"

definition sst_entries :: "(bytes \<Rightarrow> u32) \<Rightarrow> sstable \<Rightarrow> (key \<times> bytes) list" where
  "sst_entries crc t = sst_entries_from crc t 0"

definition sst_ok :: "(bytes \<Rightarrow> u32) \<Rightarrow> sstable \<Rightarrow> bool" where
  "sst_ok crc t \<longleftrightarrow> (\<exists>bss. table_holds crc t bss) \<and> sorted1 (sst_entries crc t) \<and>
     cache_coherent crc t (sst_block_cache t)"

lemma blk_rest_at:
  assumes "bi_at it b es i"
  shows "blk_rest it = drop i es"
proof -
  have "length (blk_offsets (bi_block it)) = length es"
    using assms by (simp add: bi_at_def bi_over_def block_holds_length)
  then show ?thesis using bi_drain_at [OF assms, of "length es"] by (simp add: blk_rest_def)
qed

lemma table_holds_block_entries:
  assumes "table_holds crc t bss" "i < length bss"
  shows "sst_block_entries crc t i = bss ! i"
proof -
  obtain b where b: "sst_read_block crc t i = Inr b" "block_holds b (bss ! i)"
    using table_holds_read [OF assms] by blast
  obtain it where "bi_create_and_seek_to_first b = Inr it" "bi_at it b (bss ! i) 0"
    using bi_seek_to_first_at [OF b(2)] by blast
  with b(1) show ?thesis by (simp add: sst_block_entries_def blk_rest_at)
qed

lemma table_holds_entries_from:
  assumes "table_holds crc t bss"
  shows "sst_entries_from crc t i = concat (drop i bss)"
proof -
  have "map (sst_block_entries crc t) [i..<length bss] = drop i bss"
    by (rule nth_equalityI) (simp_all add: table_holds_block_entries [OF assms])
  then show ?thesis by (simp add: sst_entries_from_def table_holds_num [OF assms])
qed

lemma table_holds_entries: "table_holds crc t bss \<Longrightarrow> sst_entries crc t = concat bss"
  by (simp add: sst_entries_def table_holds_entries_from)

lemma table_holds_cache [simp]: "table_holds crc (t\<lparr>sst_block_cache := c\<rparr>) bss = table_holds crc t bss"
  by (simp add: table_holds_def table_layout_def)

lemma sst_read_block_cache [simp]: "sst_read_block crc (t\<lparr>sst_block_cache := c\<rparr>) i = sst_read_block crc t i"
  by (simp add: sst_read_block_def cong: if_cong)

lemma sst_num_cache [simp]: "sst_num_of_blocks (t\<lparr>sst_block_cache := c\<rparr>) = sst_num_of_blocks t"
  by (simp add: sst_num_of_blocks_def)

lemma sst_block_entries_cache [simp]:
  "sst_block_entries crc (t\<lparr>sst_block_cache := c\<rparr>) = sst_block_entries crc t"
  by (rule ext) (simp add: sst_block_entries_def)

lemma sst_entries_from_cache [simp]:
  "sst_entries_from crc (t\<lparr>sst_block_cache := c\<rparr>) i = sst_entries_from crc t i"
  by (simp add: sst_entries_from_def)

lemma sst_entries_cache [simp]: "sst_entries crc (t\<lparr>sst_block_cache := c\<rparr>) = sst_entries crc t"
  by (simp add: sst_entries_def)

text \<open>Fetching a block: its entries, and a table that differs in its cache only.\<close>

lemma sst_fetch_ok:
  assumes ok: "sst_ok crc t" and i: "i < sst_num_of_blocks t"
  obtains b c where "sst_fetch crc t i = Inr (b, t\<lparr>sst_block_cache := c\<rparr>)" "sst_ok crc (t\<lparr>sst_block_cache := c\<rparr>)"
    "block_holds b (sst_block_entries crc t i)"
proof -
  obtain bss where bss: "table_holds crc t bss" using ok by (auto simp: sst_ok_def)
  have i': "i < length bss" using i table_holds_num [OF bss] by simp
  have coh: "cache_coherent crc t (sst_block_cache t)" using ok by (simp add: sst_ok_def)
  obtain b where b: "sst_read_block crc t i = Inr b" "block_holds b (bss ! i)"
    using table_holds_read [OF bss i'] by blast
  obtain c where c: "sst_read_block_cached crc t i = (Inr b, c)"
    using sst_read_block_cached_fst [OF coh, of i] b(1) by (cases "sst_read_block_cached crc t i") auto
  have "cache_coherent crc t c"
    using sst_read_block_cached_coherent [OF coh, of i] c by simp
  then have "sst_ok crc (t\<lparr>sst_block_cache := c\<rparr>)"
    using ok by (simp add: sst_ok_def cache_coherent_def)
  then show thesis
    using that c b(2) table_holds_block_entries [OF bss i'] by (simp add: sst_fetch_def)
qed

section \<open>The contract\<close>

definition si_cont :: "(bytes \<Rightarrow> u32) \<Rightarrow> sst_iter \<Rightarrow> (key \<times> bytes) list" where
  "si_cont crc s = blk_rest (si_blk_iter s) @ sst_entries_from crc (si_table s) (si_blk_idx s + 1)"

definition si_inv :: "(bytes \<Rightarrow> u32) \<Rightarrow> sst_iter \<Rightarrow> bool" where
  "si_inv crc s \<longleftrightarrow> sst_ok crc (si_table s) \<and>
     (\<exists>b es i. bi_at (si_blk_iter s) b es i \<and>
        (if si_blk_idx s < sst_num_of_blocks (si_table s)
         then i < length es \<and> es = sst_block_entries crc (si_table s) (si_blk_idx s)
         else length es \<le> i))"

lemma sst_entries_from_step:
  "i < sst_num_of_blocks t \<Longrightarrow>
   sst_entries_from crc t i = sst_block_entries crc t i @ sst_entries_from crc t (Suc i)"
  by (simp add: sst_entries_from_def upt_conv_Cons)

lemma sst_entries_from_end: "sst_num_of_blocks t \<le> i \<Longrightarrow> sst_entries_from crc t i = []"
  by (simp add: sst_entries_from_def)

text \<open>Entering block \<open>i\<close> at its first entry.\<close>

lemma si_enter:
  assumes ok: "sst_ok crc t" and i: "i < sst_num_of_blocks t"
  obtains b c it where "sst_fetch crc t i = Inr (b, t\<lparr>sst_block_cache := c\<rparr>)"
    "bi_create_and_seek_to_first b = Inr it"
    "si_inv crc \<lparr>si_table = t\<lparr>sst_block_cache := c\<rparr>, si_blk_iter = it, si_blk_idx = i\<rparr>"
    "si_cont crc \<lparr>si_table = t\<lparr>sst_block_cache := c\<rparr>, si_blk_iter = it, si_blk_idx = i\<rparr> =
       sst_entries_from crc t i"
proof -
  obtain b c where b: "sst_fetch crc t i = Inr (b, t\<lparr>sst_block_cache := c\<rparr>)"
      "sst_ok crc (t\<lparr>sst_block_cache := c\<rparr>)" "block_holds b (sst_block_entries crc t i)"
    using sst_fetch_ok [OF ok i] by blast
  obtain it where it: "bi_create_and_seek_to_first b = Inr it" "bi_at it b (sst_block_entries crc t i) 0"
    using bi_seek_to_first_at [OF b(3)] by blast
  have "sst_block_entries crc t i \<noteq> []" using b(3) by (simp add: block_holds_def)
  then have "si_inv crc \<lparr>si_table = t\<lparr>sst_block_cache := c\<rparr>, si_blk_iter = it, si_blk_idx = i\<rparr>"
    using b(2) it(2) i by (auto simp: si_inv_def)
  then show thesis
    using that [OF b(1) it(1)] it(2) i by (simp add: si_cont_def blk_rest_at sst_entries_from_step)
qed

lemma sst_ok_num: "sst_ok crc t \<Longrightarrow> 0 < sst_num_of_blocks t"
  by (auto simp: sst_ok_def table_holds_num) (auto simp: table_holds_def)

lemma si_create_and_seek_to_first_ok:
  assumes "sst_ok crc t"
  obtains s where "si_create_and_seek_to_first crc t = Inr s" "si_inv crc s" "si_cont crc s = sst_entries crc t"
proof -
  obtain b c it where "sst_fetch crc t 0 = Inr (b, t\<lparr>sst_block_cache := c\<rparr>)"
      "bi_create_and_seek_to_first b = Inr it"
      "si_inv crc \<lparr>si_table = t\<lparr>sst_block_cache := c\<rparr>, si_blk_iter = it, si_blk_idx = 0\<rparr>"
      "si_cont crc \<lparr>si_table = t\<lparr>sst_block_cache := c\<rparr>, si_blk_iter = it, si_blk_idx = 0\<rparr> =
         sst_entries_from crc t 0"
    using si_enter [OF assms sst_ok_num [OF assms]] by blast
  then show thesis
    by (intro that) (simp_all add: si_create_and_seek_to_first_def si_seek_to_first_inner_def sst_entries_def)
qed

lemma si_inv_at:
  assumes "si_inv crc s"
  obtains b es i where "bi_at (si_blk_iter s) b es i"
    "si_cont crc s = drop i es @ sst_entries_from crc (si_table s) (si_blk_idx s + 1)"
    "i < length es \<longleftrightarrow> si_blk_idx s < sst_num_of_blocks (si_table s)"
  using assms by (auto simp: si_inv_def si_cont_def blk_rest_at split: if_splits)

lemma si_next_ok:
  assumes inv: "si_inv crc s"
  shows "\<exists>s'. si_next crc s = (Inr (), s') \<and> si_inv crc s' \<and> si_cont crc s' = tl (si_cont crc s)"
proof -
  have ok: "sst_ok crc (si_table s)" using inv by (simp add: si_inv_def)
  obtain b es i where at: "bi_at (si_blk_iter s) b es i"
      "if si_blk_idx s < sst_num_of_blocks (si_table s)
       then i < length es \<and> es = sst_block_entries crc (si_table s) (si_blk_idx s) else length es \<le> i"
    using inv by (auto simp: si_inv_def)
  obtain it where it: "bi_next (si_blk_iter s) = Inr it" "bi_at it b es (Suc i)"
    using bi_next_at [OF at(1)] by blast
  have valid: "bi_is_valid it \<longleftrightarrow> Suc i < length es" using it(2) by (rule bi_at_valid)
  show ?thesis
  proof (cases "Suc i < length es")
    case True
    with at have "si_blk_idx s < sst_num_of_blocks (si_table s)" by (auto split: if_splits)
    with True at it valid ok show ?thesis
      by (intro exI [of _ "s\<lparr>si_blk_iter := it\<rparr>"])
        (auto simp: si_next_def Let_def si_inv_def si_cont_def blk_rest_at tl_drop drop_Suc)
  next
    case last: False
    show ?thesis
    proof (cases "si_blk_idx s + 1 < sst_num_of_blocks (si_table s)")
      case True
      obtain b2 c it2 where b2: "sst_fetch crc (si_table s) (si_blk_idx s + 1) = Inr (b2, (si_table s)\<lparr>sst_block_cache := c\<rparr>)"
          "bi_create_and_seek_to_first b2 = Inr it2"
          "si_inv crc \<lparr>si_table = (si_table s)\<lparr>sst_block_cache := c\<rparr>, si_blk_iter = it2, si_blk_idx = si_blk_idx s + 1\<rparr>"
          "si_cont crc \<lparr>si_table = (si_table s)\<lparr>sst_block_cache := c\<rparr>, si_blk_iter = it2, si_blk_idx = si_blk_idx s + 1\<rparr> =
            sst_entries_from crc (si_table s) (si_blk_idx s + 1)"
        using si_enter [OF ok True] by blast
      have "i < length es" using at(2) True by auto
      then have "drop i es = es ! i # drop (Suc i) es" by (simp add: Cons_nth_drop_Suc)
      with last have "drop i es = [es ! i]" by simp
      then have "tl (si_cont crc s) = sst_entries_from crc (si_table s) (si_blk_idx s + 1)"
        using at(1) by (simp add: si_cont_def blk_rest_at)
      with b2 it(1) valid last True show ?thesis
        by (cases s) (simp add: si_next_def)
    next
      case False
      then have "sst_entries_from crc (si_table s) (si_blk_idx s + 1) = []"
          "sst_entries_from crc (si_table s) (si_blk_idx s + 2) = []"
        by (simp_all add: sst_entries_from_end)
      moreover have "tl (drop i es) = []" using last by (simp add: tl_drop drop_Suc [symmetric] flip: drop_Suc)
      moreover have "si_inv crc (s\<lparr>si_blk_iter := it, si_blk_idx := si_blk_idx s + 1\<rparr>)"
      proof -
        have "bi_at it b es (Suc i) \<and> length es \<le> Suc i" using it(2) last by simp
        then have "\<exists>b es i. bi_at it b es i \<and> length es \<le> i" by blast
        then show ?thesis using False ok by (simp add: si_inv_def)
      qed
      ultimately show ?thesis
        using False last it at(1) valid
        by (simp add: si_next_def Let_def si_cont_def blk_rest_at)
    qed
  qed
qed

lemma si_cont_sorted:
  assumes "si_inv crc s"
  shows "sorted1 (si_cont crc s)"
proof -
  obtain b es i where at: "bi_at (si_blk_iter s) b es i"
      "if si_blk_idx s < sst_num_of_blocks (si_table s)
       then i < length es \<and> es = sst_block_entries crc (si_table s) (si_blk_idx s) else length es \<le> i"
    and ok: "sst_ok crc (si_table s)"
    using assms by (auto simp: si_inv_def)
  have "\<exists>pre. sst_entries crc (si_table s) = pre @ si_cont crc s"
  proof (cases "si_blk_idx s < sst_num_of_blocks (si_table s)")
    case True
    let ?n = "si_blk_idx s"
    have split: "[0..<sst_num_of_blocks (si_table s)] = [0..<?n] @ [?n..<sst_num_of_blocks (si_table s)]"
      using True by (metis le_add_diff_inverse less_imp_le upt_add_eq_append zero_le)
    have "sst_entries crc (si_table s) =
        concat (map (sst_block_entries crc (si_table s)) [0..<?n]) @ sst_entries_from crc (si_table s) ?n"
      unfolding sst_entries_def sst_entries_from_def split by simp
    then have "sst_entries crc (si_table s) =
        (concat (map (sst_block_entries crc (si_table s)) [0..<?n]) @ take i es) @ si_cont crc s"
      using True at by (simp add: si_cont_def blk_rest_at sst_entries_from_step)
    then show ?thesis by blast
  next
    case False
    then have "si_cont crc s = []"
      using at by (simp add: si_cont_def blk_rest_at sst_entries_from_end)
    then show ?thesis by simp
  qed
  then obtain pre where "sst_entries crc (si_table s) = pre @ si_cont crc s" by blast
  with ok have "sorted1 (pre @ si_cont crc s)" by (simp add: sst_ok_def)
  then show ?thesis by (simp add: sorted_wrt_append)
qed

interpretation si: sorted_iterator "si_ops crc" "si_inv crc" "si_cont crc"
proof
  fix s
  assume inv: "si_inv crc s"
  obtain b es i where at: "bi_at (si_blk_iter s) b es i"
      "si_cont crc s = drop i es @ sst_entries_from crc (si_table s) (si_blk_idx s + 1)"
      "i < length es \<longleftrightarrow> si_blk_idx s < sst_num_of_blocks (si_table s)"
    using si_inv_at [OF inv] by blast
  have nil: "si_cont crc s = []" if "\<not> i < length es"
    using that at(2,3) by (simp add: sst_entries_from_end)
  show "it_is_valid (si_ops crc) s = Inr (si_cont crc s \<noteq> [])"
    using bi_at_valid [OF at(1)] at(2) nil by (auto simp: si_ops_def)
  show "\<exists>s'. it_next (si_ops crc) s = (Inr (), s') \<and> si_inv crc s' \<and> si_cont crc s' = tl (si_cont crc s)"
    using si_next_ok [OF inv] by (simp add: si_ops_def)
  show "sorted1 (si_cont crc s)" using inv by (rule si_cont_sorted)
  fix x xs
  assume c: "si_cont crc s = x # xs"
  then have i: "i < length es" using nil by force
  then have "x = es ! i" using c at(2) by (simp add: Cons_nth_drop_Suc [symmetric])
  with i at(1) show "it_key (si_ops crc) s = Inr (fst x)" "it_value (si_ops crc) s = Inr (snd x)"
    by (simp_all add: si_ops_def bi_at_key bi_at_value)
qed


section \<open>Seeking\<close>

text \<open>The block a key is looked for in: everything before it is smaller, everything behind it is not.\<close>

lemma find_block_split:
  assumes holds: "table_holds crc t bss" and s: "sorted1 (concat bss)"
    and n_def: "n = sst_find_block_idx t k"
  shows "n < length bss" "dropWhile (\<lambda>x. fst x < k) (concat bss) =
    dropWhile (\<lambda>x. fst x < k) (bss ! n) @ concat (drop (Suc n) bss)"
proof -
  have ne: "bss \<noteq> []" "\<forall>es \<in> set bss. es \<noteq> []"
    using holds table_holds_blocks [OF holds] by (auto simp: table_holds_def)
  have "map bm_first_key (sst_block_meta t) = map (\<lambda>es. fst (hd es)) bss"
    using holds by (simp add: table_holds_def)
  then have "partition_point (\<lambda>m. bm_first_key m \<le> k) (sst_block_meta t) =
      partition_point (\<lambda>es. fst (hd es) \<le> k) bss"
    by (rule partition_point_map)
  then have n: "n = partition_point (\<lambda>es. fst (hd es) \<le> k) bss - 1"
    by (simp add: n_def sst_find_block_idx_def)
  show "n < length bss" using chunk_split(1) [OF ne s] n by simp
  show "dropWhile (\<lambda>x. fst x < k) (concat bss) =
    dropWhile (\<lambda>x. fst x < k) (bss ! n) @ concat (drop (Suc n) bss)"
    using chunk_dropWhile [OF ne s] n by simp
qed

lemma si_create_and_seek_to_key_ok:
  assumes ok: "sst_ok crc t"
  obtains s where "si_create_and_seek_to_key crc t k = Inr s" "si_inv crc s"
    "si_cont crc s = dropWhile (\<lambda>x. fst x < k) (sst_entries crc t)"
proof -
  obtain bss where holds: "table_holds crc t bss" using ok by (auto simp: sst_ok_def)
  have s: "sorted1 (concat bss)" using ok table_holds_entries [OF holds] by (simp add: sst_ok_def)
  define n where "n = sst_find_block_idx t k"
  note split = find_block_split [OF holds s n_def]
  have num: "sst_num_of_blocks t = length bss" by (rule table_holds_num [OF holds])
  have entries: "sst_block_entries crc t n = bss ! n" using table_holds_block_entries [OF holds split(1)] .
  have cc: "concat bss = concat (take n bss) @ bss ! n @ concat (drop (Suc n) bss)"
    using split(1) by (metis append_take_drop_id concat.simps(2) concat_append Cons_nth_drop_Suc)
  have target: "dropWhile (\<lambda>x. fst x < k) (sst_entries crc t) =
      dropWhile (\<lambda>x. fst x < k) (bss ! n) @ concat (drop (Suc n) bss)"
    using split(2) by (simp add: table_holds_entries [OF holds])
  have sn: "sorted1 (bss ! n)" using s by (simp add: cc sorted_wrt_append)
  obtain b c where b: "sst_fetch crc t n = Inr (b, t\<lparr>sst_block_cache := c\<rparr>)"
      "sst_ok crc (t\<lparr>sst_block_cache := c\<rparr>)" "block_holds b (bss ! n)"
    using sst_fetch_ok [OF ok, of n] split(1) num entries by auto
  obtain it where it: "bi_create_and_seek_to_key b k = Inr it" "bi_at it b (bss ! n) (lower_bound k (bss ! n))"
    using bi_seek_to_key_at [OF b(3) sn] by blast
  have drop: "drop (lower_bound k (bss ! n)) (bss ! n) = dropWhile (\<lambda>x. fst x < k) (bss ! n)"
    by (rule drop_lower_bound)
  show thesis
  proof (cases "lower_bound k (bss ! n) < length (bss ! n)")
    case True
    let ?s = "\<lparr>si_table = t\<lparr>sst_block_cache := c\<rparr>, si_blk_iter = it, si_blk_idx = n\<rparr>"
    have "si_cont crc ?s = dropWhile (\<lambda>x. fst x < k) (sst_entries crc t)"
      using it(2) drop
      by (simp add: target si_cont_def blk_rest_at table_holds_entries_from [OF holds])
    moreover have "si_inv crc ?s"
      using b(2) it(2) True split(1) num entries by (auto simp: si_inv_def)
    ultimately show thesis
      using that [of ?s] b(1) it bi_at_valid [OF it(2)] True
      by (simp add: si_create_and_seek_to_key_def si_seek_to_key_inner_def n_def [symmetric])
  next
    case False
    then have "dropWhile (\<lambda>x. fst x < k) (bss ! n) = []" using drop by simp
    then have rest: "dropWhile (\<lambda>x. fst x < k) (sst_entries crc t) = concat (drop (Suc n) bss)"
      by (simp add: target)
    let ?t = "t\<lparr>sst_block_cache := c\<rparr>"
    show thesis
    proof (cases "Suc n < length bss")
      case True
      then have lt: "Suc n < sst_num_of_blocks ?t" by (simp add: num)
      obtain b2 c2 it2 where e: "sst_fetch crc ?t (Suc n) = Inr (b2, ?t\<lparr>sst_block_cache := c2\<rparr>)"
          "bi_create_and_seek_to_first b2 = Inr it2"
          "si_inv crc \<lparr>si_table = ?t\<lparr>sst_block_cache := c2\<rparr>, si_blk_iter = it2, si_blk_idx = Suc n\<rparr>"
          "si_cont crc \<lparr>si_table = ?t\<lparr>sst_block_cache := c2\<rparr>, si_blk_iter = it2, si_blk_idx = Suc n\<rparr> =
             sst_entries_from crc ?t (Suc n)"
        using si_enter [OF b(2) lt] by blast
      show thesis
        by (rule that [OF _ e(3)])
          (use b(1) it bi_at_valid [OF it(2)] False lt e in
            \<open>simp_all add: si_create_and_seek_to_key_def si_seek_to_key_inner_def rest
              table_holds_entries_from [OF holds] flip: n_def\<close>)
    next
      case past: False
      let ?s = "\<lparr>si_table = ?t, si_blk_iter = it, si_blk_idx = Suc n\<rparr>"
      have "bi_at it b (bss ! n) (lower_bound k (bss ! n)) \<and> length (bss ! n) \<le> lower_bound k (bss ! n)"
        using it(2) False by simp
      then have "\<exists>b es i. bi_at it b es i \<and> length es \<le> i" by blast
      then have inv: "si_inv crc ?s" using b(2) past num by (simp add: si_inv_def)
      show thesis
        by (rule that [OF _ inv])
          (use b(1) it bi_at_valid [OF it(2)] False past num in
            \<open>simp_all add: si_create_and_seek_to_key_def si_seek_to_key_inner_def rest
              si_cont_def blk_rest_at table_holds_entries_from [OF holds] flip: n_def\<close>)
    qed
  qed
qed

text \<open>
  A table that \<open>range_overlap\<close> rejects has no key in the range, if its last key is not versioned:
  an included lower bound is compared as version 0, the last one of its user key, so a table whose
  last key is a newer version of the bound is rejected although it holds the bound.
\<close>

lemma sst_entries_between:
  assumes "sst_ok crc t" "e \<in> set (sst_entries crc t)"
  shows "sst_first_key t \<le> fst e" "fst e \<le> sst_last_key t"
proof -
  obtain bss where holds: "table_holds crc t bss" using assms by (auto simp: sst_ok_def)
  have cc: "sst_entries crc t = concat bss" by (rule table_holds_entries [OF holds])
  have s: "sorted1 (concat bss)" using assms cc by (simp add: sst_ok_def)
  have ne: "bss \<noteq> []" "hd bss \<noteq> []" "last bss \<noteq> []"
    using holds table_holds_blocks [OF holds] by (auto simp: table_holds_def)
  have first: "sst_first_key t = fst (hd (concat bss))"
    using holds ne by (cases bss) (auto simp: table_holds_def)
  have last: "sst_last_key t = fst (last (concat bss))"
    using holds ne by (cases bss rule: rev_cases) (auto simp: table_holds_def)
  have cne: "concat bss \<noteq> []" using ne by (cases bss) auto
  show "sst_first_key t \<le> fst e"
    using assms(2) s cne by (cases "concat bss") (auto simp: cc first less_imp_le)
  show "fst e \<le> sst_last_key t"
    using assms(2) s cne by (cases "concat bss" rule: rev_cases) (auto simp: cc last sorted_wrt_append less_imp_le)
qed

lemma sst_first_le_last: "sst_ok crc t \<Longrightarrow> sst_first_key t \<le> sst_last_key t"
proof -
  assume ok: "sst_ok crc t"
  obtain bss where holds: "table_holds crc t bss" using ok by (auto simp: sst_ok_def)
  have "sst_entries crc t \<noteq> []"
    using holds table_holds_blocks [OF holds] by (auto simp: table_holds_entries [OF holds] table_holds_def neq_Nil_conv)
  then show ?thesis using sst_entries_between [OF ok, of "hd (sst_entries crc t)"] by (simp add: order_trans)
qed

lemma si_range_overlap_complete:
  assumes ok: "sst_ok crc t" and e: "e \<in> set (sst_entries crc t)"
    and bounds: "in_bounds lower upper (key_ref (fst e))"
    and last0: "key_ts (sst_last_key t) = 0"
  shows "si_range_overlap t lower upper"
proof -
  obtain u s where k: "fst e = Key u s" by (cases "fst e")
  note b = sst_entries_between [OF ok e, unfolded k]
  have "\<not> sst_last_key t \<le> Key l TS_DEFAULT" if "l < u" for l
    using that b(2) by (cases "sst_last_key t") (auto simp: not_le)
  moreover have "\<not> sst_last_key t < Key l TS_DEFAULT" if "l \<le> u" for l
    using that b(2) last0 by (cases "sst_last_key t") (auto simp: not_less TS_DEFAULT_def)
  moreover have "\<not> Key l TS_DEFAULT \<le> sst_first_key t" if "u < l" for l
    using that b(1) by (cases "sst_first_key t") (auto simp: not_le)
  moreover have "\<not> Key l TS_DEFAULT < sst_first_key t" if "u \<le> l" for l
    using that b(1) by (cases "sst_first_key t") (auto simp: not_less TS_DEFAULT_def)
  ultimately show ?thesis
    using bounds k by (cases lower; cases upper) (auto simp: si_range_overlap_def in_bounds_def)
qed

section \<open>Building a table\<close>

text \<open>From a sorted run of entries to a well-formed table that holds exactly this run.\<close>

lemma sst_build_ok:
  assumes es: "es \<noteq> []" "sorted1 es" "\<forall>e \<in> set es. entry_ok e" and n: "n \<le> 65536"
    and cache: "\<forall>c i. cache = Some c \<longrightarrow> c (sst_no, i) = None"
  obtains sb t bloom where "sst_add_all crc fp es (sst_builder_new n) = Inr sb"
    "sst_build crc sb sst_no cache = Inr t" "sst_ok crc t" "sst_entries crc t = es"
    "sst_id t = sst_no" "sst_bloom t = Some bloom"
    "\<And>e. e \<in> set es \<Longrightarrow> bloom_may_contain bloom (fp (key_ref (fst e))) = Inr True"
    "sst_max_ts t = max_list (map (\<lambda>e. key_ts (fst e)) es)"
    "\<exists>data. length data = sst_block_meta_offset t \<and>
       sst_file t = file_create (table_file crc data (sst_block_meta t) bloom)"
proof -
  obtain sb bss cur where sb: "sst_add_all crc fp es (sst_builder_new n) = Inr sb" "sb_inv crc fp sb bss cur"
      "concat bss @ cur = es" "cur \<noteq> []"
    using sst_add_all_inv [OF sb_inv_new [OF n] es(3)] es(1) by fastforce
  obtain t bloom where t: "sst_build crc sb sst_no cache = Inr t" "table_holds crc t (bss @ [cur])"
    "sst_bloom t = Some bloom"
    "\<And>e. e \<in> set (concat bss @ cur) \<Longrightarrow> bloom_may_contain bloom (fp (key_ref (fst e))) = Inr True"
    "sst_max_ts t = max_list (map (\<lambda>e. key_ts (fst e)) (concat bss @ cur))"
    "sst_id t = sst_no" "sst_block_cache t = cache"
    "\<exists>data. length data = sst_block_meta_offset t \<and>
       sst_file t = file_create (table_file crc data (sst_block_meta t) bloom)"
    using sst_build_holds [OF sb(2,4)] by metis
  have entries: "sst_entries crc t = es" using table_holds_entries [OF t(2)] sb(3) by simp
  have "cache_coherent crc t (sst_block_cache t)"
    using cache t(6,7) by (auto simp: cache_coherent_def)
  then have "sst_ok crc t" using t(2) es(2) entries by (auto simp: sst_ok_def)
  then show thesis using that sb(1,3) t entries by simp
qed

lemma table_holds_meta_fits:
  assumes holds: "table_holds crc t bss" and size: "sst_block_meta_offset t < 4294967296"
  shows "\<forall>m \<in> set (sst_block_meta t). meta_fits m" "sst_block_meta t \<noteq> []"
    "bm_first_key (hd (sst_block_meta t)) = sst_first_key t"
    "bm_last_key (last (sst_block_meta t)) = sst_last_key t"
proof -
  obtain blks where lay: "table_layout crc t blks" using holds by (auto simp: table_holds_def)
  have len: "length (sst_block_meta t) = length bss" using table_holds_num [OF holds] by (simp add: sst_num_of_blocks_def)
  have first: "map bm_first_key (sst_block_meta t) = map (\<lambda>es. fst (hd es)) bss"
    and last: "map bm_last_key (sst_block_meta t) = map (\<lambda>es. fst (last es)) bss"
    and ne: "bss \<noteq> []"
    and ends: "sst_first_key t = fst (hd (hd bss))" "sst_last_key t = fst (last (last bss))"
    using holds by (auto simp: table_holds_def)
  show ne': "sst_block_meta t \<noteq> []" using len ne by auto
  show "bm_first_key (hd (sst_block_meta t)) = sst_first_key t"
    using arg_cong [OF first, of hd] ne ne' ends by (simp add: hd_map)
  show "bm_last_key (last (sst_block_meta t)) = sst_last_key t"
    using arg_cong [OF last, of List.last] ne ne' ends by (simp add: last_map)
  show "\<forall>m \<in> set (sst_block_meta t). meta_fits m"
  proof
    fix m assume "m \<in> set (sst_block_meta t)"
    then obtain i where i: "i < length bss" "m = sst_block_meta t ! i"
      using len by (auto simp: in_set_conv_nth)
    have blk: "bss ! i \<noteq> []" "\<forall>e \<in> set (bss ! i). entry_ok e"
      using table_holds_blocks [OF holds, of "bss ! i"] i(1) by simp_all
    have keys: "bm_first_key m = fst (hd (bss ! i))" "bm_last_key m = fst (List.last (bss ! i))"
      using arg_cong [OF first, of "\<lambda>l. l ! i"] arg_cong [OF last, of "\<lambda>l. l ! i"] i len by auto
    have "entry_ok (hd (bss ! i))" "entry_ok (List.last (bss ! i))" using blk by auto
    then have "key_fits (bm_first_key m)" "key_fits (bm_last_key m)"
      unfolding keys by (auto simp: key_fits_def entry_ok_def)
    moreover have "bm_offset m \<le> sst_block_meta_offset t"
    proof -
      have "i < length blks" using lay i(1) len by (simp add: table_layout_def)
      then have "bm_offset m = length (blocks_bytes crc (take i blks))"
        using lay i(2) by (simp add: table_layout_def)
      also have "\<dots> \<le> length (blocks_bytes crc blks)"
        using append_take_drop_id [of i blks] by (metis blocks_bytes_def concat_append length_append map_append le_add1)
      finally show ?thesis using lay by (simp add: table_layout_def)
    qed
    ultimately show "meta_fits m" using size by (simp add: meta_fits_def)
  qed
qed

text \<open>Opening the file of a well-formed table gives a well-formed table with the same entries.\<close>

lemma sst_open_ok:
  assumes ok: "sst_ok crc t" and bloom: "sst_bloom t = Some bloom"
    and fil: "sst_file t = file_create (table_file crc data (sst_block_meta t) bloom)"
      "length data = sst_block_meta_offset t"
    and size: "fo_size (sst_file t) < 4294967296"
    and cache: "\<forall>c i. cache = Some c \<longrightarrow> c (sst_no, i) = None"
  obtains t' where "sst_open crc sst_no cache (sst_file t) = Inr t'" "sst_ok crc t'"
    "sst_entries crc t' = sst_entries crc t" "sst_bloom t' = Some bloom"
    "sst_first_key t' = sst_first_key t" "sst_last_key t' = sst_last_key t" "sst_id t' = sst_no"
    "sst_file t' = sst_file t" "sst_max_ts t' =
      max_list (concat (map (\<lambda>m. [key_ts (bm_first_key m), key_ts (bm_last_key m)]) (sst_block_meta t)))"
proof -
  obtain bss where holds: "table_holds crc t bss" using ok by (auto simp: sst_ok_def)
  have sz: "length (table_file crc data (sst_block_meta t) bloom) < 4294967296"
    using size fil by (simp add: file_create_def)
  then have "sst_block_meta_offset t < 4294967296"
    using fil(2) by (simp add: table_file_def Let_def)
  note metas = table_holds_meta_fits [OF holds this]
  define t' where "t' = \<lparr>sst_file = sst_file t, sst_block_meta = sst_block_meta t,
         sst_block_meta_offset = sst_block_meta_offset t, sst_id = sst_no, sst_block_cache = cache,
         sst_first_key = sst_first_key t, sst_last_key = sst_last_key t, sst_bloom = Some bloom,
         sst_max_ts = max_list (concat (map (\<lambda>m. [key_ts (bm_first_key m), key_ts (bm_last_key m)]) (sst_block_meta t)))\<rparr>"
  have opn: "sst_open crc sst_no cache (sst_file t) = Inr t'"
    using sst_open_file [OF metas(1,2) sz] metas(3,4) fil by (simp add: t'_def)
  have holds': "table_holds crc t' bss"
    using holds by (simp add: t'_def table_holds_def table_layout_def)
  have "sst_ok crc t'"
    using ok cache holds' table_holds_entries [OF holds] table_holds_entries [OF holds']
    by (auto simp: sst_ok_def cache_coherent_def t'_def)
  then show thesis
    using that [OF opn] table_holds_entries [OF holds] table_holds_entries [OF holds']
    by (simp add: t'_def)
qed

section \<open>Properties\<close>

text \<open>
  C18: A table survives its file. Any sorted, non-empty run of entries can be added to a builder
  and built; the file of the result, as long as its 32-bit offsets suffice, can be opened; and
  reading the opened table from its start gives exactly the entries that were added.
\<close>

theorem table_roundtrip:
  assumes "es \<noteq> []" "sorted1 es" "\<forall>e \<in> set es. entry_ok e" "n \<le> 65536"
  shows "\<exists>sb t. sst_add_all crc fp es (sst_builder_new n) = Inr sb \<and> sst_build crc sb sst_no None = Inr t \<and>
    (fo_size (sst_file t) < 4294967296 \<longrightarrow>
      (\<exists>s. and_then (sst_open crc sst_no None (sst_file t)) (si_create_and_seek_to_first crc) = Inr s \<and>
        it_drain (si_ops crc) (length es) s = Inr es))"
proof -
  obtain sb t bloom where t: "sst_add_all crc fp es (sst_builder_new n) = Inr sb"
    "sst_build crc sb sst_no None = Inr t" "sst_ok crc t" "sst_entries crc t = es" "sst_bloom t = Some bloom"
    "\<exists>data. length data = sst_block_meta_offset t \<and>
       sst_file t = file_create (table_file crc data (sst_block_meta t) bloom)"
    by (rule sst_build_ok [OF assms, of None sst_no crc fp]) auto
  have "\<exists>s. and_then (sst_open crc sst_no None (sst_file t)) (si_create_and_seek_to_first crc) = Inr s \<and>
        it_drain (si_ops crc) (length es) s = Inr es" if small: "fo_size (sst_file t) < 4294967296"
  proof -
    obtain data where data: "sst_file t = file_create (table_file crc data (sst_block_meta t) bloom)"
        "length data = sst_block_meta_offset t"
      using t(6) by metis
    obtain t' where t': "sst_open crc sst_no None (sst_file t) = Inr t'" "sst_ok crc t'" "sst_entries crc t' = es"
      using sst_open_ok [OF t(3,5) data small, of None] t(4) by (metis option.distinct(1))
    obtain s where "si_create_and_seek_to_first crc t' = Inr s" "si_inv crc s" "si_cont crc s = es"
      using si_create_and_seek_to_first_ok [OF t'(2)] t'(3) by metis
    then show ?thesis using t'(1) si.drain [of crc s "length es"] by simp
  qed
  with t(1,2) show ?thesis by blast
qed

theorem table_roundtrip_witness:
  "\<exists>sb t. sst_add_all (\<lambda>_. 0) (\<lambda>_. 1) sample_entries (sst_builder_new 40) = Inr sb \<and>
    sst_build (\<lambda>_. 0) sb 3 None = Inr t \<and>
    (fo_size (sst_file t) < 4294967296 \<longrightarrow>
      (\<exists>s. and_then (sst_open (\<lambda>_. 0) 3 None (sst_file t)) (si_create_and_seek_to_first (\<lambda>_. 0)) = Inr s \<and>
        it_drain (si_ops (\<lambda>_. 0)) (length sample_entries) s = Inr sample_entries))"
  by (rule table_roundtrip) (use sample_entries_ok in \<open>simp_all add: sample_entries_def\<close>)

text \<open>A concrete table for the witnesses of the properties below and of other theories.\<close>

definition sample_sst :: "(bytes \<Rightarrow> u32) \<Rightarrow> (bytes \<Rightarrow> u32) \<Rightarrow> sstable" where
  "sample_sst crc fp =
     projr (and_then (sst_add_all crc fp sample_entries (sst_builder_new 40)) (\<lambda>sb. sst_build crc sb 3 None))"

lemma sample_sst_ok: "sst_ok crc (sample_sst crc fp)" "sst_entries crc (sample_sst crc fp) = sample_entries"
proof -
  have ne: "sample_entries \<noteq> []" by (simp add: sample_entries_def)
  obtain sb t where "sst_add_all crc fp sample_entries (sst_builder_new 40) = Inr sb"
    "sst_build crc sb 3 None = Inr t" "sst_ok crc t" "sst_entries crc t = sample_entries"
    by (rule sst_build_ok [OF ne sample_entries_ok(2,1), of 40 None 3 crc fp]) auto
  then show "sst_ok crc (sample_sst crc fp)" "sst_entries crc (sample_sst crc fp) = sample_entries"
    by (simp_all add: sample_sst_def)
qed

text \<open>
  Seeking in a table: an iterator created at a key of a well-formed table, whatever its block
  cache holds, produces exactly the entries that are not below the key, crossing blocks as needed.
\<close>

lemma table_seek:
  assumes "sst_ok crc t"
  shows "\<exists>s. si_create_and_seek_to_key crc t k = Inr s \<and>
    it_drain (si_ops crc) (length (sst_entries crc t)) s = Inr (filter (\<lambda>e. k \<le> fst e) (sst_entries crc t))"
proof -
  obtain s where s: "si_create_and_seek_to_key crc t k = Inr s" "si_inv crc s"
      "si_cont crc s = dropWhile (\<lambda>x. fst x < k) (sst_entries crc t)"
    using si_create_and_seek_to_key_ok [OF assms] by blast
  have "si_cont crc s = filter (\<lambda>e. k \<le> fst e) (sst_entries crc t)"
    using s(3) assms by (simp add: dropWhile_less_eq_filter sst_ok_def)
  then show ?thesis using s(1) si.drain [OF s(2), of "length (sst_entries crc t)"] by simp
qed

interpretation si_merge: merge_iterator "si_ops crc" "si_inv crc" "si_cont crc" ..

text \<open>
  C19: Merging tables: for any list of well-formed tables, newest first, the merge of their
  iterators produces every key of any of them once, in ascending order, with the value of the
  first table that has it.
\<close>

theorem merge_tables:
  assumes "\<forall>t \<in> set ts. sst_ok crc t"
    and "es = list_of_map (overlay (map (\<lambda>t. map_of (sst_entries crc t)) ts))"
  shows "\<exists>its m. map_res (si_create_and_seek_to_first crc) ts = Inr its \<and>
    merge_create (si_ops crc) its = Inr m \<and>
    it_drain (merge_ops (si_ops crc)) (length es) m = Inr es"
proof -
  define g where "g t = projr (si_create_and_seek_to_first crc t)" for t
  have g: "si_create_and_seek_to_first crc t = Inr (g t) \<and> si_inv crc (g t) \<and>
      si_cont crc (g t) = sst_entries crc t" if "t \<in> set ts" for t
    using si_create_and_seek_to_first_ok [of crc t] assms(1) that by (force simp: g_def)
  have its: "map_res (si_create_and_seek_to_first crc) ts = Inr (map g ts)"
    using g by (intro map_res_Inr) simp
  have inv: "\<forall>i \<in> set (map g ts). si_inv crc i" using g by simp
  obtain m where m: "merge_create (si_ops crc) (map g ts) = Inr m" "merge_inv (si_inv crc) (si_cont crc) m"
      "merge_cont (si_cont crc) m = list_of_map (overlay (map (\<lambda>i. map_of (si_cont crc i)) (map g ts)))"
    using si_merge.merge_create_cont [OF inv] by blast
  have "map (\<lambda>i. map_of (si_cont crc i)) (map g ts) = map (\<lambda>t. map_of (sst_entries crc t)) ts"
    using g by (simp add: comp_def)
  then have "merge_cont (si_cont crc) m = es" using m(3) assms(2) by (simp only:)
  then show ?thesis
    using its m(1) si_merge.out.drain [OF m(2), of "length es"] by simp
qed

theorem merge_tables_witness:
  "\<exists>its m. map_res (si_create_and_seek_to_first (\<lambda>_. 0)) [sample_sst (\<lambda>_. 0) (\<lambda>_. 1), sample_sst (\<lambda>_. 0) (\<lambda>_. 2)] = Inr its \<and>
    merge_create (si_ops (\<lambda>_. 0)) its = Inr m \<and>
    it_drain (merge_ops (si_ops (\<lambda>_. 0))) (length sample_entries) m = Inr sample_entries"
  by (rule merge_tables) (simp_all add: sample_sst_ok list_of_map_map_of sample_entries_ok map_add_subsumed1)

text \<open>The last key of a table is the key of its last entry.\<close>

lemma sst_last_key_entry:
  assumes "sst_ok crc t"
  shows "sst_entries crc t \<noteq> []" "sst_last_key t = fst (last (sst_entries crc t))"
proof -
  obtain bss where holds: "table_holds crc t bss" using assms by (auto simp: sst_ok_def)
  have "bss \<noteq> []" "last bss \<noteq> []" using holds table_holds_blocks [OF holds] by (auto simp: table_holds_def)
  then show "sst_entries crc t \<noteq> []" "sst_last_key t = fst (last (sst_entries crc t))"
    using holds by (cases bss rule: rev_cases; simp add: table_holds_def table_holds_entries [OF holds])+
qed

lemma sample_sst_last: "sst_last_key (sample_sst crc fp) = Key [1, 3] 4"
  by (simp add: sst_last_key_entry(2) [OF sample_sst_ok(1)] sample_sst_ok(2) sample_entries_def)

lemma si_range_overlap_iff:
  "si_range_overlap t lower upper \<longleftrightarrow>
     above_bound lower (key_ref (sst_last_key t)) \<and>
     \<not> (lower = Included (key_ref (sst_last_key t)) \<and> 0 < key_ts (sst_last_key t)) \<and>
     (below_bound upper (key_ref (sst_first_key t)) \<or>
      upper = Excluded (key_ref (sst_first_key t)) \<and> 0 < key_ts (sst_first_key t))"
proof -
  obtain l x where last: "sst_last_key t = Key l x" by (cases "sst_last_key t")
  obtain f y where first: "sst_first_key t = Key f y" by (cases "sst_first_key t")
  show ?thesis
    by (cases lower; cases upper)
      (auto simp: si_range_overlap_def last first TS_DEFAULT_def not_le not_less word_neq_0_conv)
qed

text \<open>
  C40: \<open>SsTableIterator::range_overlap\<close>, exactly. It answers that a table overlaps a range iff the
  table's last user key satisfies the lower bound and its first user key the upper bound, but for
  bounds that are one of the table's own two keys. Those are compared as version 0, which sorts
  behind all others: an included lower bound that is the last user key is taken to lie behind the
  table, and an excluded upper bound that is the first user key is taken to lie inside the table,
  unless the table's key has version 0 itself. Hence the test misses a well-formed table that has a
  key in the range in one case and in no other: the lower bound is included and is the user key of
  the last key, in a version other than 0, and that user key satisfies the upper bound.
\<close>

theorem range_overlap_exact:
  assumes "sst_ok crc t"
  shows "(si_range_overlap t lower upper \<longleftrightarrow>
      above_bound lower (key_ref (sst_last_key t)) \<and>
      \<not> (lower = Included (key_ref (sst_last_key t)) \<and> 0 < key_ts (sst_last_key t)) \<and>
      (below_bound upper (key_ref (sst_first_key t)) \<or>
       upper = Excluded (key_ref (sst_first_key t)) \<and> 0 < key_ts (sst_first_key t))) \<and>
    ((\<exists>e \<in> set (sst_entries crc t). in_bounds lower upper (key_ref (fst e))) \<and> \<not> si_range_overlap t lower upper \<longleftrightarrow>
      lower = Included (key_ref (sst_last_key t)) \<and> 0 < key_ts (sst_last_key t) \<and>
      below_bound upper (key_ref (sst_last_key t)))"
    (is "_ \<and> (?in \<and> \<not> ?ov \<longleftrightarrow> ?miss)")
proof -
  have "?miss" if "e \<in> set (sst_entries crc t)" "in_bounds lower upper (key_ref (fst e))" "\<not> ?ov" for e
  proof -
    obtain u s where k: "fst e = Key u s" by (cases "fst e")
    obtain l x where last: "sst_last_key t = Key l x" by (cases "sst_last_key t")
    obtain f y where first: "sst_first_key t = Key f y" by (cases "sst_first_key t")
    note b = sst_entries_between [OF assms that(1), unfolded k last first]
    have lu: "u \<le> l" "f \<le> u" using b by auto
    have "above_bound lower u" "below_bound upper u" using that(2) k by (simp_all add: in_bounds_def)
    then show ?thesis
      using lu that(3) by (cases lower; cases upper) (auto simp: si_range_overlap_iff last first)
  qed
  moreover have "?in" if "?miss"
  proof (rule bexI)
    show "last (sst_entries crc t) \<in> set (sst_entries crc t)" using sst_last_key_entry(1) [OF assms] by simp
    show "in_bounds lower upper (key_ref (fst (last (sst_entries crc t))))"
      using that by (auto simp: in_bounds_def sst_last_key_entry(2) [OF assms])
  qed
  ultimately show ?thesis using si_range_overlap_iff [of t lower upper] by blast
qed

theorem range_overlap_exact_witness:
  "\<not> si_range_overlap (sample_sst (\<lambda>_. 0) (\<lambda>_. 1)) (Included [1, 3]) Unbounded \<and>
   (\<exists>e \<in> set (sst_entries (\<lambda>_. 0) (sample_sst (\<lambda>_. 0) (\<lambda>_. 1))). in_bounds (Included [1, 3]) Unbounded (key_ref (fst e))) \<and>
   si_range_overlap (sample_sst (\<lambda>_. 0) (\<lambda>_. 1)) (Included [1, 2]) Unbounded"
  using range_overlap_exact [OF sample_sst_ok(1) [of "\<lambda>_. 0" "\<lambda>_. 1"], of "Included [1, 3]" Unbounded]
    range_overlap_exact [OF sample_sst_ok(1) [of "\<lambda>_. 0" "\<lambda>_. 1"], of "Included [1, 2]" Unbounded]
  by (simp add: sample_sst_last)

end
