(* ===== verification/ConcatIter.thy ===== *)
theory ConcatIter
  imports TableIter
begin

text \<open>
  \<open>src/iterators/concat_iterator.rs\<close>: the iterator over the tables of one level. The tables are
  sorted and disjoint (\<open>check_sst_valid\<close> asserts it), so the entries are the entries of the
  tables one after the other.
\<close>

record concat_iter =
  ci_current :: "sst_iter option"
  ci_next_sst_idx :: nat
  ci_sstables :: "sstable list"

definition ci_check_sst_valid :: "sstable list \<Rightarrow> unit res" where
  "ci_check_sst_valid ts =
     and_then (ensure (\<forall>t \<in> set ts. sst_first_key t \<le> sst_last_key t) Panic) (\<lambda>_.
     ensure (\<forall>i < length ts - 1. sst_last_key (ts ! i) < sst_first_key (ts ! (i + 1))) Panic)"

definition ci_move_body :: "(bytes \<Rightarrow> u32) \<Rightarrow> concat_iter \<Rightarrow> unit res option \<times> concat_iter" where
  "ci_move_body crc s =
     (case ci_current s of
        None \<Rightarrow> (Some (Inr ()), s)
      | Some it \<Rightarrow>
          if bi_is_valid (si_blk_iter it) then (Some (Inr ()), s)
          else if length (ci_sstables s) \<le> ci_next_sst_idx s then (None, s\<lparr>ci_current := None\<rparr>)
          else (case si_create_and_seek_to_first crc (ci_sstables s ! ci_next_sst_idx s) of
                  Inl e \<Rightarrow> (Some (Inl e), s)
                | Inr it \<Rightarrow>
                    (None, s\<lparr>ci_current := Some it, ci_next_sst_idx := ci_next_sst_idx s + 1\<rparr>)))"

definition ci_move_until_valid :: "(bytes \<Rightarrow> u32) \<Rightarrow> concat_iter \<Rightarrow> unit res \<times> concat_iter" where
  "ci_move_until_valid crc = loop_until (ci_move_body crc)"

definition ci_create_and_seek_to_first :: "(bytes \<Rightarrow> u32) \<Rightarrow> sstable list \<Rightarrow> concat_iter res" where
  "ci_create_and_seek_to_first crc ts =
     and_then (ci_check_sst_valid ts) (\<lambda>_.
     if ts = [] then Inr \<lparr>ci_current = None, ci_next_sst_idx = 0, ci_sstables = ts\<rparr>
     else
       and_then (si_create_and_seek_to_first crc (ts ! 0)) (\<lambda>it.
       case ci_move_until_valid crc
              \<lparr>ci_current = Some it, ci_next_sst_idx = 1, ci_sstables = ts\<rparr> of
         (r, s) \<Rightarrow> and_then r (\<lambda>_. Inr s)))"

definition ci_create_and_seek_to_key ::
    "(bytes \<Rightarrow> u32) \<Rightarrow> sstable list \<Rightarrow> key \<Rightarrow> concat_iter res" where
  "ci_create_and_seek_to_key crc ts key =
     and_then (ci_check_sst_valid ts) (\<lambda>_.
     let idx = partition_point (\<lambda>t. sst_first_key t \<le> key) ts - 1 in
     if length ts \<le> idx then
       Inr \<lparr>ci_current = None, ci_next_sst_idx = length ts, ci_sstables = ts\<rparr>
     else
       and_then (si_create_and_seek_to_key crc (ts ! idx) key) (\<lambda>it.
       case ci_move_until_valid crc
              \<lparr>ci_current = Some it, ci_next_sst_idx = idx + 1, ci_sstables = ts\<rparr> of
         (r, s) \<Rightarrow> and_then r (\<lambda>_. Inr s)))"

definition ci_key :: "concat_iter \<Rightarrow> key res" where
  "ci_key s = (case ci_current s of None \<Rightarrow> Inl Panic | Some it \<Rightarrow> bi_get_key (si_blk_iter it))"

definition ci_value :: "concat_iter \<Rightarrow> bytes res" where
  "ci_value s = (case ci_current s of None \<Rightarrow> Inl Panic | Some it \<Rightarrow> bi_value (si_blk_iter it))"

definition ci_is_valid :: "concat_iter \<Rightarrow> bool res" where
  "ci_is_valid s =
     (case ci_current s of
        None \<Rightarrow> Inr False
      | Some it \<Rightarrow> and_then (ensure (bi_is_valid (si_blk_iter it)) Panic) (\<lambda>_. Inr True))"

definition ci_next :: "(bytes \<Rightarrow> u32) \<Rightarrow> concat_iter \<Rightarrow> unit res \<times> concat_iter" where
  "ci_next crc s =
     (case ci_current s of
        None \<Rightarrow> (Inr (), s)
      | Some current \<Rightarrow>
          (case si_next crc current of
             (Inl e, _) \<Rightarrow> (Inl e, s\<lparr>ci_current := None\<rparr>)
           | (Inr _, current) \<Rightarrow> ci_move_until_valid crc (s\<lparr>ci_current := Some current\<rparr>)))"

definition ci_ops :: "(bytes \<Rightarrow> u32) \<Rightarrow> (concat_iter, key) iter_ops" where
  "ci_ops crc =
     \<lparr>it_value = ci_value, it_key = ci_key, it_is_valid = ci_is_valid, it_next = ci_next crc,
      it_num_active = (\<lambda>_. 1)\<rparr>"

section \<open>The contract\<close>

definition ci_cont :: "(bytes \<Rightarrow> u32) \<Rightarrow> concat_iter \<Rightarrow> (key \<times> bytes) list" where
  "ci_cont crc s = (case ci_current s of None \<Rightarrow> [] | Some it \<Rightarrow> si_cont crc it) @
     concat (map (sst_entries crc) (drop (ci_next_sst_idx s) (ci_sstables s)))"

definition ci_pre :: "(bytes \<Rightarrow> u32) \<Rightarrow> concat_iter \<Rightarrow> bool" where
  "ci_pre crc s \<longleftrightarrow>
     (\<forall>t \<in> set (drop (ci_next_sst_idx s) (ci_sstables s)). sst_ok crc t) \<and> sorted1 (ci_cont crc s) \<and>
     (case ci_current s of
        None \<Rightarrow> length (ci_sstables s) \<le> ci_next_sst_idx s
      | Some it \<Rightarrow> si_inv crc it)"

definition ci_inv :: "(bytes \<Rightarrow> u32) \<Rightarrow> concat_iter \<Rightarrow> bool" where
  "ci_inv crc s \<longleftrightarrow> ci_pre crc s \<and> (\<forall>it. ci_current s = Some it \<longrightarrow> si_cont crc it \<noteq> [])"

lemma si_valid: "si_inv crc it \<Longrightarrow> bi_is_valid (si_blk_iter it) \<longleftrightarrow> si_cont crc it \<noteq> []"
  using si.valid [of crc it] by (simp add: si_ops_def)

lemma ci_move_until_valid_ok:
  assumes "ci_pre crc s"
  shows "\<exists>s'. ci_move_until_valid crc s = (Inr (), s') \<and> ci_inv crc s' \<and> ci_cont crc s' = ci_cont crc s"
  using assms
proof (induction "length (ci_sstables s) - ci_next_sst_idx s" arbitrary: s rule: less_induct)
  case less
  show ?case
  proof (cases "ci_current s")
    case None
    with less.prems show ?thesis
      by (simp add: ci_move_until_valid_def loop_until_unfold [where s = s] ci_move_body_def ci_inv_def)
  next
    case (Some it)
    then have it: "si_inv crc it" using less.prems by (simp add: ci_pre_def)
    show ?thesis
    proof (cases "si_cont crc it = []")
      case False
      with Some it less.prems show ?thesis
        by (simp add: ci_move_until_valid_def loop_until_unfold [where s = s] ci_move_body_def
            ci_inv_def si_valid)
    next
      case empty: True
      show ?thesis
      proof (cases "length (ci_sstables s) \<le> ci_next_sst_idx s")
        case True
        let ?s = "s\<lparr>ci_current := None\<rparr>"
        have "ci_pre crc ?s \<and> ci_inv crc ?s \<and> ci_cont crc ?s = ci_cont crc s"
          using less.prems True Some empty by (simp add: ci_inv_def ci_pre_def ci_cont_def)
        moreover have "ci_move_until_valid crc s = (Inr (), ?s)"
          using True Some empty it
          by (simp add: ci_move_until_valid_def loop_until_unfold [where s = s]
              loop_until_unfold [where s = ?s] ci_move_body_def si_valid)
        ultimately show ?thesis by blast
      next
        case False
        let ?n = "ci_next_sst_idx s"
        have d: "drop ?n (ci_sstables s) = ci_sstables s ! ?n # drop (Suc ?n) (ci_sstables s)"
          using False by (simp add: Cons_nth_drop_Suc)
        then have ok: "sst_ok crc (ci_sstables s ! ?n)" using less.prems by (simp add: ci_pre_def)
        obtain it' where it': "si_create_and_seek_to_first crc (ci_sstables s ! ?n) = Inr it'"
            "si_inv crc it'" "si_cont crc it' = sst_entries crc (ci_sstables s ! ?n)"
          using si_create_and_seek_to_first_ok [OF ok] by blast
        let ?s = "s\<lparr>ci_current := Some it', ci_next_sst_idx := ?n + 1\<rparr>"
        have cont: "ci_cont crc ?s = ci_cont crc s"
          using Some empty it'(3) by (simp add: ci_cont_def d)
        have pre: "ci_pre crc ?s"
          using less.prems it'(2) cont d by (simp add: ci_pre_def)
        have "length (ci_sstables ?s) - ci_next_sst_idx ?s < length (ci_sstables s) - ci_next_sst_idx s"
          using False by simp
        from less.hyps [OF this pre] obtain s' where
          "ci_move_until_valid crc ?s = (Inr (), s')" "ci_inv crc s'" "ci_cont crc s' = ci_cont crc s"
          using cont by auto
        moreover have "ci_move_until_valid crc s = ci_move_until_valid crc ?s"
          using False Some empty it it'(1)
          by (simp add: ci_move_until_valid_def loop_until_unfold [where s = s] ci_move_body_def si_valid)
        ultimately show ?thesis by simp
      qed
    qed
  qed
qed

lemma ci_next_ok:
  assumes inv: "ci_inv crc s"
  shows "\<exists>s'. ci_next crc s = (Inr (), s') \<and> ci_inv crc s' \<and> ci_cont crc s' = tl (ci_cont crc s)"
proof (cases "ci_current s")
  case None
  with inv show ?thesis by (simp add: ci_next_def ci_inv_def ci_pre_def ci_cont_def)
next
  case (Some it)
  then have it: "si_inv crc it" "si_cont crc it \<noteq> []" using inv by (simp_all add: ci_inv_def ci_pre_def)
  obtain it' where it': "si_next crc it = (Inr (), it')" "si_inv crc it'" "si_cont crc it' = tl (si_cont crc it)"
    using si_next_ok [OF it(1)] by blast
  let ?s = "s\<lparr>ci_current := Some it'\<rparr>"
  have cont: "ci_cont crc ?s = tl (ci_cont crc s)"
    using Some it it'(3) by (simp add: ci_cont_def)
  have "ci_pre crc ?s"
    using inv it'(2) cont sorted1_tl [of "ci_cont crc s"] by (simp add: ci_inv_def ci_pre_def)
  from ci_move_until_valid_ok [OF this] show ?thesis
    using Some it'(1) cont by (simp add: ci_next_def)
qed

interpretation ci: sorted_iterator "ci_ops crc" "ci_inv crc" "ci_cont crc"
proof
  fix s
  assume inv: "ci_inv crc s"
  have none: "ci_cont crc s = []" if "ci_current s = None"
    using inv that by (simp add: ci_inv_def ci_pre_def ci_cont_def)
  have some: "si_inv crc it \<and> si_cont crc it \<noteq> []" if "ci_current s = Some it" for it
    using inv that by (simp add: ci_inv_def ci_pre_def)
  show "it_is_valid (ci_ops crc) s = Inr (ci_cont crc s \<noteq> [])"
    using none some
    by (cases "ci_current s") (auto simp: ci_ops_def ci_is_valid_def ci_cont_def si_valid)
  show "\<exists>s'. it_next (ci_ops crc) s = (Inr (), s') \<and> ci_inv crc s' \<and> ci_cont crc s' = tl (ci_cont crc s)"
    using ci_next_ok [OF inv] by (simp add: ci_ops_def)
  show "sorted1 (ci_cont crc s)" using inv by (simp add: ci_inv_def ci_pre_def)
  fix x xs
  assume c: "ci_cont crc s = x # xs"
  then obtain it where it: "ci_current s = Some it" using none by (cases "ci_current s") auto
  obtain ys where ys: "si_cont crc it = x # ys"
    using some [OF it] c it by (cases "si_cont crc it") (auto simp: ci_cont_def)
  show "it_key (ci_ops crc) s = Inr (fst x)" "it_value (ci_ops crc) s = Inr (snd x)"
    using some [OF it] si.key [OF _ ys] si.val [OF _ ys] it
    by (simp_all add: ci_ops_def ci_key_def ci_value_def si_ops_def)
qed

section \<open>Levels\<close>

text \<open>The tables of a level: every one well-formed, each ending before the next one starts.\<close>

definition level_ok :: "(bytes \<Rightarrow> u32) \<Rightarrow> sstable list \<Rightarrow> bool" where
  "level_ok crc ts \<longleftrightarrow> (\<forall>t \<in> set ts. sst_ok crc t) \<and>
     sorted_wrt (\<lambda>a b. sst_last_key a < sst_first_key b) ts"

definition level_entries :: "(bytes \<Rightarrow> u32) \<Rightarrow> sstable list \<Rightarrow> (key \<times> bytes) list" where
  "level_entries crc ts = concat (map (sst_entries crc) ts)"

lemma level_ok_filter: "level_ok crc ts \<Longrightarrow> level_ok crc (filter p ts)"
  by (auto simp: level_ok_def sorted_wrt_filter)

lemma sst_ok_entries:
  assumes "sst_ok crc t"
  shows "sst_entries crc t \<noteq> []" "fst (hd (sst_entries crc t)) = sst_first_key t"
proof -
  obtain bss where holds: "table_holds crc t bss" using assms by (auto simp: sst_ok_def)
  have "bss \<noteq> []" "hd bss \<noteq> []"
    using holds table_holds_blocks [OF holds] by (auto simp: table_holds_def)
  then show "sst_entries crc t \<noteq> []" "fst (hd (sst_entries crc t)) = sst_first_key t"
    using holds by (cases bss; auto simp: table_holds_entries [OF holds] table_holds_def)+
qed

lemma level_ok_sorted: "level_ok crc ts \<Longrightarrow> sorted1 (level_entries crc ts)"
proof (induction ts)
  case (Cons t ts)
  have t: "sst_ok crc t" and ts: "level_ok crc ts" and
    lt: "\<And>u. u \<in> set ts \<Longrightarrow> sst_last_key t < sst_first_key u \<and> sst_ok crc u"
    using Cons.prems by (auto simp: level_ok_def)
  have "fst x < fst y" if x: "x \<in> set (sst_entries crc t)" and y: "y \<in> set (level_entries crc ts)" for x y
  proof -
    obtain u where u: "u \<in> set ts" "y \<in> set (sst_entries crc u)" using y by (auto simp: level_entries_def)
    have "fst x \<le> sst_last_key t" using t x by (rule sst_entries_between)
    also have "\<dots> < sst_first_key u" using lt u(1) by simp
    also have "\<dots> \<le> fst y" using lt [OF u(1)] u(2) by (blast intro: sst_entries_between)
    finally show ?thesis .
  qed
  moreover have "sorted1 (sst_entries crc t)" using t by (simp add: sst_ok_def)
  moreover have "sorted1 (sst_entries crc t @ level_entries crc ts)"
    unfolding sorted1_append using calculation Cons.IH [OF ts] by blast
  ultimately show ?case by (simp add: level_entries_def)
qed (simp add: level_entries_def)

lemma level_ok_check: "level_ok crc ts \<Longrightarrow> ci_check_sst_valid ts = Inr ()"
  using sorted_wrt_nth_less [of "\<lambda>a b. sst_last_key a < sst_first_key b" ts]
  by (auto simp: ci_check_sst_valid_def level_ok_def sst_first_le_last res_simps)

text \<open>
  The assertions are not vacuous: on well-formed tables they hold exactly for the sorted and
  disjoint ones.
\<close>

lemma check_level_ok:
  assumes "ci_check_sst_valid ts = Inr u" "\<forall>t \<in> set ts. sst_ok crc t"
  shows "level_ok crc ts"
proof -
  have adj: "sst_last_key (ts ! i) < sst_first_key (ts ! Suc i)" if "Suc i < length ts" for i
    using assms(1) that by (auto simp: ci_check_sst_valid_def res_simps)
  have "sst_last_key (ts ! i) < sst_first_key (ts ! (Suc (i + d)))" if "Suc (i + d) < length ts" for i d
    using that
  proof (induction d)
    case (Suc d)
    have "sst_last_key (ts ! i) < sst_first_key (ts ! Suc (i + d))" using Suc by simp
    also have "\<dots> \<le> sst_last_key (ts ! Suc (i + d))" using assms(2) Suc.prems
      by (intro sst_first_le_last [of crc]) simp
    also have "\<dots> < sst_first_key (ts ! Suc (i + Suc d))" using adj Suc.prems by simp
    finally show ?case .
  qed (simp add: adj)
  then have "sst_last_key (ts ! i) < sst_first_key (ts ! j)" if "i < j" "j < length ts" for i j
    using that by (metis less_iff_Suc_add)
  then show ?thesis using assms(2) by (auto simp: level_ok_def sorted_wrt_iff_nth_less)
qed

lemma ci_create_and_seek_to_first_ok:
  assumes ok: "level_ok crc ts"
  obtains s where "ci_create_and_seek_to_first crc ts = Inr s" "ci_inv crc s" "ci_cont crc s = level_entries crc ts"
proof (cases ts)
  case Nil
  then show thesis
    by (intro that [of "\<lparr>ci_current = None, ci_next_sst_idx = 0, ci_sstables = []\<rparr>"])
      (simp_all add: ci_create_and_seek_to_first_def ci_check_sst_valid_def
        ci_inv_def ci_pre_def ci_cont_def level_entries_def)
next
  case (Cons t us)
  have t: "sst_ok crc t" using ok Cons by (simp add: level_ok_def)
  obtain it where it: "si_create_and_seek_to_first crc t = Inr it" "si_inv crc it" "si_cont crc it = sst_entries crc t"
    using si_create_and_seek_to_first_ok [OF t] by blast
  let ?s = "\<lparr>ci_current = Some it, ci_next_sst_idx = 1, ci_sstables = ts\<rparr>"
  have cont: "ci_cont crc ?s = level_entries crc ts"
    using it(3) Cons by (simp add: ci_cont_def level_entries_def)
  have "ci_pre crc ?s"
    using ok it(2) level_ok_sorted [OF ok] cont Cons by (simp add: ci_pre_def level_ok_def)
  from ci_move_until_valid_ok [OF this] obtain s' where
    "ci_move_until_valid crc ?s = (Inr (), s')" "ci_inv crc s'" "ci_cont crc s' = level_entries crc ts"
    using cont by auto
  then show thesis
    using that level_ok_check [OF ok] it(1) Cons by (simp add: ci_create_and_seek_to_first_def)
qed

lemma ci_create_and_seek_to_key_ok:
  assumes ok: "level_ok crc ts"
  obtains s where "ci_create_and_seek_to_key crc ts k = Inr s" "ci_inv crc s"
    "ci_cont crc s = dropWhile (\<lambda>x. fst x < k) (level_entries crc ts)"
proof (cases "ts = []")
  case True
  then show thesis
    by (intro that [of "\<lparr>ci_current = None, ci_next_sst_idx = 0, ci_sstables = []\<rparr>"])
      (simp_all add: ci_create_and_seek_to_key_def ci_check_sst_valid_def Let_def
        ci_inv_def ci_pre_def ci_cont_def level_entries_def)
next
  case False
  define n where "n = partition_point (\<lambda>t. sst_first_key t \<le> k) ts - 1"
  define bss where "bss = map (sst_entries crc) ts"
  have tok: "sst_ok crc t" if "t \<in> set ts" for t using ok that by (simp add: level_ok_def)
  have "map sst_first_key ts = map (\<lambda>es. fst (hd es)) bss"
    using tok by (simp add: bss_def sst_ok_entries)
  from partition_point_map [OF this, of "\<lambda>x. x \<le> k"]
  have n: "n = partition_point (\<lambda>es. fst (hd es) \<le> k) bss - 1"
    unfolding n_def by simp
  have bss: "bss \<noteq> []" "\<forall>es \<in> set bss. es \<noteq> []" "sorted1 (concat bss)"
    using False tok level_ok_sorted [OF ok] by (auto simp: bss_def sst_ok_entries level_entries_def)
  note split = chunk_split [OF bss n] and dw = chunk_dropWhile [OF bss n]
  have lt: "n < length ts" using split(1) by (simp add: bss_def)
  obtain it where it: "si_create_and_seek_to_key crc (ts ! n) k = Inr it" "si_inv crc it"
      "si_cont crc it = dropWhile (\<lambda>x. fst x < k) (bss ! n)"
    using si_create_and_seek_to_key_ok [OF tok, of "ts ! n" k] lt by (auto simp: bss_def)
  let ?s = "\<lparr>ci_current = Some it, ci_next_sst_idx = n + 1, ci_sstables = ts\<rparr>"
  have cont: "ci_cont crc ?s = dropWhile (\<lambda>x. fst x < k) (level_entries crc ts)"
    using it(3) dw by (simp add: ci_cont_def level_entries_def bss_def drop_map)
  have "sorted1 (dropWhile (\<lambda>x. fst x < k) (level_entries crc ts))"
    using level_ok_sorted [OF ok] by (simp add: dropWhile_less_eq_filter sorted1_filter)
  then have "ci_pre crc ?s"
    using it(2) cont tok by (auto simp: ci_pre_def dest: in_set_dropD)
  from ci_move_until_valid_ok [OF this] obtain s' where
    "ci_move_until_valid crc ?s = (Inr (), s')" "ci_inv crc s'"
    "ci_cont crc s' = dropWhile (\<lambda>x. fst x < k) (level_entries crc ts)"
    using cont by auto
  then show thesis
    using that level_ok_check [OF ok] it(1) lt
    by (simp add: ci_create_and_seek_to_key_def Let_def n_def)
qed

section \<open>Properties\<close>

text \<open>
  C37: A level is read like one table: over tables that are well-formed and follow each other
  without overlap, the iterator created at a key passes its own assertions and produces exactly
  the entries of all tables, in order, that are not below the key.
\<close>

theorem concat_seek:
  assumes "level_ok crc ts"
  shows "\<exists>s. ci_create_and_seek_to_key crc ts k = Inr s \<and>
    it_drain (ci_ops crc) (length (level_entries crc ts)) s =
      Inr (filter (\<lambda>e. k \<le> fst e) (level_entries crc ts))"
proof -
  obtain s where s: "ci_create_and_seek_to_key crc ts k = Inr s" "ci_inv crc s"
      "ci_cont crc s = dropWhile (\<lambda>x. fst x < k) (level_entries crc ts)"
    using ci_create_and_seek_to_key_ok [OF assms] by blast
  have "ci_cont crc s = filter (\<lambda>e. k \<le> fst e) (level_entries crc ts)"
    using s(3) level_ok_sorted [OF assms] by (simp add: dropWhile_less_eq_filter)
  then show ?thesis using s(1) ci.drain [OF s(2), of "length (level_entries crc ts)"] by simp
qed

theorem concat_seek_witness:
  "\<exists>s. ci_create_and_seek_to_key (\<lambda>_. 0) [sample_sst (\<lambda>_. 0) (\<lambda>_. 1)] (Key [1, 2] 4) = Inr s \<and>
    it_drain (ci_ops (\<lambda>_. 0)) (length (level_entries (\<lambda>_. 0) [sample_sst (\<lambda>_. 0) (\<lambda>_. 1)])) s =
      Inr (filter (\<lambda>e. Key [1, 2] 4 \<le> fst e) (level_entries (\<lambda>_. 0) [sample_sst (\<lambda>_. 0) (\<lambda>_. 1)]))"
  by (rule concat_seek) (simp add: level_ok_def sample_sst_ok)

text \<open>
  The assertions of \<open>check_sst_valid\<close> accept exactly the lists of well-formed tables that are
  sorted and pairwise disjoint; it is enough that it compares neighbours.
\<close>

lemma check_sst_valid_exact:
  assumes "\<forall>t \<in> set ts. sst_ok crc t"
  shows "ci_check_sst_valid ts = Inr () \<longleftrightarrow> sorted_wrt (\<lambda>a b. sst_last_key a < sst_first_key b) ts"
proof -
  have "ci_check_sst_valid ts = Inr () \<longleftrightarrow> level_ok crc ts"
    using check_level_ok [OF _ assms] level_ok_check by blast
  then show ?thesis using assms by (simp add: level_ok_def)
qed

end
