(* ===== verification/LsmIter.thy ===== *)
theory LsmIter
  imports Iterators
begin

text \<open>
  \<open>src/lsm_iterator.rs\<close>: \<open>LsmIterator\<close> turns a stream of versioned entries into the key-value
  pairs visible at a read timestamp, and \<open>FusedIterator\<close> stops an iterator at its first error.

  The specification of visibility is \<open>visible_get\<close>: the newest version of a user key that is not
  newer than the read timestamp decides, and an empty value means deleted. \<open>visible\<close> lists the
  visible pairs of a sorted run of entries; \<open>LsmIterator\<close> is proved to produce exactly this list,
  up to its end bound.
\<close>

section \<open>Visibility\<close>

definition same_user :: "bytes \<Rightarrow> key \<times> bytes \<Rightarrow> bool" where
  "same_user u e \<longleftrightarrow> key_ref (fst e) = u"

fun visible_get :: "u64 \<Rightarrow> (key \<times> bytes) list \<Rightarrow> bytes \<Rightarrow> bytes option" where
  "visible_get ts [] u = None"
| "visible_get ts (e # es) u =
     (if key_ref (fst e) = u \<and> key_ts (fst e) \<le> ts
      then (if snd e = [] then None else Some (snd e))
      else visible_get ts es u)"

function visible :: "u64 \<Rightarrow> (key \<times> bytes) list \<Rightarrow> (bytes \<times> bytes) list" where
  "visible ts [] = []"
| "visible ts (e # es) =
     (if ts < key_ts (fst e) then visible ts es
      else (if snd e = [] then [] else [(key_ref (fst e), snd e)]) @
        visible ts (dropWhile (same_user (key_ref (fst e))) es))"
  by pat_completeness auto
termination
  by (relation "measure (\<lambda>(ts, es). length es)") (auto simp: less_Suc_eq_le length_dropWhile_le)

lemma visible_keys: "k \<in> fst ` set (visible ts es) \<Longrightarrow> k \<in> (\<lambda>e. key_ref (fst e)) ` set es"
  by (induction ts es rule: visible.induct) (auto split: if_splits dest: set_dropWhileD)

lemma sorted1_refs: "sorted1 (e # es) \<Longrightarrow> e' \<in> set es \<Longrightarrow> key_ref (fst e) \<le> key_ref (fst e')"
  by (auto intro: key_le_refD less_imp_le)

lemma sorted1_dropWhile: "sorted1 es \<Longrightarrow> sorted1 (dropWhile p es)"
  by (induction es) auto

text \<open>Behind the versions of one user key there are only greater user keys.\<close>

lemma dropWhile_user_greater:
  assumes "sorted1 (e # es)" "e' \<in> set (dropWhile (same_user (key_ref (fst e))) es)"
  shows "key_ref (fst e) < key_ref (fst e')"
  using assms
proof (induction es)
  case (Cons a es)
  show ?case
  proof (cases "same_user (key_ref (fst e)) a")
    case True
    with Cons show ?thesis by auto
  next
    case False
    have "key_ref (fst e) \<le> key_ref (fst a)" using sorted1_refs [OF Cons.prems(1)] by simp
    with False have less: "key_ref (fst e) < key_ref (fst a)" by (simp add: same_user_def)
    have s: "sorted1 (a # es)" using Cons.prems(1) by simp
    have "e' = a \<or> e' \<in> set es" using Cons.prems(2) False by simp
    then have "key_ref (fst a) \<le> key_ref (fst e')" using sorted1_refs [OF s, of e'] by blast
    with less show ?thesis by (rule less_le_trans)
  qed
qed simp

lemma sorted1_visible: "sorted1 es \<Longrightarrow> sorted1 (visible ts es)"
proof (induction ts es rule: visible.induct)
  case (2 ts e es)
  show ?case
  proof (cases "ts < key_ts (fst e)")
    case True
    with 2 show ?thesis by simp
  next
    case False
    have rest: "sorted1 (visible ts (dropWhile (same_user (key_ref (fst e))) es))"
      using "2.IH"(2) [OF False] "2.prems" by (simp add: sorted1_dropWhile)
    have "key_ref (fst e) < k"
      if k: "k \<in> fst ` set (visible ts (dropWhile (same_user (key_ref (fst e))) es))" for k
    proof -
      obtain e' where "e' \<in> set (dropWhile (same_user (key_ref (fst e))) es)" "k = key_ref (fst e')"
        using visible_keys [OF k] by blast
      then show ?thesis using dropWhile_user_greater [OF "2.prems"] by simp
    qed
    with rest False show ?thesis by simp
  qed
qed simp

lemma visible_get_notin: "u \<notin> (\<lambda>e. key_ref (fst e)) ` set es \<Longrightarrow> visible_get ts es u = None"
  by (induction es) auto

lemma visible_get_dropWhile: "u \<noteq> w \<Longrightarrow> visible_get ts (dropWhile (same_user w) es) u = visible_get ts es u"
  by (induction es) (auto simp: same_user_def)

lemma map_of_visible: "sorted1 es \<Longrightarrow> map_of (visible ts es) u = visible_get ts es u"
proof (induction ts es rule: visible.induct)
  case (2 ts e es)
  show ?case
  proof (cases "ts < key_ts (fst e)")
    case True
    then have "\<not> key_ts (fst e) \<le> ts" by (simp add: not_le)
    with True 2 show ?thesis by simp
  next
    case False
    let ?es = "dropWhile (same_user (key_ref (fst e))) es"
    have IH: "map_of (visible ts ?es) u = visible_get ts ?es u"
      using "2.IH"(2) [OF False] "2.prems" by (simp add: sorted1_dropWhile)
    show ?thesis
    proof (cases "u = key_ref (fst e)")
      case True
      have "u \<notin> (\<lambda>e. key_ref (fst e)) ` set ?es"
        using dropWhile_user_greater [OF "2.prems"] True by fastforce
      moreover have "key_ts (fst e) \<le> ts" using False by (simp add: not_less)
      ultimately show ?thesis using IH True False by (simp add: visible_get_notin)
    next
      case neq: False
      have "key_ts (fst e) \<le> ts" using False by (simp add: not_less)
      with IH False neq visible_get_dropWhile [OF neq, of ts es] show ?thesis by simp
    qed
  qed
qed simp

lemma finite_dom_visible_get [simp]: "finite (dom (visible_get ts es))"
  by (rule finite_subset [of _ "(\<lambda>e. key_ref (fst e)) ` set es"])
    (use visible_get_notin in \<open>fastforce\<close>, simp)

lemma list_of_map_visible: "sorted1 es \<Longrightarrow> visible ts es = list_of_map (visible_get ts es)"
  by (rule sorted1_map_of_eqI)
    (simp_all add: sorted1_visible sorted1_list_of_map map_of_visible fun_eq_iff map_of_list_of_map
      finite_dom_visible_get)

text \<open>Visibility of a user key depends on its own versions only.\<close>

lemma visible_get_filter: "visible_get ts (filter (same_user u) es) u = visible_get ts es u"
  by (induction es) (auto simp: same_user_def)

lemma filter_same_user_cong:
  assumes "sorted1 es" "sorted1 es'" "\<And>k. key_ref k = u \<Longrightarrow> map_of es k = map_of es' k"
  shows "filter (same_user u) es = filter (same_user u) es'"
proof (rule sorted1_map_of_eqI)
  show "map_of (filter (same_user u) es) = map_of (filter (same_user u) es')"
    by (rule ext) (simp add: same_user_def [abs_def] map_of_filter_key [of "\<lambda>k. key_ref k = u"] assms(3))
qed (use assms in \<open>simp_all add: sorted1_filter\<close>)

lemma visible_get_cong:
  assumes "sorted1 es" "sorted1 es'" "\<And>k. key_ref k = u \<Longrightarrow> map_of es k = map_of es' k"
  shows "visible_get ts es u = visible_get ts es' u"
  using visible_get_filter [of ts u es] visible_get_filter [of ts u es'] filter_same_user_cong [OF assms] by simp

text \<open>The loop of \<open>get_with_ts\<close>: past the versions that are too new, the first entry decides.\<close>

lemma visible_get_first:
  assumes "sorted1 es" "\<forall>e \<in> set es. u \<le> key_ref (fst e)"
  shows "visible_get ts es u =
    (case dropWhile (\<lambda>e. key_ref (fst e) = u \<and> ts < key_ts (fst e)) es of
       [] \<Rightarrow> None
     | e # _ \<Rightarrow> if key_ref (fst e) = u \<and> snd e \<noteq> [] then Some (snd e) else None)"
  using assms
proof (induction es)
  case (Cons e es)
  show ?case
  proof (cases "key_ref (fst e) = u")
    case user: True
    show ?thesis
    proof (cases "ts < key_ts (fst e)")
      case True
      then have "\<not> key_ts (fst e) \<le> ts" by (simp add: not_le)
      with True user Cons show ?thesis by simp
    next
      case False
      then have "key_ts (fst e) \<le> ts" by (simp add: not_less)
      with False user show ?thesis by simp
    qed
  next
    case False
    then have "u < key_ref (fst e)" using Cons.prems(2) by (simp add: order.strict_iff_order)
    then have "u < key_ref (fst e')" if "e' \<in> set es" for e'
      using sorted1_refs [OF Cons.prems(1) that] by simp
    then have "visible_get ts es u = None" by (intro visible_get_notin) fastforce
    with False show ?thesis by simp
  qed
qed simp

lemma takeWhile_below_filter:
  "sorted1 xs \<Longrightarrow> takeWhile (\<lambda>x. below_bound b (fst x)) xs = filter (\<lambda>x. below_bound b (fst x)) xs"
proof (induction xs)
  case (Cons x xs)
  show ?case
  proof (cases "below_bound b (fst x)")
    case False
    have "\<not> below_bound b (fst y)" if "y \<in> set xs" for y
      using Cons.prems False that by (cases b) auto
    with False show ?thesis by simp
  qed (use Cons in simp)
qed simp

section \<open>The iterator\<close>

record 'i lsm_iter =
  li_inner :: 'i
  li_end_bound :: "bytes bound"
  li_read_timestamp :: u64
  li_prev_key :: "bytes option"

text \<open>One round of \<open>skip_tompstone\<close>: past versions that are too new, and past a deleted user key.\<close>

definition li_skip_body ::
    "('i, key) iter_ops \<Rightarrow> 'i lsm_iter \<Rightarrow> unit res option \<times> 'i lsm_iter" where
  "li_skip_body d s =
     (case it_skip_while d (\<lambda>k. li_read_timestamp s < key_ts k) (li_inner s) of
        (Inl e, i) \<Rightarrow> (Some (Inl e), s\<lparr>li_inner := i\<rparr>)
      | (Inr _, i) \<Rightarrow>
          let s = s\<lparr>li_inner := i\<rparr> in
          (case it_is_valid d i of
             Inl e \<Rightarrow> (Some (Inl e), s)
           | Inr False \<Rightarrow> (Some (Inr ()), s)
           | Inr True \<Rightarrow>
               (case and_then (it_value d i) (\<lambda>v. and_then (it_key d i) (\<lambda>k. Inr (v, k))) of
                  Inl e \<Rightarrow> (Some (Inl e), s)
                | Inr (v, k) \<Rightarrow>
                    if v \<noteq> [] then (Some (Inr ()), s)
                    else (case it_skip_while d (\<lambda>k'. key_ref k' = key_ref k) i of
                            (Inl e, i) \<Rightarrow> (Some (Inl e), s\<lparr>li_inner := i\<rparr>)
                          | (Inr _, i) \<Rightarrow> (None, s\<lparr>li_inner := i\<rparr>)))))"

definition li_skip_tompstone :: "('i, key) iter_ops \<Rightarrow> 'i lsm_iter \<Rightarrow> unit res \<times> 'i lsm_iter" where
  "li_skip_tompstone d = loop_until (li_skip_body d)"

text \<open>\<open>if inner.is_valid() { prev_key = Some(inner.key().key_ref()) }\<close>.\<close>

definition li_remember :: "('i, key) iter_ops \<Rightarrow> 'i lsm_iter \<Rightarrow> 'i lsm_iter res" where
  "li_remember d s =
     and_then (it_is_valid d (li_inner s)) (\<lambda>v.
     if v then and_then (it_key d (li_inner s)) (\<lambda>k. Inr (s\<lparr>li_prev_key := Some (key_ref k)\<rparr>))
     else Inr s)"

definition li_new ::
    "('i, key) iter_ops \<Rightarrow> 'i \<Rightarrow> bytes bound \<Rightarrow> u64 \<Rightarrow> 'i lsm_iter res" where
  "li_new d iter end_bound read_timestamp =
     (case li_skip_tompstone d \<lparr>li_inner = iter, li_end_bound = end_bound,
             li_read_timestamp = read_timestamp, li_prev_key = None\<rparr> of
        (r, s) \<Rightarrow> and_then r (\<lambda>_. li_remember d s))"

definition li_in_range :: "('i, key) iter_ops \<Rightarrow> 'i lsm_iter \<Rightarrow> bool res" where
  "li_in_range d s =
     (case li_end_bound s of
        Included b \<Rightarrow> and_then (it_key d (li_inner s)) (\<lambda>k. Inr (key_ref k \<le> b))
      | Excluded b \<Rightarrow> and_then (it_key d (li_inner s)) (\<lambda>k. Inr (key_ref k < b))
      | Unbounded \<Rightarrow> Inr True)"

definition li_is_valid :: "('i, key) iter_ops \<Rightarrow> 'i lsm_iter \<Rightarrow> bool res" where
  "li_is_valid d s =
     and_then (it_is_valid d (li_inner s)) (\<lambda>v. if v then li_in_range d s else Inr False)"

definition li_key :: "('i, key) iter_ops \<Rightarrow> 'i lsm_iter \<Rightarrow> bytes res" where
  "li_key d s = and_then (it_key d (li_inner s)) (\<lambda>k. Inr (key_ref k))"

definition li_next :: "('i, key) iter_ops \<Rightarrow> 'i lsm_iter \<Rightarrow> unit res \<times> 'i lsm_iter" where
  "li_next d s =
     (case it_skip_while d (\<lambda>k. li_prev_key s = Some (key_ref k)) (li_inner s) of
        (Inl e, i) \<Rightarrow> (Inl e, s\<lparr>li_inner := i\<rparr>)
      | (Inr _, i) \<Rightarrow>
          (case li_skip_tompstone d (s\<lparr>li_inner := i\<rparr>) of
             (Inl e, s) \<Rightarrow> (Inl e, s)
           | (Inr _, s) \<Rightarrow>
               (case li_remember d s of Inl e \<Rightarrow> (Inl e, s) | Inr s \<Rightarrow> (Inr (), s))))"

definition li_ops :: "('i, key) iter_ops \<Rightarrow> ('i lsm_iter, bytes) iter_ops" where
  "li_ops d =
     \<lparr>it_value = (\<lambda>s. it_value d (li_inner s)), it_key = li_key d, it_is_valid = li_is_valid d,
      it_next = li_next d, it_num_active = (\<lambda>s. it_num_active d (li_inner s))\<rparr>"

section \<open>The contract\<close>

definition li_cont ::
    "('i \<Rightarrow> (key \<times> bytes) list) \<Rightarrow> 'i lsm_iter \<Rightarrow> (bytes \<times> bytes) list" where
  "li_cont cont s =
     takeWhile (\<lambda>x. below_bound (li_end_bound s) (fst x)) (visible (li_read_timestamp s) (cont (li_inner s)))"

text \<open>Between operations the inner iterator stands at the end or at a visible entry.\<close>

definition at_visible :: "u64 \<Rightarrow> (key \<times> bytes) list \<Rightarrow> bool" where
  "at_visible ts es \<longleftrightarrow> (case es of [] \<Rightarrow> True | e # _ \<Rightarrow> key_ts (fst e) \<le> ts \<and> snd e \<noteq> [])"

definition li_inv ::
    "('i \<Rightarrow> bool) \<Rightarrow> ('i \<Rightarrow> (key \<times> bytes) list) \<Rightarrow> 'i lsm_iter \<Rightarrow> bool" where
  "li_inv iinv cont s \<longleftrightarrow> iinv (li_inner s) \<and> at_visible (li_read_timestamp s) (cont (li_inner s)) \<and>
     (\<forall>e es. cont (li_inner s) = e # es \<longrightarrow> li_prev_key s = Some (key_ref (fst e)))"

lemma visible_dropWhile_new: "visible ts (dropWhile (\<lambda>e. ts < key_ts (fst e)) es) = visible ts es"
  by (induction es) auto

lemma visible_at:
  "at_visible ts (e # es) \<Longrightarrow>
   visible ts (e # es) = (key_ref (fst e), snd e) # visible ts (dropWhile (same_user (key_ref (fst e))) es)"
  using leD [of "key_ts (fst e)" ts] by (simp add: at_visible_def)

lemma sorted1_takeWhile: "sorted1 xs \<Longrightarrow> sorted1 (takeWhile p xs)"
  by (induction xs) (auto dest: set_takeWhileD)

lemma takeWhile_below_sorted:
  assumes "sorted1 (x # xs)" "\<not> below_bound b (fst x)"
  shows "takeWhile (\<lambda>x. below_bound b (fst x)) xs = []"
proof (cases xs)
  case (Cons y ys)
  have "fst x < fst y" using assms(1) Cons by simp
  with assms(2) have "\<not> below_bound b (fst y)" by (cases b) auto
  then show ?thesis by (simp add: Cons)
qed simp

lemma tl_takeWhile_below:
  assumes "sorted1 (x # xs)"
  shows "tl (takeWhile (\<lambda>x. below_bound b (fst x)) (x # xs)) = takeWhile (\<lambda>x. below_bound b (fst x)) xs"
  using takeWhile_below_sorted [OF assms, of b] by (cases "below_bound b (fst x)") simp_all

locale lsm_iterator = sorted_iterator d iinv cont
  for d :: "('i, key) iter_ops" and iinv cont

context lsm_iterator
begin

lemma skip_tompstone:
  assumes "iinv (li_inner s)"
  shows "\<exists>i. li_skip_tompstone d s = (Inr (), s\<lparr>li_inner := i\<rparr>) \<and> iinv i \<and>
    at_visible (li_read_timestamp s) (cont i) \<and>
    visible (li_read_timestamp s) (cont i) = visible (li_read_timestamp s) (cont (li_inner s))"
  using assms
proof (induction "length (cont (li_inner s))" arbitrary: s rule: less_induct)
  case less
  let ?ts = "li_read_timestamp s"
  obtain i where i: "it_skip_while d (\<lambda>k. ?ts < key_ts k) (li_inner s) = (Inr (), i)" "iinv i"
      "cont i = dropWhile (\<lambda>e. ?ts < key_ts (fst e)) (cont (li_inner s))"
    using skip_while [OF less.prems, of "\<lambda>k. ?ts < key_ts k"] by blast
  have vis: "visible ?ts (cont i) = visible ?ts (cont (li_inner s))"
    by (simp add: i(3) visible_dropWhile_new)
  show ?case
  proof (cases "cont i")
    case Nil
    then have "li_skip_tompstone d s = (Inr (), s\<lparr>li_inner := i\<rparr>)"
      using i valid [OF i(2)]
      by (simp add: li_skip_tompstone_def loop_until_unfold [where s = s] li_skip_body_def Let_def)
    with Nil i(2) vis show ?thesis by (auto simp: at_visible_def)
  next
    case (Cons e es)
    have ts: "key_ts (fst e) \<le> ?ts"
      using i(3) Cons by (metis dropWhile_eq_Cons_conv linorder_not_le)
    have "it_is_valid d i = Inr True" using valid [OF i(2)] Cons by simp
    note kv = key [OF i(2) Cons] val [OF i(2) Cons] this
    show ?thesis
    proof (cases "snd e = []")
      case False
      then have "li_skip_tompstone d s = (Inr (), s\<lparr>li_inner := i\<rparr>)"
        using i(1) kv
        by (simp add: li_skip_tompstone_def loop_until_unfold [where s = s] li_skip_body_def Let_def)
      with False Cons ts i(2) vis show ?thesis by (auto simp: at_visible_def)
    next
      case True
      obtain i2 where i2: "it_skip_while d (\<lambda>k'. key_ref k' = key_ref (fst e)) i = (Inr (), i2)" "iinv i2"
          "cont i2 = dropWhile (same_user (key_ref (fst e))) (cont i)"
        using skip_while [OF i(2), of "\<lambda>k'. key_ref k' = key_ref (fst e)"]
        by (auto simp: same_user_def [abs_def])
      have cont2: "cont i2 = dropWhile (same_user (key_ref (fst e))) es"
        using i2(3) Cons by (simp add: same_user_def)
      have "length (cont i2) < length (cont i)"
        unfolding cont2 Cons by (simp add: less_Suc_eq_le length_dropWhile_le)
      also have "\<dots> \<le> length (cont (li_inner s))" unfolding i(3) by (rule length_dropWhile_le)
      finally have len: "length (cont (li_inner (s\<lparr>li_inner := i2\<rparr>))) < length (cont (li_inner s))" by simp
      have vis2: "visible ?ts (cont i2) = visible ?ts (cont (li_inner s))"
        using vis [symmetric] Cons True ts cont2 by (simp add: linorder_not_less)
      have "li_skip_body d s = (None, s\<lparr>li_inner := i2\<rparr>)"
        using i(1) kv True i2(1) by (simp add: li_skip_body_def Let_def)
      then have "li_skip_tompstone d s = li_skip_tompstone d (s\<lparr>li_inner := i2\<rparr>)"
        by (simp add: li_skip_tompstone_def loop_until_unfold [where s = s])
      then show ?thesis using less.hyps [OF len] i2(2) vis2 by auto
    qed
  qed
qed

lemma remember:
  assumes "iinv (li_inner s)" "at_visible (li_read_timestamp s) (cont (li_inner s))"
  obtains p where "li_remember d s = Inr (s\<lparr>li_prev_key := p\<rparr>)" "li_inv iinv cont (s\<lparr>li_prev_key := p\<rparr>)"
proof (cases "cont (li_inner s)")
  case Nil
  then show thesis
    using assms that [of "li_prev_key s"] valid [OF assms(1)] by (simp add: li_remember_def li_inv_def)
next
  case (Cons e es)
  then show thesis
    using assms that [of "Some (key_ref (fst e))"] valid [OF assms(1)] key [OF assms(1) Cons]
    by (simp add: li_remember_def li_inv_def)
qed

lemma new_ok:
  assumes "iinv i"
  obtains s where "li_new d i b ts = Inr s" "li_inv iinv cont s"
    "li_cont cont s = takeWhile (\<lambda>x. below_bound b (fst x)) (visible ts (cont i))"
proof -
  let ?s = "\<lparr>li_inner = i, li_end_bound = b, li_read_timestamp = ts, li_prev_key = None\<rparr>"
  obtain i' where i': "li_skip_tompstone d ?s = (Inr (), ?s\<lparr>li_inner := i'\<rparr>)" "iinv i'"
      "at_visible ts (cont i')" "visible ts (cont i') = visible ts (cont i)"
    using skip_tompstone [of ?s] assms by auto
  obtain p where "li_remember d (?s\<lparr>li_inner := i'\<rparr>) = Inr (?s\<lparr>li_inner := i', li_prev_key := p\<rparr>)"
      "li_inv iinv cont (?s\<lparr>li_inner := i', li_prev_key := p\<rparr>)"
    using remember [of "?s\<lparr>li_inner := i'\<rparr>"] i' by auto
  then show thesis
    using that i' by (simp add: li_new_def li_cont_def)
qed

lemma next_ok:
  assumes inv: "li_inv iinv cont s"
  shows "\<exists>s'. li_next d s = (Inr (), s') \<and> li_inv iinv cont s' \<and> li_cont cont s' = tl (li_cont cont s)"
proof -
  let ?ts = "li_read_timestamp s" and ?p = "\<lambda>k. li_prev_key s = Some (key_ref k)"
  have i0: "iinv (li_inner s)" "at_visible ?ts (cont (li_inner s))" using inv by (simp_all add: li_inv_def)
  obtain i where i: "it_skip_while d ?p (li_inner s) = (Inr (), i)" "iinv i"
      "cont i = dropWhile (\<lambda>x. ?p (fst x)) (cont (li_inner s))"
    using skip_while [OF i0(1), of ?p] by blast
  obtain i' where i': "li_skip_tompstone d (s\<lparr>li_inner := i\<rparr>) = (Inr (), s\<lparr>li_inner := i'\<rparr>)" "iinv i'"
      "at_visible ?ts (cont i')" "visible ?ts (cont i') = visible ?ts (cont i)"
    using skip_tompstone [of "s\<lparr>li_inner := i\<rparr>"] i(2) by auto
  obtain p where p: "li_remember d (s\<lparr>li_inner := i'\<rparr>) = Inr (s\<lparr>li_inner := i', li_prev_key := p\<rparr>)"
      "li_inv iinv cont (s\<lparr>li_inner := i', li_prev_key := p\<rparr>)"
    using remember [of "s\<lparr>li_inner := i'\<rparr>"] i' by auto
  have tl: "takeWhile (\<lambda>x. below_bound (li_end_bound s) (fst x)) (visible ?ts (cont i)) = tl (li_cont cont s)"
  proof (cases "cont (li_inner s)")
    case Nil
    then show ?thesis by (simp add: i(3) li_cont_def)
  next
    case (Cons e es)
    have "li_prev_key s = Some (key_ref (fst e))" using inv Cons by (simp add: li_inv_def)
    then have cont: "cont i = dropWhile (same_user (key_ref (fst e))) es"
      by (simp add: i(3) Cons same_user_def [abs_def] eq_commute [of "key_ref (fst e)"])
    have vis: "visible ?ts (cont (li_inner s)) = (key_ref (fst e), snd e) # visible ?ts (cont i)"
      using visible_at [of ?ts e es] i0(2) Cons by (simp add: cont)
    have "sorted1 ((key_ref (fst e), snd e) # visible ?ts (cont i))"
      using sorted1_visible [OF sorted [OF i0(1)], of ?ts] vis by simp
    from tl_takeWhile_below [OF this] show ?thesis by (simp add: li_cont_def vis)
  qed
  have "li_next d s = (Inr (), s\<lparr>li_inner := i', li_prev_key := p\<rparr>)"
    using i(1) i'(1) p(1) by (simp add: li_next_def)
  then show ?thesis using p(2) i'(4) tl by (auto simp: li_cont_def)
qed

end

sublocale lsm_iterator \<subseteq> out: sorted_iterator "li_ops d" "li_inv iinv cont" "li_cont cont"
proof
  fix s
  assume inv: "li_inv iinv cont s"
  have i0: "iinv (li_inner s)" "at_visible (li_read_timestamp s) (cont (li_inner s))"
    using inv by (simp_all add: li_inv_def)
  show "it_is_valid (li_ops d) s = Inr (li_cont cont s \<noteq> [])"
  proof (cases "cont (li_inner s)")
    case Nil
    then show ?thesis using valid [OF i0(1)] by (simp add: li_ops_def li_is_valid_def li_cont_def)
  next
    case (Cons e es)
    have "li_in_range d s = Inr (below_bound (li_end_bound s) (key_ref (fst e)))"
      using key [OF i0(1) Cons] by (cases "li_end_bound s") (simp_all add: li_in_range_def)
    then show ?thesis
      using valid [OF i0(1)] Cons visible_at [of "li_read_timestamp s" e es] i0(2)
      by (simp add: li_ops_def li_is_valid_def li_cont_def)
  qed
  show "\<exists>s'. it_next (li_ops d) s = (Inr (), s') \<and> li_inv iinv cont s' \<and> li_cont cont s' = tl (li_cont cont s)"
    using next_ok [OF inv] by (simp add: li_ops_def)
  show "sorted1 (li_cont cont s)"
    unfolding li_cont_def by (intro sorted1_takeWhile sorted1_visible sorted i0)
  fix x xs
  assume c: "li_cont cont s = x # xs"
  then obtain e es where Cons: "cont (li_inner s) = e # es"
    by (cases "cont (li_inner s)") (simp_all add: li_cont_def)
  have "x = (key_ref (fst e), snd e)"
    using c visible_at [of "li_read_timestamp s" e es] i0(2) Cons by (auto simp: li_cont_def split: if_splits)
  then show "it_key (li_ops d) s = Inr (fst x)" "it_value (li_ops d) s = Inr (snd x)"
    using key [OF i0(1) Cons] val [OF i0(1) Cons] by (simp_all add: li_ops_def li_key_def)
qed

section \<open>The fused iterator\<close>

record 'i fused_iter =
  fi_iter :: 'i
  fi_has_errored :: bool

text \<open>A panic unwinds past \<open>next\<close>; only an \<open>Err\<close> is remembered.\<close>

definition unwinds :: "err \<Rightarrow> bool" where
  "unwinds e \<longleftrightarrow> e \<in> {Panic, Unimplemented, Diverges}"

definition fi_new :: "'i \<Rightarrow> 'i fused_iter" where
  "fi_new i = \<lparr>fi_iter = i, fi_has_errored = False\<rparr>"

definition fi_is_valid :: "('i, 'k) iter_ops \<Rightarrow> 'i fused_iter \<Rightarrow> bool res" where
  "fi_is_valid d s = (if fi_has_errored s then Inr False else it_is_valid d (fi_iter s))"

definition fi_next :: "('i, 'k) iter_ops \<Rightarrow> 'i fused_iter \<Rightarrow> unit res \<times> 'i fused_iter" where
  "fi_next d s =
     (if fi_has_errored s then (Inl PreviouslyErrored, s)
      else case it_next d (fi_iter s) of
             (Inr u, i) \<Rightarrow> (Inr u, s\<lparr>fi_iter := i\<rparr>)
           | (Inl e, i) \<Rightarrow> (Inl e, s\<lparr>fi_iter := i, fi_has_errored := \<not> unwinds e\<rparr>))"

definition fi_ops :: "('i, 'k) iter_ops \<Rightarrow> ('i fused_iter, 'k) iter_ops" where
  "fi_ops d =
     \<lparr>it_value = (\<lambda>s. it_value d (fi_iter s)), it_key = (\<lambda>s. it_key d (fi_iter s)),
      it_is_valid = fi_is_valid d, it_next = fi_next d,
      it_num_active = (\<lambda>s. it_num_active d (fi_iter s))\<rparr>"

definition fi_inv :: "('i \<Rightarrow> bool) \<Rightarrow> 'i fused_iter \<Rightarrow> bool" where
  "fi_inv iinv s \<longleftrightarrow> iinv (fi_iter s) \<and> \<not> fi_has_errored s"

definition fi_cont :: "('i \<Rightarrow> ('k \<times> bytes) list) \<Rightarrow> 'i fused_iter \<Rightarrow> ('k \<times> bytes) list" where
  "fi_cont cont s = cont (fi_iter s)"

locale fused_iterator = sorted_iterator d iinv cont
  for d :: "('i, 'k::linorder) iter_ops" and iinv cont

sublocale fused_iterator \<subseteq> out: sorted_iterator "fi_ops d" "fi_inv iinv" "fi_cont cont"
proof
  fix s
  assume inv: "fi_inv iinv s"
  then have i: "iinv (fi_iter s)" "\<not> fi_has_errored s" by (simp_all add: fi_inv_def)
  show "it_is_valid (fi_ops d) s = Inr (fi_cont cont s \<noteq> [])"
    using i valid by (simp add: fi_ops_def fi_is_valid_def fi_cont_def)
  show "\<exists>s'. it_next (fi_ops d) s = (Inr (), s') \<and> fi_inv iinv s' \<and> fi_cont cont s' = tl (fi_cont cont s)"
    using nxt [OF i(1)] i(2) by (auto simp: fi_ops_def fi_next_def fi_inv_def fi_cont_def)
  show "sorted1 (fi_cont cont s)" using sorted [OF i(1)] by (simp add: fi_cont_def)
  fix x xs
  assume "fi_cont cont s = x # xs"
  then show "it_key (fi_ops d) s = Inr (fst x)" "it_value (fi_ops d) s = Inr (snd x)"
    using key [OF i(1)] val [OF i(1)] by (simp_all add: fi_ops_def fi_cont_def)
qed

text \<open>
  C35: A fused iterator that has returned an error once stays invalid and keeps returning an error,
  whatever the iterator inside does.
\<close>

theorem fused_error_final:
  assumes "fi_next d s = (Inl e, s')" "\<not> unwinds e"
  shows "fi_is_valid d s' = Inr False \<and> fi_next d s' = (Inl PreviouslyErrored, s')"
  using assms by (auto simp: fi_next_def fi_is_valid_def split: sum.splits prod.splits if_splits)

definition failing_ops :: "(nat, key) iter_ops" where
  "failing_ops =
     \<lparr>it_value = (\<lambda>_. Inr [1]), it_key = (\<lambda>_. Inr (Key [1] 1)), it_is_valid = (\<lambda>i. Inr (i < 2)),
      it_next = (\<lambda>i. (Inl BlockChecksumMismatch, i + 1)), it_num_active = (\<lambda>_. 1)\<rparr>"

theorem fused_error_final_witness:
  "\<exists>s'. fi_next failing_ops (fi_new 0) = (Inl BlockChecksumMismatch, s') \<and>
    fi_is_valid failing_ops s' = Inr False \<and> fi_next failing_ops s' = (Inl PreviouslyErrored, s')"
proof -
  let ?s = "\<lparr>fi_iter = 1, fi_has_errored = True\<rparr>"
  have "fi_next failing_ops (fi_new 0) = (Inl BlockChecksumMismatch, ?s)"
    by (simp add: fi_next_def fi_new_def failing_ops_def unwinds_def)
  from this fused_error_final [OF this] show ?thesis by (auto simp: unwinds_def)
qed

end
