(* ===== verification/State.thy ===== *)
theory State
  imports MemTable ConcatIter LsmIter
begin

text \<open>
  The state of the storage engine: \<open>LsmStorageState\<close>, \<open>LsmStorageOptions\<close> and \<open>LsmStorageInner\<close> of
  \<open>src/lsm_storage.rs\<close>, the multi-version bookkeeping of \<open>src/mvcc.rs\<close> and
  \<open>src/mvcc/watermark.rs\<close>, the records of \<open>src/manifest.rs\<close>.

  The manifest is a parameter \<open>M\<close> of every operation that writes to it: the record of its methods.
  \<open>manifest_repo\<close> is the one of the repository, whose methods are all \<open>unimplemented!()\<close>;
  the hypothesis \<open>manifest_works\<close> says of a manifest that it accepts records.

  \<open>LsmStorageInner\<close> keeps its state behind locks; the model is the sequential meaning of its
  methods, each of which takes the whole record and returns it updated.
\<close>

section \<open>Options\<close>

record simple_options =
  so_size_ratio_percent :: nat
  so_level0_file_num_compaction_trigger :: nat
  so_max_levels :: nat

record leveled_options =
  lo_level_size_multiplier :: nat
  lo_level0_file_num_compaction_trigger :: nat
  lo_max_levels :: nat
  lo_base_level_size_mb :: nat

record tiered_options =
  to_num_tiers :: nat
  to_max_size_amplification_percent :: nat
  to_size_ratio :: nat
  to_min_merge_width :: nat
  to_max_merge_width :: "nat option"

datatype compaction_options =
    LeveledOptions leveled_options
  | TieredOptions tiered_options
  | SimpleOptions simple_options
  | NoCompaction

record lsm_options =
  opt_block_size :: nat
  opt_target_sst_size :: nat
  opt_num_memtable_limit :: nat
  opt_compaction_options :: compaction_options
  opt_enable_wal :: bool
  opt_serializable :: bool

definition default_for_week1_test :: lsm_options where
  "default_for_week1_test =
     \<lparr>opt_block_size = 4096, opt_target_sst_size = 2 * 2 ^ 20, opt_num_memtable_limit = 50,
      opt_compaction_options = NoCompaction, opt_enable_wal = False, opt_serializable = False\<rparr>"

definition default_for_week1_day6_test :: lsm_options where
  "default_for_week1_day6_test =
     \<lparr>opt_block_size = 4096, opt_target_sst_size = 2 * 2 ^ 20, opt_num_memtable_limit = 2,
      opt_compaction_options = NoCompaction, opt_enable_wal = False, opt_serializable = False\<rparr>"

definition default_for_week2_test :: "compaction_options \<Rightarrow> lsm_options" where
  "default_for_week2_test options =
     \<lparr>opt_block_size = 4096, opt_target_sst_size = 2 ^ 20, opt_num_memtable_limit = 2,
      opt_compaction_options = options, opt_enable_wal = False, opt_serializable = False\<rparr>"

section \<open>Watermarks and commit timestamps\<close>

record watermark =
  wm_readers :: "u64 \<rightharpoonup> nat"

definition wm_new :: watermark where "wm_new = \<lparr>wm_readers = Map.empty\<rparr>"

definition wm_add_reader :: "watermark \<Rightarrow> u64 \<Rightarrow> watermark" where
  "wm_add_reader w ts = w"

definition wm_remove_reader :: "watermark \<Rightarrow> u64 \<Rightarrow> watermark" where
  "wm_remove_reader w ts = w"

definition wm_num_retained_snapshots :: "watermark \<Rightarrow> nat" where
  "wm_num_retained_snapshots w = card (dom (wm_readers w))"

definition wm_watermark :: "watermark \<Rightarrow> u64 option" where
  "wm_watermark w = Some 0"

record committed_txn_data =
  ct_key_hashes :: "u32 set"
  ct_read_ts :: u64
  ct_commit_ts :: u64

record mvcc =
  mv_ts :: "u64 \<times> watermark"
  mv_committed_txns :: "u64 \<rightharpoonup> committed_txn_data"

definition mvcc_new :: "u64 \<Rightarrow> mvcc" where
  "mvcc_new initial_ts = \<lparr>mv_ts = (initial_ts, wm_new), mv_committed_txns = Map.empty\<rparr>"

definition latest_commit_ts :: "mvcc \<Rightarrow> u64" where
  "latest_commit_ts m = fst (mv_ts m)"

definition update_commit_ts :: "u64 \<Rightarrow> mvcc \<Rightarrow> mvcc" where
  "update_commit_ts ts m = m\<lparr>mv_ts := (ts, snd (mv_ts m))\<rparr>"

definition mvcc_watermark :: "mvcc \<Rightarrow> u64" where
  "mvcc_watermark m = (case wm_watermark (snd (mv_ts m)) of Some w \<Rightarrow> w | None \<Rightarrow> fst (mv_ts m))"

section \<open>Compaction tasks and controllers\<close>

record leveled_task =
  lt_upper_level :: "nat option"
  lt_upper_level_sst_ids :: "nat list"
  lt_lower_level :: nat
  lt_lower_level_sst_ids :: "nat list"
  lt_is_lower_level_bottom_level :: bool

record simple_task =
  st_upper_level :: "nat option"
  st_upper_level_sst_ids :: "nat list"
  st_lower_level :: nat
  st_lower_level_sst_ids :: "nat list"
  st_is_lower_level_bottom_level :: bool

record tiered_task =
  tt_tiers :: "(nat \<times> nat list) list"
  tt_bottom_tier_included :: bool

datatype compaction_task =
    LeveledTask leveled_task
  | TieredTask tiered_task
  | SimpleTask simple_task
  | ForceFullCompaction "nat list" "nat list"

fun compact_to_bottom_level :: "compaction_task \<Rightarrow> bool" where
  "compact_to_bottom_level (ForceFullCompaction _ _) = True"
| "compact_to_bottom_level (LeveledTask task) = lt_is_lower_level_bottom_level task"
| "compact_to_bottom_level (SimpleTask task) = st_is_lower_level_bottom_level task"
| "compact_to_bottom_level (TieredTask task) = tt_bottom_tier_included task"

datatype compaction_controller =
    LeveledController leveled_options
  | TieredController tiered_options
  | SimpleController simple_options
  | NoCompactionController

definition flush_to_l0 :: "compaction_controller \<Rightarrow> bool" where
  "flush_to_l0 c =
     (case c of LeveledController _ \<Rightarrow> True | SimpleController _ \<Rightarrow> True
      | NoCompactionController \<Rightarrow> True | TieredController _ \<Rightarrow> False)"

section \<open>The manifest\<close>

datatype manifest_record =
    Flush nat
  | NewMemtable nat
  | Compaction compaction_task "nat list"

text \<open>
  \<open>mf_create\<close>, \<open>mf_add\<close> and \<open>mf_recover\<close> say whether the method succeeds; what a manifest holds are
  the records added to it, a component of the storage.
\<close>

record manifest_ops =
  mf_create :: "unit res"
  mf_recover :: "manifest_record list \<Rightarrow> manifest_record list res"
  mf_add :: "manifest_record \<Rightarrow> unit res"

definition manifest_repo :: manifest_ops where
  "manifest_repo =
     \<lparr>mf_create = Inl Unimplemented, mf_recover = (\<lambda>_. Inl Unimplemented),
      mf_add = (\<lambda>_. Inl Unimplemented)\<rparr>"

definition manifest_works :: "manifest_ops \<Rightarrow> bool" where
  "manifest_works M \<longleftrightarrow> mf_create M = Inr () \<and> (\<forall>rs. mf_recover M rs = Inr rs) \<and> (\<forall>r. mf_add M r = Inr ())"

text \<open>A manifest that keeps its records, to instantiate the parameter with.\<close>

definition manifest_log :: manifest_ops where
  "manifest_log = \<lparr>mf_create = Inr (), mf_recover = Inr, mf_add = (\<lambda>_. Inr ())\<rparr>"

lemma manifest_log_works: "manifest_works manifest_log"
  by (simp add: manifest_works_def manifest_log_def)

section \<open>The storage state\<close>

record 'm lsm_state =
  ls_memtable :: "'m memtable"
  ls_imm_memtables :: "'m memtable list"
  ls_l0_sstables :: "nat list"
  ls_levels :: "(nat \<times> nat list) list"
  ls_sstables :: "nat \<rightharpoonup> sstable"

definition initial_levels :: "compaction_options \<Rightarrow> (nat \<times> nat list) list" where
  "initial_levels options =
     (case options of
        LeveledOptions o' \<Rightarrow> map (\<lambda>level. (level, [])) [1..<lo_max_levels o' + 1]
      | SimpleOptions o' \<Rightarrow> map (\<lambda>level. (level, [])) [1..<so_max_levels o' + 1]
      | TieredOptions _ \<Rightarrow> []
      | NoCompaction \<Rightarrow> [(1, [])])"

definition lsm_state_create :: "('m, key, bytes) skip_ops \<Rightarrow> lsm_options \<Rightarrow> 'm lsm_state" where
  "lsm_state_create S options =
     \<lparr>ls_memtable = mt_create S 0, ls_imm_memtables = [], ls_l0_sstables = [],
      ls_levels = initial_levels (opt_compaction_options options), ls_sstables = Map.empty\<rparr>"

datatype write_batch_record = Put bytes bytes | Del bytes

datatype compaction_filter = Prefix bytes

text \<open>
  \<open>sg_sst_files\<close> and \<open>sg_wal_files\<close> are the files of the directory by number; the file of the log
  of a live memtable is the one in the memtable. \<open>sg_manifest\<close> are the records of the manifest.
\<close>

record 'm storage =
  sg_state :: "'m lsm_state"
  sg_block_cache :: block_cache
  sg_next_sst_id :: nat
  sg_options :: lsm_options
  sg_controller :: compaction_controller
  sg_manifest :: "manifest_record list"
  sg_mvcc :: mvcc
  sg_compaction_filters :: "compaction_filter list"
  sg_sst_files :: "nat \<rightharpoonup> bytes"
  sg_wal_files :: "nat \<rightharpoonup> bytes"

definition next_sst_id :: "'m storage \<Rightarrow> nat \<times> 'm storage" where
  "next_sst_id s = (sg_next_sst_id s, s\<lparr>sg_next_sst_id := sg_next_sst_id s + 1\<rparr>)"

definition add_record :: "manifest_ops \<Rightarrow> manifest_record \<Rightarrow> 'm storage \<Rightarrow> unit res \<times> 'm storage" where
  "add_record M r s =
     (case mf_add M r of Inl e \<Rightarrow> (Inl e, s) | Inr u \<Rightarrow> (Inr u, s\<lparr>sg_manifest := sg_manifest s @ [r]\<rparr>))"

definition add_compaction_filter :: "compaction_filter \<Rightarrow> 'm storage \<Rightarrow> 'm storage" where
  "add_compaction_filter f s = s\<lparr>sg_compaction_filters := sg_compaction_filters s @ [f]\<rparr>"

definition controller_of :: "compaction_options \<Rightarrow> compaction_controller" where
  "controller_of options =
     (case options of
        LeveledOptions o' \<Rightarrow> LeveledController o'
      | TieredOptions o' \<Rightarrow> TieredController o'
      | SimpleOptions o' \<Rightarrow> SimpleController o'
      | NoCompaction \<Rightarrow> NoCompactionController)"

section \<open>Well-formed states\<close>

text \<open>A table whose filter admits everything it holds and answers every question.\<close>

definition bloom_ok :: "(bytes \<Rightarrow> u32) \<Rightarrow> (bytes \<Rightarrow> u32) \<Rightarrow> sstable \<Rightarrow> bool" where
  "bloom_ok crc fp t \<longleftrightarrow>
     (\<forall>b. sst_bloom t = Some b \<longrightarrow>
        (\<forall>h. \<exists>r. bloom_may_contain b h = Inr r) \<and>
        (\<forall>e \<in> set (sst_entries crc t). bloom_may_contain b (fp (key_ref (fst e))) = Inr True))"

definition table_ok :: "(bytes \<Rightarrow> u32) \<Rightarrow> (bytes \<Rightarrow> u32) \<Rightarrow> sstable \<Rightarrow> bool" where
  "table_ok crc fp t \<longleftrightarrow> sst_ok crc t \<and> bloom_ok crc fp t"

lemma table_ok_file: "table_ok crc fp t \<Longrightarrow> \<exists>data. fo_file (sst_file t) = Some data"
  by (auto simp: table_ok_def sst_ok_def table_holds_def table_layout_def)

text \<open>A table that the builder makes of a sorted run of entries is well formed.\<close>

lemma sst_build_table_ok:
  assumes "es \<noteq> []" "sorted1 es" "\<forall>e \<in> set es. entry_ok e" "n \<le> 65536"
    and "\<forall>c i. cache = Some c \<longrightarrow> c (sst_no, i) = None"
  obtains sb t where "sst_add_all crc fp es (sst_builder_new n) = Inr sb"
    "sst_build crc sb sst_no cache = Inr t" "table_ok crc fp t" "sst_entries crc t = es" "sst_id t = sst_no"
proof -
  obtain sb t bloom where t: "sst_add_all crc fp es (sst_builder_new n) = Inr sb"
    "sst_build crc sb sst_no cache = Inr t" "sst_ok crc t" "sst_entries crc t = es"
    "sst_id t = sst_no" "sst_bloom t = Some bloom"
    "\<And>e. e \<in> set es \<Longrightarrow> bloom_may_contain bloom (fp (key_ref (fst e))) = Inr True"
    by (rule sst_build_ok [OF assms, of crc fp]) auto
  then have "table_ok crc fp t"
    using sst_build_bloom [OF t(2)] by (simp add: table_ok_def bloom_ok_def)
  with t show thesis using that by blast
qed

text \<open>The same for a builder that has taken entries in any way.\<close>

lemma sst_build_inv_ok:
  assumes inv: "sb_inv crc fp sb bss cur" and cur: "cur \<noteq> []" and sorted: "sorted1 (concat bss @ cur)"
    and cache: "\<forall>c i. cache = Some c \<longrightarrow> c (sst_no, i) = None"
  obtains t where "sst_build crc sb sst_no cache = Inr t" "table_ok crc fp t"
    "sst_entries crc t = concat bss @ cur" "sst_id t = sst_no"
proof -
  obtain t bloom where t: "sst_build crc sb sst_no cache = Inr t" "table_holds crc t (bss @ [cur])"
    "sst_bloom t = Some bloom"
    "\<And>e. e \<in> set (concat bss @ cur) \<Longrightarrow> bloom_may_contain bloom (fp (key_ref (fst e))) = Inr True"
    "sst_id t = sst_no" "sst_block_cache t = cache"
    using sst_build_holds [OF inv cur] by metis
  have entries: "sst_entries crc t = concat bss @ cur" using table_holds_entries [OF t(2)] by simp
  have "cache_coherent crc t (sst_block_cache t)" using cache t(5,6) by (auto simp: cache_coherent_def)
  then have "sst_ok crc t" using t(2) sorted entries by (auto simp: sst_ok_def)
  moreover have "bloom_ok crc fp t"
    using sst_build_bloom [OF t(1)] t(3,4) entries by (simp add: bloom_ok_def)
  ultimately show thesis using that t(1,5) entries by (simp add: table_ok_def)
qed

definition tables_of :: "'m lsm_state \<Rightarrow> nat list \<Rightarrow> sstable list" where
  "tables_of st ids = map (\<lambda>i. the (ls_sstables st i)) ids"

definition live_ids :: "'m lsm_state \<Rightarrow> nat set" where
  "live_ids st = set (ls_l0_sstables st) \<union> (\<Union>l \<in> set (ls_levels st). set (snd l))"

definition state_ok ::
    "(bytes \<Rightarrow> u32) \<Rightarrow> (bytes \<Rightarrow> u32) \<Rightarrow> ('m, key, bytes) skip_ops \<Rightarrow> 'm lsm_state \<Rightarrow> bool" where
  "state_ok crc fp S st \<longleftrightarrow>
     (\<forall>mt \<in> set (ls_memtable st # ls_imm_memtables st). \<forall>e \<in> set (mt_entries S mt). entry_ok e) \<and>
     (\<forall>mt \<in> set (ls_imm_memtables st). mt_entries S mt \<noteq> []) \<and>
     (\<forall>i \<in> live_ids st. ls_sstables st i \<noteq> None) \<and>
     (\<forall>i t. ls_sstables st i = Some t \<longrightarrow> table_ok crc fp t \<and> sst_id t = i) \<and>
     (\<forall>l \<in> set (ls_levels st). level_ok crc (tables_of st (snd l)))"

section \<open>The contents of a state\<close>

text \<open>Memtables, level-0 tables and levels on top of each other, newest first.\<close>

definition state_sources ::
    "(bytes \<Rightarrow> u32) \<Rightarrow> ('m, key, bytes) skip_ops \<Rightarrow> 'm lsm_state \<Rightarrow> (key \<rightharpoonup> bytes) list" where
  "state_sources crc S st =
     map (\<lambda>mt. map_of (mt_entries S mt)) (ls_memtable st # ls_imm_memtables st) @
     map (\<lambda>t. map_of (sst_entries crc t)) (tables_of st (ls_l0_sstables st)) @
     map (\<lambda>l. map_of (level_entries crc (tables_of st (snd l)))) (ls_levels st)"

definition state_map ::
    "(bytes \<Rightarrow> u32) \<Rightarrow> ('m, key, bytes) skip_ops \<Rightarrow> 'm lsm_state \<Rightarrow> (key \<rightharpoonup> bytes)" where
  "state_map crc S st = overlay (state_sources crc S st)"

definition state_entries ::
    "(bytes \<Rightarrow> u32) \<Rightarrow> ('m, key, bytes) skip_ops \<Rightarrow> 'm lsm_state \<Rightarrow> (key \<times> bytes) list" where
  "state_entries crc S st = list_of_map (state_map crc S st)"

lemma finite_dom_state_map [simp]: "finite (dom (state_map crc S st))"
  unfolding state_map_def
  by (rule finite_dom_overlay) (auto simp: state_sources_def finite_dom_map_of)

lemma sorted1_state_entries: "sorted1 (state_entries crc S st)"
  by (simp add: state_entries_def sorted1_list_of_map)

lemma map_of_state_entries: "map_of (state_entries crc S st) = state_map crc S st"
  by (simp add: state_entries_def map_of_list_of_map)

lemma state_ok_tables:
  assumes "state_ok crc fp S st" "set ids \<subseteq> live_ids st" "t \<in> set (tables_of st ids)"
  shows "table_ok crc fp t"
  using assms by (fastforce simp: state_ok_def tables_of_def)

lemma state_ok_lookup:
  "state_ok crc fp S st \<Longrightarrow> i \<in> live_ids st \<Longrightarrow> lookup_res (ls_sstables st) i = Inr (the (ls_sstables st i))"
  by (auto simp: state_ok_def lookup_res_def)

lemma state_ok_no_empty:
  "state_ok crc fp S st \<Longrightarrow> mt \<in> set (ls_memtable st # ls_imm_memtables st) \<Longrightarrow> no_empty_key (mt_entries S mt)"
  by (auto simp: state_ok_def no_empty_key_def entry_ok_def)

section \<open>The contents as a set of pairs\<close>

text \<open>
  What every part of the state holds, without an order between the parts. In the states that occur
  no two parts disagree on a versioned key (\<open>consistent\<close>), so the order in which reads lay them
  over each other does not matter, and compaction may move tables across levels.
\<close>

definition state_pairs ::
    "(bytes \<Rightarrow> u32) \<Rightarrow> ('m, key, bytes) skip_ops \<Rightarrow> 'm lsm_state \<Rightarrow> (key \<times> bytes) set" where
  "state_pairs crc S st =
     (\<Union>mt \<in> set (ls_memtable st # ls_imm_memtables st). set (mt_entries S mt)) \<union>
     (\<Union>t \<in> set (tables_of st (ls_l0_sstables st)). set (sst_entries crc t)) \<union>
     (\<Union>l \<in> set (ls_levels st). \<Union>t \<in> set (tables_of st (snd l)). set (sst_entries crc t))"

definition consistent :: "(bytes \<Rightarrow> u32) \<Rightarrow> ('m, key, bytes) skip_ops \<Rightarrow> 'm lsm_state \<Rightarrow> bool" where
  "consistent crc S st \<longleftrightarrow> single_valued (state_pairs crc S st)"

lemma sorted1_graph: "sorted1 es \<Longrightarrow> (k, v) \<in> set es \<longleftrightarrow> map_of es k = Some v"
  using map_of_eq_Some_iff [OF sorted1_distinct] by metis

lemma single_valued_entries: "distinct (map fst xs) \<Longrightarrow> single_valued (set xs)"
  by (auto simp: single_valued_def dest: eq_key_imp_eq_value)

lemma state_sources_sorted:
  assumes "skip_map S" "state_ok crc fp S st"
  shows "(\<exists>m \<in> set (state_sources crc S st). m k = Some v) \<longleftrightarrow> (k, v) \<in> state_pairs crc S st"
proof -
  have mts: "map_of (mt_entries S mt) k = Some v \<longleftrightarrow> (k, v) \<in> set (mt_entries S mt)" for mt
    by (simp add: sorted1_graph [OF mt_entries_sorted [OF assms(1)]])
  have "sst_ok crc t" if "t \<in> set (tables_of st (ls_l0_sstables st))" for t
    using state_ok_tables [OF assms(2) _ that] by (auto simp: live_ids_def table_ok_def)
  then have l0: "map_of (sst_entries crc t) k = Some v \<longleftrightarrow> (k, v) \<in> set (sst_entries crc t)"
    if "t \<in> set (tables_of st (ls_l0_sstables st))" for t
    using that by (simp add: sorted1_graph sst_ok_def)
  have lvl: "map_of (level_entries crc (tables_of st (snd l))) k = Some v \<longleftrightarrow>
      (\<exists>t \<in> set (tables_of st (snd l)). (k, v) \<in> set (sst_entries crc t))" if "l \<in> set (ls_levels st)" for l
  proof -
    have "sorted1 (level_entries crc (tables_of st (snd l)))"
      using assms(2) that by (simp add: state_ok_def level_ok_sorted)
    from sorted1_graph [OF this, of k v] show ?thesis by (auto simp: level_entries_def)
  qed
  have "(\<exists>m \<in> set (map (\<lambda>mt. map_of (mt_entries S mt)) (ls_memtable st # ls_imm_memtables st)). m k = Some v) \<longleftrightarrow>
      (\<exists>mt \<in> set (ls_memtable st # ls_imm_memtables st). (k, v) \<in> set (mt_entries S mt))"
    using mts by simp
  moreover have "(\<exists>m \<in> set (map (\<lambda>t. map_of (sst_entries crc t)) (tables_of st (ls_l0_sstables st))). m k = Some v) \<longleftrightarrow>
      (\<exists>t \<in> set (tables_of st (ls_l0_sstables st)). (k, v) \<in> set (sst_entries crc t))"
    using l0 by simp
  moreover have "(\<exists>m \<in> set (map (\<lambda>l. map_of (level_entries crc (tables_of st (snd l)))) (ls_levels st)). m k = Some v) \<longleftrightarrow>
      (\<exists>l \<in> set (ls_levels st). \<exists>t \<in> set (tables_of st (snd l)). (k, v) \<in> set (sst_entries crc t))"
    using lvl by simp
  ultimately show ?thesis
    unfolding state_sources_def state_pairs_def set_append bex_Un Un_iff UN_iff by simp
qed

lemma state_map_pairs:
  assumes "skip_map S" "state_ok crc fp S st" "consistent crc S st"
  shows "state_map crc S st k = Some v \<longleftrightarrow> (k, v) \<in> state_pairs crc S st"
proof
  assume "state_map crc S st k = Some v"
  from overlay_at [OF this [unfolded state_map_def]] show "(k, v) \<in> state_pairs crc S st"
    by (rule iffD1 [OF state_sources_sorted [OF assms(1,2)]])
next
  assume kv: "(k, v) \<in> state_pairs crc S st"
  obtain m where "m \<in> set (state_sources crc S st)" "m k = Some v"
    using iffD2 [OF state_sources_sorted [OF assms(1,2)] kv] by (rule bexE)
  then have "k \<in> dom (state_map crc S st)" unfolding state_map_def dom_overlay by blast
  then obtain w where w: "state_map crc S st k = Some w" by blast
  from overlay_at [OF this [unfolded state_map_def]] have "(k, w) \<in> state_pairs crc S st"
    by (rule iffD1 [OF state_sources_sorted [OF assms(1,2)]])
  then show "state_map crc S st k = Some v"
    using kv w assms(3) by (auto simp: consistent_def dest: single_valuedD)
qed

section \<open>The shape of a state\<close>

text \<open>
  No table is in two places. The levels of leveled compaction are numbered from 1; a tier is
  numbered by its first table, and there is no level 0 beside tiers.
\<close>

definition places_ok :: "'m lsm_state \<Rightarrow> bool" where
  "places_ok st \<longleftrightarrow> distinct (ls_l0_sstables st @ concat (map snd (ls_levels st)))"

definition shape_ok :: "compaction_controller \<Rightarrow> 'm lsm_state \<Rightarrow> bool" where
  "shape_ok c st \<longleftrightarrow>
     (case c of
        TieredController _ \<Rightarrow>
          ls_l0_sstables st = [] \<and> (\<forall>l \<in> set (ls_levels st). snd l \<noteq> [] \<and> fst l = hd (snd l))
      | LeveledController o' \<Rightarrow>
          map fst (ls_levels st) = map Suc [0..<lo_max_levels o'] \<and> 0 < lo_max_levels o'
      | _ \<Rightarrow> map fst (ls_levels st) = map Suc [0..<length (ls_levels st)] \<and> ls_levels st \<noteq> [])"

definition tree_ok ::
    "(bytes \<Rightarrow> u32) \<Rightarrow> ('m, key, bytes) skip_ops \<Rightarrow> compaction_controller \<Rightarrow> 'm lsm_state \<Rightarrow> bool" where
  "tree_ok crc S c st \<longleftrightarrow> consistent crc S st \<and> places_ok st \<and> shape_ok c st"

section \<open>Iterators over a state\<close>

interpretation ti_merge: merge_iterator ti_ops ti_inv ti_cont ..
interpretation ci_merge: merge_iterator "ci_ops crc" "ci_inv crc" "ci_cont crc" ..

definition mem_l0_ops :: "(bytes \<Rightarrow> u32) \<Rightarrow> ((mem_iter merge_iter, sst_iter merge_iter) two_merge_iter, key) iter_ops" where
  "mem_l0_ops crc = two_merge_ops (merge_ops ti_ops) (merge_ops (si_ops crc))"

text \<open>\<open>LsmIteratorInner\<close>.\<close>

type_synonym lsm_inner =
  "((mem_iter merge_iter, sst_iter merge_iter) two_merge_iter, concat_iter merge_iter) two_merge_iter"

definition lsm_inner_ops :: "(bytes \<Rightarrow> u32) \<Rightarrow> (lsm_inner, key) iter_ops" where
  "lsm_inner_ops crc = two_merge_ops (mem_l0_ops crc) (merge_ops (ci_ops crc))"

definition inner_inv :: "(bytes \<Rightarrow> u32) \<Rightarrow> lsm_inner \<Rightarrow> bool" where
  "inner_inv crc = two_merge_inv
     (two_merge_inv (merge_inv ti_inv ti_cont) (merge_inv (si_inv crc) (si_cont crc)))
     (merge_inv (ci_inv crc) (ci_cont crc))"

definition inner_cont :: "(bytes \<Rightarrow> u32) \<Rightarrow> lsm_inner \<Rightarrow> (key \<times> bytes) list" where
  "inner_cont crc = two_merge_cont
     (two_merge_cont (merge_cont ti_cont) (merge_cont (si_cont crc)))
     (merge_cont (ci_cont crc))"

interpretation mem_l0: two_merge "merge_ops ti_ops" "merge_inv ti_inv ti_cont" "merge_cont ti_cont"
    "merge_ops (si_ops crc)" "merge_inv (si_inv crc) (si_cont crc)" "merge_cont (si_cont crc)" ..

interpretation mem_l0_levels: two_merge "mem_l0_ops crc"
    "two_merge_inv (merge_inv ti_inv ti_cont) (merge_inv (si_inv crc) (si_cont crc))"
    "two_merge_cont (merge_cont ti_cont) (merge_cont (si_cont crc))"
    "merge_ops (ci_ops crc)" "merge_inv (ci_inv crc) (ci_cont crc)" "merge_cont (ci_cont crc)"
  unfolding mem_l0_ops_def ..

interpretation lsm_inner: sorted_iterator "lsm_inner_ops crc" "inner_inv crc" "inner_cont crc"
  unfolding lsm_inner_ops_def inner_inv_def inner_cont_def ..

interpretation lsm: lsm_iterator "lsm_inner_ops crc" "inner_inv crc" "inner_cont crc" ..

interpretation fused: fused_iterator "li_ops (lsm_inner_ops crc)" "li_inv (inner_inv crc) (inner_cont crc)"
    "li_cont (inner_cont crc)" ..

text \<open>Putting the three groups of iterators of a read together.\<close>

definition combine_iters ::
    "(bytes \<Rightarrow> u32) \<Rightarrow> mem_iter list \<Rightarrow> sst_iter list \<Rightarrow> concat_iter list \<Rightarrow> lsm_inner res" where
  "combine_iters crc mems l0s lvls =
     and_then (merge_create ti_ops mems) (\<lambda>merge_1.
     and_then (merge_create (si_ops crc) l0s) (\<lambda>l0_merge_iter.
     let mem_l0_merge_iter = two_merge_create (merge_ops ti_ops) (merge_ops (si_ops crc)) merge_1 l0_merge_iter in
     and_then (merge_create (ci_ops crc) lvls) (\<lambda>level_merge.
     Inr (two_merge_create (mem_l0_ops crc) (merge_ops (ci_ops crc)) mem_l0_merge_iter level_merge))))"

lemma kmerge_lists_of_maps:
  "finite (dom m) \<Longrightarrow> finite (dom n) \<Longrightarrow>
   kmerge (list_of_map m) (list_of_map n) = list_of_map (n ++ m)"
  by (rule sorted1_map_of_eqI)
    (simp_all add: sorted1_kmerge sorted1_list_of_map map_of_kmerge map_of_list_of_map)

lemma combine_iters_ok:
  assumes "\<forall>i \<in> set mems. ti_inv i" "\<forall>i \<in> set l0s. si_inv crc i" "\<forall>i \<in> set lvls. ci_inv crc i"
  obtains it where "combine_iters crc mems l0s lvls = Inr it" "inner_inv crc it"
    "inner_cont crc it = list_of_map (overlay (map (\<lambda>i. map_of (ti_cont i)) mems @
       map (\<lambda>i. map_of (si_cont crc i)) l0s @ map (\<lambda>i. map_of (ci_cont crc i)) lvls))"
proof -
  obtain a where a: "merge_create ti_ops mems = Inr a" "merge_inv ti_inv ti_cont a"
      "merge_cont ti_cont a = list_of_map (overlay (map (\<lambda>i. map_of (ti_cont i)) mems))"
    using ti_merge.merge_create_cont [OF assms(1)] by blast
  obtain b where b: "merge_create (si_ops crc) l0s = Inr b" "merge_inv (si_inv crc) (si_cont crc) b"
      "merge_cont (si_cont crc) b = list_of_map (overlay (map (\<lambda>i. map_of (si_cont crc i)) l0s))"
    using si_merge.merge_create_cont [OF assms(2)] by blast
  obtain c where c: "merge_create (ci_ops crc) lvls = Inr c" "merge_inv (ci_inv crc) (ci_cont crc) c"
      "merge_cont (ci_cont crc) c = list_of_map (overlay (map (\<lambda>i. map_of (ci_cont crc i)) lvls))"
    using ci_merge.merge_create_cont [OF assms(3)] by blast
  have fin: "finite (dom (overlay (map (\<lambda>i. map_of (f i)) xs)))" for f :: "'x \<Rightarrow> (key \<times> bytes) list" and xs
    by (rule finite_dom_overlay) (auto simp: finite_dom_map_of)
  let ?it = "two_merge_create (mem_l0_ops crc) (merge_ops (ci_ops crc))
    (two_merge_create (merge_ops ti_ops) (merge_ops (si_ops crc)) a b) c"
  show thesis
  proof (rule that)
    show "combine_iters crc mems l0s lvls = Inr ?it"
      by (simp add: combine_iters_def a(1) b(1) c(1) Let_def)
    show "inner_inv crc ?it"
      using a(2) b(2) c(2) by (simp add: inner_inv_def two_merge_inv_def two_merge_create_def)
    show "inner_cont crc ?it = list_of_map (overlay (map (\<lambda>i. map_of (ti_cont i)) mems @
       map (\<lambda>i. map_of (si_cont crc i)) l0s @ map (\<lambda>i. map_of (ci_cont crc i)) lvls))"
      by (simp add: inner_cont_def two_merge_cont_def two_merge_create_def a(3) b(3) c(3)
          kmerge_lists_of_maps fin overlay_append)
  qed
qed

end
