(* ===== verification/Storage.thy ===== *)
theory Storage
  imports State
begin

text \<open>
  Reading: \<open>get_with_ts\<close> and \<open>scan_with_ts\<close> of \<open>src/lsm_storage.rs\<close>. Both build one iterator over
  memtables, level-0 tables and levels and read it at a timestamp; tables are left out when their
  key range or their bloom filter excludes the key. The lemmas show that what is left out makes
  no difference: the reads return what the contents of the state say.
\<close>

section \<open>Leaving out tables\<close>

definition range_overlap :: "bytes bound \<Rightarrow> bytes bound \<Rightarrow> key \<Rightarrow> key \<Rightarrow> bool" where
  "range_overlap user_begin user_end table_begin table_end \<longleftrightarrow>
     \<not> (case user_end of
          Excluded key \<Rightarrow> key \<le> key_ref table_begin
        | Included key \<Rightarrow> key < key_ref table_begin
        | Unbounded \<Rightarrow> False) \<and>
     \<not> (case user_begin of
          Excluded key \<Rightarrow> key_ref table_end \<le> key
        | Included key \<Rightarrow> key_ref table_end < key
        | Unbounded \<Rightarrow> False)"

definition key_within :: "bytes \<Rightarrow> key \<Rightarrow> key \<Rightarrow> bool" where
  "key_within user_key table_begin table_end \<longleftrightarrow>
     key_ref table_begin \<le> user_key \<and> user_key \<le> key_ref table_end"

definition keep_table :: "(bytes \<Rightarrow> u32) \<Rightarrow> bytes \<Rightarrow> sstable \<Rightarrow> bool res" where
  "keep_table fp key t =
     (if key_within key (sst_first_key t) (sst_last_key t) then
        (case sst_bloom t of Some b \<Rightarrow> bloom_may_contain b (fp key) | None \<Rightarrow> Inr True)
      else Inr False)"

text \<open>The test of \<open>keep_table\<close> as a predicate, for tables whose filter answers.\<close>

definition kept :: "(bytes \<Rightarrow> u32) \<Rightarrow> bytes \<Rightarrow> sstable \<Rightarrow> bool" where
  "kept fp key t \<longleftrightarrow> keep_table fp key t = Inr True"

lemma keep_table_ok: "table_ok crc fp t \<Longrightarrow> keep_table fp key t = Inr (kept fp key t)"
  by (auto simp: keep_table_def kept_def table_ok_def bloom_ok_def split: option.splits)
    (metis (full_types))+

lemma kept_complete:
  assumes "table_ok crc fp t" "e \<in> set (sst_entries crc t)" "key_ref (fst e) = key"
  shows "kept fp key t"
proof -
  have ok: "sst_ok crc t" using assms(1) by (simp add: table_ok_def)
  have "key_within key (sst_first_key t) (sst_last_key t)"
    using sst_entries_between [OF ok assms(2)] assms(3) by (auto simp: key_within_def dest: key_le_refD)
  then show ?thesis
    using assms by (auto simp: kept_def keep_table_def table_ok_def bloom_ok_def split: option.splits)
qed

lemma not_kept_None:
  assumes "table_ok crc fp t" "\<not> kept fp (key_ref k) t"
  shows "map_of (sst_entries crc t) k = None"
proof (rule ccontr)
  assume "map_of (sst_entries crc t) k \<noteq> None"
  then obtain v where "map_of (sst_entries crc t) k = Some v" by auto
  then have "(k, v) \<in> set (sst_entries crc t)" by (rule map_of_SomeD)
  then show False using kept_complete [OF assms(1), of "(k, v)"] assms(2) by simp
qed

lemma range_overlap_complete_in:
  assumes "sst_ok crc t" "e \<in> set (sst_entries crc t)" "in_bounds lower upper (key_ref (fst e))"
  shows "range_overlap lower upper (sst_first_key t) (sst_last_key t)"
proof -
  have "key_ref (sst_first_key t) \<le> key_ref (fst e)" "key_ref (fst e) \<le> key_ref (sst_last_key t)"
    using sst_entries_between [OF assms(1,2)] by (auto dest: key_le_refD)
  then show ?thesis
    using assms(3) by (cases lower; cases upper) (auto simp: range_overlap_def in_bounds_def not_le not_less)
qed

lemma not_overlap_None:
  assumes "sst_ok crc t" "\<not> range_overlap lower upper (sst_first_key t) (sst_last_key t)"
    "in_bounds lower upper (key_ref k)"
  shows "map_of (sst_entries crc t) k = None"
proof (rule ccontr)
  assume "map_of (sst_entries crc t) k \<noteq> None"
  then obtain v where "map_of (sst_entries crc t) k = Some v" by auto
  then have "(k, v) \<in> set (sst_entries crc t)" by (rule map_of_SomeD)
  then show False using range_overlap_complete_in [OF assms(1), of "(k, v)"] assms(2,3) by simp
qed

section \<open>Point reads\<close>

definition get_level_iter ::
    "(bytes \<Rightarrow> u32) \<Rightarrow> (bytes \<Rightarrow> u32) \<Rightarrow> 'm lsm_state \<Rightarrow> bytes \<Rightarrow> nat list \<Rightarrow> concat_iter res" where
  "get_level_iter crc fp st key sst_ids =
     and_then (filter_map_res (\<lambda>i.
       and_then (lookup_res (ls_sstables st) i) (\<lambda>t.
       and_then (keep_table fp key t) (\<lambda>b. Inr (if b then Some t else None)))) sst_ids) (\<lambda>level_ssts.
     ci_create_and_seek_to_key crc level_ssts (Key key TS_RANGE_BEGIN))"

definition get_iter ::
    "(bytes \<Rightarrow> u32) \<Rightarrow> (bytes \<Rightarrow> u32) \<Rightarrow> ('m, key, bytes) skip_ops \<Rightarrow> 'm lsm_state \<Rightarrow> bytes \<Rightarrow> lsm_inner res" where
  "get_iter crc fp S st key =
     (let mems = map (\<lambda>mt. mt_scan S mt (Included key) (Included key)) (ls_memtable st # ls_imm_memtables st) in
      and_then (filter_map_res (\<lambda>i.
        and_then (lookup_res (ls_sstables st) i) (\<lambda>t.
        and_then (keep_table fp key t) (\<lambda>b.
        if b then and_then (si_create_and_seek_to_key crc t (Key key TS_RANGE_BEGIN)) (\<lambda>it. Inr (Some it))
        else Inr None))) (ls_l0_sstables st)) (\<lambda>l0s.
      and_then (map_res (\<lambda>l. get_level_iter crc fp st key (snd l)) (ls_levels st)) (\<lambda>lvls.
      combine_iters crc mems l0s lvls)))"

definition get_with_ts ::
    "(bytes \<Rightarrow> u32) \<Rightarrow> (bytes \<Rightarrow> u32) \<Rightarrow> ('m, key, bytes) skip_ops \<Rightarrow> 'm storage \<Rightarrow> bytes \<Rightarrow> u64 \<Rightarrow>
     bytes option res" where
  "get_with_ts crc fp S s key read_ts =
     and_then (get_iter crc fp S (sg_state s) key) (\<lambda>iter.
     case it_skip_while (lsm_inner_ops crc) (\<lambda>k. key_ref k = key \<and> read_ts < key_ts k) iter of
       (Inl e, _) \<Rightarrow> Inl e
     | (Inr _, iter) \<Rightarrow>
         and_then (it_is_valid (lsm_inner_ops crc) iter) (\<lambda>v.
         if \<not> v then Inr None
         else
           and_then (it_key (lsm_inner_ops crc) iter) (\<lambda>k.
           if key_ref k \<noteq> key then Inr None
           else
             and_then (it_value (lsm_inner_ops crc) iter) (\<lambda>v.
             Inr (if v \<noteq> [] then Some v else None)))))"

definition storage_get ::
    "(bytes \<Rightarrow> u32) \<Rightarrow> (bytes \<Rightarrow> u32) \<Rightarrow> ('m, key, bytes) skip_ops \<Rightarrow> 'm storage \<Rightarrow> bytes \<Rightarrow>
     bytes option res" where
  "storage_get crc fp S s key = get_with_ts crc fp S s key (latest_commit_ts (sg_mvcc s))"

lemma seek_versions: "sorted1 es \<Longrightarrow>
    dropWhile (\<lambda>x. fst x < Key u TS_RANGE_BEGIN) es = filter (\<lambda>e. u \<le> key_ref (fst e)) es"
  by (simp add: dropWhile_less_eq_filter range_begin_le_iff)

lemma map_of_seek: "map_of (filter (\<lambda>e. u \<le> key_ref (fst e)) es) k = (if u \<le> key_ref k then map_of es k else None)"
  using map_of_filter_key [of "\<lambda>k. u \<le> key_ref k" es k] by simp

lemma map_of_in_bounds:
  "map_of (filter (\<lambda>e. in_bounds lower upper (key_ref (fst e))) es) k =
   (if in_bounds lower upper (key_ref k) then map_of es k else None)"
  using map_of_filter_key [of "\<lambda>k. in_bounds lower upper (key_ref k)" es k] by simp

lemma get_level_iter_ok:
  assumes ok: "state_ok crc fp S st" and l: "l \<in> set (ls_levels st)"
  obtains it where "get_level_iter crc fp st key (snd l) = Inr it" "ci_inv crc it"
    "ci_cont crc it = filter (\<lambda>e. key \<le> key_ref (fst e))
       (level_entries crc (filter (kept fp key) (tables_of st (snd l))))"
proof -
  let ?tab = "\<lambda>i. the (ls_sstables st i)"
  have live: "i \<in> live_ids st" if "i \<in> set (snd l)" for i using l that by (auto simp: live_ids_def)
  have "table_ok crc fp (?tab i)" if "i \<in> set (snd l)" for i
    using live [OF that] ok by (auto simp: state_ok_def)
  then have "keep_table fp key (?tab i) = Inr (kept fp key (?tab i))" if "i \<in> set (snd l)" for i
    using keep_table_ok that by blast
  then have "filter_map_res (\<lambda>i.
       and_then (lookup_res (ls_sstables st) i) (\<lambda>t.
       and_then (keep_table fp key t) (\<lambda>b. Inr (if b then Some t else None)))) (snd l) =
     Inr (map ?tab (filter (\<lambda>i. kept fp key (?tab i)) (snd l)))"
    by (intro filter_map_res_Inr) (simp add: state_ok_lookup [OF ok live])
  moreover have "map ?tab (filter (\<lambda>i. kept fp key (?tab i)) (snd l)) = filter (kept fp key) (tables_of st (snd l))"
    by (simp add: tables_of_def filter_map comp_def)
  moreover have lok: "level_ok crc (filter (kept fp key) (tables_of st (snd l)))"
    using ok l by (intro level_ok_filter) (auto simp: state_ok_def)
  moreover obtain it where "ci_create_and_seek_to_key crc (filter (kept fp key) (tables_of st (snd l)))
        (Key key TS_RANGE_BEGIN) = Inr it" "ci_inv crc it"
      "ci_cont crc it = dropWhile (\<lambda>x. fst x < Key key TS_RANGE_BEGIN)
         (level_entries crc (filter (kept fp key) (tables_of st (snd l))))"
    using ci_create_and_seek_to_key_ok [OF lok] by blast
  ultimately show thesis
    using that [of it] by (simp add: get_level_iter_def seek_versions level_ok_sorted)
qed

lemma filter_map_res_ex:
  assumes "\<And>x. x \<in> set xs \<Longrightarrow> p x \<Longrightarrow> \<exists>y. f x = Inr (Some y) \<and> R x y"
    and "\<And>x. x \<in> set xs \<Longrightarrow> \<not> p x \<Longrightarrow> f x = Inr None"
  obtains g where "filter_map_res f xs = Inr (map g (filter p xs))" "\<And>x. x \<in> set (filter p xs) \<Longrightarrow> R x (g x)"
proof -
  have "\<forall>x. \<exists>y. x \<in> set xs \<longrightarrow> p x \<longrightarrow> f x = Inr (Some y) \<and> R x y" using assms(1) by blast
  then obtain g where g: "\<forall>x. x \<in> set xs \<longrightarrow> p x \<longrightarrow> f x = Inr (Some (g x)) \<and> R x (g x)"
    by (rule choice [THEN exE]) blast
  then have "filter_map_res f xs = Inr (map g (filter p xs))"
    using assms(2) by (intro filter_map_res_Inr) auto
  with g show thesis by (intro that) auto
qed

lemma map_res_ex:
  assumes "\<And>x. x \<in> set xs \<Longrightarrow> \<exists>y. f x = Inr y \<and> R x y"
  obtains g where "map_res f xs = Inr (map g xs)" "\<And>x. x \<in> set xs \<Longrightarrow> R x (g x)"
proof -
  have "\<forall>x. \<exists>y. x \<in> set xs \<longrightarrow> f x = Inr y \<and> R x y" using assms by blast
  then obtain g where g: "\<forall>x. x \<in> set xs \<longrightarrow> f x = Inr (g x) \<and> R x (g x)"
    by (rule choice [THEN exE]) blast
  then have "map_res f xs = Inr (map g xs)" by (intro map_res_Inr) auto
  with g show thesis by (intro that) auto
qed

lemma overlay_split: "overlay (xs @ ys) k = (case overlay xs k of None \<Rightarrow> overlay ys k | Some v \<Rightarrow> Some v)"
  by (simp add: overlay_append map_add_def)

lemma get_iter_ok:
  assumes S: "skip_map S" and ok: "state_ok crc fp S st"
  obtains it where "get_iter crc fp S st key = Inr it" "inner_inv crc it"
    "\<forall>e \<in> set (inner_cont crc it). key \<le> key_ref (fst e)"
    "\<And>k. key_ref k = key \<Longrightarrow> map_of (inner_cont crc it) k = state_map crc S st k"
proof -
  let ?mts = "ls_memtable st # ls_imm_memtables st" and ?tab = "\<lambda>i. the (ls_sstables st i)"
  define ms where "ms = map (\<lambda>mt. mt_scan S mt (Included key) (Included key)) ?mts"
  have ne: "no_empty_key (mt_entries S mt)" if "mt \<in> set ?mts" for mt
    using state_ok_no_empty [OF ok that] .
  have mems: "\<forall>i \<in> set ms. ti_inv i" using mt_scan_cont(1) [OF S ne] by (auto simp: ms_def)
  define rd where "rd t it \<longleftrightarrow> si_inv crc it \<and>
      si_cont crc it = filter (\<lambda>e. key \<le> key_ref (fst e)) (sst_entries crc t)" for t it
  have live: "i \<in> live_ids st" if "i \<in> set (ls_l0_sstables st)" for i
    using that by (simp add: live_ids_def)
  have tok: "table_ok crc fp (?tab i)" if "i \<in> set (ls_l0_sstables st)" for i
    using live [OF that] ok by (auto simp: state_ok_def)
  have seek: "\<exists>it. si_create_and_seek_to_key crc t (Key key TS_RANGE_BEGIN) = Inr it \<and> rd t it"
    if "table_ok crc fp t" for t
  proof -
    have sok: "sst_ok crc t" using that by (simp add: table_ok_def)
    show ?thesis
      using si_create_and_seek_to_key_ok [OF sok, of "Key key TS_RANGE_BEGIN"] sok
      unfolding rd_def by (metis seek_versions sst_ok_def)
  qed
  let ?l0 = "\<lambda>i. and_then (lookup_res (ls_sstables st) i) (\<lambda>t.
        and_then (keep_table fp key t) (\<lambda>b.
        if b then and_then (si_create_and_seek_to_key crc t (Key key TS_RANGE_BEGIN)) (\<lambda>it. Inr (Some it))
        else Inr None))"
  have l0: "?l0 i = (if kept fp key (?tab i)
      then and_then (si_create_and_seek_to_key crc (?tab i) (Key key TS_RANGE_BEGIN)) (\<lambda>it. Inr (Some it))
      else Inr None)" if "i \<in> set (ls_l0_sstables st)" for i
    using keep_table_ok [OF tok [OF that]] state_ok_lookup [OF ok live [OF that]] by simp
  obtain g where g: "filter_map_res ?l0 (ls_l0_sstables st) =
        Inr (map g (filter (\<lambda>i. kept fp key (?tab i)) (ls_l0_sstables st)))"
      "\<And>i. i \<in> set (filter (\<lambda>i. kept fp key (?tab i)) (ls_l0_sstables st)) \<Longrightarrow> rd (?tab i) (g i)"
  proof (rule filter_map_res_ex [of "ls_l0_sstables st" "\<lambda>i. kept fp key (?tab i)" ?l0 "\<lambda>i. rd (?tab i)"])
    fix i assume i: "i \<in> set (ls_l0_sstables st)" "kept fp key (?tab i)"
    show "\<exists>it. ?l0 i = Inr (Some it) \<and> rd (?tab i) it"
      using seek [OF tok [OF i(1)]] unfolding l0 [OF i(1)] using i(2) by auto
  qed (use l0 in auto)
  define lv where "lv l it \<longleftrightarrow> ci_inv crc it \<and> ci_cont crc it = filter (\<lambda>e. key \<le> key_ref (fst e))
         (level_entries crc (filter (kept fp key) (tables_of st (snd l))))" for l :: "nat \<times> nat list" and it
  have "\<exists>it. get_level_iter crc fp st key (snd l) = Inr it \<and> lv l it" if "l \<in> set (ls_levels st)" for l
    using get_level_iter_ok [OF ok that] unfolding lv_def by metis
  then obtain h where h: "map_res (\<lambda>l. get_level_iter crc fp st key (snd l)) (ls_levels st) = Inr (map h (ls_levels st))"
      "\<And>l. l \<in> set (ls_levels st) \<Longrightarrow> lv l (h l)"
    by (rule map_res_ex) blast+
  let ?l0s = "map g (filter (\<lambda>i. kept fp key (?tab i)) (ls_l0_sstables st))" and ?lvls = "map h (ls_levels st)"
  have l0s: "\<forall>i \<in> set ?l0s. si_inv crc i" and lvls: "\<forall>i \<in> set ?lvls. ci_inv crc i"
    using g(2) h(2) by (auto simp: rd_def lv_def)
  obtain it where it: "combine_iters crc ms ?l0s ?lvls = Inr it" "inner_inv crc it"
      "inner_cont crc it = list_of_map (overlay (map (\<lambda>i. map_of (ti_cont i)) ms @
         map (\<lambda>i. map_of (si_cont crc i)) ?l0s @ map (\<lambda>i. map_of (ci_cont crc i)) ?lvls))"
    using combine_iters_ok [OF mems l0s lvls] by blast
  let ?src = "map (\<lambda>i. map_of (ti_cont i)) ms @
         map (\<lambda>i. map_of (si_cont crc i)) ?l0s @ map (\<lambda>i. map_of (ci_cont crc i)) ?lvls"
  have fin: "finite (dom (overlay ?src))" by (rule finite_dom_overlay) (auto simp: finite_dom_map_of)
  have low: "key \<le> key_ref k" if m: "m \<in> set ?src" "m k = Some v" for m k v
  proof -
    have c1: "\<forall>e \<in> set (ti_cont i). key \<le> key_ref (fst e)" if i: "i \<in> set ms" for i
    proof -
      obtain mt where "mt \<in> set ?mts" "i = mt_scan S mt (Included key) (Included key)"
        using i unfolding ms_def set_map by blast
      then show ?thesis using mt_scan_cont(2) [OF S ne] by (simp add: in_bounds_def)
    qed
    have c2: "\<forall>e \<in> set (si_cont crc i). key \<le> key_ref (fst e)" if i: "i \<in> set ?l0s" for i
      using i g(2) unfolding rd_def by auto
    have c3: "\<forall>e \<in> set (ci_cont crc i). key \<le> key_ref (fst e)" if i: "i \<in> set ?lvls" for i
      using i h(2) unfolding lv_def by auto
    consider i where "i \<in> set ms" "m = map_of (ti_cont i)"
      | i where "i \<in> set ?l0s" "m = map_of (si_cont crc i)"
      | i where "i \<in> set ?lvls" "m = map_of (ci_cont crc i)"
      using m(1) unfolding set_append set_map by blast
    then show ?thesis
    proof cases
      case 1
      then show ?thesis using c1 [of i] map_of_SomeD [of "ti_cont i" k v] m(2) by auto
    next
      case 2
      then show ?thesis using c2 [of i] map_of_SomeD [of "si_cont crc i" k v] m(2) by auto
    next
      case 3
      then show ?thesis using c3 [of i] map_of_SomeD [of "ci_cont crc i" k v] m(2) by auto
    qed
  qed
  show thesis
  proof (rule that)
    show "get_iter crc fp S st key = Inr it"
      using g(1) h(1) it(1) by (simp add: get_iter_def ms_def)
    show "inner_inv crc it" by (rule it(2))
    show "\<forall>e \<in> set (inner_cont crc it). key \<le> key_ref (fst e)"
    proof
      fix e assume "e \<in> set (inner_cont crc it)"
      then have "overlay ?src (fst e) = Some (snd e)"
        unfolding it(3) by (rule list_of_map_mem [OF fin])
      from overlay_at [OF this] obtain m where "m \<in> set ?src" "m (fst e) = Some (snd e)"
        by (rule bexE)
      then show "key \<le> key_ref (fst e)" by (rule low)
    qed
    fix k assume k: "key_ref k = key"
    have m1: "overlay (map (\<lambda>i. map_of (ti_cont i)) ms) k = overlay (map (\<lambda>mt. map_of (mt_entries S mt)) ?mts) k"
      unfolding ms_def map_map comp_def
    proof (rule overlay_cong_at)
      fix mt assume "mt \<in> set ?mts"
      then show "map_of (ti_cont (mt_scan S mt (Included key) (Included key))) k = map_of (mt_entries S mt) k"
        using mt_scan_cont(2) [OF S ne] k
        by (simp only: map_of_in_bounds) (simp add: in_bounds_def)
    qed
    have m2: "overlay (map (\<lambda>i. map_of (si_cont crc i)) ?l0s) k =
        overlay (map (\<lambda>t. map_of (sst_entries crc t)) (tables_of st (ls_l0_sstables st))) k"
    proof -
      have "overlay (map (\<lambda>i. map_of (si_cont crc i)) ?l0s) k =
          overlay (map (\<lambda>i. map_of (sst_entries crc (?tab i))) (filter (\<lambda>i. kept fp key (?tab i)) (ls_l0_sstables st))) k"
        unfolding map_map comp_def
        by (rule overlay_cong_at) (use g(2) k in \<open>simp add: rd_def map_of_seek\<close>)
      also have "\<dots> = overlay (map (\<lambda>i. map_of (sst_entries crc (?tab i))) (ls_l0_sstables st)) k"
        by (rule overlay_filter_at) (use not_kept_None tok k in blast)
      finally show ?thesis by (simp add: tables_of_def comp_def)
    qed
    have m3: "overlay (map (\<lambda>i. map_of (ci_cont crc i)) ?lvls) k =
        overlay (map (\<lambda>l. map_of (level_entries crc (tables_of st (snd l)))) (ls_levels st)) k"
      unfolding map_map comp_def
    proof (rule overlay_cong_at)
      fix l assume l: "l \<in> set (ls_levels st)"
      then have sub: "set (snd l) \<subseteq> live_ids st" by (auto simp: live_ids_def)
      have "map_of (level_entries crc (filter (kept fp key) (tables_of st (snd l)))) k =
          map_of (level_entries crc (tables_of st (snd l))) k"
        unfolding level_entries_def
        by (rule map_of_concat_filter_at) (use not_kept_None state_ok_tables [OF ok sub] k in blast)
      then show "map_of (ci_cont crc (h l)) k = map_of (level_entries crc (tables_of st (snd l))) k"
        using h(2) [OF l] k by (simp add: lv_def map_of_seek)
    qed
    show "map_of (inner_cont crc it) k = state_map crc S st k"
      unfolding it(3) map_of_list_of_map [OF fin] state_map_def state_sources_def overlay_split m1 m2 m3 ..
  qed
qed

text \<open>A point read returns the newest visible version among all contents of the state.\<close>

lemma get_with_ts_ok:
  assumes S: "skip_map S" and ok: "state_ok crc fp S (sg_state s)"
  shows "get_with_ts crc fp S s key ts = Inr (visible_get ts (state_entries crc S (sg_state s)) key)"
proof -
  obtain it where it: "get_iter crc fp S (sg_state s) key = Inr it" "inner_inv crc it"
      "\<forall>e \<in> set (inner_cont crc it). key \<le> key_ref (fst e)"
      "\<And>k. key_ref k = key \<Longrightarrow> map_of (inner_cont crc it) k = state_map crc S (sg_state s) k"
    using get_iter_ok [OF S ok] by blast
  have sorted: "sorted1 (inner_cont crc it)" using lsm_inner.sorted [OF it(2)] .
  let ?p = "\<lambda>k. key_ref k = key \<and> ts < key_ts k"
  obtain it2 where it2: "it_skip_while (lsm_inner_ops crc) ?p it = (Inr (), it2)" "inner_inv crc it2"
      "inner_cont crc it2 = dropWhile (\<lambda>e. ?p (fst e)) (inner_cont crc it)"
    using lsm_inner.skip_while [OF it(2), of ?p] by blast
  have "visible_get ts (state_entries crc S (sg_state s)) key = visible_get ts (inner_cont crc it) key"
    by (rule visible_get_cong) (use sorted sorted1_state_entries it(4) in \<open>simp_all add: map_of_state_entries\<close>)
  also have "\<dots> = (case inner_cont crc it2 of [] \<Rightarrow> None
     | e # _ \<Rightarrow> if key_ref (fst e) = key \<and> snd e \<noteq> [] then Some (snd e) else None)"
    unfolding it2(3) by (rule visible_get_first [OF sorted it(3)])
  finally have vis: "visible_get ts (state_entries crc S (sg_state s)) key = \<dots>" .
  show ?thesis
  proof (cases "inner_cont crc it2")
    case Nil
    then show ?thesis
      using it(1) it2(1) lsm_inner.valid [OF it2(2)] vis by (simp add: get_with_ts_def)
  next
    case (Cons e es)
    then show ?thesis
      using it(1) it2(1) lsm_inner.valid [OF it2(2)] lsm_inner.key [OF it2(2) Cons]
        lsm_inner.val [OF it2(2) Cons] vis
      by (simp add: get_with_ts_def)
  qed
qed

section \<open>Range reads\<close>

text \<open>
  Where an iterator over a table or a level starts for a lower bound; after an excluded bound all
  versions of its user key are skipped.
\<close>

definition seek_lower ::
    "('i, key) iter_ops \<Rightarrow> (key \<Rightarrow> 'i res) \<Rightarrow> 'i res \<Rightarrow> bytes bound \<Rightarrow> 'i res" where
  "seek_lower d seek_to_key seek_to_first lower =
     (case lower of
        Included key \<Rightarrow> seek_to_key (Key key TS_RANGE_BEGIN)
      | Excluded key \<Rightarrow>
          and_then (seek_to_key (Key key TS_RANGE_BEGIN)) (\<lambda>iter.
          case it_skip_while d (\<lambda>k. key_ref k = key) iter of (r, iter) \<Rightarrow> and_then r (\<lambda>_. Inr iter))
      | Unbounded \<Rightarrow> seek_to_first)"

definition scan_level_iter ::
    "(bytes \<Rightarrow> u32) \<Rightarrow> 'm lsm_state \<Rightarrow> bytes bound \<Rightarrow> bytes bound \<Rightarrow> nat list \<Rightarrow> concat_iter res" where
  "scan_level_iter crc st lower upper sst_ids =
     and_then (filter_map_res (\<lambda>i.
       and_then (lookup_res (ls_sstables st) i) (\<lambda>t.
       Inr (if range_overlap lower upper (sst_first_key t) (sst_last_key t) then Some t else None)))
       sst_ids) (\<lambda>level_ssts.
     seek_lower (ci_ops crc) (ci_create_and_seek_to_key crc level_ssts)
       (ci_create_and_seek_to_first crc level_ssts) lower)"

definition scan_iter ::
    "(bytes \<Rightarrow> u32) \<Rightarrow> ('m, key, bytes) skip_ops \<Rightarrow> 'm lsm_state \<Rightarrow> bytes bound \<Rightarrow> bytes bound \<Rightarrow>
     lsm_inner res" where
  "scan_iter crc S st lower upper =
     (let mems = map (\<lambda>mt. mt_scan S mt lower upper) (ls_memtable st # ls_imm_memtables st) in
      and_then (filter_map_res (\<lambda>i.
        and_then (lookup_res (ls_sstables st) i) (\<lambda>t.
        if range_overlap lower upper (sst_first_key t) (sst_last_key t) then
          and_then (seek_lower (si_ops crc) (si_create_and_seek_to_key crc t)
            (si_create_and_seek_to_first crc t) lower) (\<lambda>it. Inr (Some it))
        else Inr None)) (ls_l0_sstables st)) (\<lambda>l0s.
      and_then (map_res (\<lambda>l. scan_level_iter crc st lower upper (snd l)) (ls_levels st)) (\<lambda>lvls.
      combine_iters crc mems l0s lvls)))"

definition scan_with_ts ::
    "(bytes \<Rightarrow> u32) \<Rightarrow> ('m, key, bytes) skip_ops \<Rightarrow> 'm storage \<Rightarrow> bytes bound \<Rightarrow> bytes bound \<Rightarrow> u64 \<Rightarrow>
     lsm_inner lsm_iter fused_iter res" where
  "scan_with_ts crc S s lower upper read_ts =
     and_then (scan_iter crc S (sg_state s) lower upper) (\<lambda>iter.
     and_then (li_new (lsm_inner_ops crc) iter upper read_ts) (\<lambda>it. Inr (fi_new it)))"

definition storage_scan ::
    "(bytes \<Rightarrow> u32) \<Rightarrow> ('m, key, bytes) skip_ops \<Rightarrow> 'm storage \<Rightarrow> bytes bound \<Rightarrow> bytes bound \<Rightarrow>
     lsm_inner lsm_iter fused_iter res" where
  "storage_scan crc S s lower upper = scan_with_ts crc S s lower upper (latest_commit_ts (sg_mvcc s))"

abbreviation scan_ops :: "(bytes \<Rightarrow> u32) \<Rightarrow> (lsm_inner lsm_iter fused_iter, bytes) iter_ops" where
  "scan_ops crc \<equiv> fi_ops (li_ops (lsm_inner_ops crc))"

abbreviation scan_inv :: "(bytes \<Rightarrow> u32) \<Rightarrow> lsm_inner lsm_iter fused_iter \<Rightarrow> bool" where
  "scan_inv crc \<equiv> fi_inv (li_inv (inner_inv crc) (inner_cont crc))"

abbreviation scan_cont :: "(bytes \<Rightarrow> u32) \<Rightarrow> lsm_inner lsm_iter fused_iter \<Rightarrow> (bytes \<times> bytes) list" where
  "scan_cont crc \<equiv> fi_cont (li_cont (inner_cont crc))"

lemma filter_above_excluded:
  assumes "sorted1 es"
  shows "dropWhile (\<lambda>e. key_ref (fst e) = u) (filter (\<lambda>e. u \<le> key_ref (fst e)) es) =
    filter (\<lambda>e. u < key_ref (fst e)) es"
  using assms
proof (induction es)
  case (Cons e es)
  show ?case
  proof (cases "u \<le> key_ref (fst e)")
    case le: True
    show ?thesis
    proof (cases "key_ref (fst e) = u")
      case False
      with le have less: "u < key_ref (fst e)" by simp
      have "u < key_ref (fst e')" if "e' \<in> set es" for e'
        using less sorted1_refs [OF Cons.prems that] by (rule less_le_trans)
      then have "filter (\<lambda>e. u \<le> key_ref (fst e)) es = es" "filter (\<lambda>e. u < key_ref (fst e)) es = es"
        by (auto simp: filter_id_conv intro: less_imp_le)
      with less False show ?thesis by simp
    qed (use Cons in simp)
  qed (use Cons in auto)
qed simp

text \<open>Seeking an iterator of the contract to a lower bound.\<close>

lemma seek_lower_ok:
  assumes d: "sorted_iterator d iinv cont"
    and to_key: "\<And>k. \<exists>i. seek_to_key k = Inr i \<and> iinv i \<and> cont i = dropWhile (\<lambda>x. fst x < k) es"
    and to_first: "\<exists>i. seek_to_first = Inr i \<and> iinv i \<and> cont i = es"
    and s: "sorted1 es"
  shows "\<exists>i. seek_lower d seek_to_key seek_to_first lower = Inr i \<and> iinv i \<and>
    cont i = filter (\<lambda>e. above_bound lower (key_ref (fst e))) es"
proof (cases lower)
  case (Included u)
  then show ?thesis
    using to_key [of "Key u TS_RANGE_BEGIN"] seek_versions [OF s, of u] by (auto simp: seek_lower_def)
next
  case (Excluded u)
  obtain i where i: "seek_to_key (Key u TS_RANGE_BEGIN) = Inr i" "iinv i"
      "cont i = filter (\<lambda>e. u \<le> key_ref (fst e)) es"
    using to_key [of "Key u TS_RANGE_BEGIN"] seek_versions [OF s, of u] by auto
  obtain i' where i': "it_skip_while d (\<lambda>k. key_ref k = u) i = (Inr (), i')" "iinv i'"
      "cont i' = dropWhile (\<lambda>e. key_ref (fst e) = u) (cont i)"
    using storage_iterator.skip_while [OF sorted_iterator.axioms(1) [OF d] i(2), of "\<lambda>k. key_ref k = u"] by auto
  then show ?thesis
    using i filter_above_excluded [OF s, of u] Excluded by (simp add: seek_lower_def)
next
  case Unbounded
  then show ?thesis using to_first by (auto simp: seek_lower_def)
qed

lemma map_of_above:
  "map_of (filter (\<lambda>e. above_bound lower (key_ref (fst e))) es) k =
   (if above_bound lower (key_ref k) then map_of es k else None)"
  using map_of_filter_key [of "\<lambda>k. above_bound lower (key_ref k)" es k] by simp

lemma scan_level_iter_ok:
  assumes ok: "state_ok crc fp S st" and l: "l \<in> set (ls_levels st)"
  shows "\<exists>it. scan_level_iter crc st lower upper (snd l) = Inr it \<and> ci_inv crc it \<and>
    ci_cont crc it = filter (\<lambda>e. above_bound lower (key_ref (fst e)))
       (level_entries crc (filter (\<lambda>t. range_overlap lower upper (sst_first_key t) (sst_last_key t))
          (tables_of st (snd l))))"
proof -
  let ?tab = "\<lambda>i. the (ls_sstables st i)"
  let ?p = "\<lambda>t. range_overlap lower upper (sst_first_key t) (sst_last_key t)"
  have live: "i \<in> live_ids st" if "i \<in> set (snd l)" for i using l that by (auto simp: live_ids_def)
  have "filter_map_res (\<lambda>i. and_then (lookup_res (ls_sstables st) i) (\<lambda>t. Inr (if ?p t then Some t else None))) (snd l) =
      Inr (map ?tab (filter (\<lambda>i. ?p (?tab i)) (snd l)))"
    by (intro filter_map_res_Inr) (simp add: state_ok_lookup [OF ok live])
  moreover have tabs: "map ?tab (filter (\<lambda>i. ?p (?tab i)) (snd l)) = filter ?p (tables_of st (snd l))"
    by (simp add: tables_of_def filter_map comp_def)
  have lok: "level_ok crc (filter ?p (tables_of st (snd l)))"
    using ok l by (intro level_ok_filter) (auto simp: state_ok_def)
  moreover have "\<exists>it. seek_lower (ci_ops crc) (ci_create_and_seek_to_key crc (filter ?p (tables_of st (snd l))))
       (ci_create_and_seek_to_first crc (filter ?p (tables_of st (snd l)))) lower = Inr it \<and> ci_inv crc it \<and>
     ci_cont crc it = filter (\<lambda>e. above_bound lower (key_ref (fst e)))
       (level_entries crc (filter ?p (tables_of st (snd l))))"
    by (rule seek_lower_ok [OF ci.sorted_iterator_axioms _ _ level_ok_sorted [OF lok]])
      (metis ci_create_and_seek_to_key_ok [OF lok], metis ci_create_and_seek_to_first_ok [OF lok])
  ultimately show ?thesis by (simp add: scan_level_iter_def tabs)
qed

lemma scan_iter_ok:
  assumes S: "skip_map S" and ok: "state_ok crc fp S st"
  obtains it where "scan_iter crc S st lower upper = Inr it" "inner_inv crc it"
    "\<forall>e \<in> set (inner_cont crc it). above_bound lower (key_ref (fst e))"
    "\<And>k. in_bounds lower upper (key_ref k) \<Longrightarrow> map_of (inner_cont crc it) k = state_map crc S st k"
proof -
  let ?mts = "ls_memtable st # ls_imm_memtables st" and ?tab = "\<lambda>i. the (ls_sstables st i)"
  let ?p = "\<lambda>t. range_overlap lower upper (sst_first_key t) (sst_last_key t)"
  let ?above = "filter (\<lambda>e. above_bound lower (key_ref (fst e)))"
  define ms where "ms = map (\<lambda>mt. mt_scan S mt lower upper) ?mts"
  have ne: "no_empty_key (mt_entries S mt)" if "mt \<in> set ?mts" for mt
    using state_ok_no_empty [OF ok that] .
  have mems: "\<forall>i \<in> set ms. ti_inv i" using mt_scan_cont(1) [OF S ne] by (auto simp: ms_def)
  define rd where "rd t it \<longleftrightarrow> si_inv crc it \<and> si_cont crc it = ?above (sst_entries crc t)" for t it
  have live: "i \<in> live_ids st" if "i \<in> set (ls_l0_sstables st)" for i
    using that by (simp add: live_ids_def)
  have sok: "sst_ok crc (?tab i)" if "i \<in> set (ls_l0_sstables st)" for i
    using live [OF that] ok by (auto simp: state_ok_def table_ok_def)
  let ?seek = "\<lambda>t. seek_lower (si_ops crc) (si_create_and_seek_to_key crc t) (si_create_and_seek_to_first crc t) lower"
  have seek: "\<exists>it. ?seek t = Inr it \<and> rd t it" if t: "sst_ok crc t" for t
  proof -
    have s: "sorted1 (sst_entries crc t)" using t by (simp add: sst_ok_def)
    show ?thesis unfolding rd_def
      by (rule seek_lower_ok [OF si.sorted_iterator_axioms _ _ s])
        (metis si_create_and_seek_to_key_ok [OF t], metis si_create_and_seek_to_first_ok [OF t])
  qed
  let ?l0 = "\<lambda>i. and_then (lookup_res (ls_sstables st) i) (\<lambda>t.
        if ?p t then and_then (?seek t) (\<lambda>it. Inr (Some it)) else Inr None)"
  have l0: "?l0 i = (if ?p (?tab i) then and_then (?seek (?tab i)) (\<lambda>it. Inr (Some it)) else Inr None)"
    if "i \<in> set (ls_l0_sstables st)" for i
    using state_ok_lookup [OF ok live [OF that]] by simp
  obtain g where g: "filter_map_res ?l0 (ls_l0_sstables st) =
        Inr (map g (filter (\<lambda>i. ?p (?tab i)) (ls_l0_sstables st)))"
      "\<And>i. i \<in> set (filter (\<lambda>i. ?p (?tab i)) (ls_l0_sstables st)) \<Longrightarrow> rd (?tab i) (g i)"
  proof (rule filter_map_res_ex [of "ls_l0_sstables st" "\<lambda>i. ?p (?tab i)" ?l0 "\<lambda>i. rd (?tab i)"])
    fix i assume i: "i \<in> set (ls_l0_sstables st)" "?p (?tab i)"
    show "\<exists>it. ?l0 i = Inr (Some it) \<and> rd (?tab i) it"
      using seek [OF sok [OF i(1)]] unfolding l0 [OF i(1)] using i(2) by auto
  qed (use l0 in auto)
  define lv where "lv l it \<longleftrightarrow> ci_inv crc it \<and>
      ci_cont crc it = ?above (level_entries crc (filter ?p (tables_of st (snd l))))" for l :: "nat \<times> nat list" and it
  have "\<exists>it. scan_level_iter crc st lower upper (snd l) = Inr it \<and> lv l it" if "l \<in> set (ls_levels st)" for l
    using scan_level_iter_ok [OF ok that] unfolding lv_def .
  then obtain h where h: "map_res (\<lambda>l. scan_level_iter crc st lower upper (snd l)) (ls_levels st) = Inr (map h (ls_levels st))"
      "\<And>l. l \<in> set (ls_levels st) \<Longrightarrow> lv l (h l)"
    by (rule map_res_ex) blast+
  let ?l0s = "map g (filter (\<lambda>i. ?p (?tab i)) (ls_l0_sstables st))" and ?lvls = "map h (ls_levels st)"
  have l0s: "\<forall>i \<in> set ?l0s. si_inv crc i" and lvls: "\<forall>i \<in> set ?lvls. ci_inv crc i"
    using g(2) h(2) by (auto simp: rd_def lv_def)
  let ?src = "map (\<lambda>i. map_of (ti_cont i)) ms @
         map (\<lambda>i. map_of (si_cont crc i)) ?l0s @ map (\<lambda>i. map_of (ci_cont crc i)) ?lvls"
  obtain it where it: "combine_iters crc ms ?l0s ?lvls = Inr it" "inner_inv crc it"
      "inner_cont crc it = list_of_map (overlay ?src)"
    using combine_iters_ok [OF mems l0s lvls] by blast
  have fin: "finite (dom (overlay ?src))" by (rule finite_dom_overlay) (auto simp: finite_dom_map_of)
  have low: "above_bound lower (key_ref k)" if m: "m \<in> set ?src" "m k = Some v" for m k v
  proof -
    have c1: "\<forall>e \<in> set (ti_cont i). above_bound lower (key_ref (fst e))" if i: "i \<in> set ms" for i
    proof -
      obtain mt where "mt \<in> set ?mts" "i = mt_scan S mt lower upper"
        using i unfolding ms_def set_map by blast
      then show ?thesis using mt_scan_cont(2) [OF S ne] by (simp add: in_bounds_def)
    qed
    have c2: "\<forall>e \<in> set (si_cont crc i). above_bound lower (key_ref (fst e))" if i: "i \<in> set ?l0s" for i
      using i g(2) unfolding rd_def by auto
    have c3: "\<forall>e \<in> set (ci_cont crc i). above_bound lower (key_ref (fst e))" if i: "i \<in> set ?lvls" for i
      using i h(2) unfolding lv_def by auto
    consider i where "i \<in> set ms" "m = map_of (ti_cont i)"
      | i where "i \<in> set ?l0s" "m = map_of (si_cont crc i)"
      | i where "i \<in> set ?lvls" "m = map_of (ci_cont crc i)"
      using m(1) unfolding set_append set_map by blast
    then show ?thesis
    proof cases
      case 1
      then show ?thesis using c1 [of i] map_of_SomeD [of "ti_cont i" k v] m(2) by auto
    next
      case 2
      then show ?thesis using c2 [of i] map_of_SomeD [of "si_cont crc i" k v] m(2) by auto
    next
      case 3
      then show ?thesis using c3 [of i] map_of_SomeD [of "ci_cont crc i" k v] m(2) by auto
    qed
  qed
  show thesis
  proof (rule that)
    show "scan_iter crc S st lower upper = Inr it"
      using g(1) h(1) it(1) by (simp add: scan_iter_def ms_def)
    show "inner_inv crc it" by (rule it(2))
    show "\<forall>e \<in> set (inner_cont crc it). above_bound lower (key_ref (fst e))"
    proof
      fix e assume "e \<in> set (inner_cont crc it)"
      then have "overlay ?src (fst e) = Some (snd e)"
        unfolding it(3) by (rule list_of_map_mem [OF fin])
      from overlay_at [OF this] obtain m where "m \<in> set ?src" "m (fst e) = Some (snd e)"
        by (rule bexE)
      then show "above_bound lower (key_ref (fst e))" by (rule low)
    qed
    fix k assume k: "in_bounds lower upper (key_ref k)"
    then have above: "above_bound lower (key_ref k)" by (simp add: in_bounds_def)
    have m1: "overlay (map (\<lambda>i. map_of (ti_cont i)) ms) k = overlay (map (\<lambda>mt. map_of (mt_entries S mt)) ?mts) k"
      unfolding ms_def map_map comp_def
    proof (rule overlay_cong_at)
      fix mt assume "mt \<in> set ?mts"
      then show "map_of (ti_cont (mt_scan S mt lower upper)) k = map_of (mt_entries S mt) k"
        using mt_scan_cont(2) [OF S ne] k by (simp only: map_of_in_bounds if_True)
    qed
    have m2: "overlay (map (\<lambda>i. map_of (si_cont crc i)) ?l0s) k =
        overlay (map (\<lambda>t. map_of (sst_entries crc t)) (tables_of st (ls_l0_sstables st))) k"
    proof -
      have "overlay (map (\<lambda>i. map_of (si_cont crc i)) ?l0s) k =
          overlay (map (\<lambda>i. map_of (sst_entries crc (?tab i))) (filter (\<lambda>i. ?p (?tab i)) (ls_l0_sstables st))) k"
        unfolding map_map comp_def
        by (rule overlay_cong_at) (use g(2) above in \<open>simp add: rd_def map_of_above\<close>)
      also have "\<dots> = overlay (map (\<lambda>i. map_of (sst_entries crc (?tab i))) (ls_l0_sstables st)) k"
        by (rule overlay_filter_at) (use not_overlap_None sok k in blast)
      finally show ?thesis by (simp add: tables_of_def comp_def)
    qed
    have m3: "overlay (map (\<lambda>i. map_of (ci_cont crc i)) ?lvls) k =
        overlay (map (\<lambda>l. map_of (level_entries crc (tables_of st (snd l)))) (ls_levels st)) k"
      unfolding map_map comp_def
    proof (rule overlay_cong_at)
      fix l assume l: "l \<in> set (ls_levels st)"
      then have "\<forall>t \<in> set (tables_of st (snd l)). sst_ok crc t"
        using ok by (auto simp: state_ok_def level_ok_def)
      then have "map_of (level_entries crc (filter ?p (tables_of st (snd l)))) k =
          map_of (level_entries crc (tables_of st (snd l))) k"
        unfolding level_entries_def
        by (intro map_of_concat_filter_at) (use not_overlap_None k in blast)
      then show "map_of (ci_cont crc (h l)) k = map_of (level_entries crc (tables_of st (snd l))) k"
        using h(2) [OF l] above by (simp add: lv_def map_of_above)
    qed
    show "map_of (inner_cont crc it) k = state_map crc S st k"
      unfolding it(3) map_of_list_of_map [OF fin] state_map_def state_sources_def overlay_split m1 m2 m3 ..
  qed
qed

text \<open>A range read produces exactly the visible pairs of the state within the bounds.\<close>

lemma scan_with_ts_ok:
  assumes S: "skip_map S" and ok: "state_ok crc fp S (sg_state s)"
  obtains it where "scan_with_ts crc S s lower upper ts = Inr it" "scan_inv crc it"
    "scan_cont crc it = filter (\<lambda>x. in_bounds lower upper (fst x)) (visible ts (state_entries crc S (sg_state s)))"
proof -
  let ?es = "state_entries crc S (sg_state s)"
  obtain i where i: "scan_iter crc S (sg_state s) lower upper = Inr i" "inner_inv crc i"
      "\<forall>e \<in> set (inner_cont crc i). above_bound lower (key_ref (fst e))"
      "\<And>k. in_bounds lower upper (key_ref k) \<Longrightarrow> map_of (inner_cont crc i) k = state_map crc S (sg_state s) k"
    using scan_iter_ok [OF S ok, of lower upper] by blast
  have s: "sorted1 (inner_cont crc i)" using lsm_inner.sorted [OF i(2)] .
  obtain l where l: "li_new (lsm_inner_ops crc) i upper ts = Inr l" "li_inv (inner_inv crc) (inner_cont crc) l"
      "li_cont (inner_cont crc) l = takeWhile (\<lambda>x. below_bound upper (fst x)) (visible ts (inner_cont crc i))"
    using lsm.new_ok [OF i(2)] by blast
  have "filter (\<lambda>x. below_bound upper (fst x)) (visible ts (inner_cont crc i)) =
      filter (\<lambda>x. in_bounds lower upper (fst x)) (visible ts ?es)"
  proof (rule sorted1_map_of_eqI)
    show "map_of (filter (\<lambda>x. below_bound upper (fst x)) (visible ts (inner_cont crc i))) =
        map_of (filter (\<lambda>x. in_bounds lower upper (fst x)) (visible ts ?es))"
    proof
      fix u
      have "visible_get ts (inner_cont crc i) u = visible_get ts ?es u" if b: "in_bounds lower upper u"
        by (rule visible_get_cong) (use s sorted1_state_entries i(4) b in \<open>auto simp: map_of_state_entries\<close>)
      moreover have "visible_get ts (inner_cont crc i) u = None" if "\<not> above_bound lower u"
        by (rule visible_get_notin) (use i(3) that in auto)
      ultimately show "map_of (filter (\<lambda>x. below_bound upper (fst x)) (visible ts (inner_cont crc i))) u =
          map_of (filter (\<lambda>x. in_bounds lower upper (fst x)) (visible ts ?es)) u"
        unfolding map_of_filter_key map_of_visible [OF s] map_of_visible [OF sorted1_state_entries]
        by (auto simp: in_bounds_def)
    qed
  qed (rule sorted1_filter [OF sorted1_visible [OF s]] sorted1_filter [OF sorted1_visible [OF sorted1_state_entries]])+
  then have "li_cont (inner_cont crc) l = filter (\<lambda>x. in_bounds lower upper (fst x)) (visible ts ?es)"
    unfolding l(3) takeWhile_below_filter [OF sorted1_visible [OF s]] .
  then show thesis
    using that [of "fi_new l"] i(1) l(1,2)
    by (simp add: scan_with_ts_def fi_new_def fi_inv_def fi_cont_def)
qed

section \<open>What a read returns\<close>

lemma visible_get_iff:
  "sorted1 es \<Longrightarrow> visible_get ts es u = Some v \<longleftrightarrow>
    v \<noteq> [] \<and> (\<exists>t \<le> ts. map_of es (Key u t) = Some v \<and> (\<forall>t'. t < t' \<and> t' \<le> ts \<longrightarrow> map_of es (Key u t') = None))"
proof (induction es)
  case (Cons e es)
  obtain w x y where e: "e = (Key w x, y)" by (metis key.exhaust prod.exhaust)
  have s: "sorted1 es" and above: "\<forall>e' \<in> set es. Key w x < fst e'" using Cons.prems e by auto
  show ?case
  proof (cases "w = u \<and> x \<le> ts")
    case True
    have none: "map_of es (Key u t') = None" if "x \<le> t'" for t'
    proof (rule ccontr)
      assume "map_of es (Key u t') \<noteq> None"
      then obtain z where "map_of es (Key u t') = Some z" by auto
      then have "(Key u t', z) \<in> set es" by (rule map_of_SomeD)
      then have "Key w x < Key u t'" using above by force
      with True that show False by (simp add: leD)
    qed
    have at: "map_of (e # es) (Key u t) = (if t = x then Some y else map_of es (Key u t))" for t
      using True e by simp
    have "t = x" if "map_of (e # es) (Key u t) = Some v"
      "\<forall>t'. t < t' \<and> t' \<le> ts \<longrightarrow> map_of (e # es) (Key u t') = None" for t
    proof (rule ccontr)
      assume "t \<noteq> x"
      then have "map_of es (Key u t) = Some v" using that(1) unfolding at by simp
      then have "\<not> x \<le> t" using none [of t] by auto
      then have "t < x" by (simp add: not_le)
      with True that(2) at [of x] show False by simp
    qed
    moreover have "map_of (e # es) (Key u t') = None" if "x < t'" for t'
      using that none [of t'] unfolding at by simp
    ultimately have "(\<exists>t \<le> ts. map_of (e # es) (Key u t) = Some v \<and>
        (\<forall>t'. t < t' \<and> t' \<le> ts \<longrightarrow> map_of (e # es) (Key u t') = None)) \<longleftrightarrow> v = y"
      using True at [of x] by (metis option.inject)
    then show ?thesis using True e by auto
  next
    case False
    have same: "map_of (e # es) (Key u t) = map_of es (Key u t)" if "t \<le> ts" for t
      using that e False by auto
    have "(\<exists>t \<le> ts. map_of (e # es) (Key u t) = Some v \<and>
        (\<forall>t'. t < t' \<and> t' \<le> ts \<longrightarrow> map_of (e # es) (Key u t') = None)) \<longleftrightarrow>
      (\<exists>t \<le> ts. map_of es (Key u t) = Some v \<and> (\<forall>t'. t < t' \<and> t' \<le> ts \<longrightarrow> map_of es (Key u t') = None))"
      using same by metis
    moreover have "visible_get ts (e # es) u = visible_get ts es u" using False e by auto
    ultimately show ?thesis using Cons.IH [OF s] by simp
  qed
qed simp

definition sample_state :: "(key, bytes) rbt lsm_state" where
  "sample_state =
     \<lparr>ls_memtable = mt_put_batch (\<lambda>_. 0) rbt_ops (mt_create rbt_ops 4) [(Key [1, 2] 9, []), (Key [6] 9, [6])],
      ls_imm_memtables = [], ls_l0_sstables = [3], ls_levels = [(1, [])],
      ls_sstables = [3 \<mapsto> sample_sst (\<lambda>_. 0) (\<lambda>_. 1)]\<rparr>"

definition sample_storage :: "(key, bytes) rbt storage" where
  "sample_storage =
     \<lparr>sg_state = sample_state, sg_block_cache = Map.empty, sg_next_sst_id = 5,
      sg_options = default_for_week1_test, sg_controller = NoCompactionController, sg_manifest = [],
      sg_mvcc = mvcc_new 9, sg_compaction_filters = [], 
      sg_sst_files = [3 \<mapsto> the (fo_file (sst_file (sample_sst (\<lambda>_. 0) (\<lambda>_. 1))))], sg_wal_files = Map.empty\<rparr>"

lemma sample_sst_table_ok: "table_ok crc fp (sample_sst crc fp)" "sst_id (sample_sst crc fp) = 3"
proof -
  have ne: "sample_entries \<noteq> []" by (simp add: sample_entries_def)
  obtain sb t where "sst_add_all crc fp sample_entries (sst_builder_new 40) = Inr sb"
    "sst_build crc sb 3 None = Inr t" "table_ok crc fp t" "sst_id t = 3"
    by (rule sst_build_table_ok [OF ne sample_entries_ok(2,1), of 40 None 3 crc fp]) auto
  then show "table_ok crc fp (sample_sst crc fp)" "sst_id (sample_sst crc fp) = 3"
    by (simp_all add: sample_sst_def)
qed

lemma level_ok_Nil [simp]: "level_ok crc []"
  by (simp add: level_ok_def)

lemma sample_state_ok: "state_ok (\<lambda>_. 0) (\<lambda>_. 1) rbt_ops sample_state"
proof -
  have "set (mt_entries rbt_ops (ls_memtable sample_state)) \<subseteq> {(Key [1, 2] 9, []), (Key [6] 9, [6])}"
    using mt_entries_put_batch_subset [OF rbt.skip_map_axioms, of "\<lambda>_. 0" "mt_create rbt_ops 4"]
    by (force simp: sample_state_def mt_entries_create [OF rbt.skip_map_axioms])
  then have "\<forall>e \<in> set (mt_entries rbt_ops (ls_memtable sample_state)). entry_ok e"
    by (auto simp: entry_ok_def)
  then show ?thesis
    using sample_sst_table_ok
    by (auto simp: state_ok_def sample_state_def live_ids_def tables_of_def)
qed

section \<open>Properties\<close>

text \<open>
  C14: A point read at a timestamp, over memtables, level-0 tables and levels with their filters,
  never fails on a well-formed state, and its answer is the newest version of the key that is not
  newer than the timestamp, among all versions any part of the state holds; no value if that
  version is a tombstone.
\<close>

theorem get_newest_visible:
  assumes "skip_map S" "state_ok crc fp S (sg_state s)"
  shows "\<exists>r. get_with_ts crc fp S s u ts = Inr r \<and>
    (\<forall>v. r = Some v \<longleftrightarrow> v \<noteq> [] \<and>
      (\<exists>t \<le> ts. state_map crc S (sg_state s) (Key u t) = Some v \<and>
        (\<forall>t'. t < t' \<and> t' \<le> ts \<longrightarrow> state_map crc S (sg_state s) (Key u t') = None)))"
  unfolding get_with_ts_ok [OF assms] map_of_state_entries [symmetric]
  by (simp add: visible_get_iff [OF sorted1_state_entries])

theorem get_newest_visible_witness:
  "\<exists>r. get_with_ts (\<lambda>_. 0) (\<lambda>_. 1) rbt_ops sample_storage [1, 2] 4 = Inr r \<and>
    (\<forall>v. r = Some v \<longleftrightarrow> v \<noteq> [] \<and>
      (\<exists>t \<le> 4. state_map (\<lambda>_. 0) rbt_ops (sg_state sample_storage) (Key [1, 2] t) = Some v \<and>
        (\<forall>t'. t < t' \<and> t' \<le> 4 \<longrightarrow> state_map (\<lambda>_. 0) rbt_ops (sg_state sample_storage) (Key [1, 2] t') = None)))"
  by (rule get_newest_visible [OF rbt.skip_map_axioms]) (simp add: sample_storage_def sample_state_ok)

text \<open>
  C15: Range reads and point reads agree: on a well-formed state a range read at a timestamp starts
  and runs without an error, and it produces, in ascending order and each key once, exactly the
  pairs within the bounds that point reads at the same timestamp return.
\<close>

theorem scan_agrees_with_get:
  assumes "skip_map S" "state_ok crc fp S (sg_state s)"
  shows "\<exists>it es. scan_with_ts crc S s lower upper ts = Inr it \<and>
    it_drain (scan_ops crc) (length es) it = Inr es \<and> sorted1 es \<and>
    (\<forall>u v. (u, v) \<in> set es \<longleftrightarrow>
      in_bounds lower upper u \<and> get_with_ts crc fp S s u ts = Inr (Some v))"
proof -
  let ?es = "visible ts (state_entries crc S (sg_state s))"
  obtain it where it: "scan_with_ts crc S s lower upper ts = Inr it" "scan_inv crc it"
    "scan_cont crc it = filter (\<lambda>x. in_bounds lower upper (fst x)) ?es"
    using scan_with_ts_ok [OF assms] by blast
  have s: "sorted1 ?es" by (rule sorted1_visible [OF sorted1_state_entries])
  have "(u, v) \<in> set ?es \<longleftrightarrow> get_with_ts crc fp S s u ts = Inr (Some v)" for u v
    using map_of_eq_Some_iff [OF sorted1_distinct [OF s], of u v]
    by (simp add: get_with_ts_ok [OF assms] map_of_visible [OF sorted1_state_entries] eq_commute)
  then show ?thesis
    using it s fused.out.drain [OF it(2) order_refl]
    by (intro exI [of _ it] exI [of _ "scan_cont crc it"]) (auto simp: sorted1_filter)
qed

theorem scan_agrees_with_get_witness:
  "\<exists>it es. scan_with_ts (\<lambda>_. 0) rbt_ops sample_storage (Included [1, 2]) Unbounded 9 = Inr it \<and>
    it_drain (scan_ops (\<lambda>_. 0)) (length es) it = Inr es \<and> sorted1 es \<and>
    (\<forall>u v. (u, v) \<in> set es \<longleftrightarrow>
      in_bounds (Included [1, 2]) Unbounded u \<and>
      get_with_ts (\<lambda>_. 0) (\<lambda>_. 1) rbt_ops sample_storage u 9 = Inr (Some v))"
  by (rule scan_agrees_with_get [OF rbt.skip_map_axioms]) (simp add: sample_storage_def sample_state_ok)

end
