(* ===== verification/MvStore.thy ===== *)
theory MvStore
  imports Storage
begin

text \<open>
  The abstract specification of the storage: a map from versioned keys to values and a clock. A
  batch is written at the next tick of the clock, a read at a timestamp finds the newest version
  that is not newer, and maintenance (freezing, flushing, compaction) changes nothing that can be
  read. The locale \<open>mv_store\<close> states this contract and derives from it what a client sees: its own
  writes, stable snapshots, and a plain map under any run of operations.
\<close>

section \<open>Reading a versioned map\<close>

definition read_at :: "u64 \<Rightarrow> (key \<rightharpoonup> bytes) \<Rightarrow> bytes \<Rightarrow> bytes option" where
  "read_at ts m = visible_get ts (list_of_map m)"

lemma read_at_iff:
  assumes "finite (dom m)"
  shows "read_at ts m u = Some v \<longleftrightarrow>
    v \<noteq> [] \<and> (\<exists>t \<le> ts. m (Key u t) = Some v \<and> (\<forall>t'. t < t' \<and> t' \<le> ts \<longrightarrow> m (Key u t') = None))"
  using visible_get_iff [OF sorted1_list_of_map] by (simp add: read_at_def map_of_list_of_map assms)

lemma read_at_newest:
  assumes "finite (dom m)" "m (Key u ts) = Some v"
  shows "read_at ts m u = (if v = [] then None else Some v)"
proof (rule option_eqI)
  fix w
  have "(\<exists>t \<le> ts. m (Key u t) = Some w \<and> (\<forall>t'. t < t' \<and> t' \<le> ts \<longrightarrow> m (Key u t') = None)) \<longleftrightarrow> w = v"
    using assms(2) by (metis le_less option.distinct(1) option.inject order_refl not_less)
  then show "read_at ts m u = Some w \<longleftrightarrow> (if v = [] then None else Some v) = Some w"
    by (auto simp: read_at_iff [OF assms(1)])
qed

lemma read_at_cong:
  assumes "finite (dom m)" "finite (dom n)" "\<And>t. t \<le> ts \<Longrightarrow> m (Key u t) = n (Key u t)"
  shows "read_at ts m u = read_at ts n u"
proof (rule option_eqI)
  fix v
  show "read_at ts m u = Some v \<longleftrightarrow> read_at ts n u = Some v"
    using assms(3) by (simp add: read_at_iff assms(1,2) cong: conj_cong)
qed

lemma read_at_older:
  assumes "finite (dom m)" "t0 \<le> ts" "\<And>t. t0 < t \<Longrightarrow> t \<le> ts \<Longrightarrow> m (Key u t) = None"
  shows "read_at ts m u = read_at t0 m u"
proof (rule option_eqI)
  fix v
  have "(\<exists>t \<le> ts. m (Key u t) = Some v \<and> (\<forall>t'. t < t' \<and> t' \<le> ts \<longrightarrow> m (Key u t') = None)) \<longleftrightarrow>
    (\<exists>t \<le> t0. m (Key u t) = Some v \<and> (\<forall>t'. t < t' \<and> t' \<le> t0 \<longrightarrow> m (Key u t') = None))" (is "?l \<longleftrightarrow> ?r")
  proof
    assume ?l
    then obtain t where t: "t \<le> ts" "m (Key u t) = Some v" "\<forall>t'. t < t' \<and> t' \<le> ts \<longrightarrow> m (Key u t') = None"
      by blast
    then have "t \<le> t0" using assms(3) [of t] by (cases "t \<le> t0") (auto simp: not_le)
    with t assms(2) show ?r by (meson order_trans)
  next
    assume ?r
    then obtain t where t: "t \<le> t0" "m (Key u t) = Some v" "\<forall>t'. t < t' \<and> t' \<le> t0 \<longrightarrow> m (Key u t') = None"
      by blast
    moreover have "m (Key u t') = None" if "t < t'" "t' \<le> ts" for t'
      using t(3) assms(3) [of t'] that by (cases "t' \<le> t0") (auto simp: not_le)
    ultimately show ?l using assms(2) by (meson order_trans)
  qed
  then show "read_at ts m u = Some v \<longleftrightarrow> read_at t0 m u = Some v" by (simp add: read_at_iff [OF assms(1)])
qed

section \<open>Writing a batch\<close>

fun write_record :: "u64 \<Rightarrow> write_batch_record \<Rightarrow> key \<times> bytes" where
  "write_record ts (Put k v) = (Key k ts, v)"
| "write_record ts (Del k) = (Key k ts, [])"

text \<open>Keys that are not empty, and keys and values whose lengths fit the 16-bit fields of the files.\<close>

fun record_fits :: "write_batch_record \<Rightarrow> bool" where
  "record_fits (Put k v) \<longleftrightarrow> k \<noteq> [] \<and> length k < 65536 \<and> length v < 65536"
| "record_fits (Del k) \<longleftrightarrow> k \<noteq> [] \<and> length k < 65536"

lemma write_record_fits: "record_fits r \<Longrightarrow> entry_ok (write_record ts r)"
  by (cases r) (simp_all add: entry_ok_def)

lemma write_record_ts [simp]: "key_ts (fst (write_record ts r)) = ts"
  by (cases r) simp_all

text \<open>What the batch means on a plain map; an empty value cannot be told from a deletion.\<close>

fun apply_record :: "write_batch_record \<Rightarrow> (bytes \<rightharpoonup> bytes) \<Rightarrow> (bytes \<rightharpoonup> bytes)" where
  "apply_record (Put k v) m = m(k := if v = [] then None else Some v)"
| "apply_record (Del k) m = m(k := None)"

definition batch_map :: "u64 \<Rightarrow> write_batch_record list \<Rightarrow> (key \<rightharpoonup> bytes)" where
  "batch_map ts batch = map_of (rev (map (write_record ts) batch))"

lemma batch_map_ts: "batch_map ts batch k = Some v \<Longrightarrow> key_ts k = ts"
proof -
  assume "batch_map ts batch k = Some v"
  then have "(k, v) \<in> set (map (write_record ts) batch)"
    unfolding batch_map_def using map_of_SomeD by fastforce
  then obtain r where "(k, v) = write_record ts r" by auto
  then show ?thesis using write_record_ts [of ts r] by (metis fst_conv)
qed

lemma finite_batch_map [simp]: "finite (dom (batch_map ts batch))"
  by (simp add: batch_map_def finite_dom_map_of)

lemma fold_apply_record:
  "fold apply_record batch f u =
   (case batch_map ts batch (Key u ts) of None \<Rightarrow> f u | Some v \<Rightarrow> if v = [] then None else Some v)"
proof (induction batch arbitrary: f)
  case (Cons r batch)
  have "batch_map ts (r # batch) (Key u ts) =
      (case batch_map ts batch (Key u ts) of None \<Rightarrow> map_of [write_record ts r] (Key u ts) | Some v \<Rightarrow> Some v)"
    by (simp add: batch_map_def map_add_def split: option.split)
  then show ?case
    by (cases r; cases "batch_map ts batch (Key u ts)") (simp_all add: Cons.IH del: fun_upd_apply, simp_all)
qed (simp add: batch_map_def)

section \<open>The contract\<close>

lemma clock_next: "n \<noteq> - 1 \<Longrightarrow> n < n + 1 \<and> unat (n + 1) = Suc (unat n)" for n :: u64
proof -
  assume "n \<noteq> - 1"
  then have "1 + n \<noteq> 0" by (metis add.commute add_eq_0_iff2)
  then have "unat (1 + n) = Suc (unat n)" by (rule unatSuc)
  then show ?thesis by (simp add: word_less_nat_alt add.commute)
qed


datatype 'op client_op = Write "write_batch_record list" | Maintain 'op

fun run_op ::
    "(write_batch_record list \<Rightarrow> 's \<Rightarrow> unit res \<times> 's) \<Rightarrow> ('op \<Rightarrow> 's \<Rightarrow> unit res \<times> 's) \<Rightarrow>
     'op client_op \<Rightarrow> 's \<Rightarrow> unit res \<times> 's" where
  "run_op commit maintain (Write batch) s = commit batch s"
| "run_op commit maintain (Maintain op) s = maintain op s"

fun run_ops ::
    "(write_batch_record list \<Rightarrow> 's \<Rightarrow> unit res \<times> 's) \<Rightarrow> ('op \<Rightarrow> 's \<Rightarrow> unit res \<times> 's) \<Rightarrow>
     'op client_op list \<Rightarrow> 's \<Rightarrow> unit res \<times> 's" where
  "run_ops commit maintain [] s = (Inr (), s)"
| "run_ops commit maintain (op # ops) s =
     st_then (run_op commit maintain op s) (\<lambda>_ s. run_ops commit maintain ops s)"

fun spec_op :: "'op client_op \<Rightarrow> (bytes \<rightharpoonup> bytes) \<Rightarrow> (bytes \<rightharpoonup> bytes)" where
  "spec_op (Write batch) m = fold apply_record batch m"
| "spec_op (Maintain op) m = m"

text \<open>All records of the batches are of an allowed kind; by default, of a size that fits.\<close>

fun op_allowed :: "(write_batch_record \<Rightarrow> bool) \<Rightarrow> 'op client_op \<Rightarrow> bool" where
  "op_allowed allowed (Write batch) \<longleftrightarrow> (\<forall>r \<in> set batch. allowed r)"
| "op_allowed allowed (Maintain op) \<longleftrightarrow> True"

abbreviation op_fits :: "'op client_op \<Rightarrow> bool" where
  "op_fits \<equiv> op_allowed record_fits"

fun ticks :: "'op client_op \<Rightarrow> nat" where
  "ticks (Write batch) = 1"
| "ticks (Maintain op) = 0"

locale mv_store =
  fixes good :: "'s \<Rightarrow> bool"
    and versions :: "'s \<Rightarrow> (key \<rightharpoonup> bytes)"
    and clock :: "'s \<Rightarrow> u64"
    and allowed :: "write_batch_record \<Rightarrow> bool"
    and get :: "'s \<Rightarrow> bytes \<Rightarrow> u64 \<Rightarrow> bytes option res"
    and commit :: "write_batch_record list \<Rightarrow> 's \<Rightarrow> unit res \<times> 's"
    and maintain :: "'op \<Rightarrow> 's \<Rightarrow> unit res \<times> 's"
  assumes finite_versions: "good s \<Longrightarrow> finite (dom (versions s))"
    and get_versions: "good s \<Longrightarrow> get s u ts = Inr (read_at ts (versions s) u)"
    and versions_clock: "good s \<Longrightarrow> versions s k = Some v \<Longrightarrow> key_ts k \<le> clock s"
    and write_versions: "good s \<Longrightarrow> \<forall>r \<in> set batch. allowed r \<Longrightarrow> clock s \<noteq> - 1 \<Longrightarrow>
      \<exists>s'. commit batch s = (Inr (), s') \<and> good s' \<and> clock s' = clock s + 1 \<and>
        versions s' = versions s ++ batch_map (clock s + 1) batch"
    and maintain_versions: "good s \<Longrightarrow>
      \<exists>s'. maintain op s = (Inr (), s') \<and> good s' \<and> clock s' = clock s \<and> versions s' = versions s"

context mv_store
begin

text \<open>A read at the new time sees the batch, in the order of its records.\<close>

lemma read_own_write:
  assumes "good s" "clock s \<noteq> - 1"
  shows "read_at (clock s + 1) (versions s ++ batch_map (clock s + 1) batch) =
    fold apply_record batch (read_at (clock s) (versions s))"
proof
  fix u
  let ?t = "clock s + 1" and ?m = "versions s" and ?d = "batch_map (clock s + 1) batch"
  have fin: "finite (dom ?m)" "finite (dom (?m ++ ?d))" using finite_versions [OF assms(1)] by simp_all
  have less: "clock s < ?t" using clock_next [OF assms(2)] by simp
  have new: "?m (Key u t) = None" if "clock s < t" for t
    using versions_clock [OF assms(1), of "Key u t"] that by (cases "?m (Key u t)") (auto simp: leD)
  show "read_at ?t (?m ++ ?d) u = fold apply_record batch (read_at (clock s) ?m) u"
  proof (cases "?d (Key u ?t)")
    case None
    have d: "?d (Key u t) = None" for t
      using batch_map_ts [of ?t batch "Key u t"] None by (cases "?d (Key u t)") auto
    have "read_at ?t (?m ++ ?d) u = read_at ?t ?m u"
      by (rule read_at_cong [OF fin(2,1)]) (simp add: d map_add_def)
    also have "\<dots> = read_at (clock s) ?m u"
      by (rule read_at_older [OF fin(1)]) (use less new in auto)
    finally show ?thesis by (simp add: fold_apply_record [where ts = ?t] None)
  next
    case (Some v)
    then have "(?m ++ ?d) (Key u ?t) = Some v" by simp
    then show ?thesis
      by (simp add: read_at_newest [OF fin(2)] fold_apply_record [where ts = ?t] Some)
  qed
qed

text \<open>A read at an older time does not see it.\<close>

lemma read_snapshot:
  assumes "good s" "clock s \<noteq> - 1" "ts \<le> clock s"
  shows "read_at ts (versions s ++ batch_map (clock s + 1) batch) = read_at ts (versions s)"
proof
  fix u
  have fin: "finite (dom (versions s))" using finite_versions [OF assms(1)] .
  have "batch_map (clock s + 1) batch (Key u t) = None" if "t \<le> ts" for t
    using batch_map_ts [of "clock s + 1" batch "Key u t"] clock_next [OF assms(2)] that assms(3)
    by (cases "batch_map (clock s + 1) batch (Key u t)") (auto simp: leD)
  then show "read_at ts (versions s ++ batch_map (clock s + 1) batch) u = read_at ts (versions s) u"
    by (intro read_at_cong [OF _ fin]) (use fin in simp, simp add: map_add_def)
qed

lemma run_op_ok:
  assumes "good s" "op_allowed allowed op" "unat (clock s) + ticks op < 2 ^ 64"
  obtains s' where "run_op commit maintain op s = (Inr (), s')" "good s'"
    "unat (clock s') = unat (clock s) + ticks op" "clock s \<le> clock s'"
    "read_at (clock s') (versions s') = spec_op op (read_at (clock s) (versions s))"
    "\<And>ts. ts \<le> clock s \<Longrightarrow> read_at ts (versions s') = read_at ts (versions s)"
proof (cases op)
  case (Write batch)
  have "clock s \<noteq> - 1"
  proof
    assume "clock s = - 1"
    then have "unat (clock s) = 2 ^ 64 - 1" by (simp add: unsigned_minus_1_eq_mask mask_eq_exp_minus_1)
    with assms(3) Write show False by simp
  qed
  note left = this
  obtain s' where s': "commit batch s = (Inr (), s')" "good s'" "clock s' = clock s + 1"
      "versions s' = versions s ++ batch_map (clock s + 1) batch"
    using write_versions [OF assms(1) _ left, of batch] assms(2) Write by auto
  have sees: "read_at (clock s') (versions s') = spec_op op (read_at (clock s) (versions s))"
    using read_own_write [OF assms(1) left, of batch] by (simp add: s'(3,4) Write)
  show thesis
  proof (rule that [OF _ s'(2) _ _ sees])
    show "run_op commit maintain op s = (Inr (), s')" by (simp add: Write s'(1))
    show "unat (clock s') = unat (clock s) + ticks op" "clock s \<le> clock s'"
      using clock_next [OF left] by (simp_all add: Write s'(3) less_imp_le)
    show "read_at ts (versions s') = read_at ts (versions s)" if "ts \<le> clock s" for ts
      using read_snapshot [OF assms(1) left that, of batch] by (simp add: s'(4))
  qed
next
  case (Maintain m)
  obtain s' where "maintain m s = (Inr (), s')" "good s'" "clock s' = clock s" "versions s' = versions s"
    using maintain_versions [OF assms(1), of m] by blast
  then show thesis by (intro that [of s']) (simp_all add: Maintain)
qed

text \<open>Any run of operations refines the run of their meanings on a plain map.\<close>

lemma run_ops_refines:
  assumes "good s" "\<forall>op \<in> set ops. op_allowed allowed op" "unat (clock s) + sum_list (map ticks ops) < 2 ^ 64"
  shows "\<exists>s'. run_ops commit maintain ops s = (Inr (), s') \<and> good s' \<and>
    read_at (clock s') (versions s') = fold spec_op ops (read_at (clock s) (versions s)) \<and>
    (\<forall>ts \<le> clock s. read_at ts (versions s') = read_at ts (versions s))"
  using assms
proof (induction ops arbitrary: s)
  case (Cons op ops)
  obtain s1 where s1: "run_op commit maintain op s = (Inr (), s1)" "good s1"
      "unat (clock s1) = unat (clock s) + ticks op" "clock s \<le> clock s1"
      "read_at (clock s1) (versions s1) = spec_op op (read_at (clock s) (versions s))"
      "\<And>ts. ts \<le> clock s \<Longrightarrow> read_at ts (versions s1) = read_at ts (versions s)"
    using run_op_ok [OF Cons.prems(1), of op] Cons.prems(2,3) by auto
  have "unat (clock s1) + sum_list (map ticks ops) < 2 ^ 64" using s1(3) Cons.prems(3) by simp
  then obtain s' where s': "run_ops commit maintain ops s1 = (Inr (), s')" "good s'"
      "read_at (clock s') (versions s') = fold spec_op ops (read_at (clock s1) (versions s1))"
      "\<forall>ts \<le> clock s1. read_at ts (versions s') = read_at ts (versions s1)"
    using Cons.IH [OF s1(2)] Cons.prems(2) by auto
  have "read_at ts (versions s') = read_at ts (versions s)" if "ts \<le> clock s" for ts
    using s'(4) s1(6) [OF that] that s1(4) by (auto dest: order_trans)
  with s' s1 show ?case by (intro exI [of _ s']) simp
qed simp

text \<open>The same, through \<open>get\<close>.\<close>

lemma run_ops_get:
  assumes "good s" "\<forall>op \<in> set ops. op_allowed allowed op" "unat (clock s) + sum_list (map ticks ops) < 2 ^ 64"
  shows "\<exists>s'. run_ops commit maintain ops s = (Inr (), s') \<and> good s' \<and>
    (\<forall>u. get s' u (clock s') = Inr (fold spec_op ops (\<lambda>u. projr (get s u (clock s))) u)) \<and>
    (\<forall>u ts. ts \<le> clock s \<longrightarrow> get s' u ts = get s u ts)"
proof -
  obtain s' where s': "run_ops commit maintain ops s = (Inr (), s')" "good s'"
    "read_at (clock s') (versions s') = fold spec_op ops (read_at (clock s) (versions s))"
    "\<forall>ts \<le> clock s. read_at ts (versions s') = read_at ts (versions s)"
    using run_ops_refines [OF assms] by blast
  have "(\<lambda>u. projr (get s u (clock s))) = read_at (clock s) (versions s)"
    by (rule ext) (simp add: get_versions [OF assms(1)])
  with s' show ?thesis
    by (intro exI [of _ s']) (simp add: get_versions [OF s'(2)] get_versions [OF assms(1)])
qed

end

end
