(* ===== verification/Writes.thy ===== *)
theory Writes
  imports MvStore
begin

text \<open>
  Writing: \<open>write_batch\<close>, \<open>put\<close>, \<open>delete\<close>, \<open>try_freeze\<close>, \<open>force_freeze_memtable\<close>,
  \<open>force_flush_next_imm_memtable\<close> and \<open>trigger_flush\<close> of \<open>LsmStorageInner\<close>, \<open>force_flush\<close> of \<open>MiniLsm\<close>
  (\<open>src/lsm_storage.rs\<close>, \<open>src/compact.rs\<close>).

  A flush is two steps, as in the code: building the table from the oldest memtable of a snapshot,
  without a lock, and installing it in the state under the locks.
\<close>

section \<open>Freezing\<close>

definition force_freeze_memtable ::
    "('m, key, bytes) skip_ops \<Rightarrow> manifest_ops \<Rightarrow> 'm storage \<Rightarrow> unit res \<times> 'm storage" where
  "force_freeze_memtable S M s =
     (let st = sg_state s;
          new_storage_state = st\<lparr>ls_imm_memtables := ls_memtable st # ls_imm_memtables st\<rparr>;
          (memtable_id, s) = next_sst_id s
      in case (if opt_enable_wal (sg_options s)
               then mt_create_with_wal S memtable_id (sg_wal_files s memtable_id)
               else Inr (mt_create S memtable_id)) of
           Inl e \<Rightarrow> (Inl e, s)
         | Inr memtable \<Rightarrow>
             let s = (if opt_enable_wal (sg_options s)
                      then s\<lparr>sg_wal_files := (sg_wal_files s)(memtable_id \<mapsto> [])\<rparr> else s)
             in st_then (add_record M (NewMemtable (mt_id memtable)) s) (\<lambda>_ s.
                (Inr (), s\<lparr>sg_state := new_storage_state\<lparr>ls_memtable := memtable\<rparr>\<rparr>)))"

definition try_freeze ::
    "('m, key, bytes) skip_ops \<Rightarrow> manifest_ops \<Rightarrow> 'm storage \<Rightarrow> unit res \<times> 'm storage" where
  "try_freeze S M s =
     (if opt_target_sst_size (sg_options s) \<le> mt_approximate_size (ls_memtable (sg_state s))
      then force_freeze_memtable S M s else (Inr (), s))"

section \<open>Writing\<close>

definition write_batch ::
    "(bytes \<Rightarrow> u32) \<Rightarrow> ('m, key, bytes) skip_ops \<Rightarrow> manifest_ops \<Rightarrow> write_batch_record list \<Rightarrow>
     'm storage \<Rightarrow> unit res \<times> 'm storage" where
  "write_batch crc S M batch s =
     (if latest_commit_ts (sg_mvcc s) = - 1 then (Inl Panic, s)
      else
        let ts = latest_commit_ts (sg_mvcc s) + 1;
            data = map (write_record ts) batch;
            st = sg_state s;
            s = s\<lparr>sg_state := st\<lparr>ls_memtable := mt_put_batch crc S (ls_memtable st) data\<rparr>\<rparr>
        in st_then (try_freeze S M s) (\<lambda>_ s.
           (Inr (), s\<lparr>sg_mvcc := update_commit_ts ts (sg_mvcc s)\<rparr>)))"

definition storage_put ::
    "(bytes \<Rightarrow> u32) \<Rightarrow> ('m, key, bytes) skip_ops \<Rightarrow> manifest_ops \<Rightarrow> bytes \<Rightarrow> bytes \<Rightarrow> 'm storage \<Rightarrow>
     unit res \<times> 'm storage" where
  "storage_put crc S M key value = write_batch crc S M [Put key value]"

definition storage_delete ::
    "(bytes \<Rightarrow> u32) \<Rightarrow> ('m, key, bytes) skip_ops \<Rightarrow> manifest_ops \<Rightarrow> bytes \<Rightarrow> 'm storage \<Rightarrow>
     unit res \<times> 'm storage" where
  "storage_delete crc S M key = write_batch crc S M [Del key]"

section \<open>Flushing\<close>

definition flush_build ::
    "(bytes \<Rightarrow> u32) \<Rightarrow> (bytes \<Rightarrow> u32) \<Rightarrow> ('m, key, bytes) skip_ops \<Rightarrow> 'm storage \<Rightarrow>
     sstable option res \<times> 'm storage" where
  "flush_build crc fp S s =
     (if ls_imm_memtables (sg_state s) = [] then (Inr None, s)
      else
        let memtable = last (ls_imm_memtables (sg_state s)) in
        case and_then (mt_flush crc fp S memtable (sst_builder_new (opt_block_size (sg_options s))))
               (\<lambda>sb. sst_build crc sb (mt_id memtable) (Some (sg_block_cache s))) of
          Inl e \<Rightarrow> (Inl e, s)
        | Inr ss_table \<Rightarrow>
            (Inr (Some ss_table),
             s\<lparr>sg_sst_files := (sg_sst_files s)(mt_id memtable := fo_file (sst_file ss_table))\<rparr>))"

definition flush_install :: "manifest_ops \<Rightarrow> sstable \<Rightarrow> 'm storage \<Rightarrow> unit res \<times> 'm storage" where
  "flush_install M ss_table s =
     (let st = sg_state s; imms = ls_imm_memtables st; i = sst_id ss_table in
      if imms = [] \<or> mt_id (last imms) \<noteq> i then (Inl Panic, s)
      else
        let st = st\<lparr>ls_imm_memtables := butlast imms\<rparr>;
            st = (if flush_to_l0 (sg_controller s)
                  then st\<lparr>ls_l0_sstables := i # ls_l0_sstables st\<rparr>
                  else st\<lparr>ls_levels := (i, [i]) # ls_levels st\<rparr>);
            st = st\<lparr>ls_sstables := (ls_sstables st)(i \<mapsto> ss_table)\<rparr>
        in add_record M (Flush i) (s\<lparr>sg_state := st\<rparr>))"

definition force_flush_next_imm_memtable ::
    "(bytes \<Rightarrow> u32) \<Rightarrow> (bytes \<Rightarrow> u32) \<Rightarrow> ('m, key, bytes) skip_ops \<Rightarrow> manifest_ops \<Rightarrow> 'm storage \<Rightarrow>
     unit res \<times> 'm storage" where
  "force_flush_next_imm_memtable crc fp S M s =
     st_then (flush_build crc fp S s) (\<lambda>t s.
     case t of None \<Rightarrow> (Inr (), s) | Some ss_table \<Rightarrow> flush_install M ss_table s)"

definition trigger_flush ::
    "(bytes \<Rightarrow> u32) \<Rightarrow> (bytes \<Rightarrow> u32) \<Rightarrow> ('m, key, bytes) skip_ops \<Rightarrow> manifest_ops \<Rightarrow> 'm storage \<Rightarrow>
     unit res \<times> 'm storage" where
  "trigger_flush crc fp S M s =
     (if opt_num_memtable_limit (sg_options s) < 1 + length (ls_imm_memtables (sg_state s))
      then force_flush_next_imm_memtable crc fp S M s else (Inr (), s))"

definition force_flush ::
    "(bytes \<Rightarrow> u32) \<Rightarrow> (bytes \<Rightarrow> u32) \<Rightarrow> ('m, key, bytes) skip_ops \<Rightarrow> manifest_ops \<Rightarrow> 'm storage \<Rightarrow>
     unit res \<times> 'm storage" where
  "force_flush crc fp S M s =
     st_then (if \<not> mt_is_empty S (ls_memtable (sg_state s)) then force_freeze_memtable S M s else (Inr (), s))
       (\<lambda>_ s. if ls_imm_memtables (sg_state s) \<noteq> [] then force_flush_next_imm_memtable crc fp S M s
              else (Inr (), s))"

section \<open>The invariant of a storage\<close>

definition timestamps_ok ::
    "(bytes \<Rightarrow> u32) \<Rightarrow> ('m, key, bytes) skip_ops \<Rightarrow> 'm storage \<Rightarrow> bool" where
  "timestamps_ok crc S s \<longleftrightarrow>
     (\<forall>k v. state_map crc S (sg_state s) k = Some v \<longrightarrow> key_ts k \<le> latest_commit_ts (sg_mvcc s))"

text \<open>Numbers of memtables and tables are taken from one counter and never used twice.\<close>

definition ids_ok :: "'m storage \<Rightarrow> bool" where
  "ids_ok s \<longleftrightarrow>
     (let st = sg_state s; mts = ls_memtable st # ls_imm_memtables st; n = sg_next_sst_id s in
      distinct (map mt_id mts) \<and>
      (\<forall>mt \<in> set mts. mt_id mt < n \<and> ls_sstables st (mt_id mt) = None \<and>
         (\<forall>j. sg_block_cache s (mt_id mt, j) = None)) \<and>
      (\<forall>i. ls_sstables st i \<noteq> None \<longrightarrow> i < n) \<and>
      (\<forall>i j. n \<le> i \<longrightarrow> sg_block_cache s (i, j) = None \<and> sg_wal_files s i = None))"

definition options_ok :: "'m storage \<Rightarrow> bool" where
  "options_ok s \<longleftrightarrow>
     0 < opt_target_sst_size (sg_options s) \<and> opt_block_size (sg_options s) \<le> 65536"

text \<open>Every table that is in use is a file of the directory.\<close>

definition files_ok :: "'m storage \<Rightarrow> bool" where
  "files_ok s \<longleftrightarrow> (\<forall>i t. ls_sstables (sg_state s) i = Some t \<longrightarrow> sg_sst_files s i = fo_file (sst_file t))"

definition size_ok :: "('m, key, bytes) skip_ops \<Rightarrow> 'm memtable \<Rightarrow> bool" where
  "size_ok S mt \<longleftrightarrow> (0 < mt_approximate_size mt \<longrightarrow> mt_entries S mt \<noteq> [])"

definition storage_ok ::
    "(bytes \<Rightarrow> u32) \<Rightarrow> (bytes \<Rightarrow> u32) \<Rightarrow> ('m, key, bytes) skip_ops \<Rightarrow> 'm storage \<Rightarrow> bool" where
  "storage_ok crc fp S s \<longleftrightarrow>
     state_ok crc fp S (sg_state s) \<and> timestamps_ok crc S s \<and> ids_ok s \<and> options_ok s \<and>
     size_ok S (ls_memtable (sg_state s)) \<and> tree_ok crc S (sg_controller s) (sg_state s) \<and> files_ok s"

section \<open>Freezing keeps the contents\<close>

lemma state_sources_freeze:
  assumes "skip_map S" "mt_entries S mt = []"
  shows "state_map crc S (st\<lparr>ls_imm_memtables := ls_memtable st # ls_imm_memtables st, ls_memtable := mt\<rparr>) =
    state_map crc S st"
  using assms(2) by (simp add: state_map_def state_sources_def tables_of_def)

lemma state_ok_freeze:
  assumes "skip_map S" "state_ok crc fp S st" "mt_entries S mt = []" "mt_entries S (ls_memtable st) \<noteq> []"
  shows "state_ok crc fp S (st\<lparr>ls_imm_memtables := ls_memtable st # ls_imm_memtables st, ls_memtable := mt\<rparr>)"
  using assms(2-) by (simp add: state_ok_def live_ids_def tables_of_def)

text \<open>A freeze of a memtable with entries: same contents, one immutable memtable more.\<close>

lemma force_freeze_memtable_ok:
  assumes S: "skip_map S" and M: "manifest_works M" and ok: "storage_ok crc fp S s"
    and ne: "mt_entries S (ls_memtable (sg_state s)) \<noteq> []"
  obtains s' where "force_freeze_memtable S M s = (Inr (), s')" "storage_ok crc fp S s'"
    "state_map crc S (sg_state s') = state_map crc S (sg_state s)" "sg_mvcc s' = sg_mvcc s"
    "ls_imm_memtables (sg_state s') = ls_memtable (sg_state s) # ls_imm_memtables (sg_state s)"
    "mt_entries S (ls_memtable (sg_state s')) = []"
proof -
  let ?n = "sg_next_sst_id s" and ?wal = "opt_enable_wal (sg_options s)" and ?st = "sg_state s"
  have ids: "ids_ok s" and opts: "options_ok s" and ts: "timestamps_ok crc S s"
    and st: "state_ok crc fp S ?st" and tree: "tree_ok crc S (sg_controller s) ?st" and files: "files_ok s"
    using ok by (simp_all add: storage_ok_def)
  have fresh: "sg_wal_files s ?n = None" "\<forall>j. sg_block_cache s (?n, j) = None"
      "ls_sstables ?st ?n = None"
    using ids by (auto simp: ids_ok_def Let_def)
  define mt where "mt = \<lparr>mt_map = sm_new S, mt_wal = (if ?wal then Some \<lparr>wal_disk = [], wal_buf = []\<rparr> else None),
    mt_id = ?n, mt_approximate_size = 0\<rparr>"
  have mt: "mt_entries S mt = []" by (simp add: mt_def mt_entries_def skip_map.iter_new [OF S])
  define s' where "s' = s\<lparr>sg_next_sst_id := ?n + 1,
      sg_wal_files := (if ?wal then (sg_wal_files s)(?n \<mapsto> []) else sg_wal_files s),
      sg_manifest := sg_manifest s @ [NewMemtable ?n],
      sg_state := ?st\<lparr>ls_imm_memtables := ls_memtable ?st # ls_imm_memtables ?st, ls_memtable := mt\<rparr>\<rparr>"
  have run: "force_freeze_memtable S M s = (Inr (), s')"
    using M fresh(1)
    by (simp add: force_freeze_memtable_def next_sst_id_def mt_create_with_wal_def mt_create_def wal_create_def
        add_record_def manifest_works_def Let_def s'_def mt_def)
  have map: "state_map crc S (sg_state s') = state_map crc S ?st"
    using state_sources_freeze [OF S mt] by (simp add: s'_def)
  have "ids_ok s'"
    using ids fresh by (auto simp: ids_ok_def Let_def s'_def mt_def)
  moreover have "timestamps_ok crc S s'" using ts map by (simp add: timestamps_ok_def s'_def)
  moreover have "state_ok crc fp S (sg_state s')"
    using state_ok_freeze [OF S st mt ne] by (simp add: s'_def)
  moreover have "options_ok s'" using opts by (simp add: options_ok_def s'_def)
  moreover have "size_ok S (ls_memtable (sg_state s'))" by (simp add: size_ok_def s'_def mt_def)
  moreover have "files_ok s'" using files by (simp add: files_ok_def s'_def)
  moreover have "tree_ok crc S (sg_controller s') (sg_state s')"
    using tree mt
    by (auto simp: tree_ok_def consistent_def state_pairs_def places_ok_def shape_ok_def tables_of_def s'_def
        split: compaction_controller.splits)
  ultimately have "storage_ok crc fp S s'" by (simp add: storage_ok_def)
  with run map mt show thesis by (intro that [of s']) (simp_all add: s'_def)
qed

section \<open>Flushing keeps the contents\<close>

lemma flush_build_ok:
  assumes S: "skip_map S" and ok: "storage_ok crc fp S s" and ne: "ls_imm_memtables (sg_state s) \<noteq> []"
  obtains t where "flush_build crc fp S s = (Inr (Some t), s\<lparr>sg_sst_files :=
        (sg_sst_files s)(mt_id (last (ls_imm_memtables (sg_state s))) := fo_file (sst_file t))\<rparr>)"
    "table_ok crc fp t" "sst_id t = mt_id (last (ls_imm_memtables (sg_state s)))"
    "sst_entries crc t = mt_entries S (last (ls_imm_memtables (sg_state s)))"
proof -
  let ?mt = "last (ls_imm_memtables (sg_state s))"
  have mem: "?mt \<in> set (ls_imm_memtables (sg_state s))" using ne by simp
  have st: "state_ok crc fp S (sg_state s)" and ids: "ids_ok s" and opts: "options_ok s"
    using ok by (simp_all add: storage_ok_def)
  have es: "mt_entries S ?mt \<noteq> []" "\<forall>e \<in> set (mt_entries S ?mt). entry_ok e"
    using st mem by (simp_all add: state_ok_def)
  have noempty: "no_empty_key (mt_entries S ?mt)" using state_ok_no_empty [OF st] mem by simp
  have cache: "\<forall>c i. Some (sg_block_cache s) = Some c \<longrightarrow> c (mt_id ?mt, i) = None"
    using ids mem by (auto simp: ids_ok_def Let_def)
  have size: "opt_block_size (sg_options s) \<le> 65536" using opts by (simp add: options_ok_def)
  obtain sb t where t: "sst_add_all crc fp (mt_entries S ?mt) (sst_builder_new (opt_block_size (sg_options s))) = Inr sb"
    "sst_build crc sb (mt_id ?mt) (Some (sg_block_cache s)) = Inr t" "table_ok crc fp t"
    "sst_entries crc t = mt_entries S ?mt" "sst_id t = mt_id ?mt"
    by (rule sst_build_table_ok [OF es(1) mt_entries_sorted [OF S] es(2) size cache])
  then show thesis
    using ne by (intro that [of t]) (simp_all add: flush_build_def Let_def mt_flush_add_all [OF S noempty])
qed

text \<open>Installing the table of the oldest memtable, in whatever state the flush finds at that time.\<close>

lemma flush_install_ok:
  assumes M: "manifest_works M" and ok: "storage_ok crc fp S s"
    and ne: "ls_imm_memtables (sg_state s) \<noteq> []"
    and t: "table_ok crc fp t" "sst_id t = mt_id (last (ls_imm_memtables (sg_state s)))"
      "sst_entries crc t = mt_entries S (last (ls_imm_memtables (sg_state s)))"
    and file': "sg_sst_files s (sst_id t) = fo_file (sst_file t)"
  obtains s' where "flush_install M t s = (Inr (), s')" "storage_ok crc fp S s'"
    "state_map crc S (sg_state s') = state_map crc S (sg_state s)" "sg_mvcc s' = sg_mvcc s"
    "ls_imm_memtables (sg_state s') = butlast (ls_imm_memtables (sg_state s))"
    "ls_memtable (sg_state s') = ls_memtable (sg_state s)"
proof -
  let ?st = "sg_state s" and ?i = "sst_id t" and ?imms = "ls_imm_memtables (sg_state s)"
  have ids: "ids_ok s" and opts: "options_ok s" and ts: "timestamps_ok crc S s"
    and st: "state_ok crc fp S ?st" and sz: "size_ok S (ls_memtable ?st)"
    and tree: "tree_ok crc S (sg_controller s) ?st" and files: "files_ok s"
    using ok by (simp_all add: storage_ok_def)
  have imms: "?imms = butlast ?imms @ [last ?imms]" using ne by simp
  have i: "?i < sg_next_sst_id s" "ls_sstables ?st ?i = None"
    using ids ne t(2) by (auto simp: ids_ok_def Let_def)
  have notlive: "?i \<notin> live_ids ?st" using st i(2) by (auto simp: state_ok_def)
  define st' where "st' = (let st = ?st\<lparr>ls_imm_memtables := butlast ?imms\<rparr>;
            st = (if flush_to_l0 (sg_controller s)
                  then st\<lparr>ls_l0_sstables := ?i # ls_l0_sstables st\<rparr>
                  else st\<lparr>ls_levels := (?i, [?i]) # ls_levels st\<rparr>)
        in st\<lparr>ls_sstables := (ls_sstables st)(?i \<mapsto> t)\<rparr>)"
  define s' where "s' = s\<lparr>sg_state := st', sg_manifest := sg_manifest s @ [Flush ?i]\<rparr>"
  have run: "flush_install M t s = (Inr (), s')"
    using M ne t(2)
    by (simp add: flush_install_def add_record_def manifest_works_def Let_def s'_def st'_def)
  have fields: "ls_memtable st' = ls_memtable ?st" "ls_imm_memtables st' = butlast ?imms"
      "ls_sstables st' = (ls_sstables ?st)(?i \<mapsto> t)"
      "ls_l0_sstables st' = (if flush_to_l0 (sg_controller s) then ?i # ls_l0_sstables ?st else ls_l0_sstables ?st)"
      "ls_levels st' = (if flush_to_l0 (sg_controller s) then ls_levels ?st else (?i, [?i]) # ls_levels ?st)"
    by (simp_all add: st'_def Let_def)
  have tabs: "tables_of st' js = tables_of ?st js" if "set js \<subseteq> live_ids ?st" for js
    using that notlive by (auto simp: tables_of_def fields)
  have l0: "set (ls_l0_sstables ?st) \<subseteq> live_ids ?st" by (auto simp: live_ids_def)
  have lvl: "set (snd l) \<subseteq> live_ids ?st" if "l \<in> set (ls_levels ?st)" for l
    using that by (auto simp: live_ids_def)
  have new: "tables_of st' (?i # js) = t # tables_of st' js" for js
    by (simp add: tables_of_def fields)
  have one: "tables_of st' [?i] = [t]" "tables_of st' [] = []" "tables_of ?st [] = []"
    by (simp_all add: tables_of_def fields)
  have lvls: "map (\<lambda>l. map_of (level_entries crc (tables_of st' (snd l)))) (ls_levels ?st) =
      map (\<lambda>l. map_of (level_entries crc (tables_of ?st (snd l)))) (ls_levels ?st)"
    using tabs [OF lvl] by simp
  have "state_sources crc S st' = state_sources crc S ?st"
  proof (cases "flush_to_l0 (sg_controller s)")
    case True
    then show ?thesis
      unfolding state_sources_def fields
      using lvls tabs [OF l0] t(3) arg_cong [OF imms, of "map (\<lambda>mt. map_of (mt_entries S mt))"]
      by (simp add: new)
  next
    case False
    then have "ls_l0_sstables ?st = []"
      using tree by (simp add: tree_ok_def shape_ok_def flush_to_l0_def split: compaction_controller.splits)
    then show ?thesis
      unfolding state_sources_def fields
      using False lvls t(3) arg_cong [OF imms, of "map (\<lambda>mt. map_of (mt_entries S mt))"]
      by (simp add: one level_entries_def)
  qed
  then have map: "state_map crc S st' = state_map crc S ?st" by (simp add: state_map_def)
  have live: "live_ids st' = insert ?i (live_ids ?st)" by (auto simp: live_ids_def fields)
  have "state_ok crc fp S st'"
    unfolding state_ok_def live
  proof (intro conjI ballI allI impI)
    fix mt e assume "mt \<in> set (ls_memtable st' # ls_imm_memtables st')" "e \<in> set (mt_entries S mt)"
    then show "entry_ok e" using st in_set_butlastD [of mt ?imms] by (auto simp: state_ok_def fields)
  next
    fix mt assume "mt \<in> set (ls_imm_memtables st')"
    then show "mt_entries S mt \<noteq> []" using st in_set_butlastD [of mt ?imms] by (auto simp: state_ok_def fields)
  next
    fix j assume "j \<in> insert ?i (live_ids ?st)"
    then show "ls_sstables st' j \<noteq> None" using st by (auto simp: state_ok_def fields)
  next
    fix j t' assume "ls_sstables st' j = Some t'"
    then show "table_ok crc fp t'" "sst_id t' = j"
      using st t(1) by (auto simp: state_ok_def fields split: if_splits)
  next
    fix l assume l: "l \<in> set (ls_levels st')"
    show "level_ok crc (tables_of st' (snd l))"
    proof (cases "l \<in> set (ls_levels ?st)")
      case True
      then show ?thesis using st tabs [OF lvl [OF True]] by (simp add: state_ok_def)
    next
      case False
      then have "snd l = [?i]" using l by (auto simp: fields split: if_splits)
      then show ?thesis using t(1) by (simp add: one level_ok_def table_ok_def)
    qed
  qed
  moreover have "ids_ok s'"
    unfolding ids_ok_def Let_def
  proof (intro conjI ballI allI impI)
    have d: "distinct (map mt_id (ls_memtable ?st # butlast ?imms @ [last ?imms]))"
      using ids imms by (simp add: ids_ok_def Let_def)
    then show "distinct (map mt_id (ls_memtable (sg_state s') # ls_imm_memtables (sg_state s')))"
      by (simp add: s'_def fields map_butlast distinct_butlast)
    fix mt assume mt: "mt \<in> set (ls_memtable (sg_state s') # ls_imm_memtables (sg_state s'))"
    then have old: "mt \<in> set (ls_memtable ?st # ?imms)"
      using in_set_butlastD [of mt ?imms] by (auto simp: s'_def fields)
    have "mt_id mt \<noteq> ?i" using d mt t(2) by (auto simp: s'_def fields image_iff)
    then show "ls_sstables (sg_state s') (mt_id mt) = None"
      using ids old by (auto simp: ids_ok_def Let_def s'_def fields)
    show "mt_id mt < sg_next_sst_id s'"
      using ids old by (auto simp: ids_ok_def Let_def s'_def)
    show "sg_block_cache s' (mt_id mt, j) = None" for j
      using ids old by (auto simp: ids_ok_def Let_def s'_def)
  next
    fix j assume "ls_sstables (sg_state s') j \<noteq> None"
    then show "j < sg_next_sst_id s'"
      using ids i(1) by (auto simp: ids_ok_def Let_def s'_def fields split: if_splits)
  next
    fix j k assume "sg_next_sst_id s' \<le> j"
    then show "sg_block_cache s' (j, k) = None" "sg_wal_files s' j = None"
      using ids by (auto simp: ids_ok_def Let_def s'_def)
  qed
  moreover have "timestamps_ok crc S s'" using ts map by (simp add: timestamps_ok_def s'_def)
  moreover have "options_ok s'" using opts by (auto simp: options_ok_def s'_def)
  moreover have "size_ok S (ls_memtable (sg_state s'))" using sz by (simp add: s'_def fields)
  moreover have "files_ok s'" using files file' by (simp add: files_ok_def s'_def fields)
  moreover have "tree_ok crc S (sg_controller s') (sg_state s')"
  proof -
    have "set ?imms = insert (last ?imms) (set (butlast ?imms))"
      using arg_cong [OF imms, of set] by simp
    then have "state_pairs crc S st' = state_pairs crc S ?st"
      using tabs [OF l0] tabs [OF lvl] t(3)
      by (auto simp: state_pairs_def fields new one)
    moreover have "places_ok st'"
      using tree notlive by (auto simp: tree_ok_def places_ok_def fields live_ids_def)
    moreover have "shape_ok (sg_controller s) st'"
      using tree by (auto simp: tree_ok_def shape_ok_def fields flush_to_l0_def split: compaction_controller.splits)
    ultimately show ?thesis using tree by (simp add: tree_ok_def consistent_def s'_def)
  qed
  ultimately have "storage_ok crc fp S s'" by (simp add: storage_ok_def s'_def)
  with run map show thesis by (intro that [of s']) (simp_all add: s'_def fields)
qed

lemma storage_ok_new_file:
  "storage_ok crc fp S s \<Longrightarrow> ls_sstables (sg_state s) i = None \<Longrightarrow>
   storage_ok crc fp S (s\<lparr>sg_sst_files := (sg_sst_files s)(i := f)\<rparr>)"
  by (simp add: storage_ok_def timestamps_ok_def ids_ok_def options_ok_def files_ok_def)

lemma force_flush_next_imm_memtable_ok:
  assumes S: "skip_map S" and M: "manifest_works M" and ok: "storage_ok crc fp S s"
  obtains s' where "force_flush_next_imm_memtable crc fp S M s = (Inr (), s')" "storage_ok crc fp S s'"
    "state_map crc S (sg_state s') = state_map crc S (sg_state s)" "sg_mvcc s' = sg_mvcc s"
    "ls_imm_memtables (sg_state s') = butlast (ls_imm_memtables (sg_state s))"
    "ls_memtable (sg_state s') = ls_memtable (sg_state s)"
proof (cases "ls_imm_memtables (sg_state s) = []")
  case True
  then show thesis
    using ok that [of s] by (simp add: force_flush_next_imm_memtable_def flush_build_def)
next
  case False
  obtain t where t: "flush_build crc fp S s = (Inr (Some t), s\<lparr>sg_sst_files :=
        (sg_sst_files s)(mt_id (last (ls_imm_memtables (sg_state s))) := fo_file (sst_file t))\<rparr>)"
    "table_ok crc fp t" "sst_id t = mt_id (last (ls_imm_memtables (sg_state s)))"
    "sst_entries crc t = mt_entries S (last (ls_imm_memtables (sg_state s)))"
    using flush_build_ok [OF S ok False] by blast
  let ?s = "s\<lparr>sg_sst_files := (sg_sst_files s)(mt_id (last (ls_imm_memtables (sg_state s))) := fo_file (sst_file t))\<rparr>"
  have "last (ls_imm_memtables (sg_state s)) \<in> set (ls_memtable (sg_state s) # ls_imm_memtables (sg_state s))"
    using False by simp
  then have "ls_sstables (sg_state s) (mt_id (last (ls_imm_memtables (sg_state s)))) = None"
    using ok unfolding storage_ok_def ids_ok_def Let_def by blast
  then have "storage_ok crc fp S ?s" by (rule storage_ok_new_file [OF ok])
  then obtain s' where "flush_install M t ?s = (Inr (), s')" "storage_ok crc fp S s'"
    "state_map crc S (sg_state s') = state_map crc S (sg_state ?s)" "sg_mvcc s' = sg_mvcc ?s"
    "ls_imm_memtables (sg_state s') = butlast (ls_imm_memtables (sg_state ?s))"
    "ls_memtable (sg_state s') = ls_memtable (sg_state ?s)"
    using flush_install_ok [OF M, of crc fp S ?s t] False t(2-4) by auto
  then show thesis
    by (intro that [of s']) (simp_all add: force_flush_next_imm_memtable_def t(1))
qed

section \<open>Writing adds one version\<close>

lemma state_map_put_batch:
  assumes "skip_map S"
  shows "state_map crc S (st\<lparr>ls_memtable := mt_put_batch crc' S (ls_memtable st) data\<rparr>) =
    state_map crc S st ++ map_of (rev data)"
  by (simp add: state_map_def state_sources_def tables_of_def map_mt_put_batch [OF assms])

lemma timestamps_mono:
  "timestamps_ok crc S s \<Longrightarrow> sg_state s' = sg_state s \<Longrightarrow>
   latest_commit_ts (sg_mvcc s) \<le> latest_commit_ts (sg_mvcc s') \<Longrightarrow> timestamps_ok crc S s'"
  by (force simp: timestamps_ok_def)

lemma latest_update [simp]: "latest_commit_ts (update_commit_ts ts m) = ts"
  by (simp add: latest_commit_ts_def update_commit_ts_def)

text \<open>Freezing does not look at the timestamps.\<close>

lemma force_freeze_mvcc:
  "force_freeze_memtable S M (s\<lparr>sg_mvcc := m\<rparr>) =
   (case force_freeze_memtable S M s of (r, s') \<Rightarrow> (r, s'\<lparr>sg_mvcc := m\<rparr>))"
  by (simp add: force_freeze_memtable_def next_sst_id_def add_record_def Let_def split: sum.split cong: if_cong)

lemma force_freeze_same_mvcc: "force_freeze_memtable S M s = (r, s') \<Longrightarrow> sg_mvcc s' = sg_mvcc s"
  by (auto simp: force_freeze_memtable_def next_sst_id_def add_record_def Let_def
      split: sum.splits if_splits)

lemma force_freeze_files: "sg_sst_files (snd (force_freeze_memtable S M s)) = sg_sst_files s"
  by (simp add: force_freeze_memtable_def next_sst_id_def add_record_def Let_def split: sum.split)

text \<open>
  The first half of a write puts the batch into the memtable. The storage is well formed for a clock
  that shows the batch.
\<close>

definition write_put ::
    "(bytes \<Rightarrow> u32) \<Rightarrow> ('m, key, bytes) skip_ops \<Rightarrow> u64 \<Rightarrow> write_batch_record list \<Rightarrow> 'm storage \<Rightarrow> 'm storage" where
  "write_put crc S ts batch s =
     s\<lparr>sg_state := (sg_state s)\<lparr>ls_memtable :=
        mt_put_batch crc S (ls_memtable (sg_state s)) (map (write_record ts) batch)\<rparr>\<rparr>"

abbreviation at_clock :: "u64 \<Rightarrow> 'm storage \<Rightarrow> 'm storage" where
  "at_clock ts s \<equiv> s\<lparr>sg_mvcc := update_commit_ts ts (sg_mvcc s)\<rparr>"

lemma write_put_ok:
  assumes S: "skip_map S" and ok: "storage_ok crc fp S s"
    and fits: "\<forall>r \<in> set batch. record_fits r" and left: "latest_commit_ts (sg_mvcc s) \<noteq> - 1"
    and ts_def: "ts = latest_commit_ts (sg_mvcc s) + 1"
  shows "storage_ok crc fp S (at_clock ts (write_put crc S ts batch s)) \<and>
    state_map crc S (sg_state (write_put crc S ts batch s)) =
      state_map crc S (sg_state s) ++ map_of (rev (map (write_record ts) batch))"
proof -
  define data where "data = map (write_record ts) batch"
  define st where "st = (sg_state s)\<lparr>ls_memtable := mt_put_batch crc S (ls_memtable (sg_state s)) data\<rparr>"
  define s1 where "s1 = s\<lparr>sg_state := st\<rparr>"
  define s2 where "s2 = s1\<lparr>sg_mvcc := update_commit_ts ts (sg_mvcc s1)\<rparr>"
  have ids: "ids_ok s" and opts: "options_ok s" and tsok: "timestamps_ok crc S s"
    and stok: "state_ok crc fp S (sg_state s)" and sz: "size_ok S (ls_memtable (sg_state s))"
    and tree: "tree_ok crc S (sg_controller s) (sg_state s)" and files: "files_ok s"
    using ok by (simp_all add: storage_ok_def)
  have map: "state_map crc S st = state_map crc S (sg_state s) ++ map_of (rev data)"
    unfolding st_def by (rule state_map_put_batch [OF S])
  have le: "latest_commit_ts (sg_mvcc s) \<le> ts"
    unfolding ts_def using clock_next [OF left] by (simp add: less_imp_le)
  have "\<forall>e \<in> set (mt_entries S (ls_memtable st)). entry_ok e"
  proof
    fix e assume "e \<in> set (mt_entries S (ls_memtable st))"
    then have "e \<in> set (mt_entries S (ls_memtable (sg_state s))) \<or> e \<in> set data"
      using mt_entries_put_batch_subset [OF S, of crc "ls_memtable (sg_state s)" data] by (auto simp: st_def)
    then show "entry_ok e"
      using stok fits write_record_fits by (auto simp: state_ok_def data_def)
  qed
  then have st2: "state_ok crc fp S (sg_state s2)"
    using stok by (simp add: state_ok_def s2_def s1_def st_def live_ids_def tables_of_def)
  have "timestamps_ok crc S s2"
    unfolding timestamps_ok_def
  proof (intro allI impI)
    fix k v assume "state_map crc S (sg_state s2) k = Some v"
    then have "map_of (rev data) k = Some v \<or> state_map crc S (sg_state s) k = Some v"
      by (auto simp: s2_def s1_def map)
    then show "key_ts k \<le> latest_commit_ts (sg_mvcc s2)"
    proof
      assume "map_of (rev data) k = Some v"
      then have "(k, v) \<in> set data" using map_of_SomeD by force
      then have "key_ts k = ts" by (force simp: data_def image_iff dest: arg_cong [of _ _ fst])
      then show ?thesis by (simp add: s2_def)
    next
      assume "state_map crc S (sg_state s) k = Some v"
      then have "key_ts k \<le> latest_commit_ts (sg_mvcc s)" using tsok by (simp add: timestamps_ok_def)
      with le show ?thesis by (simp add: s2_def)
    qed
  qed
  moreover have "ids_ok s2" using ids by (simp add: ids_ok_def Let_def s2_def s1_def st_def)
  moreover have "options_ok s2" using opts by (simp add: options_ok_def s2_def s1_def st_def)
  moreover have "files_ok s2" using files by (simp add: files_ok_def s2_def s1_def st_def)
  moreover have sz2: "size_ok S (ls_memtable st)"
    unfolding size_ok_def
  proof
    assume pos: "0 < mt_approximate_size (ls_memtable st)"
    have dom: "dom (map_of (mt_entries S (ls_memtable st))) =
        fst ` set (mt_entries S (ls_memtable (sg_state s))) \<union> fst ` set data"
      by (simp add: st_def map_mt_put_batch [OF S] dom_map_of_conv_image_fst Un_commute)
    have "data \<noteq> [] \<or> mt_entries S (ls_memtable (sg_state s)) \<noteq> []"
      using pos sz by (cases "data = []") (auto simp: st_def size_ok_def mt_put_batch_size)
    then have "dom (map_of (mt_entries S (ls_memtable st))) \<noteq> {}" unfolding dom by auto
    then show "mt_entries S (ls_memtable st) \<noteq> []" by auto
  qed
  moreover have "tree_ok crc S (sg_controller s2) (sg_state s2)"
  proof -
    have fresh: "(k, w) \<notin> state_pairs crc S (sg_state s)" if "key_ts k = ts" for k w
    proof
      assume "(k, w) \<in> state_pairs crc S (sg_state s)"
      then have "state_map crc S (sg_state s) k = Some w"
        using state_map_pairs [OF S stok] tree by (simp add: tree_ok_def)
      then have "ts \<le> latest_commit_ts (sg_mvcc s)" using tsok that by (auto simp: timestamps_ok_def)
      then show False using clock_next [OF left] by (simp add: ts_def leD)
    qed
    have mem: "(k, v) \<in> set (mt_entries S (ls_memtable st)) \<longleftrightarrow>
        (map_of (mt_entries S (ls_memtable (sg_state s))) ++ map_of (rev data)) k = Some v" for k v
      by (simp add: sorted1_graph [OF mt_entries_sorted [OF S]] st_def map_mt_put_batch [OF S])
    have sub: "(k, v) \<in> state_pairs crc S (sg_state s) \<or> map_of (rev data) k = Some v"
      if kv: "(k, v) \<in> state_pairs crc S st" for k v
    proof -
      consider "(k, v) \<in> set (mt_entries S (ls_memtable st))" | "(k, v) \<in> state_pairs crc S (sg_state s)"
        using kv by (auto simp: state_pairs_def st_def tables_of_def)
      then show ?thesis
      proof cases
        case 1
        then have "map_of (rev data) k = Some v \<or> (k, v) \<in> set (mt_entries S (ls_memtable (sg_state s)))"
          unfolding mem by (auto dest: map_of_SomeD)
        then show ?thesis by (auto simp: state_pairs_def)
      qed simp
    qed
    have at: "key_ts k = ts" if "map_of (rev data) k = Some v" for k v
      using batch_map_ts [of ts batch k v] that by (simp add: batch_map_def data_def)
    have "single_valued (state_pairs crc S st)"
      unfolding single_valued_def
    proof (intro allI impI)
      fix k v w assume "(k, v) \<in> state_pairs crc S st" "(k, w) \<in> state_pairs crc S st"
      then have "(k, v) \<in> state_pairs crc S (sg_state s) \<or> map_of (rev data) k = Some v"
        "(k, w) \<in> state_pairs crc S (sg_state s) \<or> map_of (rev data) k = Some w"
        using sub by blast+
      then show "v = w"
        using tree at [of k v] at [of k w] fresh [of k v] fresh [of k w]
        by (auto simp: tree_ok_def consistent_def dest: single_valuedD)
    qed
    then show ?thesis
      using tree
      by (auto simp: tree_ok_def consistent_def places_ok_def shape_ok_def s2_def s1_def st_def
          split: compaction_controller.splits)
  qed
  ultimately have "storage_ok crc fp S s2"
    using st2 by (simp add: storage_ok_def s2_def s1_def)
  with map show ?thesis by (simp add: s2_def s1_def st_def data_def write_put_def)
qed

text \<open>The second half freezes the memtable if it is full, and then moves the clock.\<close>

lemma write_finish_ok:
  assumes S: "skip_map S" and M: "manifest_works M" and ok: "storage_ok crc fp S (at_clock ts s)"
  obtains s' where "try_freeze S M s = (Inr (), s')" "storage_ok crc fp S (at_clock ts s')"
    "state_map crc S (sg_state s') = state_map crc S (sg_state s)" "sg_mvcc s' = sg_mvcc s"
    "ls_imm_memtables (sg_state s') = ls_imm_memtables (sg_state s) \<or>
     ls_imm_memtables (sg_state s') = ls_memtable (sg_state s) # ls_imm_memtables (sg_state s)"
    "sg_sst_files s' = sg_sst_files s"
proof (cases "opt_target_sst_size (sg_options s) \<le> mt_approximate_size (ls_memtable (sg_state s))")
  case False
  then show thesis using ok by (intro that [of s]) (simp_all add: try_freeze_def)
next
  case True
  have "options_ok (at_clock ts s)" "size_ok S (ls_memtable (sg_state (at_clock ts s)))"
    using ok by (simp_all add: storage_ok_def)
  then have ne: "mt_entries S (ls_memtable (sg_state (at_clock ts s))) \<noteq> []"
    using True by (simp add: options_ok_def size_ok_def)
  obtain s3 where s3: "force_freeze_memtable S M (at_clock ts s) = (Inr (), s3)" "storage_ok crc fp S s3"
      "state_map crc S (sg_state s3) = state_map crc S (sg_state s)"
      "ls_imm_memtables (sg_state s3) = ls_memtable (sg_state s) # ls_imm_memtables (sg_state s)"
    using force_freeze_memtable_ok [OF S M ok ne] by auto
  obtain r s' where s': "force_freeze_memtable S M s = (r, s')" by fastforce
  have mvcc: "sg_mvcc s' = sg_mvcc s" by (rule force_freeze_same_mvcc [OF s'])
  have "r = Inr ()" "s3 = at_clock ts s'" using s3(1) by (simp_all add: force_freeze_mvcc s' mvcc)
  moreover have "sg_sst_files s' = sg_sst_files s" using force_freeze_files [of S M s] s' by simp
  ultimately show thesis
    using True s' s3 mvcc by (intro that [of s']) (simp_all add: try_freeze_def)
qed

lemma write_batch_split:
  "latest_commit_ts (sg_mvcc s) \<noteq> - 1 \<Longrightarrow> ts = latest_commit_ts (sg_mvcc s) + 1 \<Longrightarrow>
   write_batch crc S M batch s =
     st_then (try_freeze S M (write_put crc S ts batch s)) (\<lambda>_ s. (Inr (), at_clock ts s))"
  by (simp add: write_batch_def Let_def write_put_def)

text \<open>
  A batch can be written as long as there is a timestamp left. Afterwards the contents are those
  of before with the records of the batch, all at the next timestamp, the last one of a key winning.
\<close>

lemma write_batch_ok:
  assumes S: "skip_map S" and M: "manifest_works M" and ok: "storage_ok crc fp S s"
    and fits: "\<forall>r \<in> set batch. record_fits r" and left: "latest_commit_ts (sg_mvcc s) \<noteq> - 1"
  obtains s' where "write_batch crc S M batch s = (Inr (), s')" "storage_ok crc fp S s'"
    "state_map crc S (sg_state s') = state_map crc S (sg_state s) ++
       map_of (rev (map (write_record (latest_commit_ts (sg_mvcc s) + 1)) batch))"
    "latest_commit_ts (sg_mvcc s') = latest_commit_ts (sg_mvcc s) + 1"
proof -
  let ?ts = "latest_commit_ts (sg_mvcc s) + 1"
  note put = write_put_ok [OF S ok fits left refl]
  obtain s' where s': "try_freeze S M (write_put crc S ?ts batch s) = (Inr (), s')"
      "storage_ok crc fp S (at_clock ?ts s')"
      "state_map crc S (sg_state s') = state_map crc S (sg_state (write_put crc S ?ts batch s))"
    using write_finish_ok [OF S M conjunct1 [OF put]] by blast
  then show thesis
    using conjunct2 [OF put] by (intro that [of "at_clock ?ts s'"]) (simp_all add: write_batch_split [OF left refl])
qed

section \<open>The storage keeps the contract\<close>

text \<open>\<open>force_flush\<close> of the client and \<open>trigger_flush\<close> of the flush thread.\<close>

datatype flush_op = ForceFlush | TriggerFlush

fun run_flush ::
    "(bytes \<Rightarrow> u32) \<Rightarrow> (bytes \<Rightarrow> u32) \<Rightarrow> ('m, key, bytes) skip_ops \<Rightarrow> manifest_ops \<Rightarrow> flush_op \<Rightarrow>
     'm storage \<Rightarrow> unit res \<times> 'm storage" where
  "run_flush crc fp S M ForceFlush = force_flush crc fp S M"
| "run_flush crc fp S M TriggerFlush = trigger_flush crc fp S M"

lemma run_flush_ok:
  assumes S: "skip_map S" and M: "manifest_works M" and ok: "storage_ok crc fp S s"
  obtains s' where "run_flush crc fp S M op s = (Inr (), s')" "storage_ok crc fp S s'"
    "state_map crc S (sg_state s') = state_map crc S (sg_state s)" "sg_mvcc s' = sg_mvcc s"
proof (cases op)
  case ForceFlush
  obtain s1 where s1: "(if \<not> mt_is_empty S (ls_memtable (sg_state s)) then force_freeze_memtable S M s
        else (Inr (), s)) = (Inr (), s1)" "storage_ok crc fp S s1"
      "state_map crc S (sg_state s1) = state_map crc S (sg_state s)" "sg_mvcc s1 = sg_mvcc s"
  proof (cases "mt_is_empty S (ls_memtable (sg_state s))")
    case True
    then show thesis using that [of s] ok by simp
  next
    case False
    then have ne: "mt_entries S (ls_memtable (sg_state s)) \<noteq> []"
      by (simp add: mt_is_empty_def mt_entries_def skip_map.is_empty_iter [OF S])
    show thesis
      using force_freeze_memtable_ok [OF S M ok ne] that False by auto
  qed
  show thesis
  proof (cases "ls_imm_memtables (sg_state s1) = []")
    case True
    then show thesis using s1 by (intro that [of s1]) (simp_all add: ForceFlush force_flush_def)
  next
    case False
    obtain s2 where s2: "force_flush_next_imm_memtable crc fp S M s1 = (Inr (), s2)" "storage_ok crc fp S s2"
        "state_map crc S (sg_state s2) = state_map crc S (sg_state s1)" "sg_mvcc s2 = sg_mvcc s1"
      by (rule force_flush_next_imm_memtable_ok [OF S M s1(2)])
    then show thesis
      using s1 False by (intro that [of s2]) (simp_all add: ForceFlush force_flush_def)
  qed
next
  case TriggerFlush
  show thesis
  proof (cases "opt_num_memtable_limit (sg_options s) < 1 + length (ls_imm_memtables (sg_state s))")
    case True
    obtain s1 where "force_flush_next_imm_memtable crc fp S M s = (Inr (), s1)" "storage_ok crc fp S s1"
        "state_map crc S (sg_state s1) = state_map crc S (sg_state s)" "sg_mvcc s1 = sg_mvcc s"
      by (rule force_flush_next_imm_memtable_ok [OF S M ok])
    then show thesis
      using True by (intro that [of s1]) (simp_all add: TriggerFlush trigger_flush_def)
  next
    case False
    then show thesis using ok by (intro that [of s]) (simp_all add: TriggerFlush trigger_flush_def)
  qed
qed

definition storage_good ::
    "(bytes \<Rightarrow> u32) \<Rightarrow> (bytes \<Rightarrow> u32) \<Rightarrow> ('m, key, bytes) skip_ops \<Rightarrow> manifest_ops \<Rightarrow> 'm storage \<Rightarrow> bool" where
  "storage_good crc fp S M s \<longleftrightarrow> skip_map S \<and> manifest_works M \<and> storage_ok crc fp S s"

lemma get_with_ts_read_at:
  "skip_map S \<Longrightarrow> state_ok crc fp S (sg_state s) \<Longrightarrow>
   get_with_ts crc fp S s u ts = Inr (read_at ts (state_map crc S (sg_state s)) u)"
  by (simp add: get_with_ts_ok read_at_def state_entries_def)

interpretation flushing: mv_store "storage_good crc fp S M" "\<lambda>s. state_map crc S (sg_state s)"
    "\<lambda>s. latest_commit_ts (sg_mvcc s)" record_fits "get_with_ts crc fp S" "write_batch crc S M" "run_flush crc fp S M"
proof
  fix s
  assume good: "storage_good crc fp S M s"
  then have S: "skip_map S" and M: "manifest_works M" and ok: "storage_ok crc fp S s"
    by (simp_all add: storage_good_def)
  show "finite (dom (state_map crc S (sg_state s)))" by simp
  show "get_with_ts crc fp S s u ts = Inr (read_at ts (state_map crc S (sg_state s)) u)" for u ts
    using S ok by (simp add: get_with_ts_read_at storage_ok_def)
  show "key_ts k \<le> latest_commit_ts (sg_mvcc s)" if "state_map crc S (sg_state s) k = Some v" for k v
    using ok that by (simp add: storage_ok_def timestamps_ok_def)
  show "\<exists>s'. write_batch crc S M batch s = (Inr (), s') \<and> storage_good crc fp S M s' \<and>
      latest_commit_ts (sg_mvcc s') = latest_commit_ts (sg_mvcc s) + 1 \<and>
      state_map crc S (sg_state s') = state_map crc S (sg_state s) ++ batch_map (latest_commit_ts (sg_mvcc s) + 1) batch"
    if "\<forall>r \<in> set batch. record_fits r" "latest_commit_ts (sg_mvcc s) \<noteq> - 1" for batch
    by (rule write_batch_ok [OF S M ok that]) (auto simp: storage_good_def S M batch_map_def)
  show "\<exists>s'. run_flush crc fp S M op s = (Inr (), s') \<and> storage_good crc fp S M s' \<and>
      latest_commit_ts (sg_mvcc s') = latest_commit_ts (sg_mvcc s) \<and>
      state_map crc S (sg_state s') = state_map crc S (sg_state s)" for op
    by (rule run_flush_ok [OF S M ok, of op]) (auto simp: storage_good_def S M)
qed

section \<open>Properties\<close>

lemma sample_storage_ok: "storage_ok (\<lambda>_. 0) (\<lambda>_. 1) rbt_ops sample_storage"
proof -
  have st: "state_ok (\<lambda>_. 0) (\<lambda>_. 1) rbt_ops (sg_state sample_storage)"
    by (simp add: sample_storage_def sample_state_ok)
  have sub: "set (mt_entries rbt_ops (ls_memtable sample_state)) \<subseteq> {(Key [1, 2] 9, []), (Key [6] 9, [6])}"
    using mt_entries_put_batch_subset [OF rbt.skip_map_axioms, of "\<lambda>_. 0" "mt_create rbt_ops 4"]
    by (force simp: sample_state_def mt_entries_create [OF rbt.skip_map_axioms])
  have "key_ts k \<le> 9" if k: "state_map (\<lambda>_. 0) rbt_ops sample_state k = Some v" for k v
  proof -
    obtain m where m: "m \<in> set (state_sources (\<lambda>_. 0) rbt_ops sample_state)" "m k = Some v"
      using overlay_at [OF k [unfolded state_map_def]] by blast
    then consider "map_of (mt_entries rbt_ops (ls_memtable sample_state)) k = Some v"
      | "map_of sample_entries k = Some v"
      by (auto simp: state_sources_def sample_state_def tables_of_def sample_sst_ok level_entries_def)
    then show ?thesis
    proof cases
      case 1
      then show ?thesis using sub by (auto dest!: map_of_SomeD)
    next
      case 2
      then have "(k, v) \<in> set sample_entries" by (rule map_of_SomeD)
      then show ?thesis by (auto simp: sample_entries_def)
    qed
  qed
  then have "timestamps_ok (\<lambda>_. 0) rbt_ops sample_storage"
    by (simp add: timestamps_ok_def sample_storage_def mvcc_new_def latest_commit_ts_def)
  moreover have "size_ok rbt_ops (ls_memtable sample_state)"
  proof -
    have "map_of (mt_entries rbt_ops (ls_memtable sample_state)) (Key [6] 9) = Some [6]"
      by (simp add: sample_state_def map_mt_put_batch [OF rbt.skip_map_axioms])
    then show ?thesis by (auto simp: size_ok_def)
  qed
  moreover have "mt_id (ls_memtable sample_state) = 4" by (simp add: sample_state_def mt_create_def)
  moreover have "tree_ok (\<lambda>_. 0) rbt_ops NoCompactionController sample_state"
  proof -
    have "(k, v) \<in> {(Key [1, 2] 9, []), (Key [6] 9, [6])} \<or> (k, v) \<in> set sample_entries"
      if "(k, v) \<in> state_pairs (\<lambda>_. 0) rbt_ops sample_state" for k v
      using that sub by (auto simp: state_pairs_def sample_state_def tables_of_def sample_sst_ok)
    moreover have "single_valued (set ([(Key [1, 2] 9, []), (Key [6] 9, [6])] @ sample_entries))"
      by (rule single_valued_entries) (simp add: sample_entries_def)
    ultimately have "single_valued (state_pairs (\<lambda>_. 0) rbt_ops sample_state)"
      by (rule_tac single_valued_subset [of _ "set ([(Key [1, 2] 9, []), (Key [6] 9, [6])] @ sample_entries)"]) auto
    then show ?thesis
      by (simp add: tree_ok_def consistent_def places_ok_def shape_ok_def sample_state_def)
  qed
  moreover obtain d where "fo_file (sst_file (sample_sst (\<lambda>_. 0) (\<lambda>_. 1))) = Some d"
    using table_ok_file [OF sample_sst_table_ok(1)] by blast
  ultimately show ?thesis
    using st
    by (auto simp: storage_ok_def ids_ok_def options_ok_def files_ok_def sample_storage_def sample_state_def Let_def
        default_for_week1_test_def flush_to_l0_def)
qed

lemma sample_storage_good: "storage_good (\<lambda>_. 0) (\<lambda>_. 1) rbt_ops manifest_log sample_storage"
  by (simp add: storage_good_def rbt.skip_map_axioms manifest_log_works sample_storage_ok)

text \<open>
  C1: The storage is a map with snapshots. From any well-formed storage, any run of write batches
  and flushes succeeds as long as there are timestamps left; afterwards a read at the current time
  answers what the batches, applied to a plain map in their order, leave for the key, whatever
  was frozen or flushed in between; and a read at any time that existed before answers as before.
\<close>

theorem storage_refines_map:
  assumes "skip_map S" "manifest_works M" "storage_ok crc fp S s" "\<forall>op \<in> set ops. op_fits op"
    and "unat (latest_commit_ts (sg_mvcc s)) + sum_list (map ticks ops) < 2 ^ 64"
  shows "\<exists>s'. run_ops (write_batch crc S M) (run_flush crc fp S M) ops s = (Inr (), s') \<and>
    storage_ok crc fp S s' \<and>
    (\<forall>u. storage_get crc fp S s' u = Inr (fold spec_op ops (\<lambda>u. projr (storage_get crc fp S s u)) u)) \<and>
    (\<forall>u ts. ts \<le> latest_commit_ts (sg_mvcc s) \<longrightarrow>
      get_with_ts crc fp S s' u ts = get_with_ts crc fp S s u ts)"
  using flushing.run_ops_get [of crc fp S M s ops] assms
  unfolding storage_get_def storage_good_def by blast

theorem storage_refines_map_witness:
  "\<exists>s'. run_ops (write_batch (\<lambda>_. 0) rbt_ops manifest_log) (run_flush (\<lambda>_. 0) (\<lambda>_. 1) rbt_ops manifest_log)
      [Write [Put [1] [2], Del [6]], Maintain ForceFlush, Write [Put [6] [7]]] sample_storage = (Inr (), s') \<and>
    storage_ok (\<lambda>_. 0) (\<lambda>_. 1) rbt_ops s' \<and>
    (\<forall>u. storage_get (\<lambda>_. 0) (\<lambda>_. 1) rbt_ops s' u =
      Inr (fold spec_op [Write [Put [1] [2], Del [6]], Maintain ForceFlush, Write [Put [6] [7]]]
        (\<lambda>u. projr (storage_get (\<lambda>_. 0) (\<lambda>_. 1) rbt_ops sample_storage u)) u)) \<and>
    (\<forall>u ts. ts \<le> latest_commit_ts (sg_mvcc sample_storage) \<longrightarrow>
      get_with_ts (\<lambda>_. 0) (\<lambda>_. 1) rbt_ops s' u ts = get_with_ts (\<lambda>_. 0) (\<lambda>_. 1) rbt_ops sample_storage u ts)"
  by (rule storage_refines_map [OF rbt.skip_map_axioms manifest_log_works sample_storage_ok])
    (simp_all add: sample_storage_def mvcc_new_def latest_commit_ts_def)

text \<open>
  C20: Writing a batch is atomic and ordered: a well-formed storage takes any batch, moves its clock
  by one, and holds afterwards exactly what it held before together with the last record the batch
  has for each key, all at the new time, in memory or frozen.
\<close>

theorem write_batch_contents:
  assumes "skip_map S" "manifest_works M" "storage_ok crc fp S s"
    and "\<forall>r \<in> set batch. record_fits r" "latest_commit_ts (sg_mvcc s) \<noteq> - 1"
  shows "\<exists>s'. write_batch crc S M batch s = (Inr (), s') \<and>
    latest_commit_ts (sg_mvcc s') = latest_commit_ts (sg_mvcc s) + 1 \<and>
    state_map crc S (sg_state s') = state_map crc S (sg_state s) ++
      map_of (rev (map (write_record (latest_commit_ts (sg_mvcc s) + 1)) batch))"
  by (rule write_batch_ok [OF assms]) blast

theorem write_batch_contents_witness:
  "\<exists>s'. write_batch (\<lambda>_. 0) rbt_ops manifest_log [Put [1] [2], Del [1]] sample_storage = (Inr (), s') \<and>
    latest_commit_ts (sg_mvcc s') = latest_commit_ts (sg_mvcc sample_storage) + 1 \<and>
    state_map (\<lambda>_. 0) rbt_ops (sg_state s') = state_map (\<lambda>_. 0) rbt_ops (sg_state sample_storage) ++
      map_of (rev (map (write_record (latest_commit_ts (sg_mvcc sample_storage) + 1)) [Put [1] [2], Del [1]]))"
  by (rule write_batch_contents [OF rbt.skip_map_axioms manifest_log_works sample_storage_ok])
    (simp_all add: sample_storage_def mvcc_new_def latest_commit_ts_def)

text \<open>
  C22: Flushing moves the oldest immutable memtable to a table without changing the contents: it
  succeeds on a well-formed storage, leaves a well-formed one with the same versions and one
  immutable memtable less.
\<close>

theorem flush_keeps_contents:
  assumes "skip_map S" "manifest_works M" "storage_ok crc fp S s"
  shows "\<exists>s'. force_flush_next_imm_memtable crc fp S M s = (Inr (), s') \<and> storage_ok crc fp S s' \<and>
    state_map crc S (sg_state s') = state_map crc S (sg_state s) \<and>
    ls_imm_memtables (sg_state s') = butlast (ls_imm_memtables (sg_state s))"
  by (rule force_flush_next_imm_memtable_ok [OF assms]) blast

theorem flush_keeps_contents_witness:
  "\<exists>s s'. force_freeze_memtable rbt_ops manifest_log sample_storage = (Inr (), s) \<and>
    length (ls_imm_memtables (sg_state s)) = 1 \<and>
    force_flush_next_imm_memtable (\<lambda>_. 0) (\<lambda>_. 1) rbt_ops manifest_log s = (Inr (), s') \<and>
    ls_imm_memtables (sg_state s') = []"
proof -
  have "map_of (mt_entries rbt_ops (ls_memtable sample_state)) (Key [6] 9) = Some [6]"
    by (simp add: sample_state_def map_mt_put_batch [OF rbt.skip_map_axioms])
  then have ne: "mt_entries rbt_ops (ls_memtable (sg_state sample_storage)) \<noteq> []"
    by (auto simp: sample_storage_def)
  obtain s where s: "force_freeze_memtable rbt_ops manifest_log sample_storage = (Inr (), s)"
      "storage_ok (\<lambda>_. 0) (\<lambda>_. 1) rbt_ops s"
      "ls_imm_memtables (sg_state s) =
         ls_memtable (sg_state sample_storage) # ls_imm_memtables (sg_state sample_storage)"
    using force_freeze_memtable_ok [OF rbt.skip_map_axioms manifest_log_works sample_storage_ok ne] by blast
  then show ?thesis
    using flush_keeps_contents [OF rbt.skip_map_axioms manifest_log_works s(2)]
    by (auto simp: sample_storage_def sample_state_def)
qed

end
