(* ===== verification/Compactor.thy ===== *)
theory Compactor
  imports Writes
begin

text \<open>
  The output side of compaction, \<open>compact_generate_sst_from_iter\<close> of \<open>src/compact.rs\<close>: the entries
  of an iterator are written into new tables, which are cut when their closed blocks reach the
  target size. A compaction to the bottom level leaves out entries with an empty value.
\<close>

section \<open>Writing the output\<close>

definition build_output ::
    "(bytes \<Rightarrow> u32) \<Rightarrow> sst_builder \<Rightarrow> 'm storage \<Rightarrow> sstable res \<times> 'm storage" where
  "build_output crc builder s =
     (let (i, s) = next_sst_id s
      in case sst_build crc builder i (Some (sg_block_cache s)) of
           Inl e \<Rightarrow> (Inl e, s)
         | Inr sst \<Rightarrow> (Inr sst, s\<lparr>sg_sst_files := (sg_sst_files s)(i := fo_file (sst_file sst))\<rparr>))"

text \<open>The local variables \<open>builder\<close> and \<open>new_sst\<close> of the loop, and the storage.\<close>

record 'm compacting =
  co_builder :: "sst_builder option"
  co_new_sst :: "sstable list"
  co_storage :: "'m storage"

definition compact_body ::
    "('i, key) iter_ops \<Rightarrow> (bytes \<Rightarrow> u32) \<Rightarrow> (bytes \<Rightarrow> u32) \<Rightarrow> bool \<Rightarrow> 'i \<times> 'm compacting \<Rightarrow>
     unit res option \<times> 'i \<times> 'm compacting" where
  "compact_body d crc fp compact_to_bottom = (\<lambda>(iter, c).
     case it_is_valid d iter of
       Inl e \<Rightarrow> (Some (Inl e), iter, c)
     | Inr False \<Rightarrow> (Some (Inr ()), iter, c)
     | Inr True \<Rightarrow>
         (let builder = (case co_builder c of
                           None \<Rightarrow> sst_builder_new (opt_block_size (sg_options (co_storage c)))
                         | Some b \<Rightarrow> b)
          in case and_then (it_value d iter) (\<lambda>v.
                    if compact_to_bottom \<and> v = [] then Inr builder
                    else and_then (it_key d iter) (\<lambda>k. sst_add crc fp builder k v)) of
               Inl e \<Rightarrow> (Some (Inl e), iter, c\<lparr>co_builder := Some builder\<rparr>)
             | Inr builder \<Rightarrow>
                 (case it_next d iter of
                    (Inl e, iter) \<Rightarrow> (Some (Inl e), iter, c\<lparr>co_builder := Some builder\<rparr>)
                  | (Inr _, iter) \<Rightarrow>
                      if opt_target_sst_size (sg_options (co_storage c)) \<le> sb_estimated_size builder then
                        (case build_output crc builder (co_storage c) of
                           (Inl e, s) \<Rightarrow> (Some (Inl e), iter, c\<lparr>co_builder := None, co_storage := s\<rparr>)
                         | (Inr sst, s) \<Rightarrow>
                             (None, iter, \<lparr>co_builder = None, co_new_sst = co_new_sst c @ [sst], co_storage = s\<rparr>))
                      else (None, iter, c\<lparr>co_builder := Some builder\<rparr>))))"

definition compact_generate_sst_from_iter ::
    "('i, key) iter_ops \<Rightarrow> (bytes \<Rightarrow> u32) \<Rightarrow> (bytes \<Rightarrow> u32) \<Rightarrow> 'i \<Rightarrow> bool \<Rightarrow> 'm storage \<Rightarrow>
     sstable list res \<times> 'm storage" where
  "compact_generate_sst_from_iter d crc fp iter compact_to_bottom s =
     (case loop_until (compact_body d crc fp compact_to_bottom)
             (iter, \<lparr>co_builder = None, co_new_sst = [], co_storage = s\<rparr>) of
        (Inl e, _, c) \<Rightarrow> (Inl e, co_storage c)
      | (Inr _, _, c) \<Rightarrow>
          (case co_builder c of
             None \<Rightarrow> (Inr (co_new_sst c), co_storage c)
           | Some builder \<Rightarrow>
               (case build_output crc builder (co_storage c) of
                  (Inl e, s) \<Rightarrow> (Inl e, s)
                | (Inr sst, s) \<Rightarrow> (Inr (co_new_sst c @ [sst]), s))))"

section \<open>What the output holds\<close>

lemma sst_ok_last: "sst_ok crc t \<Longrightarrow> fst (last (sst_entries crc t)) = sst_last_key t"
proof -
  assume ok: "sst_ok crc t"
  obtain bss where holds: "table_holds crc t bss" using ok by (auto simp: sst_ok_def)
  have "bss \<noteq> []" "last bss \<noteq> []"
    using holds table_holds_blocks [OF holds] by (auto simp: table_holds_def)
  then show ?thesis
    using holds by (cases bss rule: rev_cases) (auto simp: table_holds_def table_holds_entries [OF holds])
qed

lemma level_okI:
  assumes "\<forall>t \<in> set ts. sst_ok crc t" "sorted1 (level_entries crc ts)"
  shows "level_ok crc ts"
  using assms
proof (induction ts)
  case (Cons t ts)
  have s: "sorted1 (sst_entries crc t @ level_entries crc ts)"
    using Cons.prems(2) by (simp add: level_entries_def)
  have "sst_last_key t < sst_first_key u" if u: "u \<in> set ts" for u
  proof -
    have ok: "sst_ok crc t" "sst_ok crc u" using Cons.prems(1) u by auto
    have "last (sst_entries crc t) \<in> set (sst_entries crc t)" "hd (sst_entries crc u) \<in> set (level_entries crc ts)"
      using sst_ok_entries(1) [OF ok(1)] hd_in_set [OF sst_ok_entries(1) [OF ok(2)]] u
      by (auto simp: level_entries_def)
    then have "fst (last (sst_entries crc t)) < fst (hd (sst_entries crc u))"
      using s unfolding sorted1_append by blast
    then show ?thesis by (simp add: sst_ok_last [OF ok(1)] sst_ok_entries(2) [OF ok(2)])
  qed
  moreover have "level_ok crc ts"
    using Cons.IH Cons.prems(1) sorted1_appendD2 [OF s] by simp
  ultimately show ?case using Cons.prems(1) by (auto simp: level_ok_def)
qed (simp add: level_ok_def)

text \<open>
  The state of the loop after writing \<open>written\<close>: whole tables, then the blocks and the open block
  of the builder; the storage differs from the one at the start in the counter and in the files.
\<close>

definition outputs_ok ::
    "(bytes \<Rightarrow> u32) \<Rightarrow> (bytes \<Rightarrow> u32) \<Rightarrow> 'm storage \<Rightarrow> sstable list \<Rightarrow> 'm storage \<Rightarrow> bool" where
  "outputs_ok crc fp s0 ts s \<longleftrightarrow>
     (\<forall>t \<in> set ts. table_ok crc fp t) \<and>
     map sst_id ts = [sg_next_sst_id s0..<sg_next_sst_id s0 + length ts] \<and>
     (\<exists>f. s = s0\<lparr>sg_next_sst_id := sg_next_sst_id s0 + length ts, sg_sst_files := f\<rparr> \<and>
        (\<forall>t \<in> set ts. f (sst_id t) = fo_file (sst_file t)) \<and>
        (\<forall>i < sg_next_sst_id s0. f i = sg_sst_files s0 i))"

definition compacting_ok ::
    "(bytes \<Rightarrow> u32) \<Rightarrow> (bytes \<Rightarrow> u32) \<Rightarrow> 'm storage \<Rightarrow> (key \<times> bytes) list \<Rightarrow> 'm compacting \<Rightarrow> bool" where
  "compacting_ok crc fp s0 written c \<longleftrightarrow>
     outputs_ok crc fp s0 (co_new_sst c) (co_storage c) \<and>
     (\<exists>bss cur. level_entries crc (co_new_sst c) @ concat bss @ cur = written \<and>
        (case co_builder c of
           None \<Rightarrow> bss = [] \<and> cur = []
         | Some b \<Rightarrow> sb_inv crc fp b bss cur \<and> sb_block_size b = opt_block_size (sg_options s0) \<and>
             sb_estimated_size b < opt_target_sst_size (sg_options s0)))"

definition tail_ok :: "'m compacting \<Rightarrow> bool" where
  "tail_ok c \<longleftrightarrow> (\<forall>b. co_builder c = Some b \<longrightarrow> \<not> bb_is_empty (sb_builder b))"

definition out_fits :: "'m storage \<Rightarrow> bool" where
  "out_fits s \<longleftrightarrow> options_ok s \<and> (\<forall>i j. sg_next_sst_id s \<le> i \<longrightarrow> sg_block_cache s (i, j) = None)"

lemma build_output_ok:
  assumes fits: "out_fits s0" and out: "outputs_ok crc fp s0 ts s"
    and inv: "sb_inv crc fp b bss cur" "cur \<noteq> []" "sorted1 (concat bss @ cur)"
  obtains t s' where "build_output crc b s = (Inr t, s')" "outputs_ok crc fp s0 (ts @ [t]) s'"
    "sst_entries crc t = concat bss @ cur"
proof -
  let ?n = "sg_next_sst_id s0 + length ts"
  obtain f where s: "s = s0\<lparr>sg_next_sst_id := ?n, sg_sst_files := f\<rparr>"
    and f: "\<forall>t \<in> set ts. f (sst_id t) = fo_file (sst_file t)" "\<forall>i < sg_next_sst_id s0. f i = sg_sst_files s0 i"
    using out by (auto simp: outputs_ok_def)
  have ids: "map sst_id ts = [sg_next_sst_id s0..<?n]" using out by (simp add: outputs_ok_def)
  have old: "sst_id u < ?n" if "u \<in> set ts" for u
    using arg_cong [OF ids, of set] that by force
  have cache: "\<forall>c i. Some (sg_block_cache s0) = Some c \<longrightarrow> c (?n, i) = None"
    using fits by (simp add: out_fits_def)
  obtain t where t: "sst_build crc b ?n (Some (sg_block_cache s0)) = Inr t" "table_ok crc fp t"
      "sst_entries crc t = concat bss @ cur" "sst_id t = ?n"
    using sst_build_inv_ok [OF inv cache] by blast
  show thesis
  proof (rule that [OF _ _ t(3)])
    show "build_output crc b s =
      (Inr t, s0\<lparr>sg_next_sst_id := ?n + 1, sg_sst_files := f(?n := fo_file (sst_file t))\<rparr>)"
      by (simp add: build_output_def next_sst_id_def s t(1))
    show "outputs_ok crc fp s0 (ts @ [t])
      (s0\<lparr>sg_next_sst_id := ?n + 1, sg_sst_files := f(?n := fo_file (sst_file t))\<rparr>)"
      unfolding outputs_ok_def
    proof (intro conjI exI [of _ "f(?n := fo_file (sst_file t))"])
      show "\<forall>t \<in> set (ts @ [t]). table_ok crc fp t" using out t(2) by (auto simp: outputs_ok_def)
      show "map sst_id (ts @ [t]) = [sg_next_sst_id s0..<sg_next_sst_id s0 + length (ts @ [t])]"
        using ids t(4) by simp
      show "\<forall>u \<in> set (ts @ [t]). (f(?n := fo_file (sst_file t))) (sst_id u) = fo_file (sst_file u)"
        using f(1) old t(4) by (auto dest: less_imp_neq)
      show "\<forall>i < sg_next_sst_id s0. (f(?n := fo_file (sst_file t))) i = sg_sst_files s0 i" using f(2) by simp
    qed simp
  qed
qed

section \<open>The loop\<close>

text \<open>The entries that are written.\<close>

definition kept_entries :: "bool \<Rightarrow> (key \<times> bytes) list \<Rightarrow> (key \<times> bytes) list" where
  "kept_entries bottom es = filter (\<lambda>e. \<not> (bottom \<and> snd e = [])) es"

text \<open>One entry, between two steps of the iterator: the builder afterwards, before it is cut.\<close>

lemma compacting_add:
  assumes fits: "out_fits s0" and ok: "compacting_ok crc fp s0 written c" and e: "entry_ok (k, v)"
    and b: "b = (case co_builder c of
        None \<Rightarrow> sst_builder_new (opt_block_size (sg_options (co_storage c))) | Some b \<Rightarrow> b)"
  obtains b' bss cur where "sst_add crc fp b k v = Inr b'" "sb_inv crc fp b' bss cur" "cur \<noteq> []"
    "level_entries crc (co_new_sst c) @ concat bss @ cur = written @ [(k, v)]"
    "sb_block_size b' = opt_block_size (sg_options s0)"
proof -
  obtain bss cur where w: "level_entries crc (co_new_sst c) @ concat bss @ cur = written"
      "case co_builder c of None \<Rightarrow> bss = [] \<and> cur = []
       | Some b \<Rightarrow> sb_inv crc fp b bss cur \<and> sb_block_size b = opt_block_size (sg_options s0) \<and>
           sb_estimated_size b < opt_target_sst_size (sg_options s0)"
    using ok by (auto simp: compacting_ok_def)
  have opts: "sg_options (co_storage c) = sg_options s0"
    using ok by (auto simp: compacting_ok_def outputs_ok_def)
  have size: "opt_block_size (sg_options s0) \<le> 65536" using fits by (simp add: out_fits_def options_ok_def)
  have "sb_inv crc fp b bss cur \<and> sb_block_size b = opt_block_size (sg_options s0)"
    using w(2) b sb_inv_new [OF size] opts by (auto simp: sst_builder_new_def split: option.splits)
  then obtain b' bss' cur' where "sst_add crc fp b k v = Inr b'" "sb_inv crc fp b' bss' cur'" "cur' \<noteq> []"
      "concat bss' @ cur' = concat bss @ cur @ [(k, v)]" "sb_block_size b' = opt_block_size (sg_options s0)"
    using sst_add_inv [OF _ e] by metis
  then show thesis using w(1) by (intro that [of b' bss' cur']) auto
qed

lemma compacting_skip:
  assumes fits: "out_fits s0" and ok: "compacting_ok crc fp s0 written c"
    and b: "b = (case co_builder c of
        None \<Rightarrow> sst_builder_new (opt_block_size (sg_options (co_storage c))) | Some b \<Rightarrow> b)"
  shows "compacting_ok crc fp s0 written (c\<lparr>co_builder := Some b\<rparr>)"
    and "sb_estimated_size b < opt_target_sst_size (sg_options (co_storage c))"
proof -
  have opts: "sg_options (co_storage c) = sg_options s0"
    using ok by (auto simp: compacting_ok_def outputs_ok_def)
  have size: "opt_block_size (sg_options s0) \<le> 65536" "0 < opt_target_sst_size (sg_options s0)"
    using fits by (simp_all add: out_fits_def options_ok_def)
  show "compacting_ok crc fp s0 written (c\<lparr>co_builder := Some b\<rparr>)"
  proof (cases "co_builder c")
    case None
    then show ?thesis
      using ok b sb_inv_new [OF size(1)] opts size(2)
      by (auto simp: compacting_ok_def sst_builder_new_def sb_estimated_size_def intro!: exI [of _ "[]"])
  next
    case (Some b0)
    then show ?thesis using ok b by (simp add: compacting_ok_def)
  qed
  show "sb_estimated_size b < opt_target_sst_size (sg_options (co_storage c))"
    using ok b size(2) opts
    by (auto simp: compacting_ok_def sst_builder_new_def sb_estimated_size_def split: option.splits)
qed

text \<open>
  The entry is added, the builder is cut or not. The builder does not stay empty unless the entry is skipped.
\<close>

lemma compact_body_step:
  assumes fits: "out_fits s0" and ok: "compacting_ok crc fp s0 written c" and e: "entry_ok (k, v)"
    and sorted: "sorted1 (written @ kept_entries bottom [(k, v)])"
    and it: "it_is_valid d i = Inr True" "it_key d i = Inr k" "it_value d i = Inr v" "it_next d i = (Inr (), i')"
  obtains c' where "compact_body d crc fp bottom (i, c) = (None, i', c')"
    "compacting_ok crc fp s0 (written @ kept_entries bottom [(k, v)]) c'"
    "bottom \<and> v = [] \<or> tail_ok c'"
proof -
  define b where "b = (case co_builder c of
        None \<Rightarrow> sst_builder_new (opt_block_size (sg_options (co_storage c))) | Some b \<Rightarrow> b)"
  have opts: "sg_options (co_storage c) = sg_options s0"
    using ok by (auto simp: compacting_ok_def outputs_ok_def)
  show thesis
  proof (cases "bottom \<and> v = []")
    case True
    note skip = compacting_skip [OF fits ok b_def]
    show thesis
    proof (rule that)
      show "compact_body d crc fp bottom (i, c) = (None, i', c\<lparr>co_builder := Some b\<rparr>)"
        using True skip(2) it by (simp add: compact_body_def Let_def flip: b_def)
      show "compacting_ok crc fp s0 (written @ kept_entries bottom [(k, v)]) (c\<lparr>co_builder := Some b\<rparr>)"
        using skip(1) True by (simp add: kept_entries_def)
    qed (use True in simp)
  next
    case keep: False
    then have kept: "kept_entries bottom [(k, v)] = [(k, v)]" by (auto simp: kept_entries_def)
    obtain b' bss cur where b': "sst_add crc fp b k v = Inr b'" "sb_inv crc fp b' bss cur" "cur \<noteq> []"
        "level_entries crc (co_new_sst c) @ concat bss @ cur = written @ [(k, v)]"
        "sb_block_size b' = opt_block_size (sg_options s0)"
      using compacting_add [OF fits ok e b_def] by blast
    have new: "(if bottom \<and> v = [] then Inr b else and_then (it_key d i) (\<lambda>k. sst_add crc fp b k v)) = Inr b'"
      using keep it(2) b'(1) by auto
    show thesis
    proof (cases "opt_target_sst_size (sg_options s0) \<le> sb_estimated_size b'")
      case False
      let ?c = "c\<lparr>co_builder := Some b'\<rparr>"
      have "\<not> bb_is_empty (sb_builder b')" using bb_inv_is_empty b'(2,3) by (auto simp: sb_inv_def)
      then have "tail_ok ?c" by (simp add: tail_ok_def)
      moreover have "compacting_ok crc fp s0 (written @ [(k, v)]) ?c"
        using ok b'(2,4,5) False by (auto simp: compacting_ok_def)
      moreover have "compact_body d crc fp bottom (i, c) = (None, i', ?c)"
        using False keep it new opts by (auto simp: compact_body_def Let_def simp flip: b_def)
      ultimately show thesis using that kept by simp
    next
      case True
      have s1: "sorted1 (level_entries crc (co_new_sst c) @ concat bss @ cur)" using sorted kept b'(4) by simp
      then have s2: "sorted1 (concat bss @ cur)" by (rule sorted1_appendD2)
      have out: "outputs_ok crc fp s0 (co_new_sst c) (co_storage c)" using ok by (simp add: compacting_ok_def)
      obtain t s' where t: "build_output crc b' (co_storage c) = (Inr t, s')"
          "outputs_ok crc fp s0 (co_new_sst c @ [t]) s'" "sst_entries crc t = concat bss @ cur"
        using build_output_ok [OF fits out b'(2,3) s2] by blast
      let ?c = "\<lparr>co_builder = None, co_new_sst = co_new_sst c @ [t], co_storage = s'\<rparr>"
      have "compacting_ok crc fp s0 (written @ [(k, v)]) ?c"
        using t(2,3) b'(4) by (simp add: compacting_ok_def level_entries_def)
      moreover have "tail_ok ?c" by (simp add: tail_ok_def)
      moreover have "compact_body d crc fp bottom (i, c) = (None, i', ?c)"
        using True keep it new opts t(1) by (auto simp: compact_body_def Let_def simp flip: b_def)
      ultimately show thesis using that kept by simp
    qed
  qed
qed

locale compaction_source = sorted_iterator d iinv cont
  for d :: "('i, key) iter_ops" and iinv cont

context compaction_source
begin

lemma compact_loop:
  assumes "out_fits s0" "compacting_ok crc fp s0 written c" "iinv i" "\<forall>e \<in> set (cont i). entry_ok e"
    and "sorted1 (written @ kept_entries bottom (cont i))"
  shows "\<exists>i' c'. loop_until (compact_body d crc fp bottom) (i, c) = (Inr (), i', c') \<and>
    compacting_ok crc fp s0 (written @ kept_entries bottom (cont i)) c' \<and>
    (if cont i = [] then c' = c else bottom \<and> snd (last (cont i)) = [] \<or> tail_ok c')"
  using assms
proof (induction "length (cont i)" arbitrary: i c written)
  case 0
  then show ?case
    by (simp add: loop_until_unfold [where s = "(i, c)"] compact_body_def valid kept_entries_def)
next
  case (Suc n)
  obtain e es where Cons: "cont i = e # es" using Suc.hyps(2) by (cases "cont i") auto
  obtain k v where e: "e = (k, v)" by (cases e)
  obtain i' where i': "it_next d i = (Inr (), i')" "iinv i'" "cont i' = es"
    using next_Cons [OF Suc.prems(3) Cons] by blast
  have kept: "kept_entries bottom (cont i) = kept_entries bottom [(k, v)] @ kept_entries bottom es"
    by (simp add: kept_entries_def Cons e)
  have s: "sorted1 ((written @ kept_entries bottom [(k, v)]) @ kept_entries bottom es)"
    using Suc.prems(5) kept by simp
  then have s1: "sorted1 (written @ kept_entries bottom [(k, v)])" by (rule sorted1_appendD1)
  have ek: "entry_ok (k, v)" using Suc.prems(4) Cons e by simp
  have at: "it_is_valid d i = Inr True" "it_key d i = Inr k" "it_value d i = Inr v"
    using valid [OF Suc.prems(3)] key [OF Suc.prems(3) Cons] val [OF Suc.prems(3) Cons] Cons e by auto
  obtain c1 where c1: "compact_body d crc fp bottom (i, c) = (None, i', c1)"
      "compacting_ok crc fp s0 (written @ kept_entries bottom [(k, v)]) c1" "bottom \<and> v = [] \<or> tail_ok c1"
    using compact_body_step [OF Suc.prems(1,2) ek s1 at i'(1)] by blast
  have n: "n = length (cont i')" using Suc.hyps(2) Cons i'(3) by simp
  obtain i2 c2 where c2: "loop_until (compact_body d crc fp bottom) (i', c1) = (Inr (), i2, c2)"
      "compacting_ok crc fp s0 ((written @ kept_entries bottom [(k, v)]) @ kept_entries bottom es) c2"
      "if es = [] then c2 = c1 else bottom \<and> snd (last es) = [] \<or> tail_ok c2"
    using Suc.hyps(1) [OF n Suc.prems(1) c1(2) i'(2)] i'(3) Suc.prems(4) Cons s by auto
  have "loop_until (compact_body d crc fp bottom) (i, c) = (Inr (), i2, c2)"
    using c1(1) c2(1) by (simp add: loop_until_unfold [where s = "(i, c)"])
  moreover have "bottom \<and> snd (last (cont i)) = [] \<or> tail_ok c2"
    using c2(3) c1(3) by (cases "es = []") (auto simp: Cons e)
  ultimately show ?case using c2(2) kept Cons by (intro exI [of _ i2] exI [of _ c2]) simp
qed

text \<open>
  The output of a compaction: sorted, disjoint, well-formed tables with fresh numbers, which hold
  the entries of the source, without the tombstones when compacting to the bottom. The last entry
  must not be a tombstone then.
\<close>

lemma compact_output:
  assumes fits: "out_fits s" and inv: "iinv it" and es: "\<forall>e \<in> set (cont it). entry_ok e"
    and last: "bottom \<longrightarrow> cont it = [] \<or> snd (last (cont it)) \<noteq> []"
  obtains ts s' where "compact_generate_sst_from_iter d crc fp it bottom s = (Inr ts, s')"
    "outputs_ok crc fp s ts s'" "level_ok crc ts" "level_entries crc ts = kept_entries bottom (cont it)"
proof -
  let ?c0 = "\<lparr>co_builder = None, co_new_sst = [], co_storage = s\<rparr>"
  have init: "compacting_ok crc fp s [] ?c0"
    by (simp add: compacting_ok_def outputs_ok_def level_entries_def exI [of _ "sg_sst_files s"])
  have sk: "sorted1 (kept_entries bottom (cont it))"
    by (simp add: kept_entries_def sorted1_filter sorted [OF inv])
  obtain i' c' where c': "loop_until (compact_body d crc fp bottom) (it, ?c0) = (Inr (), i', c')"
      "compacting_ok crc fp s (kept_entries bottom (cont it)) c'"
      "if cont it = [] then c' = ?c0 else bottom \<and> snd (last (cont it)) = [] \<or> tail_ok c'"
    using compact_loop [OF fits init inv es, of bottom] sk by auto
  have tail: "tail_ok c'" using c'(3) last by (auto simp: tail_ok_def split: if_splits)
  have lvl: "level_ok crc ts"
    if "outputs_ok crc fp s ts s'" "level_entries crc ts = kept_entries bottom (cont it)" for ts s'
    by (rule level_okI) (use that sk in \<open>auto simp: outputs_ok_def table_ok_def\<close>)
  show thesis
  proof (cases "co_builder c'")
    case None
    then have out: "outputs_ok crc fp s (co_new_sst c') (co_storage c')"
        "level_entries crc (co_new_sst c') = kept_entries bottom (cont it)"
      using c'(2) by (auto simp: compacting_ok_def)
    then show thesis
      using None c'(1) lvl [OF out]
      by (intro that [of "co_new_sst c'" "co_storage c'"]) (simp_all add: compact_generate_sst_from_iter_def)
  next
    case (Some b)
    then obtain bss cur where b: "outputs_ok crc fp s (co_new_sst c') (co_storage c')"
        "level_entries crc (co_new_sst c') @ concat bss @ cur = kept_entries bottom (cont it)"
        "sb_inv crc fp b bss cur"
      using c'(2) by (auto simp: compacting_ok_def)
    have "cur \<noteq> []" using tail Some b(3) bb_inv_is_empty by (auto simp: tail_ok_def sb_inv_def)
    moreover have "sorted1 (concat bss @ cur)"
      using sk unfolding b(2) [symmetric] by (rule sorted1_appendD2)
    ultimately obtain t s' where t: "build_output crc b (co_storage c') = (Inr t, s')"
        "outputs_ok crc fp s (co_new_sst c' @ [t]) s'" "sst_entries crc t = concat bss @ cur"
      using build_output_ok [OF fits b(1,3)] by blast
    have ent: "level_entries crc (co_new_sst c' @ [t]) = kept_entries bottom (cont it)"
      using b(2) t(3) by (simp add: level_entries_def)
    show thesis
      by (rule that [OF _ t(2) lvl [OF t(2) ent] ent])
        (simp add: compact_generate_sst_from_iter_def c'(1) Some t(1))
  qed
qed

end

end
