(* ===== verification/Compaction.thy ===== *)
theory Compaction
  imports Compactor
begin

text \<open>
  The input side of compaction, \<open>compact\<close> of \<open>src/compact.rs\<close>: from the tables a task names to one
  iterator, and from there to the output tables. Level-0 tables are merged, the tables of a level
  or a tier are concatenated. The main lemma says what the output holds as a set of pairs: what the
  inputs hold, without the tombstones when compacting to the bottom.
\<close>

section \<open>Merging consistent runs\<close>

lemma kmerge_set_consistent:
  assumes "single_valued (set xs \<union> set ys)"
  shows "set (kmerge xs ys) = set xs \<union> set ys"
proof
  show "set xs \<union> set ys \<subseteq> set (kmerge xs ys)"
  proof
    fix e assume e: "e \<in> set xs \<union> set ys"
    then have "fst e \<in> fst ` set (kmerge xs ys)" by (auto simp: keys_kmerge)
    then obtain f where f: "f \<in> set (kmerge xs ys)" "fst f = fst e" by auto
    then have "f \<in> set xs \<union> set ys" using set_kmerge by blast
    then have "snd f = snd e" using assms e f(2) unfolding single_valued_def by (metis prod.collapse)
    with f show "e \<in> set (kmerge xs ys)" by (metis prod.collapse)
  qed
qed (rule set_kmerge)

lemma overlay_set_consistent:
  fixes xss :: "('k::linorder \<times> 'v) list list"
  assumes sorted: "\<forall>xs \<in> set xss. sorted1 xs" and sv: "single_valued (\<Union>xs \<in> set xss. set xs)"
  shows "set (list_of_map (overlay (map map_of xss))) = (\<Union>xs \<in> set xss. set xs)"
proof -
  let ?m = "overlay (map map_of xss)"
  have fin: "finite (dom ?m)" by (rule finite_dom_overlay) (auto simp: finite_dom_map_of)
  have sub: "(k, v) \<in> (\<Union>xs \<in> set xss. set xs)" if "?m k = Some v" for k v
    using overlay_at [OF that] by (auto dest: map_of_SomeD)
  have conv: "?m k = Some v" if kv: "(k, v) \<in> (\<Union>xs \<in> set xss. set xs)" for k v
  proof -
    obtain xs where xs: "xs \<in> set xss" "(k, v) \<in> set xs" using kv by blast
    then have "sorted1 xs" using sorted by blast
    from iffD1 [OF sorted1_graph [OF this] xs(2)] have "map_of xs k = Some v" .
    then have "k \<in> dom ?m" using xs(1) by (auto simp: dom_overlay)
    then obtain w where w: "?m k = Some w" by blast
    then show ?thesis using sub [OF w] kv sv by (auto dest: single_valuedD)
  qed
  show ?thesis
  proof (rule set_eqI)
    fix e :: "'k \<times> 'v"
    obtain k v where e: "e = (k, v)" by (cases e)
    have "(k, v) \<in> set (list_of_map ?m) \<longleftrightarrow> ?m k = Some v"
      using sorted1_graph [OF sorted1_list_of_map, of k v ?m] by (simp only: map_of_list_of_map [OF fin])
    also have "\<dots> \<longleftrightarrow> (k, v) \<in> (\<Union>xs \<in> set xss. set xs)" using sub conv by (rule iffI)
    finally show "e \<in> set (list_of_map ?m) \<longleftrightarrow> e \<in> (\<Union>xs \<in> set xss. set xs)" unfolding e .
  qed
qed

section \<open>The iterators of a task\<close>

definition get_ssts :: "'m lsm_state \<Rightarrow> nat list \<Rightarrow> sstable list res" where
  "get_ssts st ids = map_res (lookup_res (ls_sstables st)) ids"

definition l0_iters :: "(bytes \<Rightarrow> u32) \<Rightarrow> 'm lsm_state \<Rightarrow> nat list \<Rightarrow> sst_iter list res" where
  "l0_iters crc st ids =
     map_res (\<lambda>i. and_then (lookup_res (ls_sstables st) i) (si_create_and_seek_to_first crc)) ids"

definition concat_iter_of :: "(bytes \<Rightarrow> u32) \<Rightarrow> 'm lsm_state \<Rightarrow> nat list \<Rightarrow> concat_iter res" where
  "concat_iter_of crc st ids = and_then (get_ssts st ids) (ci_create_and_seek_to_first crc)"

type_synonym l0_level_iter = "(sst_iter merge_iter, concat_iter) two_merge_iter"
type_synonym level_level_iter = "(concat_iter, concat_iter) two_merge_iter"

definition l0_level_ops :: "(bytes \<Rightarrow> u32) \<Rightarrow> (l0_level_iter, key) iter_ops" where
  "l0_level_ops crc = two_merge_ops (merge_ops (si_ops crc)) (ci_ops crc)"

definition level_level_ops :: "(bytes \<Rightarrow> u32) \<Rightarrow> (level_level_iter, key) iter_ops" where
  "level_level_ops crc = two_merge_ops (ci_ops crc) (ci_ops crc)"

definition compact_l0_iter ::
    "(bytes \<Rightarrow> u32) \<Rightarrow> 'm lsm_state \<Rightarrow> nat list \<Rightarrow> nat list \<Rightarrow> l0_level_iter res" where
  "compact_l0_iter crc st l0_sstables l1_sstables =
     and_then (l0_iters crc st l0_sstables) (\<lambda>l0s.
     and_then (get_ssts st l1_sstables) (\<lambda>l1_ssts.
     and_then (merge_create (si_ops crc) l0s) (\<lambda>m.
     and_then (ci_create_and_seek_to_first crc l1_ssts) (\<lambda>c.
     Inr (two_merge_create (merge_ops (si_ops crc)) (ci_ops crc) m c)))))"

definition compact_level_iter ::
    "(bytes \<Rightarrow> u32) \<Rightarrow> 'm lsm_state \<Rightarrow> nat list \<Rightarrow> nat list \<Rightarrow> level_level_iter res" where
  "compact_level_iter crc st upper lower =
     and_then (get_ssts st upper) (\<lambda>upper_ssts.
     and_then (get_ssts st lower) (\<lambda>lower_ssts.
     and_then (ci_create_and_seek_to_first crc upper_ssts) (\<lambda>upper_iter.
     and_then (ci_create_and_seek_to_first crc lower_ssts) (\<lambda>lower_iter.
     Inr (two_merge_create (ci_ops crc) (ci_ops crc) upper_iter lower_iter)))))"

definition compact_tier_iter ::
    "(bytes \<Rightarrow> u32) \<Rightarrow> 'm lsm_state \<Rightarrow> (nat \<times> nat list) list \<Rightarrow> concat_iter merge_iter res" where
  "compact_tier_iter crc st tiers =
     and_then (map_res (\<lambda>(_, sst_ids). concat_iter_of crc st sst_ids) tiers) (\<lambda>iters.
     merge_create (ci_ops crc) iters)"

text \<open>Leveled compaction builds the iterator of the lower level first.\<close>

definition compact_leveled_l0_iter ::
    "(bytes \<Rightarrow> u32) \<Rightarrow> 'm lsm_state \<Rightarrow> nat list \<Rightarrow> nat list \<Rightarrow> l0_level_iter res" where
  "compact_leveled_l0_iter crc st upper lower =
     and_then (concat_iter_of crc st lower) (\<lambda>lower_iter.
     and_then (l0_iters crc st upper) (\<lambda>l0s.
     and_then (merge_create (si_ops crc) l0s) (\<lambda>upper_iter.
     Inr (two_merge_create (merge_ops (si_ops crc)) (ci_ops crc) upper_iter lower_iter))))"

definition compact_leveled_level_iter ::
    "(bytes \<Rightarrow> u32) \<Rightarrow> 'm lsm_state \<Rightarrow> nat list \<Rightarrow> nat list \<Rightarrow> level_level_iter res" where
  "compact_leveled_level_iter crc st upper lower =
     and_then (concat_iter_of crc st lower) (\<lambda>lower_iter.
     and_then (concat_iter_of crc st upper) (\<lambda>upper_iter.
     Inr (two_merge_create (ci_ops crc) (ci_ops crc) upper_iter lower_iter)))"

definition compact_from ::
    "('i, key) iter_ops \<Rightarrow> (bytes \<Rightarrow> u32) \<Rightarrow> (bytes \<Rightarrow> u32) \<Rightarrow> 'i res \<Rightarrow> bool \<Rightarrow> 'm storage \<Rightarrow>
     sstable list res \<times> 'm storage" where
  "compact_from d crc fp it bottom s =
     (case it of Inl e \<Rightarrow> (Inl e, s) | Inr iter \<Rightarrow> compact_generate_sst_from_iter d crc fp iter bottom s)"

fun compact ::
    "(bytes \<Rightarrow> u32) \<Rightarrow> (bytes \<Rightarrow> u32) \<Rightarrow> compaction_task \<Rightarrow> 'm storage \<Rightarrow> sstable list res \<times> 'm storage" where
  "compact crc fp (ForceFullCompaction l0_sstables l1_sstables) s =
     compact_from (l0_level_ops crc) crc fp (compact_l0_iter crc (sg_state s) l0_sstables l1_sstables)
       (compact_to_bottom_level (ForceFullCompaction l0_sstables l1_sstables)) s"
| "compact crc fp (SimpleTask task) s =
     (case st_upper_level task of
        None \<Rightarrow>
          compact_from (l0_level_ops crc) crc fp
            (compact_l0_iter crc (sg_state s) (st_upper_level_sst_ids task) (st_lower_level_sst_ids task))
            (st_is_lower_level_bottom_level task) s
      | Some upper_level \<Rightarrow>
          compact_from (level_level_ops crc) crc fp
            (compact_level_iter crc (sg_state s) (st_upper_level_sst_ids task) (st_lower_level_sst_ids task))
            (st_is_lower_level_bottom_level task) s)"
| "compact crc fp (TieredTask task) s =
     compact_from (merge_ops (ci_ops crc)) crc fp (compact_tier_iter crc (sg_state s) (tt_tiers task))
       (compact_to_bottom_level (TieredTask task)) s"
| "compact crc fp (LeveledTask task) s =
     (case lt_upper_level task of
        None \<Rightarrow>
          compact_from (l0_level_ops crc) crc fp
            (compact_leveled_l0_iter crc (sg_state s) (lt_upper_level_sst_ids task) (lt_lower_level_sst_ids task))
            (lt_is_lower_level_bottom_level task) s
      | Some upper_level \<Rightarrow>
          compact_from (level_level_ops crc) crc fp
            (compact_leveled_level_iter crc (sg_state s) (lt_upper_level_sst_ids task) (lt_lower_level_sst_ids task))
            (lt_is_lower_level_bottom_level task) s)"

text \<open>The entry with the greatest key is not a tombstone.\<close>

definition no_tail_tombstone :: "(key \<times> bytes) set \<Rightarrow> bool" where
  "no_tail_tombstone I \<longleftrightarrow> (\<forall>e \<in> I. (\<forall>e' \<in> I. fst e' \<le> fst e) \<longrightarrow> snd e \<noteq> [])"

context compaction_source
begin

lemma compact_from_ok:
  assumes fits: "out_fits s" and inv: "iinv it" and cont: "set (cont it) = I"
    and es: "\<forall>e \<in> I. entry_ok e" and tail: "bottom \<longrightarrow> no_tail_tombstone I"
  obtains ts s' where "compact_from d crc fp (Inr it) bottom s = (Inr ts, s')"
    "outputs_ok crc fp s ts s'" "level_ok crc ts"
    "set (level_entries crc ts) = {e \<in> I. \<not> (bottom \<and> snd e = [])}"
proof -
  have last: "bottom \<longrightarrow> cont it = [] \<or> snd (last (cont it)) \<noteq> []"
  proof (intro impI)
    assume bottom
    show "cont it = [] \<or> snd (last (cont it)) \<noteq> []"
    proof (cases "cont it = []")
      case False
      then have split: "cont it = butlast (cont it) @ [last (cont it)]" by simp
      have "sorted1 (butlast (cont it) @ [last (cont it)])" using sorted [OF inv] split by simp
      then have "\<forall>x \<in> set (butlast (cont it)). fst x < fst (last (cont it))"
        unfolding sorted1_append by simp
      moreover have "set (cont it) = insert (last (cont it)) (set (butlast (cont it)))"
        using arg_cong [OF split, of set] by simp
      ultimately have "\<forall>e' \<in> I. fst e' \<le> fst (last (cont it))" using cont by (auto simp: less_imp_le)
      moreover have "last (cont it) \<in> I" using False cont last_in_set by blast
      ultimately show ?thesis using tail \<open>bottom\<close> by (auto simp: no_tail_tombstone_def)
    qed simp
  qed
  have es': "\<forall>e \<in> set (cont it). entry_ok e" using es cont by blast
  obtain ts s' where "compact_generate_sst_from_iter d crc fp it bottom s = (Inr ts, s')"
    "outputs_ok crc fp s ts s'" "level_ok crc ts" "level_entries crc ts = kept_entries bottom (cont it)"
    using compact_output [OF fits inv es' last] by blast
  then show thesis
    using cont by (intro that [of ts s']) (auto simp: compact_from_def kept_entries_def)
qed

end

section \<open>The iterators hold the inputs\<close>

interpretation l0_level: two_merge "merge_ops (si_ops crc)" "merge_inv (si_inv crc) (si_cont crc)"
    "merge_cont (si_cont crc)" "ci_ops crc" "ci_inv crc" "ci_cont crc" ..

interpretation level_level: two_merge "ci_ops crc" "ci_inv crc" "ci_cont crc"
    "ci_ops crc" "ci_inv crc" "ci_cont crc" ..

definition l0_level_inv :: "(bytes \<Rightarrow> u32) \<Rightarrow> l0_level_iter \<Rightarrow> bool" where
  "l0_level_inv crc = two_merge_inv (merge_inv (si_inv crc) (si_cont crc)) (ci_inv crc)"

definition l0_level_cont :: "(bytes \<Rightarrow> u32) \<Rightarrow> l0_level_iter \<Rightarrow> (key \<times> bytes) list" where
  "l0_level_cont crc = two_merge_cont (merge_cont (si_cont crc)) (ci_cont crc)"

definition level_level_inv :: "(bytes \<Rightarrow> u32) \<Rightarrow> level_level_iter \<Rightarrow> bool" where
  "level_level_inv crc = two_merge_inv (ci_inv crc) (ci_inv crc)"

definition level_level_cont :: "(bytes \<Rightarrow> u32) \<Rightarrow> level_level_iter \<Rightarrow> (key \<times> bytes) list" where
  "level_level_cont crc = two_merge_cont (ci_cont crc) (ci_cont crc)"

interpretation from_l0: compaction_source "l0_level_ops crc" "l0_level_inv crc" "l0_level_cont crc"
  unfolding l0_level_ops_def l0_level_inv_def l0_level_cont_def ..

interpretation from_level: compaction_source "level_level_ops crc" "level_level_inv crc" "level_level_cont crc"
  unfolding level_level_ops_def level_level_inv_def level_level_cont_def ..

interpretation from_tiers: compaction_source "merge_ops (ci_ops crc)" "merge_inv (ci_inv crc) (ci_cont crc)"
    "merge_cont (ci_cont crc)" ..

text \<open>The pairs of a list of tables.\<close>

definition pairs_of :: "(bytes \<Rightarrow> u32) \<Rightarrow> 'm lsm_state \<Rightarrow> nat list \<Rightarrow> (key \<times> bytes) set" where
  "pairs_of crc st ids = (\<Union>i \<in> set ids. set (sst_entries crc (the (ls_sstables st i))))"

lemma pairs_of_simps [simp]:
  "pairs_of crc st [] = {}"
  "pairs_of crc st (i # is) = set (sst_entries crc (the (ls_sstables st i))) \<union> pairs_of crc st is"
  "pairs_of crc st (is @ js) = pairs_of crc st is \<union> pairs_of crc st js"
  by (auto simp: pairs_of_def)

lemma set_level_entries: "set (level_entries crc (tables_of st ids)) = pairs_of crc st ids"
  by (simp add: level_entries_def tables_of_def pairs_of_def)

lemma get_ssts_ok:
  "state_ok crc fp S st \<Longrightarrow> set ids \<subseteq> live_ids st \<Longrightarrow> get_ssts st ids = Inr (tables_of st ids)"
  unfolding get_ssts_def tables_of_def by (rule map_res_Inr) (use state_ok_lookup in blast)

lemma concat_iter_of_ok:
  assumes "state_ok crc fp S st" "set ids \<subseteq> live_ids st" "level_ok crc (tables_of st ids)"
  obtains it where "ci_create_and_seek_to_first crc (tables_of st ids) = Inr it"
    "concat_iter_of crc st ids = Inr it" "ci_inv crc it"
    "ci_cont crc it = level_entries crc (tables_of st ids)"
  using ci_create_and_seek_to_first_ok [OF assms(3)] get_ssts_ok [OF assms(1,2)] that
  unfolding concat_iter_of_def by (metis and_then.simps(2))

lemma l0_iters_ok:
  assumes "state_ok crc fp S st" "set ids \<subseteq> live_ids st"
  obtains m its where "l0_iters crc st ids = Inr its" "merge_create (si_ops crc) its = Inr m"
    "merge_inv (si_inv crc) (si_cont crc) m"
    "merge_cont (si_cont crc) m = list_of_map (overlay (map map_of (map (sst_entries crc) (tables_of st ids))))"
proof -
  define rd where "rd i it \<longleftrightarrow> si_inv crc it \<and> si_cont crc it = sst_entries crc (the (ls_sstables st i))" for i it
  have ex: "\<exists>y. and_then (lookup_res (ls_sstables st) i) (si_create_and_seek_to_first crc) = Inr y \<and> rd i y"
    if "i \<in> set ids" for i
  proof -
    have i: "i \<in> live_ids st" using assms(2) that by blast
    then have "sst_ok crc (the (ls_sstables st i))"
      using assms(1) by (auto simp: state_ok_def table_ok_def)
    then obtain it where "si_create_and_seek_to_first crc (the (ls_sstables st i)) = Inr it" "rd i it"
      using si_create_and_seek_to_first_ok unfolding rd_def by blast
    then show ?thesis using state_ok_lookup [OF assms(1) i] by simp
  qed
  obtain g where g: "l0_iters crc st ids = Inr (map g ids)" "\<And>i. i \<in> set ids \<Longrightarrow> rd i (g i)"
    unfolding l0_iters_def by (rule map_res_ex [of ids _ rd, OF ex]) auto
  have inv: "\<forall>it \<in> set (map g ids). si_inv crc it" using g(2) by (auto simp: rd_def)
  obtain m where m: "merge_create (si_ops crc) (map g ids) = Inr m" "merge_inv (si_inv crc) (si_cont crc) m"
      "merge_cont (si_cont crc) m = list_of_map (overlay (map (\<lambda>i. map_of (si_cont crc i)) (map g ids)))"
    using si_merge.merge_create_cont [OF inv] by blast
  have "map (\<lambda>i. map_of (si_cont crc i)) (map g ids) = map map_of (map (sst_entries crc) (tables_of st ids))"
    using g(2) by (simp add: rd_def tables_of_def)
  with m show thesis by (intro that [OF g(1) m(1,2)]) (simp only:)
qed

lemma sorted1_tables:
  assumes "state_ok crc fp S st" "set ids \<subseteq> live_ids st"
  shows "\<forall>xs \<in> set (map (sst_entries crc) (tables_of st ids)). sorted1 xs"
  using assms by (auto simp: state_ok_def table_ok_def sst_ok_def tables_of_def)

lemma set_overlay_tables:
  assumes "state_ok crc fp S st" "set ids \<subseteq> live_ids st" "single_valued (pairs_of crc st ids)"
  shows "set (list_of_map (overlay (map map_of (map (sst_entries crc) (tables_of st ids))))) = pairs_of crc st ids"
proof -
  have eq: "(\<Union>xs \<in> set (map (sst_entries crc) (tables_of st ids)). set xs) = pairs_of crc st ids"
    by (simp add: tables_of_def pairs_of_def)
  show ?thesis
    using overlay_set_consistent [OF sorted1_tables [OF assms(1,2)]] assms(3) unfolding eq .
qed

lemma compact_l0_iter_ok:
  assumes ok: "state_ok crc fp S st" and ids: "set upper \<subseteq> live_ids st" "set lower \<subseteq> live_ids st"
    and lvl: "level_ok crc (tables_of st lower)" and sv: "single_valued (pairs_of crc st (upper @ lower))"
  obtains it where "compact_l0_iter crc st upper lower = Inr it"
    "compact_leveled_l0_iter crc st upper lower = Inr it" "l0_level_inv crc it"
    "set (l0_level_cont crc it) = pairs_of crc st (upper @ lower)"
proof -
  obtain m its where m: "l0_iters crc st upper = Inr its" "merge_create (si_ops crc) its = Inr m"
    "merge_inv (si_inv crc) (si_cont crc) m"
    "merge_cont (si_cont crc) m = list_of_map (overlay (map map_of (map (sst_entries crc) (tables_of st upper))))"
    using l0_iters_ok [OF ok ids(1)] by blast
  obtain c where c: "ci_create_and_seek_to_first crc (tables_of st lower) = Inr c"
    "concat_iter_of crc st lower = Inr c" "ci_inv crc c" "ci_cont crc c = level_entries crc (tables_of st lower)"
    using concat_iter_of_ok [OF ok ids(2) lvl] by blast
  have "single_valued (pairs_of crc st upper)" by (rule single_valued_subset [OF _ sv]) simp
  then have "set (merge_cont (si_cont crc) m) = pairs_of crc st upper"
    using set_overlay_tables [OF ok ids(1)] by (simp only: m(4))
  then have "set (kmerge (merge_cont (si_cont crc) m) (ci_cont crc c)) = pairs_of crc st (upper @ lower)"
    using kmerge_set_consistent [of "merge_cont (si_cont crc) m" "ci_cont crc c"] sv
    by (simp add: c(4) set_level_entries)
  then show thesis
    using m(1-3) c(1-3) get_ssts_ok [OF ok ids(2)]
    by (intro that [of "two_merge_create (merge_ops (si_ops crc)) (ci_ops crc) m c"])
      (simp_all add: compact_l0_iter_def compact_leveled_l0_iter_def l0_level_inv_def l0_level_cont_def
        two_merge_inv_def two_merge_cont_def two_merge_create_def)
qed

lemma compact_level_iter_ok:
  assumes ok: "state_ok crc fp S st" and ids: "set upper \<subseteq> live_ids st" "set lower \<subseteq> live_ids st"
    and lvl: "level_ok crc (tables_of st upper)" "level_ok crc (tables_of st lower)"
    and sv: "single_valued (pairs_of crc st (upper @ lower))"
  obtains it where "compact_level_iter crc st upper lower = Inr it"
    "compact_leveled_level_iter crc st upper lower = Inr it" "level_level_inv crc it"
    "set (level_level_cont crc it) = pairs_of crc st (upper @ lower)"
proof -
  obtain u where u: "ci_create_and_seek_to_first crc (tables_of st upper) = Inr u"
    "concat_iter_of crc st upper = Inr u" "ci_inv crc u" "ci_cont crc u = level_entries crc (tables_of st upper)"
    using concat_iter_of_ok [OF ok ids(1) lvl(1)] by blast
  obtain c where c: "ci_create_and_seek_to_first crc (tables_of st lower) = Inr c"
    "concat_iter_of crc st lower = Inr c" "ci_inv crc c" "ci_cont crc c = level_entries crc (tables_of st lower)"
    using concat_iter_of_ok [OF ok ids(2) lvl(2)] by blast
  have "set (kmerge (ci_cont crc u) (ci_cont crc c)) = pairs_of crc st (upper @ lower)"
    using kmerge_set_consistent [of "ci_cont crc u" "ci_cont crc c"] sv
    by (simp add: u(4) c(4) set_level_entries)
  then show thesis
    using u(1-3) c(1-3) get_ssts_ok [OF ok ids(1)] get_ssts_ok [OF ok ids(2)]
    by (intro that [of "two_merge_create (ci_ops crc) (ci_ops crc) u c"])
      (simp_all add: compact_level_iter_def compact_leveled_level_iter_def level_level_inv_def level_level_cont_def
        two_merge_inv_def two_merge_cont_def two_merge_create_def)
qed

lemma compact_tier_iter_ok:
  assumes ok: "state_ok crc fp S st" and ids: "set (concat (map snd tiers)) \<subseteq> live_ids st"
    and lvl: "\<forall>l \<in> set tiers. level_ok crc (tables_of st (snd l))"
    and sv: "single_valued (pairs_of crc st (concat (map snd tiers)))"
  obtains it where "compact_tier_iter crc st tiers = Inr it" "merge_inv (ci_inv crc) (ci_cont crc) it"
    "set (merge_cont (ci_cont crc) it) = pairs_of crc st (concat (map snd tiers))"
proof -
  define rd where "rd l it \<longleftrightarrow> ci_inv crc it \<and> ci_cont crc it = level_entries crc (tables_of st (snd l))"
    for l :: "nat \<times> nat list" and it
  have ex: "\<exists>y. (case l of (_, sst_ids) \<Rightarrow> concat_iter_of crc st sst_ids) = Inr y \<and> rd l y"
    if l: "l \<in> set tiers" for l
  proof -
    have "set (snd l) \<subseteq> live_ids st" using ids l by auto
    then obtain it where "concat_iter_of crc st (snd l) = Inr it" "rd l it"
      using concat_iter_of_ok [OF ok, of "snd l"] lvl l unfolding rd_def by blast
    then show ?thesis by (auto simp: split_def)
  qed
  obtain g where g: "map_res (\<lambda>(_, sst_ids). concat_iter_of crc st sst_ids) tiers = Inr (map g tiers)"
      "\<And>l. l \<in> set tiers \<Longrightarrow> rd l (g l)"
    by (rule map_res_ex [of tiers _ rd, OF ex]) auto
  have inv: "\<forall>it \<in> set (map g tiers). ci_inv crc it" using g(2) by (auto simp: rd_def)
  let ?xss = "map (\<lambda>l. level_entries crc (tables_of st (snd l))) tiers"
  obtain m where m: "merge_create (ci_ops crc) (map g tiers) = Inr m" "merge_inv (ci_inv crc) (ci_cont crc) m"
      "merge_cont (ci_cont crc) m = list_of_map (overlay (map (\<lambda>i. map_of (ci_cont crc i)) (map g tiers)))"
    using ci_merge.merge_create_cont [OF inv] by blast
  have "map (\<lambda>i. map_of (ci_cont crc i)) (map g tiers) = map map_of ?xss" using g(2) by (simp add: rd_def)
  moreover have pairs: "(\<Union>xs \<in> set ?xss. set xs) = pairs_of crc st (concat (map snd tiers))"
    by (simp add: set_level_entries) (simp add: pairs_of_def)
  moreover have "\<forall>xs \<in> set ?xss. sorted1 xs" using lvl level_ok_sorted by auto
  ultimately have "set (merge_cont (ci_cont crc) m) = pairs_of crc st (concat (map snd tiers))"
    using overlay_set_consistent [of ?xss] sv m(3) by (simp only:)
  with g(1) m(1,2) show thesis by (intro that [of m]) (simp_all add: compact_tier_iter_def)
qed

section \<open>The output of a task\<close>

text \<open>The tables a task reads, and the lists among them that have to be sorted runs.\<close>

fun task_inputs :: "compaction_task \<Rightarrow> nat list" where
  "task_inputs (ForceFullCompaction l0_sstables l1_sstables) = l0_sstables @ l1_sstables"
| "task_inputs (SimpleTask task) = st_upper_level_sst_ids task @ st_lower_level_sst_ids task"
| "task_inputs (TieredTask task) = concat (map snd (tt_tiers task))"
| "task_inputs (LeveledTask task) = lt_upper_level_sst_ids task @ lt_lower_level_sst_ids task"

fun task_runs :: "compaction_task \<Rightarrow> nat list list" where
  "task_runs (ForceFullCompaction l0_sstables l1_sstables) = [l1_sstables]"
| "task_runs (SimpleTask task) =
     (if st_upper_level task = None then [st_lower_level_sst_ids task]
      else [st_upper_level_sst_ids task, st_lower_level_sst_ids task])"
| "task_runs (TieredTask task) = map snd (tt_tiers task)"
| "task_runs (LeveledTask task) =
     (if lt_upper_level task = None then [lt_lower_level_sst_ids task]
      else [lt_upper_level_sst_ids task, lt_lower_level_sst_ids task])"

lemma sst_ok_entry_ok: "sst_ok crc t \<Longrightarrow> e \<in> set (sst_entries crc t) \<Longrightarrow> entry_ok e"
proof -
  assume ok: "sst_ok crc t" and e: "e \<in> set (sst_entries crc t)"
  obtain bss where holds: "table_holds crc t bss" using ok by (auto simp: sst_ok_def)
  then obtain es where "es \<in> set bss" "e \<in> set es" using e by (auto simp: table_holds_entries [OF holds])
  then show ?thesis using table_holds_blocks [OF holds] by blast
qed

lemma pairs_of_entry_ok:
  assumes "state_ok crc fp S st" "set ids \<subseteq> live_ids st" "e \<in> pairs_of crc st ids"
  shows "entry_ok e"
proof -
  obtain i where i: "i \<in> live_ids st" "e \<in> set (sst_entries crc (the (ls_sstables st i)))"
    using assms(2,3) by (auto simp: pairs_of_def)
  then have "sst_ok crc (the (ls_sstables st i))"
    using assms(1) by (auto simp: state_ok_def table_ok_def)
  then show ?thesis using i(2) by (rule sst_ok_entry_ok)
qed

definition compact_output_ok ::
    "(bytes \<Rightarrow> u32) \<Rightarrow> (bytes \<Rightarrow> u32) \<Rightarrow> (key \<times> bytes) set \<Rightarrow> bool \<Rightarrow> 'm storage \<Rightarrow> sstable list \<Rightarrow>
     'm storage \<Rightarrow> bool" where
  "compact_output_ok crc fp I bottom s ts s' \<longleftrightarrow>
     outputs_ok crc fp s ts s' \<and> level_ok crc ts \<and>
     set (level_entries crc ts) = {e \<in> I. \<not> (bottom \<and> snd e = [])}"

lemma compact_ok:
  assumes ok: "state_ok crc fp S (sg_state s)" and fits: "out_fits s"
    and live: "set (task_inputs task) \<subseteq> live_ids (sg_state s)"
    and runs: "\<forall>ids \<in> set (task_runs task). level_ok crc (tables_of (sg_state s) ids)"
    and sv: "single_valued (pairs_of crc (sg_state s) (task_inputs task))"
    and tail: "compact_to_bottom_level task \<longrightarrow> no_tail_tombstone (pairs_of crc (sg_state s) (task_inputs task))"
  obtains ts s' where "compact crc fp task s = (Inr ts, s')"
    "compact_output_ok crc fp (pairs_of crc (sg_state s) (task_inputs task)) (compact_to_bottom_level task) s ts s'"
proof -
  let ?st = "sg_state s" and ?I = "pairs_of crc (sg_state s) (task_inputs task)"
  let ?b = "compact_to_bottom_level task"
  note result = that
  have es: "\<forall>e \<in> ?I. entry_ok e" using pairs_of_entry_ok [OF ok live] by blast
  have l0: thesis if u: "set upper \<subseteq> live_ids ?st" "set lower \<subseteq> live_ids ?st" "level_ok crc (tables_of ?st lower)"
      "task_inputs task = upper @ lower"
      "\<And>it. compact_l0_iter crc ?st upper lower = Inr it \<Longrightarrow> compact_leveled_l0_iter crc ?st upper lower = Inr it \<Longrightarrow>
         compact crc fp task s = compact_from (l0_level_ops crc) crc fp (Inr it) ?b s" for upper lower
  proof -
    obtain it where it: "compact_l0_iter crc ?st upper lower = Inr it"
        "compact_leveled_l0_iter crc ?st upper lower = Inr it" "l0_level_inv crc it" "set (l0_level_cont crc it) = ?I"
      using compact_l0_iter_ok [OF ok u(1-3)] sv unfolding u(4) by blast
    obtain ts s' where "compact_from (l0_level_ops crc) crc fp (Inr it) ?b s = (Inr ts, s')"
        "outputs_ok crc fp s ts s'" "level_ok crc ts"
        "set (level_entries crc ts) = {e \<in> ?I. \<not> (?b \<and> snd e = [])}"
      by (rule from_l0.compact_from_ok [OF fits it(3,4) es tail])
    then show thesis
      using u(5) [OF it(1,2)] by (intro result [of ts s']) (simp_all add: compact_output_ok_def)
  qed
  have lvl: thesis if u: "set upper \<subseteq> live_ids ?st" "set lower \<subseteq> live_ids ?st" "level_ok crc (tables_of ?st upper)"
      "level_ok crc (tables_of ?st lower)" "task_inputs task = upper @ lower"
      "\<And>it. compact_level_iter crc ?st upper lower = Inr it \<Longrightarrow> compact_leveled_level_iter crc ?st upper lower = Inr it \<Longrightarrow>
         compact crc fp task s = compact_from (level_level_ops crc) crc fp (Inr it) ?b s" for upper lower
  proof -
    obtain it where it: "compact_level_iter crc ?st upper lower = Inr it"
        "compact_leveled_level_iter crc ?st upper lower = Inr it" "level_level_inv crc it"
        "set (level_level_cont crc it) = ?I"
      using compact_level_iter_ok [OF ok u(1-4)] sv unfolding u(5) by blast
    obtain ts s' where "compact_from (level_level_ops crc) crc fp (Inr it) ?b s = (Inr ts, s')"
        "outputs_ok crc fp s ts s'" "level_ok crc ts"
        "set (level_entries crc ts) = {e \<in> ?I. \<not> (?b \<and> snd e = [])}"
      by (rule from_level.compact_from_ok [OF fits it(3,4) es tail])
    then show thesis
      using u(6) [OF it(1,2)] by (intro result [of ts s']) (simp_all add: compact_output_ok_def)
  qed
  show thesis
  proof (cases task)
    case (ForceFullCompaction u l)
    then show thesis using live runs by (intro l0 [of u l]) auto
  next
    case (SimpleTask t)
    then show thesis
    proof (cases "st_upper_level t")
      case None
      then show thesis using live runs SimpleTask
        by (intro l0 [of "st_upper_level_sst_ids t" "st_lower_level_sst_ids t"]) auto
    next
      case (Some u)
      then show thesis using live runs SimpleTask
        by (intro lvl [of "st_upper_level_sst_ids t" "st_lower_level_sst_ids t"]) auto
    qed
  next
    case (LeveledTask t)
    then show thesis
    proof (cases "lt_upper_level t")
      case None
      then show thesis using live runs LeveledTask
        by (intro l0 [of "lt_upper_level_sst_ids t" "lt_lower_level_sst_ids t"]) auto
    next
      case (Some u)
      then show thesis using live runs LeveledTask
        by (intro lvl [of "lt_upper_level_sst_ids t" "lt_lower_level_sst_ids t"]) auto
    qed
  next
    case (TieredTask t)
    have ids: "set (concat (map snd (tt_tiers t))) \<subseteq> live_ids ?st" using live TieredTask by simp
    have lv: "\<forall>l \<in> set (tt_tiers t). level_ok crc (tables_of ?st (snd l))" using runs TieredTask by simp
    have sv': "single_valued (pairs_of crc ?st (concat (map snd (tt_tiers t))))" using sv TieredTask by simp
    obtain it where it: "compact_tier_iter crc ?st (tt_tiers t) = Inr it" "merge_inv (ci_inv crc) (ci_cont crc) it"
        "set (merge_cont (ci_cont crc) it) = ?I"
      using compact_tier_iter_ok [OF ok ids lv sv'] TieredTask by auto
    obtain ts s' where "compact_from (merge_ops (ci_ops crc)) crc fp (Inr it) ?b s = (Inr ts, s')"
        "outputs_ok crc fp s ts s'" "level_ok crc ts" "set (level_entries crc ts) = {e \<in> ?I. \<not> (?b \<and> snd e = [])}"
      using from_tiers.compact_from_ok [OF fits it(2,3) es tail] by blast
    then show thesis
      using it(1) TieredTask by (intro result [of ts s']) (simp_all add: compact_output_ok_def)
  qed
qed

end
