(* ===== verification/Strategy.thy ===== *)
theory Strategy
  imports Compaction
begin

text \<open>
  What the compactor expects of a compaction controller, as the locale \<open>compaction_strategy\<close>: the
  tables of a task are live, and applying the result of a task replaces exactly these tables by the
  output and leaves a well-formed tree. From this contract follows, once for all controllers, that
  installing the output of a compaction keeps the invariant and the contents of the state.
\<close>

section \<open>Changing places\<close>

text \<open>Replacing the list of one level, the two ways controllers change a state.\<close>

definition set_level :: "nat \<Rightarrow> nat \<times> nat list \<Rightarrow> 'm lsm_state \<Rightarrow> 'm lsm_state res" where
  "set_level level l st =
     and_then (checked_sub level 1) (\<lambda>i.
     if i < length (ls_levels st) then Inr (st\<lparr>ls_levels := (ls_levels st)[i := l]\<rparr>) else Inl Panic)"

lemma set_level_Suc:
  "set_level (Suc i) l st =
     (if i < length (ls_levels st) then Inr (st\<lparr>ls_levels := (ls_levels st)[i := l]\<rparr>) else Inl Panic)"
  by (simp add: set_level_def checked_sub_def)

lemma places_level:
  assumes "places_ok st" "i < length (ls_levels st)" "distinct xs"
    and "set xs \<inter> (live_ids st - set (snd (ls_levels st ! i))) = {}"
  shows "places_ok (st\<lparr>ls_levels := (ls_levels st)[i := (n, xs)]\<rparr>)"
    and "live_ids (st\<lparr>ls_levels := (ls_levels st)[i := (n, xs)]\<rparr>) =
      (live_ids st - set (snd (ls_levels st ! i))) \<union> set xs"
proof -
  define ls rs where "ls = take i (ls_levels st)" and "rs = drop (Suc i) (ls_levels st)"
  define l where "l = ls_levels st ! i"
  have split: "ls_levels st = ls @ l # rs" "(ls_levels st)[i := (n, xs)] = ls @ (n, xs) # rs"
    using assms(2) by (simp_all add: ls_def rs_def l_def id_take_nth_drop upd_conv_take_nth_drop)
  define A where "A = ls_l0_sstables st @ concat (map snd ls)"
  define B where "B = concat (map snd rs)"
  have live: "live_ids st = set A \<union> set (snd l) \<union> set B" by (auto simp: live_ids_def split(1) A_def B_def)
  have d: "distinct (A @ snd l @ B)" using assms(1) by (simp add: places_ok_def split(1) A_def B_def)
  then have rest: "live_ids st - set (snd l) = set A \<union> set B" unfolding live by auto
  have x: "set xs \<inter> (set A \<union> set B) = {}" using assms(4) rest by (simp add: l_def)
  have "distinct (A @ xs @ B)" using d x assms(3) by auto
  then show "places_ok (st\<lparr>ls_levels := (ls_levels st)[i := (n, xs)]\<rparr>)"
    by (simp add: places_ok_def split(2) A_def B_def)
  show "live_ids (st\<lparr>ls_levels := (ls_levels st)[i := (n, xs)]\<rparr>) = (live_ids st - set (snd (ls_levels st ! i))) \<union> set xs"
    unfolding rest [unfolded l_def] by (auto simp: live_ids_def split(2) A_def B_def)
qed

lemma places_l0:
  assumes "places_ok st" "set ids \<subseteq> set (ls_l0_sstables st)"
  shows "places_ok (st\<lparr>ls_l0_sstables := filter (\<lambda>i. i \<notin> set ids) (ls_l0_sstables st)\<rparr>)"
    and "live_ids (st\<lparr>ls_l0_sstables := filter (\<lambda>i. i \<notin> set ids) (ls_l0_sstables st)\<rparr>) = live_ids st - set ids"
  using assms by (auto simp: places_ok_def live_ids_def)

lemma live_level: "i < length (ls_levels st) \<Longrightarrow> set (snd (ls_levels st ! i)) \<subseteq> live_ids st"
  by (auto simp: live_ids_def intro!: bexI [of _ "ls_levels st ! i"])

section \<open>Tables in and out\<close>

definition insert_ssts :: "sstable list \<Rightarrow> 'm lsm_state \<Rightarrow> 'm lsm_state" where
  "insert_ssts ts st = fold (\<lambda>t st. st\<lparr>ls_sstables := (ls_sstables st)(sst_id t \<mapsto> t)\<rparr>) ts st"

definition remove_ssts :: "nat list \<Rightarrow> 'm lsm_state \<Rightarrow> 'm lsm_state" where
  "remove_ssts ids st = fold (\<lambda>i st. st\<lparr>ls_sstables := (ls_sstables st)(i := None)\<rparr>) ids st"

lemma insert_ssts_same [simp]:
  "ls_memtable (insert_ssts ts st) = ls_memtable st"
  "ls_imm_memtables (insert_ssts ts st) = ls_imm_memtables st"
  "ls_l0_sstables (insert_ssts ts st) = ls_l0_sstables st"
  "ls_levels (insert_ssts ts st) = ls_levels st"
  by (induction ts arbitrary: st) (simp_all add: insert_ssts_def)

lemma insert_ssts_other: "i \<notin> sst_id ` set ts \<Longrightarrow> ls_sstables (insert_ssts ts st) i = ls_sstables st i"
  by (induction ts arbitrary: st) (simp_all add: insert_ssts_def)

lemma insert_ssts_new:
  "distinct (map sst_id ts) \<Longrightarrow> t \<in> set ts \<Longrightarrow> ls_sstables (insert_ssts ts st) (sst_id t) = Some t"
proof (induction ts arbitrary: st)
  case (Cons u ts)
  have "insert_ssts (u # ts) st = insert_ssts ts (st\<lparr>ls_sstables := (ls_sstables st)(sst_id u \<mapsto> u)\<rparr>)"
    by (simp add: insert_ssts_def)
  then show ?case using Cons insert_ssts_other [of "sst_id u" ts "st\<lparr>ls_sstables := (ls_sstables st)(sst_id u \<mapsto> u)\<rparr>"] by (cases "t \<in> set ts") auto
qed simp

lemma remove_ssts_same [simp]:
  "ls_memtable (remove_ssts ids st) = ls_memtable st"
  "ls_imm_memtables (remove_ssts ids st) = ls_imm_memtables st"
  "ls_l0_sstables (remove_ssts ids st) = ls_l0_sstables st"
  "ls_levels (remove_ssts ids st) = ls_levels st"
  "ls_sstables (remove_ssts ids st) i = (if i \<in> set ids then None else ls_sstables st i)"
  by (induction ids arbitrary: st) (simp_all add: remove_ssts_def)

lemma live_ids_same [simp]:
  "live_ids (insert_ssts ts st) = live_ids st" "live_ids (remove_ssts ids st) = live_ids st"
  by (simp_all add: live_ids_def)

section \<open>Pairs by live tables\<close>

definition mem_pairs :: "('m, key, bytes) skip_ops \<Rightarrow> 'm lsm_state \<Rightarrow> (key \<times> bytes) set" where
  "mem_pairs S st = (\<Union>mt \<in> set (ls_memtable st # ls_imm_memtables st). set (mt_entries S mt))"

lemma state_pairs_live:
  "state_pairs crc S st = mem_pairs S st \<union> (\<Union>i \<in> live_ids st. set (sst_entries crc (the (ls_sstables st i))))"
  by (auto simp: state_pairs_def mem_pairs_def live_ids_def tables_of_def)

lemma pairs_of_subset: "set ids \<subseteq> live_ids st \<Longrightarrow> pairs_of crc st ids \<subseteq> state_pairs crc S st"
  by (auto simp: pairs_of_def state_pairs_live)

lemma tables_of_cong: "(\<And>i. i \<in> set ids \<Longrightarrow> ls_sstables st i = ls_sstables st' i) \<Longrightarrow> tables_of st ids = tables_of st' ids"
  by (simp add: tables_of_def)

lemma pairs_of_cong: "(\<And>i. i \<in> set ids \<Longrightarrow> ls_sstables st i = ls_sstables st' i) \<Longrightarrow> pairs_of crc st ids = pairs_of crc st' ids"
  by (simp add: pairs_of_def)

section \<open>The contract of a controller\<close>

definition output_fits :: "(bytes \<Rightarrow> u32) \<Rightarrow> 'm lsm_state \<Rightarrow> nat list \<Rightarrow> nat list \<Rightarrow> bool" where
  "output_fits crc st ins out \<longleftrightarrow>
     distinct out \<and> set out \<inter> live_ids st = {} \<and> (\<forall>i \<in> set out. ls_sstables st i \<noteq> None) \<and>
     level_ok crc (tables_of st out) \<and> pairs_of crc st out \<subseteq> pairs_of crc st ins \<and>
     (out = [] \<longrightarrow> ins = [])"

definition applied ::
    "(bytes \<Rightarrow> u32) \<Rightarrow> compaction_controller \<Rightarrow> 'm lsm_state \<Rightarrow> nat list \<Rightarrow> nat list \<Rightarrow> 'm lsm_state \<Rightarrow> bool" where
  "applied crc c st ins out st' \<longleftrightarrow>
     ls_memtable st' = ls_memtable st \<and> ls_imm_memtables st' = ls_imm_memtables st \<and>
     ls_sstables st' = ls_sstables st \<and> live_ids st' = (live_ids st - set ins) \<union> set out \<and>
     places_ok st' \<and> shape_ok c st' \<and> (\<forall>l \<in> set (ls_levels st'). level_ok crc (tables_of st' (snd l)))"

text \<open>
  The state after a compaction: well formed, with the same memtables, and with the same pairs
  but for tombstones of the inputs if the compaction was to the bottom.
\<close>

definition kept_pairs ::
    "(bytes \<Rightarrow> u32) \<Rightarrow> ('m, key, bytes) skip_ops \<Rightarrow> bool \<Rightarrow> nat list \<Rightarrow> 'm lsm_state \<Rightarrow> (key \<times> bytes) set" where
  "kept_pairs crc S bottom ins st =
     mem_pairs S st \<union> (\<Union>i \<in> live_ids st - set ins. set (sst_entries crc (the (ls_sstables st i)))) \<union>
     {e \<in> pairs_of crc st ins. \<not> (bottom \<and> snd e = [])}"

lemma kept_pairs_subset:
  assumes "set ins \<subseteq> live_ids st"
  shows "kept_pairs crc S bottom ins st \<subseteq> state_pairs crc S st"
    and "e \<in> state_pairs crc S st \<Longrightarrow> e \<notin> kept_pairs crc S bottom ins st \<Longrightarrow>
      bottom \<and> snd e = [] \<and> e \<in> pairs_of crc st ins"
proof -
  have p: "state_pairs crc S st = mem_pairs S st \<union>
      (\<Union>i \<in> live_ids st - set ins. set (sst_entries crc (the (ls_sstables st i)))) \<union> pairs_of crc st ins"
    using assms by (auto simp: state_pairs_live pairs_of_def)
  show "kept_pairs crc S bottom ins st \<subseteq> state_pairs crc S st" unfolding p kept_pairs_def by blast
  show "bottom \<and> snd e = [] \<and> e \<in> pairs_of crc st ins"
    if "e \<in> state_pairs crc S st" "e \<notin> kept_pairs crc S bottom ins st"
    using that unfolding p kept_pairs_def by blast
qed

definition installed ::
    "(bytes \<Rightarrow> u32) \<Rightarrow> (bytes \<Rightarrow> u32) \<Rightarrow> ('m, key, bytes) skip_ops \<Rightarrow> compaction_controller \<Rightarrow> bool \<Rightarrow>
     nat list \<Rightarrow> sstable list \<Rightarrow> 'm lsm_state \<Rightarrow> 'm lsm_state \<Rightarrow> bool" where
  "installed crc fp S c bottom ins ts st st' \<longleftrightarrow>
     state_ok crc fp S st' \<and> tree_ok crc S c st' \<and>
     ls_memtable st' = ls_memtable st \<and> ls_imm_memtables st' = ls_imm_memtables st \<and>
     state_pairs crc S st' = kept_pairs crc S bottom ins st \<and>
     (\<forall>i t. ls_sstables st' i = Some t \<longrightarrow>
        i \<notin> set ins \<and> (ls_sstables st i = Some t \<or> t \<in> set ts \<and> sst_id t = i))"

locale compaction_strategy =
  fixes crc fp :: "bytes \<Rightarrow> u32" and S :: "('m, key, bytes) skip_ops" and c :: compaction_controller
    and task_ok :: "'m lsm_state \<Rightarrow> 'task \<Rightarrow> bool"
    and inputs :: "'task \<Rightarrow> nat list"
    and apply_result :: "'m lsm_state \<Rightarrow> 'task \<Rightarrow> nat list \<Rightarrow> ('m lsm_state \<times> nat list) res"
  assumes inputs_live: "task_ok st task \<Longrightarrow> set (inputs task) \<subseteq> live_ids st"
    and task_ok_tables: "task_ok st task \<Longrightarrow> state_ok crc fp S st \<Longrightarrow>
      \<forall>t \<in> set ts. ls_sstables st (sst_id t) = None \<Longrightarrow> task_ok (insert_ssts ts st) task"
    and apply_applied: "state_ok crc fp S st \<Longrightarrow> tree_ok crc S c st \<Longrightarrow> task_ok st task \<Longrightarrow>
      output_fits crc st (inputs task) out \<Longrightarrow>
      \<exists>st'. apply_result st task out = Inr (st', inputs task) \<and> applied crc c st (inputs task) out st'"

context compaction_strategy
begin

lemma install:
  assumes ok: "state_ok crc fp S st" and tree: "tree_ok crc S c st" and task: "task_ok st task"
    and ts: "\<forall>t \<in> set ts. table_ok crc fp t" "distinct (map sst_id ts)"
      "\<forall>t \<in> set ts. ls_sstables st (sst_id t) = None" "level_ok crc ts"
    and pairs: "set (level_entries crc ts) = {e \<in> pairs_of crc st (inputs task). \<not> (bottom \<and> snd e = [])}"
    and tail: "bottom \<longrightarrow> no_tail_tombstone (pairs_of crc st (inputs task))"
  shows "\<exists>st'. apply_result (insert_ssts ts st) task (map sst_id ts) = Inr (st', inputs task) \<and>
    installed crc fp S c bottom (inputs task) ts st (remove_ssts (inputs task) st')"
proof -
  define st1 where "st1 = insert_ssts ts st"
  have live: "set (inputs task) \<subseteq> live_ids st" by (rule inputs_live [OF task])
  have notlive: "sst_id t \<notin> live_ids st" if "t \<in> set ts" for t
    using ts(3) ok that by (auto simp: state_ok_def)
  have old: "ls_sstables st1 i = ls_sstables st i" if "i \<in> live_ids st" for i
    unfolding st1_def by (rule insert_ssts_other) (use notlive that in auto)
  have new: "ls_sstables st1 (sst_id t) = Some t" if "t \<in> set ts" for t
    unfolding st1_def by (rule insert_ssts_new [OF ts(2) that])
  have outtabs: "tables_of st1 (map sst_id ts) = ts"
    by (simp add: tables_of_def new comp_def map_idI)
  have tabs: "tables_of st1 ids = tables_of st ids" if "set ids \<subseteq> live_ids st" for ids
    by (rule tables_of_cong) (use old that in auto)
  have lvl: "set (snd l) \<subseteq> live_ids st" if "l \<in> set (ls_levels st)" for l
    using that by (auto simp: live_ids_def)
  have st1: "ls_memtable st1 = ls_memtable st" "ls_imm_memtables st1 = ls_imm_memtables st"
      "ls_l0_sstables st1 = ls_l0_sstables st" "ls_levels st1 = ls_levels st" "live_ids st1 = live_ids st"
    by (simp_all add: st1_def)
  have lookup1: "table_ok crc fp t \<and> sst_id t = i" if "ls_sstables st1 i = Some t" for i t
  proof (cases "i \<in> sst_id ` set ts")
    case True
    then show ?thesis using new that ts(1) by auto
  next
    case False
    then have "ls_sstables st i = Some t" using that insert_ssts_other [OF False, of st] by (simp add: st1_def)
    then show ?thesis using ok by (simp add: state_ok_def)
  qed
  have ok1: "state_ok crc fp S st1"
    using ok lookup1 old tabs [OF lvl] unfolding state_ok_def st1 by simp
  have pairs1: "state_pairs crc S st1 = state_pairs crc S st"
    using old by (simp add: state_pairs_live st1 mem_pairs_def)
  have tree1: "tree_ok crc S c st1"
    using tree pairs1 st1 by (simp add: tree_ok_def consistent_def places_ok_def shape_ok_def cong: compaction_controller.case_cong)
  have task1: "task_ok st1 task"
    using task_ok_tables [OF task ok ts(3)] by (simp add: st1_def)
  let ?out = "map sst_id ts" and ?ins = "inputs task"
  have insp: "pairs_of crc st1 ?ins = pairs_of crc st ?ins"
    by (rule pairs_of_cong) (use old live in auto)
  have outp: "pairs_of crc st1 ?out = set (level_entries crc ts)"
    using set_level_entries [of crc st1 ?out] outtabs by simp
  have empty: "?ins = []" if "?out = []"
  proof (rule ccontr)
    assume "?ins \<noteq> []"
    then obtain i where i: "i \<in> set ?ins" by (cases ?ins) auto
    then have "i \<in> live_ids st" using live by blast
    then have "sst_ok crc (the (ls_sstables st i))"
      using ok by (auto simp: state_ok_def table_ok_def)
    then have "sst_entries crc (the (ls_sstables st i)) \<noteq> []" by (rule sst_ok_entries(1))
    then have ne: "pairs_of crc st ?ins \<noteq> {}" using i by (auto simp: pairs_of_def)
    have fin: "finite (pairs_of crc st ?ins)" by (simp add: pairs_of_def)
    obtain e where e: "e \<in> pairs_of crc st ?ins" "\<forall>e' \<in> pairs_of crc st ?ins. fst e' \<le> fst e"
    proof -
      have "Max (fst ` pairs_of crc st ?ins) \<in> fst ` pairs_of crc st ?ins" using fin ne by simp
      then obtain e where "e \<in> pairs_of crc st ?ins" "fst e = Max (fst ` pairs_of crc st ?ins)" by auto
      then show thesis using that fin by simp
    qed
    have "{e \<in> pairs_of crc st ?ins. \<not> (bottom \<and> snd e = [])} = {}"
      using that pairs by (simp add: level_entries_def)
    then have "bottom \<and> snd e = []" using e(1) by blast
    then show False using e tail unfolding no_tail_tombstone_def by blast
  qed
  have fits: "output_fits crc st1 ?ins ?out"
    unfolding output_fits_def insp outp outtabs st1
    using ts(2,4) notlive new pairs empty by auto
  obtain st2 where st2: "apply_result st1 task ?out = Inr (st2, ?ins)" "applied crc c st1 ?ins ?out st2"
    using apply_applied [OF ok1 tree1 task1 fits] by blast
  define st3 where "st3 = remove_ssts ?ins st2"
  have same: "ls_memtable st2 = ls_memtable st" "ls_imm_memtables st2 = ls_imm_memtables st"
      "ls_sstables st2 = ls_sstables st1" "live_ids st2 = (live_ids st - set ?ins) \<union> set ?out"
      "places_ok st2" "shape_ok c st2" "\<forall>l \<in> set (ls_levels st2). level_ok crc (tables_of st2 (snd l))"
    using st2(2) by (simp_all add: applied_def st1)
  have outids: "set ?out \<inter> set ?ins = {}" using notlive live by auto
  have keep: "ls_sstables st3 i = ls_sstables st1 i" if "i \<in> live_ids st2" for i
    using that outids by (auto simp: st3_def same(3,4))
  have live3: "live_ids st3 = live_ids st2" by (simp add: st3_def)
  have lvl3: "set (snd l) \<subseteq> live_ids st2" if "l \<in> set (ls_levels st2)" for l
    using that by (auto simp: live_ids_def)
  have tabs3: "tables_of st3 (snd l) = tables_of st2 (snd l)" if "l \<in> set (ls_levels st2)" for l
    by (rule tables_of_cong) (use keep lvl3 [OF that] same(3) in auto)
  have "ls_sstables st1 i \<noteq> None" if "i \<in> live_ids st2" for i
    using that same(4) ok1 new by (auto simp: state_ok_def st1)
  then have ok3: "state_ok crc fp S st3"
    using ok same tabs3 keep lookup1
    by (auto simp: state_ok_def live3 st3_def split: if_splits)
  have p3: "state_pairs crc S st3 = mem_pairs S st \<union>
      (\<Union>i \<in> live_ids st - set ?ins. set (sst_entries crc (the (ls_sstables st i)))) \<union> set (level_entries crc ts)"
  proof -
    have "(\<Union>i \<in> live_ids st2. set (sst_entries crc (the (ls_sstables st3 i)))) =
      (\<Union>i \<in> live_ids st - set ?ins. set (sst_entries crc (the (ls_sstables st i)))) \<union> pairs_of crc st1 ?out"
      using keep old by (simp add: same(4) pairs_of_def)
    then show ?thesis
      unfolding state_pairs_live live3 outp by (simp add: mem_pairs_def st3_def same Un_assoc)
  qed
  have kept: "state_pairs crc S st3 = kept_pairs crc S bottom ?ins st"
    unfolding p3 kept_pairs_def pairs ..
  then have sub: "state_pairs crc S st3 \<subseteq> state_pairs crc S st" using kept_pairs_subset(1) [OF live] by simp
  have "consistent crc S st3"
    using tree sub single_valued_subset by (auto simp: tree_ok_def consistent_def)
  moreover have "places_ok st3" "shape_ok c st3"
    using same(5,6) by (simp_all add: places_ok_def shape_ok_def st3_def cong: compaction_controller.case_cong)
  ultimately have "tree_ok crc S c st3" by (simp add: tree_ok_def)
  moreover have "i \<notin> set ?ins \<and> (ls_sstables st i = Some t \<or> t \<in> set ts \<and> sst_id t = i)"
    if it: "ls_sstables st3 i = Some t" for i t
  proof -
    have t: "i \<notin> set ?ins" "ls_sstables st1 i = Some t"
      using it by (simp_all add: st3_def same(3) split: if_splits)
    show ?thesis
    proof (cases "i \<in> sst_id ` set ts")
      case True
      then obtain u where "u \<in> set ts" "i = sst_id u" by blast
      then show ?thesis using new [of u] t by simp
    next
      case False
      then show ?thesis using t insert_ssts_other [OF False, of st] by (simp add: st1_def)
    qed
  qed
  ultimately have "installed crc fp S c bottom ?ins ts st st3"
    using ok3 kept same(1,2) by (simp add: installed_def st3_def)
  then show ?thesis using st2(1) by (auto simp: st1_def st3_def)
qed

end

end
