(* ===== verification/Floats.thy ===== *)
theory Floats
  imports Prelude Complex_Main "HOL-Library.Log_Nat"
begin

text \<open>
  The part of \<open>f64\<close> that compaction uses: conversion from \<open>usize\<close>, division, multiplication and
  addition of non-negative numbers, each correctly rounded to 53 significant bits (ties to even), and
  comparison. The values that occur, \<open>0\<close> and quotients and products of a few \<open>usize\<close>, are far from
  the limits of the exponent, so that rounding never meets a subnormal number or overflows.
\<close>

section \<open>Rounding\<close>

datatype f64 = Finite rat | Infinity | NotANumber

text \<open>The exponent of a positive number: \<open>2 ^ e \<le> q < 2 ^ (e + 1)\<close>.\<close>

definition float_exponent :: "rat \<Rightarrow> int" where
  "float_exponent q =
     (let (n, d) = quotient_of q; k = int (floorlog 2 (nat n)) - int (floorlog 2 (nat d))
      in if 2 powi k \<le> q then k else k - 1)"

definition round_half_even :: "rat \<Rightarrow> int" where
  "round_half_even q =
     (let f = \<lfloor>q\<rfloor>; r = q - of_int f
      in if r < 1 / 2 then f else if 1 / 2 < r then f + 1 else if even f then f else f + 1)"

definition round_f64 :: "rat \<Rightarrow> rat" where
  "round_f64 q =
     (if q \<le> 0 then 0
      else let u = 2 powi (float_exponent q - 52) in of_int (round_half_even (q / u)) * u)"

definition f64_of_nat :: "nat \<Rightarrow> f64" where
  "f64_of_nat n = Finite (round_f64 (of_nat n))"

fun f64_div :: "f64 \<Rightarrow> f64 \<Rightarrow> f64" where
  "f64_div (Finite a) (Finite b) =
     (if b = 0 then if a = 0 then NotANumber else Infinity else Finite (round_f64 (a / b)))"
| "f64_div Infinity (Finite b) = Infinity"
| "f64_div (Finite a) Infinity = Finite 0"
| "f64_div _ _ = NotANumber"

fun f64_mult :: "f64 \<Rightarrow> f64 \<Rightarrow> f64" where
  "f64_mult (Finite a) (Finite b) = Finite (round_f64 (a * b))"
| "f64_mult Infinity (Finite b) = (if b = 0 then NotANumber else Infinity)"
| "f64_mult (Finite a) Infinity = (if a = 0 then NotANumber else Infinity)"
| "f64_mult Infinity Infinity = Infinity"
| "f64_mult _ _ = NotANumber"

fun f64_add :: "f64 \<Rightarrow> f64 \<Rightarrow> f64" where
  "f64_add (Finite a) (Finite b) = Finite (round_f64 (a + b))"
| "f64_add Infinity (Finite b) = Infinity"
| "f64_add (Finite a) Infinity = Infinity"
| "f64_add Infinity Infinity = Infinity"
| "f64_add _ _ = NotANumber"

text \<open>\<open>partial_cmp\<close> on two floats: no answer when one of them is not a number.\<close>

fun f64_le :: "f64 \<Rightarrow> f64 \<Rightarrow> bool" where
  "f64_le (Finite a) (Finite b) \<longleftrightarrow> a \<le> b"
| "f64_le (Finite a) Infinity \<longleftrightarrow> True"
| "f64_le Infinity Infinity \<longleftrightarrow> True"
| "f64_le _ _ \<longleftrightarrow> False"

fun f64_less :: "f64 \<Rightarrow> f64 \<Rightarrow> bool" where
  "f64_less (Finite a) (Finite b) \<longleftrightarrow> a < b"
| "f64_less (Finite a) Infinity \<longleftrightarrow> True"
| "f64_less _ _ \<longleftrightarrow> False"

section \<open>The exponent\<close>

lemma floorlog_bounds:
  assumes "0 < (n::int)"
  shows "(2::rat) powi (int (floorlog 2 (nat n)) - 1) \<le> of_int n"
    and "(of_int n :: rat) < 2 powi int (floorlog 2 (nat n))"
proof -
  let ?k = "floorlog 2 (nat n)"
  have k: "0 < ?k" using assms by (simp add: floorlog_def)
  have b: "2 ^ (?k - 1) \<le> nat n" "nat n < 2 ^ ?k" using floorlog_bounds [of "nat n" 2] assms by simp_all
  have "(2::rat) powi (int ?k - 1) = 2 ^ (?k - 1)" using k by (simp add: power_int_def nat_diff_distrib)
  also have "\<dots> = of_nat (2 ^ (?k - 1))" by simp
  also have "\<dots> \<le> of_nat (nat n)" using b(1) by (simp only: of_nat_le_iff)
  also have "\<dots> = of_int n" using assms by simp
  finally show "(2::rat) powi (int ?k - 1) \<le> of_int n" .
  have "(of_int n :: rat) = of_nat (nat n)" using assms by simp
  also have "\<dots> < of_nat (2 ^ ?k)" using b(2) by (simp only: of_nat_less_iff)
  finally show "(of_int n :: rat) < 2 powi int ?k" by (simp add: power_int_def)
qed

lemma float_exponent:
  assumes "0 < q"
  shows "2 powi float_exponent q \<le> q" "q < 2 powi (float_exponent q + 1)"
proof -
  obtain n d where q: "quotient_of q = (n, d)" by (cases "quotient_of q")
  have d: "0 < d" using q by (rule quotient_of_denom_pos)
  have qd: "q = of_int n / of_int d" using q by (rule quotient_of_div)
  then have n: "0 < n" using assms d by (simp add: zero_less_divide_iff)
  let ?a = "int (floorlog 2 (nat n))" and ?b = "int (floorlog 2 (nat d))"
  have "q < 2 powi ?a / 2 powi (?b - 1)"
    unfolding qd by (rule frac_less) (use n d floorlog_bounds [OF n] floorlog_bounds [OF d] in simp_all)
  then have up: "q < 2 powi (?a - ?b + 1)" by (simp add: power_int_diff power_int_add field_simps)
  have "2 powi (?a - 1) / 2 powi ?b \<le> q"
    unfolding qd using n d floorlog_bounds(1) [OF n] floorlog_bounds(2) [OF d]
    by (intro frac_le) simp_all
  then have low: "2 powi (?a - ?b - 1) \<le> q" by (simp add: power_int_diff power_int_add field_simps)
  show "2 powi float_exponent q \<le> q" "q < 2 powi (float_exponent q + 1)"
    using up low by (auto simp: float_exponent_def q Let_def)
qed

lemma powi_less_exponent: "(2::rat) powi a < 2 powi b \<Longrightarrow> a < b"
  by (meson linorder_not_le one_le_numeral power_int_increasing)

lemma float_exponent_mono:
  assumes "0 < x" "x \<le> y"
  shows "float_exponent x \<le> float_exponent y"
proof -
  have "0 < y" using assms by simp
  have "2 powi float_exponent x \<le> x" by (rule float_exponent(1) [OF assms(1)])
  also note assms(2)
  also have "y < 2 powi (float_exponent y + 1)" by (rule float_exponent(2) [OF \<open>0 < y\<close>])
  finally show ?thesis using powi_less_exponent by fastforce
qed

section \<open>Rounding is monotone\<close>

lemma round_half_even_int [simp]: "round_half_even (of_int n) = n"
  by (simp add: round_half_even_def)

lemma round_half_even_near: "\<bar>of_int (round_half_even q) - q\<bar> \<le> 1 / 2"
proof -
  have "of_int \<lfloor>q\<rfloor> \<le> q" "q < of_int \<lfloor>q\<rfloor> + 1" by linarith+
  then show ?thesis by (auto simp: round_half_even_def Let_def)
qed

lemma round_half_even_mono:
  assumes "x \<le> y"
  shows "round_half_even x \<le> round_half_even y"
proof (cases "\<lfloor>x\<rfloor> = \<lfloor>y\<rfloor>")
  case True
  then show ?thesis using assms by (auto simp: round_half_even_def Let_def)
next
  case False
  then have "\<lfloor>x\<rfloor> + 1 \<le> \<lfloor>y\<rfloor>" using floor_mono [OF assms] by simp
  moreover have "round_half_even x \<le> \<lfloor>x\<rfloor> + 1" "\<lfloor>y\<rfloor> \<le> round_half_even y"
    by (auto simp: round_half_even_def Let_def)
  ultimately show ?thesis by simp
qed

lemma round_f64_range:
  assumes "0 < q"
  shows "2 powi float_exponent q \<le> round_f64 q" "round_f64 q \<le> 2 powi (float_exponent q + 1)"
proof -
  define u :: rat where "u = 2 powi (float_exponent q - 52)"
  have u: "0 < u" by (simp add: u_def)
  have pow: "2 powi float_exponent q = of_int (2 ^ 52) * u" "2 powi (float_exponent q + 1) = of_int (2 ^ 53) * u"
    unfolding u_def by (simp_all add: power_int_diff power_int_add)
  have r: "round_f64 q = of_int (round_half_even (q / u)) * u"
    using assms by (simp add: round_f64_def u_def Let_def)
  have "of_int (2 ^ 52) \<le> q / u" "q / u \<le> of_int (2 ^ 53)"
    using float_exponent [OF assms] u unfolding pow by (simp_all add: field_simps)
  then have "2 ^ 52 \<le> round_half_even (q / u)" "round_half_even (q / u) \<le> 2 ^ 53"
    using round_half_even_mono [of "of_int (2 ^ 52)" "q / u"] round_half_even_mono [of "q / u" "of_int (2 ^ 53)"]
    unfolding round_half_even_int by blast+
  then show "2 powi float_exponent q \<le> round_f64 q" "round_f64 q \<le> 2 powi (float_exponent q + 1)"
    unfolding pow r using u by (simp_all only: mult_right_mono less_imp_le of_int_le_iff)
qed

lemma round_f64_nonneg: "0 \<le> round_f64 q"
proof (cases "0 < q")
  case True
  then show ?thesis using round_f64_range(1) [OF True] by (meson le_less_trans less_imp_le order.refl zero_less_power_int zero_less_numeral order_trans)
qed (simp add: round_f64_def)

lemma round_f64_pos: "0 < q \<Longrightarrow> 0 < round_f64 q"
  using round_f64_range(1) [of q] less_le_trans [of 0 "2 powi float_exponent q" "round_f64 q"] by simp

lemma round_f64_mono:
  assumes "x \<le> y"
  shows "round_f64 x \<le> round_f64 y"
proof (cases "0 < x")
  case False
  then show ?thesis using round_f64_nonneg by (simp add: round_f64_def)
next
  case True
  then have y: "0 < y" using assms by simp
  show ?thesis
  proof (cases "float_exponent x = float_exponent y")
    case True
    have "round_half_even (x / 2 powi (float_exponent y - 52)) \<le> round_half_even (y / 2 powi (float_exponent y - 52))"
      by (rule round_half_even_mono) (use assms in \<open>simp add: divide_right_mono\<close>)
    then show ?thesis
      using \<open>0 < x\<close> y True by (simp add: round_f64_def Let_def mult_right_mono)
  next
    case False
    then have "float_exponent x + 1 \<le> float_exponent y" using float_exponent_mono [OF \<open>0 < x\<close> assms] by simp
    then have "(2::rat) powi (float_exponent x + 1) \<le> 2 powi float_exponent y" by (simp add: power_int_increasing)
    then show ?thesis using round_f64_range(2) [OF \<open>0 < x\<close>] round_f64_range(1) [OF y] by linarith
  qed
qed

lemma round_f64_zero [simp]: "round_f64 0 = 0"
  by (simp add: round_f64_def)

lemma round_f64_one [simp]: "round_f64 1 = 1"
proof -
  have "float_exponent 1 = 0"
    by (simp add: float_exponent_def floorlog_def)
  moreover have "1 / 2 powi (0 - 52) = (of_int (2 ^ 52) :: rat)" by (simp add: power_int_def field_simps)
  ultimately show ?thesis
    by (simp only: round_f64_def Let_def round_half_even_int) (simp add: power_int_def field_simps)
qed

text \<open>The use of it: a size that does not exceed its target has a ratio that does not exceed one.\<close>

lemma f64_ratio_le_one:
  assumes "a \<le> b" "b \<noteq> 0"
  shows "\<not> f64_less (f64_of_nat 1) (f64_div (f64_of_nat a) (f64_of_nat b))"
proof -
  have b: "0 < round_f64 (of_nat b)" using assms(2) by (intro round_f64_pos) simp
  have "round_f64 (of_nat a) \<le> round_f64 (of_nat b)" using assms(1) by (intro round_f64_mono) simp
  then have "round_f64 (of_nat a) / round_f64 (of_nat b) \<le> 1" using b by simp
  then have "round_f64 (round_f64 (of_nat a) / round_f64 (of_nat b)) \<le> 1"
    using round_f64_mono [of _ 1] by simp
  then show ?thesis using b by (simp add: f64_of_nat_def)
qed

lemma f64_ratio_finite:
  assumes "b \<noteq> 0"
  obtains q where "f64_div (f64_of_nat a) (f64_of_nat b) = Finite q"
proof -
  have b: "round_f64 (of_nat b) \<noteq> 0" using assms round_f64_pos [of "of_nat b"] by simp
  then show thesis using that by (simp add: f64_of_nat_def)
qed

lemma f64_ratio_zero: "b \<noteq> 0 \<Longrightarrow> f64_div (f64_of_nat 0) (f64_of_nat b) = Finite 0"
  using round_f64_pos [of "of_nat b"] by (simp add: f64_of_nat_def)

end
