(* ===== verification/CompactTiered.thy ===== *)
theory CompactTiered
  imports Strategy Floats "HOL-Library.AList"
begin

text \<open>
  \<open>src/compact/tiered.rs\<close>: tiered compaction. There is no level 0; every flush and every compaction
  makes a tier of its own, named by its first table. A task is a run of tiers from the newest on.
\<close>

section \<open>Generating a task\<close>

definition files_of :: "(nat \<times> nat list) list \<Rightarrow> nat" where
  "files_of ls = sum_list (map (\<lambda>l. length (snd l)) ls)"

text \<open>The loop for the size ratio, from tier \<open>k\<close> on, with \<open>files\<close> files in the tiers before it.\<close>

fun tiered_scan :: "tiered_options \<Rightarrow> f64 \<Rightarrow> nat \<Rightarrow> nat \<Rightarrow> (nat \<times> nat list) list \<Rightarrow> nat option" where
  "tiered_scan o' trigger k files (l # l' # rest) =
     (let files = files + length (snd l);
          current_size_ratio = f64_div (f64_of_nat (length (snd l'))) (f64_of_nat files)
      in if f64_less trigger current_size_ratio \<and> to_min_merge_width o' \<le> k + 1 then Some k
         else tiered_scan o' trigger (k + 1) files (l' # rest))"
| "tiered_scan o' trigger k files _ = None"

definition size_ratio_trigger :: "tiered_options \<Rightarrow> f64" where
  "size_ratio_trigger o' = f64_div (f64_add (f64_of_nat 100) (f64_of_nat (to_size_ratio o'))) (f64_of_nat 100)"

definition space_amp_ratio :: "(nat \<times> nat list) list \<Rightarrow> f64" where
  "space_amp_ratio ls =
     f64_mult (f64_div (f64_of_nat (files_of (butlast ls))) (f64_of_nat (length (snd (last ls))))) (f64_of_nat 100)"

definition tiered_generate :: "tiered_options \<Rightarrow> 'm lsm_state \<Rightarrow> tiered_task option res" where
  "tiered_generate o' snapshot =
     and_then (ensure (ls_l0_sstables snapshot = []) Panic) (\<lambda>_.
     let levels = ls_levels snapshot in
     if length levels < to_num_tiers o' then Inr None
     else
       and_then (checked_sub (length levels) 1) (\<lambda>_.
       if f64_le (f64_of_nat (to_max_size_amplification_percent o')) (space_amp_ratio levels) then
         Inr (Some \<lparr>tt_tiers = levels, tt_bottom_tier_included = True\<rparr>)
       else
         case tiered_scan o' (size_ratio_trigger o') 0 0 levels of
           Some k \<Rightarrow> Inr (Some \<lparr>tt_tiers = take (k + 1) levels, tt_bottom_tier_included = False\<rparr>)
         | None \<Rightarrow>
             let num_tiers_to_take = (case to_max_merge_width o' of None \<Rightarrow> length levels
                                      | Some w \<Rightarrow> min (length levels) w)
             in Inr (Some \<lparr>tt_tiers = take num_tiers_to_take levels,
                           tt_bottom_tier_included = (num_tiers_to_take \<le> length levels)\<rparr>)))"

section \<open>Applying a result\<close>

text \<open>
  The \<open>HashMap\<close> of the tiers to remove is an association list with distinct keys. The state of the
  loop is this map, the new levels, whether the new tier is among them, and the files to remove.
\<close>

type_synonym tier_map = "(nat \<times> nat list) list"

definition tier_map_of :: "(nat \<times> nat list) list \<Rightarrow> tier_map" where
  "tier_map_of tiers = fold (\<lambda>(x, y). AList.update x y) tiers []"

definition tiered_step ::
    "nat list \<Rightarrow> nat \<times> nat list \<Rightarrow> tier_map \<times> (nat \<times> nat list) list \<times> bool \<times> nat list \<Rightarrow>
     (tier_map \<times> (nat \<times> nat list) list \<times> bool \<times> nat list) res" where
  "tiered_step output = (\<lambda>(tier_id, files) (tier_to_remove, levels, new_tier_added, files_to_remove).
     and_then
       (case map_of tier_to_remove tier_id of
          Some ffiles \<Rightarrow>
            and_then (ensure (ffiles = files) Panic) (\<lambda>_.
            Inr (AList.delete tier_id tier_to_remove, levels, files_to_remove @ ffiles))
        | None \<Rightarrow> Inr (tier_to_remove, levels @ [(tier_id, files)], files_to_remove))
       (\<lambda>(tier_to_remove, levels, files_to_remove).
     if tier_to_remove = [] \<and> \<not> new_tier_added then
       and_then (index output 0) (\<lambda>first.
       Inr (tier_to_remove, levels @ [(first, output)], True, files_to_remove))
     else Inr (tier_to_remove, levels, new_tier_added, files_to_remove)))"

definition tiered_apply ::
    "'m lsm_state \<Rightarrow> tiered_task \<Rightarrow> nat list \<Rightarrow> ('m lsm_state \<times> nat list) res" where
  "tiered_apply snapshot task output =
     and_then (ensure (ls_l0_sstables snapshot = []) Panic) (\<lambda>_.
     and_then (fold_res (tiered_step output) (ls_levels snapshot) (tier_map_of (tt_tiers task), [], False, []))
       (\<lambda>(tier_to_remove, levels, new_tier_added, files_to_remove).
     and_then (ensure (tier_to_remove = []) Panic) (\<lambda>_.
     Inr (snapshot\<lparr>ls_levels := levels\<rparr>, files_to_remove))))"

section \<open>What the loop computes\<close>

lemma update_new: "k \<notin> fst ` set xs \<Longrightarrow> AList.update k v xs = xs @ [(k, v)]"
  by (induction xs) auto

lemma tier_map_of_distinct: "distinct (map fst ts) \<Longrightarrow> tier_map_of ts = ts"
proof -
  assume "distinct (map fst ts)"
  moreover have "fold (\<lambda>(x, y). AList.update x y) ts m = m @ ts"
    if "distinct (map fst ts)" "fst ` set m \<inter> fst ` set ts = {}" for m
    using that
  proof (induction ts arbitrary: m)
    case (Cons t ts)
    then have "fold (\<lambda>(x, y). AList.update x y) ts (m @ [t]) = (m @ [t]) @ ts"
      by (intro Cons.IH) auto
    then show ?case using Cons.prems by (cases t) (auto simp: update_new)
  qed simp
  ultimately show ?thesis by (simp add: tier_map_of_def)
qed

lemma tiered_step_before:
  "m \<noteq> [] \<Longrightarrow> fst ` set ls \<inter> fst ` set m = {} \<Longrightarrow>
   fold_res (tiered_step out) ls (m, acc, False, fs) = Inr (m, acc @ ls, False, fs)"
proof (induction ls arbitrary: acc)
  case (Cons l ls)
  obtain i f where l: "l = (i, f)" by (cases l)
  have "map_of m i = None" using Cons.prems(2) l by (auto simp: map_of_eq_None_iff)
  then show ?case using Cons l by (simp add: tiered_step_def)
qed simp

lemma tiered_step_after:
  "fold_res (tiered_step out) ls ([], acc, True, fs) = Inr ([], acc @ ls, True, fs)"
proof (induction ls arbitrary: acc)
  case (Cons l ls)
  then show ?case by (cases l) (simp add: tiered_step_def)
qed simp

lemma delete_first: "i \<notin> fst ` set ts \<Longrightarrow> AList.delete i ((i, f) # ts) = ts"
  by (force simp: AList.delete_eq filter_id_conv)

lemma tiered_step_tiers:
  "ts \<noteq> [] \<Longrightarrow> distinct (map fst ts) \<Longrightarrow> out \<noteq> [] \<Longrightarrow>
   fold_res (tiered_step out) ts (ts, acc, False, fs) =
     Inr ([], acc @ [(hd out, out)], True, fs @ concat (map snd ts))"
proof (induction ts arbitrary: fs)
  case (Cons t ts)
  obtain i f where t: "t = (i, f)" by (cases t)
  have del: "AList.delete i (t # ts) = ts" using Cons.prems(2) t by (simp add: delete_first)
  show ?case
  proof (cases "ts = []")
    case True
    then show ?thesis using t Cons.prems(3) by (simp add: tiered_step_def index_def hd_conv_nth)
  next
    case False
    then have "tiered_step out t (t # ts, acc, False, fs) = Inr (ts, acc, False, fs @ f)"
      using del t by (simp add: tiered_step_def)
    then show ?thesis using Cons False t by simp
  qed
qed simp

lemma tiered_loop:
  assumes "distinct (map fst (pre @ ts @ suf))" "ts \<noteq> []" "out \<noteq> []"
  shows "fold_res (tiered_step out) (pre @ ts @ suf) (tier_map_of ts, [], False, []) =
    Inr ([], pre @ (hd out, out) # suf, True, concat (map snd ts))"
proof -
  have "fst ` set pre \<inter> fst ` set ts = {}" "distinct (map fst ts)" using assms(1) by auto
  then show ?thesis
    using assms(2,3)
    by (simp add: fold_res_append tier_map_of_distinct tiered_step_before tiered_step_tiers tiered_step_after)
qed

section \<open>The contract\<close>

definition tiered_fits :: "compaction_controller \<Rightarrow> 'm lsm_state \<Rightarrow> tiered_task \<Rightarrow> bool" where
  "tiered_fits c st task \<longleftrightarrow> \<not> flush_to_l0 c \<and> tt_tiers task \<noteq> [] \<and>
     (\<exists>pre suf. ls_levels st = pre @ tt_tiers task @ suf)"

lemma shape_ok_tiers:
  "\<not> flush_to_l0 c \<Longrightarrow> shape_ok c st \<longleftrightarrow>
     ls_l0_sstables st = [] \<and> (\<forall>l \<in> set (ls_levels st). snd l \<noteq> [] \<and> fst l = hd (snd l))"
  by (auto simp: shape_ok_def flush_to_l0_def split: compaction_controller.splits)

lemma distinct_tiers:
  assumes "\<forall>l \<in> set ls. snd l \<noteq> [] \<and> fst l = hd (snd l)" "distinct (concat (map snd ls))"
  shows "distinct (map fst ls)"
  using assms
proof (induction ls)
  case (Cons l ls)
  have "fst l \<noteq> fst l'" if l': "l' \<in> set ls" for l'
  proof -
    have "hd (snd l) \<in> set (snd l)" "hd (snd l') \<in> set (snd l')" using Cons.prems(1) l' by auto
    moreover have "set (snd l) \<inter> set (snd l') = {}" using Cons.prems(2) l' by auto
    ultimately have "hd (snd l) \<noteq> hd (snd l')" by auto
    then show ?thesis using Cons.prems(1) l' by simp
  qed
  then show ?case using Cons by auto
qed simp

lemma tiered_apply_ok:
  assumes ok: "state_ok crc fp S st" and tree: "tree_ok crc S c st" and task: "tiered_fits c st task"
    and out: "output_fits crc st (concat (map snd (tt_tiers task))) out"
  shows "\<exists>st'. tiered_apply st task out = Inr (st', concat (map snd (tt_tiers task))) \<and>
    applied crc c st (concat (map snd (tt_tiers task))) out st'"
proof -
  obtain pre suf where ls: "ls_levels st = pre @ tt_tiers task @ suf" and ne: "tt_tiers task \<noteq> []"
    and c: "\<not> flush_to_l0 c" using task by (auto simp: tiered_fits_def)
  let ?ts = "tt_tiers task" and ?ins = "concat (map snd (tt_tiers task))"
  have shape: "ls_l0_sstables st = []" "\<forall>l \<in> set (ls_levels st). snd l \<noteq> [] \<and> fst l = hd (snd l)"
    using tree c by (simp_all add: tree_ok_def shape_ok_tiers)
  have places: "distinct (concat (map snd (ls_levels st)))"
    using tree shape(1) by (simp add: tree_ok_def places_ok_def)
  have ins: "?ins \<noteq> []" using shape(2) ne ls by (cases ?ts) auto
  have o': "distinct out" "set out \<inter> live_ids st = {}" "level_ok crc (tables_of st out)" "out \<noteq> []"
    using out ins by (auto simp: output_fits_def)
  define st' where "st' = st\<lparr>ls_levels := pre @ (hd out, out) # suf\<rparr>"
  have tabs: "tables_of st' ids = tables_of st ids" for ids by (simp add: tables_of_def st'_def)
  have "distinct (map fst (ls_levels st))" by (rule distinct_tiers [OF shape(2) places])
  then have "tiered_apply st task out = Inr (st', ?ins)"
    using tiered_loop [of pre ?ts suf out] ne o'(4) shape(1)
    by (simp add: tiered_apply_def ls st'_def)
  moreover have "live_ids st' = (live_ids st - set ?ins) \<union> set out"
  proof -
    have "(set (concat (map snd pre)) \<union> set (concat (map snd suf))) \<inter> set ?ins = {}"
      using places unfolding ls map_append concat_append distinct_append by auto
    then show ?thesis using shape(1) by (auto simp: live_ids_def st'_def ls)
  qed
  moreover have "places_ok st'"
    using places o'(1,2) shape(1) unfolding places_ok_def st'_def live_ids_def ls by auto
  moreover have "shape_ok c st'"
    using shape o'(4) by (auto simp: shape_ok_tiers [OF c] st'_def ls)
  moreover have "level_ok crc (tables_of st' (snd l))" if "l \<in> set (ls_levels st')" for l
    using that ok o'(3) by (auto simp: st'_def ls tabs [unfolded st'_def] state_ok_def)
  ultimately show ?thesis by (intro exI [of _ st']) (simp add: applied_def st'_def)
qed

interpretation tiered: compaction_strategy crc fp "S :: ('m, key, bytes) skip_ops" c "tiered_fits c"
    "\<lambda>task. concat (map snd (tt_tiers task))" tiered_apply
proof
  fix st :: "'m lsm_state" and task ts out
  assume task: "tiered_fits c st task"
  show "set (concat (map snd (tt_tiers task))) \<subseteq> live_ids st"
    using task by (auto simp: tiered_fits_def live_ids_def)
  show "tiered_fits c (insert_ssts ts st) task" using task by (simp add: tiered_fits_def)
  show "\<exists>st'. tiered_apply st task out = Inr (st', concat (map snd (tt_tiers task))) \<and>
      applied crc c st (concat (map snd (tt_tiers task))) out st'"
    if "state_ok crc fp S st" "tree_ok crc S c st" "output_fits crc st (concat (map snd (tt_tiers task))) out"
    by (rule tiered_apply_ok [OF that(1,2) task that(3)])
qed

section \<open>Generated tasks fit\<close>

definition tiered_options_ok :: "tiered_options \<Rightarrow> bool" where
  "tiered_options_ok o' \<longleftrightarrow> 0 < to_num_tiers o' \<and> to_max_merge_width o' \<noteq> Some 0"

lemma tiered_generate_total:
  assumes "tiered_options_ok o'" "shape_ok c st" "\<not> flush_to_l0 c"
  shows "\<exists>task. tiered_generate o' st = Inr task"
proof (cases "length (ls_levels st) < to_num_tiers o'")
  case False
  then have "1 \<le> length (ls_levels st)" using assms(1) by (simp add: tiered_options_ok_def)
  then show ?thesis
    using assms(2,3) by (simp add: tiered_generate_def shape_ok_tiers checked_sub_def Let_def split: option.split)
qed (use assms(2,3) in \<open>simp add: tiered_generate_def shape_ok_tiers\<close>)

lemma tiered_generate_prefix:
  assumes "tiered_options_ok o'" "tiered_generate o' st = Inr (Some task)"
  shows "\<exists>n > 0. tt_tiers task = take n (ls_levels st) \<and> ls_levels st \<noteq> []"
proof -
  have ne: "ls_levels st \<noteq> []" and task: "tt_tiers task = ls_levels st \<or> (\<exists>k. tt_tiers task = take (k + 1) (ls_levels st)) \<or>
      tt_tiers task = take (case to_max_merge_width o' of None \<Rightarrow> length (ls_levels st)
        | Some w \<Rightarrow> min (length (ls_levels st)) w) (ls_levels st)"
    using assms(2)
    by (auto simp: tiered_generate_def res_simps checked_sub_def Let_def split: if_splits option.splits)
  consider "tt_tiers task = take (length (ls_levels st)) (ls_levels st)"
    | k where "tt_tiers task = take (k + 1) (ls_levels st)"
    | w where "to_max_merge_width o' = Some w" "tt_tiers task = take (min (length (ls_levels st)) w) (ls_levels st)"
    using task by (cases "to_max_merge_width o'") auto
  then show ?thesis
  proof cases
    case 1
    then show ?thesis using ne by (intro exI [of _ "length (ls_levels st)"]) simp
  next
    case 2
    then show ?thesis using ne by (intro exI [of _ "k + 1"]) simp
  next
    case 3
    then show ?thesis
      using ne assms(1) by (intro exI [of _ "min (length (ls_levels st)) w"]) (auto simp: tiered_options_ok_def)
  qed
qed

lemma tiered_generate_fits:
  assumes "tiered_options_ok o'" "tiered_generate o' st = Inr (Some task)" "\<not> flush_to_l0 c"
  shows "tiered_fits c st task"
proof -
  obtain n where n: "0 < n" "tt_tiers task = take n (ls_levels st)" "ls_levels st \<noteq> []"
    using tiered_generate_prefix [OF assms(1,2)] by blast
  have "ls_levels st = [] @ tt_tiers task @ drop n (ls_levels st)" using n(2) by simp
  then show ?thesis using n assms(3) unfolding tiered_fits_def by (metis less_numeral_extra(3) take_eq_Nil)
qed

section \<open>Properties\<close>

lemma tiered_scan_bound: "tiered_scan o' trigger k files ls = Some j \<Longrightarrow> j + 1 < k + length ls"
  by (induction o' trigger k files ls rule: tiered_scan.induct) (auto simp: Let_def split: if_splits)

lemma tiered_generate_flag:
  assumes "tiered_generate o' st = Inr (Some task)" "\<not> tt_bottom_tier_included task"
  obtains k where "tiered_scan o' (size_ratio_trigger o') 0 0 (ls_levels st) = Some k"
    "tt_tiers task = take (k + 1) (ls_levels st)"
  using assms
  by (auto simp: tiered_generate_def res_simps Let_def split: if_splits option.splits)

text \<open>
  A tiered task is a non-empty run of the newest tiers, and a task that does not say it includes
  the bottom tier really leaves it out, as the comment on the size ratio trigger claims.
\<close>

lemma tiered_task_prefix:
  assumes "tiered_generate o' st = Inr (Some task)" "0 < to_num_tiers o'" "to_max_merge_width o' \<noteq> Some 0"
  shows "(\<exists>n > 0. tt_tiers task = take n (ls_levels st)) \<and> tt_tiers task \<noteq> [] \<and>
    (\<not> tt_bottom_tier_included task \<longrightarrow> length (tt_tiers task) < length (ls_levels st))"
proof -
  have "tiered_options_ok o'" using assms(2,3) by (simp add: tiered_options_ok_def)
  then obtain n where n: "0 < n" "tt_tiers task = take n (ls_levels st)" "ls_levels st \<noteq> []"
    using tiered_generate_prefix [OF _ assms(1)] by blast
  moreover have "length (tt_tiers task) < length (ls_levels st)" if flag: "\<not> tt_bottom_tier_included task"
  proof -
    obtain k where k: "tiered_scan o' (size_ratio_trigger o') 0 0 (ls_levels st) = Some k"
        "tt_tiers task = take (k + 1) (ls_levels st)"
      by (rule tiered_generate_flag [OF assms(1) flag])
    then show ?thesis using tiered_scan_bound [OF k(1)] by simp
  qed
  ultimately show ?thesis by auto
qed

text \<open>Three tiers of one table each, and options under which neither ratio triggers.\<close>

definition three_tiers :: "(key, bytes) rbt lsm_state" where
  "three_tiers =
     \<lparr>ls_memtable = mt_create rbt_ops 4, ls_imm_memtables = [], ls_l0_sstables = [],
      ls_levels = [(3, [3]), (2, [2]), (1, [1])], ls_sstables = Map.empty\<rparr>"

definition narrow_options :: tiered_options where
  "narrow_options =
     \<lparr>to_num_tiers = 3, to_max_size_amplification_percent = 500, to_size_ratio = 200, to_min_merge_width = 2,
      to_max_merge_width = Some 2\<rparr>"

lemma narrow_ratios:
  "\<not> f64_le (f64_of_nat 500) (space_amp_ratio [(3, [3]), (2, [2]), (1, [1])])"
  "tiered_scan narrow_options (size_ratio_trigger narrow_options) 0 0 [(3, [3]), (2, [2]), (1, [1])] = None"
  by code_simp+

lemma narrow_task:
  "tiered_generate narrow_options three_tiers =
     Inr (Some \<lparr>tt_tiers = [(3, [3]), (2, [2])], tt_bottom_tier_included = True\<rparr>)"
  using narrow_ratios by (simp add: tiered_generate_def three_tiers_def checked_sub_def narrow_options_def Let_def)


end
