(* ===== verification/CompactSimple.thy ===== *)
theory CompactSimple
  imports Strategy
begin

text \<open>
  \<open>src/compact/simple_leveled.rs\<close>: simple leveled compaction. All of level 0 goes to level 1 when
  it has enough tables; otherwise the first level whose successor is too small goes down as a whole.
\<close>

section \<open>Generating a task\<close>

definition compaction_required :: "simple_options \<Rightarrow> nat \<Rightarrow> nat \<Rightarrow> bool" where
  "compaction_required o' upper_num_files lower_num_files =
     (if upper_num_files = 0 then False
      else (lower_num_files * 100) div upper_num_files < so_size_ratio_percent o')"

text \<open>The loop over the levels, from the first pair of neighbours on.\<close>

fun simple_scan :: "simple_options \<Rightarrow> nat \<Rightarrow> (nat \<times> nat list) list \<Rightarrow> simple_task option" where
  "simple_scan o' max_level ((upper_l, upper_ssts) # (lower_l, lower_ssts) # rest) =
     (if compaction_required o' (length upper_ssts) (length lower_ssts) then
        Some \<lparr>st_upper_level = Some upper_l, st_upper_level_sst_ids = upper_ssts, st_lower_level = lower_l,
              st_lower_level_sst_ids = lower_ssts, st_is_lower_level_bottom_level = (max_level = lower_l)\<rparr>
      else simple_scan o' max_level ((lower_l, lower_ssts) # rest))"
| "simple_scan o' max_level _ = None"

definition simple_generate :: "simple_options \<Rightarrow> 'm lsm_state \<Rightarrow> simple_task option res" where
  "simple_generate o' snapshot =
     (if so_level0_file_num_compaction_trigger o' \<le> length (ls_l0_sstables snapshot) then
        and_then (index (ls_levels snapshot) 0) (\<lambda>l.
        Inr (Some \<lparr>st_upper_level = None, st_upper_level_sst_ids = ls_l0_sstables snapshot,
                   st_lower_level = 1, st_lower_level_sst_ids = snd l,
                   st_is_lower_level_bottom_level = (length (ls_levels snapshot) = 1)\<rparr>))
      else
        and_then (checked_sub (length (ls_levels snapshot)) 1) (\<lambda>_.
        Inr (simple_scan o' (length (ls_levels snapshot)) (ls_levels snapshot))))"

section \<open>Applying a result\<close>

definition simple_apply ::
    "'m lsm_state \<Rightarrow> simple_task \<Rightarrow> nat list \<Rightarrow> ('m lsm_state \<times> nat list) res" where
  "simple_apply snapshot task output =
     (let removed_ssts = st_upper_level_sst_ids task @ st_lower_level_sst_ids task
      in case st_upper_level task of
           None \<Rightarrow>
             let snapshot = snapshot\<lparr>ls_l0_sstables :=
                   filter (\<lambda>i. i \<notin> set (st_upper_level_sst_ids task)) (ls_l0_sstables snapshot)\<rparr>
             in and_then (set_level 1 (1, output) snapshot) (\<lambda>snapshot. Inr (snapshot, removed_ssts))
         | Some upper_level \<Rightarrow>
             and_then (set_level upper_level (upper_level, []) snapshot) (\<lambda>snapshot.
             and_then (set_level (st_lower_level task) (st_lower_level task, output) snapshot) (\<lambda>snapshot.
             Inr (snapshot, removed_ssts))))"

section \<open>The contract\<close>

text \<open>The task fits the state: it names tables of level 0 and all of level 1, or two whole levels.\<close>

definition simple_fits :: "compaction_controller \<Rightarrow> 'm lsm_state \<Rightarrow> simple_task \<Rightarrow> bool" where
  "simple_fits c st task \<longleftrightarrow> flush_to_l0 c \<and>
     (case st_upper_level task of
        None \<Rightarrow>
          set (st_upper_level_sst_ids task) \<subseteq> set (ls_l0_sstables st) \<and> ls_levels st \<noteq> [] \<and>
          st_lower_level_sst_ids task = snd (ls_levels st ! 0)
      | Some upper \<Rightarrow>
          st_lower_level task = Suc upper \<and> 0 < upper \<and> upper < length (ls_levels st) \<and>
          st_upper_level_sst_ids task = snd (ls_levels st ! (upper - 1)) \<and>
          st_lower_level_sst_ids task = snd (ls_levels st ! upper))"

lemma shape_ok_levels:
  "flush_to_l0 c \<Longrightarrow> shape_ok c st \<Longrightarrow> map fst (ls_levels st) = map Suc [0..<length (ls_levels st)]"
  by (auto simp: shape_ok_def flush_to_l0_def split: compaction_controller.splits dest: arg_cong [of _ _ length])

lemma shape_ok_fst:
  assumes "flush_to_l0 c" "shape_ok c st"
  shows "\<forall>j < length (ls_levels st). fst (ls_levels st ! j) = Suc j"
proof (intro allI impI)
  fix j assume j: "j < length (ls_levels st)"
  then show "fst (ls_levels st ! j) = Suc j"
    using arg_cong [OF shape_ok_levels [OF assms], of "\<lambda>l. l ! j"] by simp
qed

lemma shape_ok_level:
  assumes "flush_to_l0 c" "shape_ok c st" "i < length (ls_levels st)"
  shows "shape_ok c (st\<lparr>ls_levels := (ls_levels st)[i := (Suc i, xs)]\<rparr>)"
proof -
  have "fst (ls_levels st ! i) = Suc i"
    using shape_ok_fst [OF assms(1,2)] assms(3) by simp
  then have "map fst ((ls_levels st)[i := (Suc i, xs)]) = map fst (ls_levels st)"
    using assms(3) by (simp add: map_update list_update_same_conv)
  then show ?thesis
    using assms(1,2) by (auto simp: shape_ok_def flush_to_l0_def split: compaction_controller.splits)
qed

lemma applied_level_ok:
  assumes "\<forall>l \<in> set (ls_levels st). level_ok crc (tables_of st (snd l))"
    and "level_ok crc (tables_of st xs)" "ls_sstables st' = ls_sstables st"
    and "l \<in> set ((ls_levels st)[i := (n, xs)])"
  shows "level_ok crc (tables_of st' (snd l))"
proof -
  have "tables_of st' ids = tables_of st ids" for ids using assms(3) by (simp add: tables_of_def)
  moreover have "l = (n, xs) \<or> l \<in> set (ls_levels st)"
    using set_update_subset_insert [of "ls_levels st" i "(n, xs)"] assms(4) by blast
  ultimately show ?thesis using assms(1,2) by auto
qed

lemma simple_apply_l0:
  assumes ok: "state_ok crc fp S st" and tree: "tree_ok crc S c st" and task: "simple_fits c st task"
    and none: "st_upper_level task = None"
    and out: "output_fits crc st (st_upper_level_sst_ids task @ st_lower_level_sst_ids task) out"
  shows "\<exists>st'. simple_apply st task out =
      Inr (st', st_upper_level_sst_ids task @ st_lower_level_sst_ids task) \<and>
    applied crc c st (st_upper_level_sst_ids task @ st_lower_level_sst_ids task) out st'"
proof -
  let ?up = "st_upper_level_sst_ids task" and ?low = "st_lower_level_sst_ids task"
  have t: "set ?up \<subseteq> set (ls_l0_sstables st)" "ls_levels st \<noteq> []" "?low = snd (ls_levels st ! 0)" "flush_to_l0 c"
    using task none by (simp_all add: simple_fits_def)
  have places: "places_ok st" and shape: "shape_ok c st" using tree by (simp_all add: tree_ok_def)
  define st1 where "st1 = st\<lparr>ls_l0_sstables := filter (\<lambda>i. i \<notin> set ?up) (ls_l0_sstables st)\<rparr>"
  note p1 = places_l0 [OF places t(1), folded st1_def]
  define st2 where "st2 = st1\<lparr>ls_levels := (ls_levels st1)[0 := (Suc 0, out)]\<rparr>"
  have lev: "ls_levels st1 = ls_levels st" by (simp add: st1_def)
  have o': "distinct out" "set out \<inter> live_ids st = {}" "level_ok crc (tables_of st out)"
    using out by (simp_all add: output_fits_def)
  have len: "0 < length (ls_levels st1)" using t(2) lev by simp
  have disj: "set out \<inter> (live_ids st1 - set (snd (ls_levels st1 ! 0))) = {}" using o'(2) p1(2) by auto
  note p2 = places_level [OF p1(1) len o'(1) disj, where n = "Suc 0", folded st2_def]
  have "shape_ok c st1"
    using shape t(4) by (auto simp: shape_ok_def st1_def flush_to_l0_def split: compaction_controller.splits)
  then have sh2: "shape_ok c st2" unfolding st2_def by (rule shape_ok_level [OF t(4) _ len])
  have "simple_apply st task out = Inr (st2, ?up @ ?low)"
    using none len by (simp add: simple_apply_def set_level_Suc [of 0, simplified] st2_def st1_def Let_def)
  moreover have "level_ok crc (tables_of st2 (snd l))" if "l \<in> set (ls_levels st2)" for l
  proof (rule applied_level_ok [OF _ o'(3)])
    show "\<forall>l \<in> set (ls_levels st). level_ok crc (tables_of st (snd l))" using ok by (simp add: state_ok_def)
    show "ls_sstables st2 = ls_sstables st" by (simp add: st2_def st1_def)
    show "l \<in> set ((ls_levels st)[0 := (Suc 0, out)])" using that by (simp add: st2_def lev)
  qed
  moreover have "live_ids st2 = (live_ids st - set (?up @ ?low)) \<union> set out"
    using p2(2) p1(2) lev t(3) by auto
  ultimately show ?thesis
    using p2(1) sh2 by (intro exI [of _ st2]) (simp add: applied_def st2_def st1_def)
qed

lemma simple_apply_levels:
  assumes ok: "state_ok crc fp S st" and tree: "tree_ok crc S c st" and task: "simple_fits c st task"
    and some: "st_upper_level task = Some upper"
    and out: "output_fits crc st (st_upper_level_sst_ids task @ st_lower_level_sst_ids task) out"
  shows "\<exists>st'. simple_apply st task out =
      Inr (st', st_upper_level_sst_ids task @ st_lower_level_sst_ids task) \<and>
    applied crc c st (st_upper_level_sst_ids task @ st_lower_level_sst_ids task) out st'"
proof -
  let ?up = "st_upper_level_sst_ids task" and ?low = "st_lower_level_sst_ids task"
  obtain u where u: "upper = Suc u" using task some by (cases upper) (auto simp: simple_fits_def)
  have t: "st_lower_level task = Suc (Suc u)" "Suc u < length (ls_levels st)" "?up = snd (ls_levels st ! u)"
      "?low = snd (ls_levels st ! Suc u)" "flush_to_l0 c"
    using task some u by (simp_all add: simple_fits_def)
  have places: "places_ok st" and shape: "shape_ok c st" using tree by (simp_all add: tree_ok_def)
  have o': "distinct out" "set out \<inter> live_ids st = {}" "level_ok crc (tables_of st out)"
    using out by (simp_all add: output_fits_def)
  define st1 where "st1 = st\<lparr>ls_levels := (ls_levels st)[u := (Suc u, [])]\<rparr>"
  have ulen: "u < length (ls_levels st)" using t(2) by simp
  note p1 = places_level [OF places ulen, of "[]", where n = "Suc u", simplified, folded st1_def]
  have sh1: "shape_ok c st1" unfolding st1_def by (rule shape_ok_level [OF t(5) shape ulen])
  have len: "Suc u < length (ls_levels st1)" using t(2) by (simp add: st1_def)
  have low: "snd (ls_levels st1 ! Suc u) = ?low" using t(4) by (simp add: st1_def)
  define st2 where "st2 = st1\<lparr>ls_levels := (ls_levels st1)[Suc u := (Suc (Suc u), out)]\<rparr>"
  have disj: "set out \<inter> (live_ids st1 - set (snd (ls_levels st1 ! Suc u))) = {}" using o'(2) p1(2) by auto
  note p2 = places_level [OF p1(1) len o'(1) disj, where n = "Suc (Suc u)", folded st2_def]
  have sh2: "shape_ok c st2" unfolding st2_def by (rule shape_ok_level [OF t(5) sh1 len])
  have tabs: "ls_sstables st1 = ls_sstables st" "ls_sstables st2 = ls_sstables st" by (simp_all add: st2_def st1_def)
  have "simple_apply st task out = Inr (st2, ?up @ ?low)"
    using some t(1) len ulen
    by (simp add: simple_apply_def u set_level_Suc st2_def st1_def Let_def)
  moreover have "level_ok crc (tables_of st2 (snd l))" if "l \<in> set (ls_levels st2)" for l
  proof -
    have "\<forall>l \<in> set (ls_levels st). level_ok crc (tables_of st (snd l))" using ok by (simp add: state_ok_def)
    then have "\<forall>l \<in> set (ls_levels st1). level_ok crc (tables_of st1 (snd l))"
      using applied_level_ok [of st crc "[]" st1] tabs(1) by (auto simp: st1_def tables_of_def)
    moreover have "level_ok crc (tables_of st1 out)" using o'(3) tabs(1) by (simp add: tables_of_def)
    ultimately show ?thesis
      by (rule applied_level_ok) (use that tabs in \<open>simp_all add: st2_def\<close>)
  qed
  moreover have "live_ids st2 = (live_ids st - set (?up @ ?low)) \<union> set out"
    using p2(2) p1(2) low t(3) by auto
  ultimately show ?thesis
    using p2(1) sh2 tabs by (intro exI [of _ st2]) (simp add: applied_def st2_def st1_def)
qed

interpretation simple: compaction_strategy crc fp "S :: ('m, key, bytes) skip_ops" c "simple_fits c"
    "\<lambda>task. st_upper_level_sst_ids task @ st_lower_level_sst_ids task" simple_apply
proof
  fix st :: "'m lsm_state" and task ts out
  assume task: "simple_fits c st task"
  show "set (st_upper_level_sst_ids task @ st_lower_level_sst_ids task) \<subseteq> live_ids st"
    using task live_level [of 0 st] live_level [of "the (st_upper_level task) - 1" st]
      live_level [of "the (st_upper_level task)" st]
    by (auto simp: simple_fits_def live_ids_def split: option.splits)
  show "simple_fits c (insert_ssts ts st) task" using task by (simp add: simple_fits_def cong: option.case_cong)
  show "\<exists>st'. simple_apply st task out = Inr (st', st_upper_level_sst_ids task @ st_lower_level_sst_ids task) \<and>
      applied crc c st (st_upper_level_sst_ids task @ st_lower_level_sst_ids task) out st'"
    if "state_ok crc fp S st" "tree_ok crc S c st"
      "output_fits crc st (st_upper_level_sst_ids task @ st_lower_level_sst_ids task) out"
    using simple_apply_l0 [OF that(1,2) task _ that(3)] simple_apply_levels [OF that(1,2) task _ that(3)]
    by (cases "st_upper_level task") auto
qed

section \<open>Generated tasks fit\<close>

lemma simple_scan_fits:
  assumes "simple_scan o' n ls = Some task" "\<forall>j < length ls. fst (ls ! j) = Suc (k + j)"
  shows "\<exists>i. Suc i < length ls \<and> st_upper_level task = Some (Suc (k + i)) \<and>
    st_lower_level task = Suc (Suc (k + i)) \<and>
    st_upper_level_sst_ids task = snd (ls ! i) \<and> st_lower_level_sst_ids task = snd (ls ! Suc i)"
  using assms
proof (induction o' n ls arbitrary: k rule: simple_scan.induct)
  case (1 o' n u us l lss rest)
  have nums: "u = Suc k" "l = Suc (Suc k)"
    using "1.prems"(2) [rule_format, of 0] "1.prems"(2) [rule_format, of 1] by simp_all
  show ?case
  proof (cases "compaction_required o' (length us) (length lss)")
    case True
    then show ?thesis using "1.prems"(1) nums by (intro exI [of _ 0]) auto
  next
    case False
    have scan: "simple_scan o' n ((l, lss) # rest) = Some task" using "1.prems"(1) False by simp
    have "\<forall>j < length ((l, lss) # rest). fst (((l, lss) # rest) ! j) = Suc (Suc k + j)"
      using "1.prems"(2) by (auto dest: spec [of _ "Suc _"])
    from "1.IH" [OF False scan this]
    obtain i where "Suc i < length ((l, lss) # rest)" "st_upper_level task = Some (Suc (Suc k + i))"
      "st_lower_level task = Suc (Suc (Suc k + i))" "st_upper_level_sst_ids task = snd (((l, lss) # rest) ! i)"
      "st_lower_level_sst_ids task = snd (((l, lss) # rest) ! Suc i)" by blast
    then show ?thesis by (intro exI [of _ "Suc i"]) simp
  qed
qed auto

lemma simple_generate_fits:
  assumes "simple_generate o' st = Inr (Some task)" "shape_ok c st" "flush_to_l0 c"
  shows "simple_fits c st task"
proof (cases "so_level0_file_num_compaction_trigger o' \<le> length (ls_l0_sstables st)")
  case True
  then show ?thesis
    using assms by (auto simp: simple_generate_def simple_fits_def index_def res_simps split: if_splits)
next
  case False
  then have "simple_scan o' (length (ls_levels st)) (ls_levels st) = Some task"
    using assms(1) by (auto simp: simple_generate_def res_simps)
  then show ?thesis
    using simple_scan_fits [of o' "length (ls_levels st)" "ls_levels st" task 0] shape_ok_fst [OF assms(3,2)] assms(3)
    by (auto simp: simple_fits_def)
qed

lemma simple_generate_total:
  assumes "shape_ok c st" "flush_to_l0 c" "ls_levels st \<noteq> []"
  shows "\<exists>task. simple_generate o' st = Inr task"
  using assms(3) by (auto simp: simple_generate_def index_def checked_sub_def Suc_le_eq)

end
