(* ===== verification/CompactLeveled.thy ===== *)
theory CompactLeveled
  imports CompactSimple Floats
begin

text \<open>
  \<open>src/compact/leveled.rs\<close>: leveled compaction with partial compactions and dynamic level sizes.
  A task merges all of level 0, or one table of a level, with the tables of the target level whose
  key ranges overlap it; the output is sorted in among the other tables of that level.
\<close>

section \<open>Overlapping tables\<close>

text \<open>\<open>iter().min().unwrap()\<close> and \<open>iter().max().unwrap()\<close>.\<close>

definition min_res :: "'a::linorder list \<Rightarrow> 'a res" where
  "min_res xs = (if xs = [] then Inl Panic else Inr (Min (set xs)))"

definition max_res :: "'a::linorder list \<Rightarrow> 'a res" where
  "max_res xs = (if xs = [] then Inl Panic else Inr (Max (set xs)))"

definition find_overlapping_ssts :: "'m lsm_state \<Rightarrow> nat list \<Rightarrow> nat \<Rightarrow> nat list res" where
  "find_overlapping_ssts snapshot sst_ids in_level =
     (let table = lookup_res (ls_sstables snapshot) in
      and_then (map_res (\<lambda>i. and_then (table i) (\<lambda>t. Inr (sst_first_key t))) sst_ids) (\<lambda>firsts.
      and_then (min_res firsts) (\<lambda>begin_key.
      and_then (map_res (\<lambda>i. and_then (table i) (\<lambda>t. Inr (sst_last_key t))) sst_ids) (\<lambda>lasts.
      and_then (max_res lasts) (\<lambda>end_key.
      and_then (checked_sub in_level 1) (\<lambda>l.
      and_then (index (ls_levels snapshot) l) (\<lambda>level.
      filter_map_res (\<lambda>i. and_then (table i) (\<lambda>sst.
        Inr (if sst_last_key sst < begin_key \<or> end_key < sst_first_key sst then None else Some i))) (snd level))))))))"

section \<open>Generating a task\<close>

definition checked_div :: "nat \<Rightarrow> nat \<Rightarrow> nat res" where
  "checked_div a b = (if b = 0 then Inl Panic else Inr (a div b))"

definition real_level_size :: "'m lsm_state \<Rightarrow> nat list res" where
  "real_level_size snapshot =
     map_res (\<lambda>level.
       and_then (map_res (\<lambda>i. and_then (lookup_res (ls_sstables snapshot) i) (\<lambda>t. Inr (sst_table_size t))) (snd level))
         (\<lambda>zs. Inr (sum_list zs))) (ls_levels snapshot)"

text \<open>The loop over the levels below the last one, from \<open>i - 1\<close> down to \<open>0\<close>.\<close>

fun target_loop :: "leveled_options \<Rightarrow> nat \<Rightarrow> nat \<Rightarrow> nat list \<times> nat \<Rightarrow> (nat list \<times> nat) res" where
  "target_loop o' base_level_size_bytes 0 st = Inr st"
| "target_loop o' base_level_size_bytes (Suc i) (target_level_size, base_level) =
     and_then (index target_level_size (i + 1)) (\<lambda>next_level_size.
     and_then (checked_div next_level_size (lo_level_size_multiplier o')) (\<lambda>this_level_size.
     let target_level_size = (if base_level_size_bytes < next_level_size then target_level_size[i := this_level_size]
                              else target_level_size);
         base_level = (if 0 < target_level_size ! i then i + 1 else base_level)
     in target_loop o' base_level_size_bytes i (target_level_size, base_level)))"

text \<open>A product of two \<open>usize\<close> values, which panics when it does not fit into 64 bits.\<close>

definition checked_mul :: "nat \<Rightarrow> nat \<Rightarrow> nat res" where
  "checked_mul a b = (if a * b < 2 ^ 64 then Inr (a * b) else Inl Panic)"

definition base_level_size_bytes :: "leveled_options \<Rightarrow> nat res" where
  "base_level_size_bytes o' = and_then (checked_mul (lo_base_level_size_mb o') 1024) (\<lambda>kb. checked_mul kb 1024)"

definition level_targets :: "leveled_options \<Rightarrow> nat list \<Rightarrow> (nat list \<times> nat) res" where
  "level_targets o' sizes =
     (let max_level = lo_max_levels o' in
      and_then (base_level_size_bytes o') (\<lambda>base_level_size_bytes.
      and_then (checked_sub max_level 1) (\<lambda>bottom.
      and_then (index sizes bottom) (\<lambda>real_bottom.
      target_loop o' base_level_size_bytes bottom
        ((replicate max_level 0)[bottom := max real_bottom base_level_size_bytes], max_level)))))"

text \<open>
  The priorities of the levels over their target size, and the order of the sort: descending. The
  ratios are numbers, since targets of zero are left out, so that \<open>partial_cmp\<close> has an answer.
\<close>

definition level_priorities :: "leveled_options \<Rightarrow> nat list \<Rightarrow> nat list \<Rightarrow> (f64 \<times> nat) list res" where
  "level_priorities o' sizes target =
     filter_map_res (\<lambda>level.
       and_then (index target level) (\<lambda>t.
       if t = 0 then Inr None
       else
         and_then (index sizes level) (\<lambda>r.
         let priority = f64_div (f64_of_nat r) (f64_of_nat t) in
         Inr (if f64_less (f64_of_nat 1) priority then Some (priority, level + 1) else None))))
       [0..<lo_max_levels o']"

fun priority_ge :: "f64 \<times> nat \<Rightarrow> f64 \<times> nat \<Rightarrow> bool" where
  "priority_ge (p, l) (q, m) \<longleftrightarrow> f64_less q p \<or> p = q \<and> m \<le> l"

fun insert_by :: "('a \<Rightarrow> 'a \<Rightarrow> bool) \<Rightarrow> 'a \<Rightarrow> 'a list \<Rightarrow> 'a list" where
  "insert_by le x [] = [x]"
| "insert_by le x (y # ys) = (if le x y then x # y # ys else y # insert_by le x ys)"

definition sort_by :: "('a \<Rightarrow> 'a \<Rightarrow> bool) \<Rightarrow> 'a list \<Rightarrow> 'a list" where
  "sort_by le xs = foldr (insert_by le) xs []"

definition leveled_l0_task :: "leveled_options \<Rightarrow> 'm lsm_state \<Rightarrow> nat \<Rightarrow> leveled_task option res" where
  "leveled_l0_task o' snapshot base_level =
     and_then (find_overlapping_ssts snapshot (ls_l0_sstables snapshot) base_level) (\<lambda>overlap.
     Inr (Some \<lparr>lt_upper_level = None, lt_upper_level_sst_ids = ls_l0_sstables snapshot,
                lt_lower_level = base_level, lt_lower_level_sst_ids = overlap,
                lt_is_lower_level_bottom_level = (base_level = lo_max_levels o')\<rparr>))"

definition leveled_level_task :: "leveled_options \<Rightarrow> 'm lsm_state \<Rightarrow> nat \<Rightarrow> leveled_task option res" where
  "leveled_level_task o' snapshot level =
     and_then (checked_sub level 1) (\<lambda>i.
     and_then (index (ls_levels snapshot) i) (\<lambda>l.
     and_then (min_res (snd l)) (\<lambda>selected_sst.
     and_then (find_overlapping_ssts snapshot [selected_sst] (level + 1)) (\<lambda>overlap.
     Inr (Some \<lparr>lt_upper_level = Some level, lt_upper_level_sst_ids = [selected_sst],
                lt_lower_level = level + 1, lt_lower_level_sst_ids = overlap,
                lt_is_lower_level_bottom_level = (level + 1 = lo_max_levels o')\<rparr>)))))"

definition leveled_generate :: "leveled_options \<Rightarrow> 'm lsm_state \<Rightarrow> leveled_task option res" where
  "leveled_generate o' snapshot =
     and_then (real_level_size snapshot) (\<lambda>sizes.
     and_then (level_targets o' sizes) (\<lambda>(target, base_level).
     if lo_level0_file_num_compaction_trigger o' < length (ls_l0_sstables snapshot) then
       leveled_l0_task o' snapshot base_level
     else
       and_then (level_priorities o' sizes target) (\<lambda>priorities.
       case sort_by priority_ge priorities of
         [] \<Rightarrow> Inr None
       | (_, level) # _ \<Rightarrow> leveled_level_task o' snapshot level)))"

section \<open>Applying a result\<close>

text \<open>The closure of \<open>filter_map\<close>, which removes what it meets from the \<open>HashSet\<close> it captured.\<close>

fun take_out :: "nat list \<Rightarrow> nat list \<Rightarrow> nat list \<times> nat list" where
  "take_out [] ids = ([], ids)"
| "take_out (x # xs) ids =
     (if x \<in> set ids then take_out xs (removeAll x ids)
      else let (ys, ids) = take_out xs ids in (x # ys, ids))"

definition remove_upper :: "'m lsm_state \<Rightarrow> leveled_task \<Rightarrow> 'm lsm_state res" where
  "remove_upper snapshot task =
     (case lt_upper_level task of
        Some upper_level \<Rightarrow>
          and_then (checked_sub upper_level 1) (\<lambda>i.
          and_then (index (ls_levels snapshot) i) (\<lambda>l.
          let (new_upper_level_ssts, ids) = take_out (snd l) (lt_upper_level_sst_ids task) in
          and_then (ensure (ids = []) Panic) (\<lambda>_.
          Inr (snapshot\<lparr>ls_levels := (ls_levels snapshot)[i := (fst l, new_upper_level_ssts)]\<rparr>))))
      | None \<Rightarrow>
          let (new_l0_ssts, ids) = take_out (ls_l0_sstables snapshot) (lt_upper_level_sst_ids task) in
          and_then (ensure (ids = []) Panic) (\<lambda>_.
          Inr (snapshot\<lparr>ls_l0_sstables := new_l0_ssts\<rparr>)))"

text \<open>\<open>sort_by\<close> on the first keys; it compares nothing, and looks nothing up, in a list of one.\<close>

definition sort_by_first_key :: "'m lsm_state \<Rightarrow> nat list \<Rightarrow> nat list res" where
  "sort_by_first_key snapshot ids =
     (if length ids < 2 then Inr ids
      else
        and_then (map_res (lookup_res (ls_sstables snapshot)) ids) (\<lambda>_.
        Inr (sort_key (\<lambda>i. sst_first_key (the (ls_sstables snapshot i))) ids)))"

definition leveled_apply ::
    "'m lsm_state \<Rightarrow> leveled_task \<Rightarrow> nat list \<Rightarrow> bool \<Rightarrow> ('m lsm_state \<times> nat list) res" where
  "leveled_apply snapshot task output in_recovery =
     and_then (remove_upper snapshot task) (\<lambda>snapshot.
     let files_to_remove = lt_upper_level_sst_ids task @ lt_lower_level_sst_ids task in
     and_then (checked_sub (lt_lower_level task) 1) (\<lambda>j.
     and_then (index (ls_levels snapshot) j) (\<lambda>l.
     let (new_lower_level_ssts, ids) = take_out (snd l) (lt_lower_level_sst_ids task) in
     and_then (ensure (ids = []) Panic) (\<lambda>_.
     and_then (if in_recovery then Inr (new_lower_level_ssts @ output)
               else sort_by_first_key snapshot (new_lower_level_ssts @ output)) (\<lambda>new_lower_level_ssts.
     Inr (snapshot\<lparr>ls_levels := (ls_levels snapshot)[j := (fst l, new_lower_level_ssts)]\<rparr>, files_to_remove))))))"

section \<open>Overlapping tables, on a well-formed state\<close>

lemma filter_map_res_subset:
  assumes "filter_map_res f xs = Inr ys" "\<And>x y. x \<in> set xs \<Longrightarrow> f x = Inr (Some y) \<Longrightarrow> y = x"
  shows "set ys \<subseteq> set xs"
  using assms
proof (induction xs arbitrary: ys)
  case (Cons x xs)
  from Cons.prems(1) obtain r zs where r: "f x = Inr r" "filter_map_res f xs = Inr zs"
    "ys = (case r of None \<Rightarrow> zs | Some y \<Rightarrow> y # zs)" by (auto simp: res_simps)
  have "set zs \<subseteq> set xs" by (rule Cons.IH [OF r(2)]) (use Cons.prems(2) in auto)
  then show ?case using r(1,3) Cons.prems(2) [of x] by (auto split: option.splits)
qed simp

lemma map_res_cong: "(\<And>x. x \<in> set xs \<Longrightarrow> f x = g x) \<Longrightarrow> map_res f xs = map_res g xs"
  by (induction xs) auto

lemma filter_map_res_cong: "(\<And>x. x \<in> set xs \<Longrightarrow> f x = g x) \<Longrightarrow> filter_map_res f xs = filter_map_res g xs"
  by (induction xs) auto

lemma find_overlapping_subset:
  assumes "find_overlapping_ssts st ids n = Inr ys"
  shows "0 < n" "n \<le> length (ls_levels st)" "set ys \<subseteq> set (snd (ls_levels st ! (n - 1)))"
proof -
  obtain b e where n: "0 < n" "n - 1 < length (ls_levels st)"
    and ys: "filter_map_res (\<lambda>i. and_then (lookup_res (ls_sstables st) i) (\<lambda>sst.
        Inr (if sst_last_key sst < b \<or> e < sst_first_key sst then None else Some i))) (snd (ls_levels st ! (n - 1))) = Inr ys"
    using assms by (auto simp: find_overlapping_ssts_def Let_def res_simps checked_sub_def index_def split: if_splits)
  then show "0 < n" "n \<le> length (ls_levels st)" by simp_all
  show "set ys \<subseteq> set (snd (ls_levels st ! (n - 1)))"
    by (rule filter_map_res_subset [OF ys]) (auto simp: res_simps split: if_splits)
qed

lemma find_overlapping_cong:
  assumes "ls_levels st' = ls_levels st" "\<And>i. i \<in> set ids \<Longrightarrow> ls_sstables st' i = ls_sstables st i"
    and "\<And>i. i \<in> live_ids st \<Longrightarrow> ls_sstables st' i = ls_sstables st i"
  shows "find_overlapping_ssts st' ids n = find_overlapping_ssts st ids n"
proof -
  have table: "lookup_res (ls_sstables st') i = lookup_res (ls_sstables st) i"
    if "ls_sstables st' i = ls_sstables st i" for i using that by (simp add: lookup_res_def)
  have keys: "map_res (\<lambda>i. and_then (lookup_res (ls_sstables st') i) f) ids =
      map_res (\<lambda>i. and_then (lookup_res (ls_sstables st) i) f) ids" for f :: "sstable \<Rightarrow> key res"
    by (rule map_res_cong) (simp add: table assms(2))
  have lvl: "and_then (index (ls_levels st) l) (\<lambda>level.
        filter_map_res (\<lambda>i. and_then (lookup_res (ls_sstables st') i) (f i)) (snd level)) =
      and_then (index (ls_levels st) l) (\<lambda>level.
        filter_map_res (\<lambda>i. and_then (lookup_res (ls_sstables st) i) (f i)) (snd level))"
    for f :: "nat \<Rightarrow> sstable \<Rightarrow> nat option res" and l
  proof (cases "l < length (ls_levels st)")
    case True
    then have "filter_map_res (\<lambda>i. and_then (lookup_res (ls_sstables st') i) (f i)) (snd (ls_levels st ! l)) =
        filter_map_res (\<lambda>i. and_then (lookup_res (ls_sstables st) i) (f i)) (snd (ls_levels st ! l))"
      using live_level [OF True] by (intro filter_map_res_cong) (auto simp: table assms(3))
    then show ?thesis using True by (simp add: index_def)
  qed (simp add: index_def)
  show ?thesis unfolding find_overlapping_ssts_def Let_def keys assms(1) lvl ..
qed

text \<open>The range of the chosen tables, and the tables of a level that meet it.\<close>

definition begin_key :: "'m lsm_state \<Rightarrow> nat list \<Rightarrow> key" where
  "begin_key st ids = Min (sst_first_key ` set (tables_of st ids))"

definition end_key :: "'m lsm_state \<Rightarrow> nat list \<Rightarrow> key" where
  "end_key st ids = Max (sst_last_key ` set (tables_of st ids))"

definition overlaps :: "'m lsm_state \<Rightarrow> nat list \<Rightarrow> nat \<Rightarrow> bool" where
  "overlaps st ids i \<longleftrightarrow>
     \<not> (sst_last_key (the (ls_sstables st i)) < begin_key st ids \<or> end_key st ids < sst_first_key (the (ls_sstables st i)))"

lemma find_overlapping_ok:
  assumes ok: "state_ok crc fp S st" and live: "set ids \<subseteq> live_ids st" and ne: "ids \<noteq> []"
    and n: "0 < n" "n \<le> length (ls_levels st)"
  shows "find_overlapping_ssts st ids n = Inr (filter (overlaps st ids) (snd (ls_levels st ! (n - 1))))"
proof -
  let ?t = "\<lambda>i. the (ls_sstables st i)"
  have look: "lookup_res (ls_sstables st) i = Inr (?t i)" if "i \<in> live_ids st" for i
    by (rule state_ok_lookup [OF ok that])
  have keys: "map_res (\<lambda>i. and_then (lookup_res (ls_sstables st) i) (\<lambda>t. Inr (f t))) ids = Inr (map (f \<circ> ?t) ids)"
    for f :: "sstable \<Rightarrow> key"
    by (rule map_res_Inr) (use look live in auto)
  have lv: "set (snd (ls_levels st ! (n - 1))) \<subseteq> live_ids st" by (rule live_level) (use n in simp)
  have imgs: "Min (set (map (sst_first_key \<circ> ?t) ids)) = begin_key st ids"
      "Max (set (map (sst_last_key \<circ> ?t) ids)) = end_key st ids"
    by (simp_all add: begin_key_def end_key_def tables_of_def image_comp comp_def)
  have "filter_map_res (\<lambda>i. and_then (lookup_res (ls_sstables st) i) (\<lambda>sst.
        Inr (if sst_last_key sst < begin_key st ids \<or> end_key st ids < sst_first_key sst then None else Some i)))
      (snd (ls_levels st ! (n - 1))) = Inr (map (\<lambda>i. i) (filter (overlaps st ids) (snd (ls_levels st ! (n - 1)))))"
    by (rule filter_map_res_Inr) (use look lv in \<open>auto simp: overlaps_def\<close>)
  then show ?thesis
    using n ne unfolding find_overlapping_ssts_def Let_def keys
    by (simp add: min_res_def max_res_def imgs [simplified] checked_sub_def index_def)
qed

lemma key_range:
  assumes ok: "state_ok crc fp S st" and live: "set ids \<subseteq> live_ids st" and e: "e \<in> pairs_of crc st ids"
  shows "begin_key st ids \<le> fst e" "fst e \<le> end_key st ids"
proof -
  obtain i where i: "i \<in> set ids" "e \<in> set (sst_entries crc (the (ls_sstables st i)))"
    using e by (auto simp: pairs_of_def)
  let ?t = "the (ls_sstables st i)"
  have t: "?t \<in> set (tables_of st ids)" using i(1) by (simp add: tables_of_def)
  have "sst_ok crc ?t" using ok live i(1) by (auto simp: state_ok_def table_ok_def)
  then have between: "sst_first_key ?t \<le> fst e" "fst e \<le> sst_last_key ?t" using i(2) by (rule sst_entries_between)+
  have "begin_key st ids \<le> sst_first_key ?t" unfolding begin_key_def by (rule Min_le) (use t in auto)
  then show "begin_key st ids \<le> fst e" using between(1) by (rule order_trans)
  have "sst_last_key ?t \<le> end_key st ids" unfolding end_key_def by (rule Max_ge) (use t in auto)
  with between(2) show "fst e \<le> end_key st ids" by (rule order_trans)
qed

lemma level_apart:
  assumes "level_ok crc ts" "t \<in> set ts" "u \<in> set ts" "t \<noteq> u"
  shows "sst_last_key t < sst_first_key u \<or> sst_last_key u < sst_first_key t"
proof -
  obtain a b where ab: "a < length ts" "b < length ts" "t = ts ! a" "u = ts ! b"
    using assms(2,3) by (auto simp: in_set_conv_nth)
  then have "a < b \<or> b < a" using assms(4) by (cases a b rule: linorder_cases) auto
  then show ?thesis
    using assms(1) ab by (auto simp: level_ok_def dest: sorted_wrt_nth_less)
qed

text \<open>A table of the level that stays lies wholly before or wholly after everything that is merged.\<close>

lemma retained_apart:
  assumes ok: "state_ok crc fp S st" and live: "set ids \<subseteq> live_ids st"
    and j: "j < length (ls_levels st)" and i: "i \<in> set (snd (ls_levels st ! j))" "\<not> overlaps st ids i"
    and low: "low = filter (overlaps st ids) (snd (ls_levels st ! j))"
  shows "(\<forall>e \<in> pairs_of crc st (ids @ low). sst_last_key (the (ls_sstables st i)) < fst e) \<or>
    (\<forall>e \<in> pairs_of crc st (ids @ low). fst e < sst_first_key (the (ls_sstables st i)))"
proof -
  let ?T = "\<lambda>i. the (ls_sstables st i)"
  have lvl: "level_ok crc (tables_of st (snd (ls_levels st ! j)))" using ok j by (auto simp: state_ok_def)
  have sst: "sst_ok crc (?T k)" if "k \<in> set (snd (ls_levels st ! j))" for k
    using lvl that by (auto simp: level_ok_def tables_of_def)
  have low_live: "set low \<subseteq> live_ids st" using live_level [OF j] low by auto
  have le: "sst_first_key (?T k) \<le> sst_last_key (?T k)" if "k \<in> set (snd (ls_levels st ! j))" for k
    by (rule sst_first_le_last [OF sst [OF that]])
  have apart: "sst_last_key (?T i) < sst_first_key (?T k) \<or> sst_last_key (?T k) < sst_first_key (?T i)"
    if "k \<in> set low" for k
  proof (rule level_apart [OF lvl])
    show "?T i \<in> set (tables_of st (snd (ls_levels st ! j)))" "?T k \<in> set (tables_of st (snd (ls_levels st ! j)))"
      using i(1) that low by (auto simp: tables_of_def)
    show "?T i \<noteq> ?T k" using i(2) that low by (auto simp: overlaps_def)
  qed
  consider "sst_last_key (?T i) < begin_key st ids" | "end_key st ids < sst_first_key (?T i)"
    using i(2) by (auto simp: overlaps_def)
  then show ?thesis
  proof cases
    case 1
    have "sst_last_key (?T i) < fst e" if "e \<in> pairs_of crc st (ids @ low)" for e
    proof (cases "e \<in> pairs_of crc st ids")
      case True
      then show ?thesis using key_range(1) [OF ok live True] 1 by simp
    next
      case False
      then have "e \<in> pairs_of crc st low" using that by simp
      then obtain k where k: "k \<in> set low" "e \<in> set (sst_entries crc (?T k))" by (auto simp: pairs_of_def)
      then have kl: "k \<in> set (snd (ls_levels st ! j))" "\<not> sst_last_key (?T k) < begin_key st ids"
        using low by (auto simp: overlaps_def)
      have "\<not> sst_last_key (?T k) < sst_first_key (?T i)" using 1 kl(2) le [OF i(1)] by force
      then have "sst_last_key (?T i) < sst_first_key (?T k)" using apart [OF k(1)] by blast
      also have "\<dots> \<le> fst e" by (rule sst_entries_between(1) [OF sst [OF kl(1)] k(2)])
      finally show ?thesis .
    qed
    then show ?thesis by blast
  next
    case 2
    have "fst e < sst_first_key (?T i)" if "e \<in> pairs_of crc st (ids @ low)" for e
    proof (cases "e \<in> pairs_of crc st ids")
      case True
      then show ?thesis using key_range(2) [OF ok live True] 2 by simp
    next
      case False
      then have "e \<in> pairs_of crc st low" using that by simp
      then obtain k where k: "k \<in> set low" "e \<in> set (sst_entries crc (?T k))" by (auto simp: pairs_of_def)
      then have kl: "k \<in> set (snd (ls_levels st ! j))" "\<not> end_key st ids < sst_first_key (?T k)"
        using low by (auto simp: overlaps_def)
      have "\<not> sst_last_key (?T i) < sst_first_key (?T k)" using 2 kl(2) le [OF i(1)] by force
      then have "sst_last_key (?T k) < sst_first_key (?T i)" using apart [OF k(1)] by blast
      then show ?thesis using sst_entries_between(2) [OF sst [OF kl(1)] k(2)] by simp
    qed
    then show ?thesis by blast
  qed
qed

section \<open>Sorting the new level\<close>

lemma sorted_wrt_sort_key:
  "distinct xs \<Longrightarrow> sorted_wrt (\<lambda>a b. a \<noteq> b \<and> f a \<le> f b) (sort_key f xs)"
proof -
  assume "distinct xs"
  then have d: "distinct (sort_key f xs)" by simp
  have "sorted_wrt (\<lambda>a b. f a \<le> f b) (sort_key f xs)"
    using sorted_sort_key [of f xs] by (simp add: sorted_map)
  with d show ?thesis
    by (auto simp: sorted_wrt_iff_nth_less nth_eq_iff_index_eq)
qed

lemma level_ok_sort:
  assumes d: "distinct ids" and ok: "\<forall>i \<in> set ids. sst_ok crc (T i)"
    and apart: "\<And>i k. i \<in> set ids \<Longrightarrow> k \<in> set ids \<Longrightarrow> i \<noteq> k \<Longrightarrow>
      sst_last_key (T i) < sst_first_key (T k) \<or> sst_last_key (T k) < sst_first_key (T i)"
  shows "level_ok crc (map T (sort_key (\<lambda>i. sst_first_key (T i)) ids))"
proof -
  have "sorted_wrt (\<lambda>i k. sst_last_key (T i) < sst_first_key (T k)) (sort_key (\<lambda>i. sst_first_key (T i)) ids)"
  proof (rule sorted_wrt_mono_rel [OF _ sorted_wrt_sort_key [OF d]])
    fix i k assume "i \<in> set (sort_key (\<lambda>i. sst_first_key (T i)) ids)" "k \<in> set (sort_key (\<lambda>i. sst_first_key (T i)) ids)"
      and le: "i \<noteq> k \<and> sst_first_key (T i) \<le> sst_first_key (T k)"
    then have ik: "i \<in> set ids" "k \<in> set ids" by simp_all
    have "sst_first_key (T k) \<le> sst_last_key (T k)" using sst_first_le_last ok ik(2) by blast
    then have "\<not> sst_last_key (T k) < sst_first_key (T i)" using le by force
    then show "sst_last_key (T i) < sst_first_key (T k)" using apart [OF ik] le by blast
  qed
  then show ?thesis using ok by (auto simp: level_ok_def sorted_wrt_map)
qed

lemma take_out_distinct:
  "distinct xs \<Longrightarrow> take_out xs ids = (filter (\<lambda>x. x \<notin> set ids) xs, filter (\<lambda>x. x \<notin> set xs) ids)"
proof (induction xs arbitrary: ids)
  case (Cons x xs)
  have "filter (\<lambda>y. y \<notin> set (removeAll x ids)) xs = filter (\<lambda>y. y \<notin> set ids) xs"
    by (rule filter_cong) (use Cons.prems in auto)
  moreover have "filter (\<lambda>y. y \<notin> set xs) (removeAll x ids) = filter (\<lambda>y. y \<notin> set (x # xs)) ids"
    by (auto simp: removeAll_filter_not_eq intro: filter_cong)
  moreover have "filter (\<lambda>y. y \<notin> set xs) ids = filter (\<lambda>y. y \<notin> set (x # xs)) ids" if "x \<notin> set ids"
    using that by (auto intro: filter_cong)
  ultimately show ?case using Cons by simp
qed simp

section \<open>The contract\<close>

definition leveled_fits :: "compaction_controller \<Rightarrow> 'm lsm_state \<Rightarrow> leveled_task \<Rightarrow> bool" where
  "leveled_fits c st task \<longleftrightarrow> flush_to_l0 c \<and> lt_upper_level_sst_ids task \<noteq> [] \<and>
     (case lt_upper_level task of
        None \<Rightarrow> set (lt_upper_level_sst_ids task) \<subseteq> set (ls_l0_sstables st)
      | Some upper \<Rightarrow> 0 < upper \<and> upper < length (ls_levels st) \<and> lt_lower_level task = upper + 1 \<and>
          set (lt_upper_level_sst_ids task) \<subseteq> set (snd (ls_levels st ! (upper - 1)))) \<and>
     find_overlapping_ssts st (lt_upper_level_sst_ids task) (lt_lower_level task) = Inr (lt_lower_level_sst_ids task)"

lemma leveled_fits_upper_live: "leveled_fits c st task \<Longrightarrow> set (lt_upper_level_sst_ids task) \<subseteq> live_ids st"
  using live_level [of "the (lt_upper_level task) - 1" st]
  by (cases "lt_upper_level task") (auto simp: leveled_fits_def live_ids_def)

lemma shape_ok_same_numbers:
  "flush_to_l0 c \<Longrightarrow> shape_ok c st \<Longrightarrow> map fst (ls_levels st') = map fst (ls_levels st) \<Longrightarrow> shape_ok c st'"
proof -
  assume a: "flush_to_l0 c" "shape_ok c st" "map fst (ls_levels st') = map fst (ls_levels st)"
  then have "length (ls_levels st') = length (ls_levels st)" by (metis length_map)
  then show ?thesis
    using a by (auto simp: shape_ok_def flush_to_l0_def split: compaction_controller.splits)
qed

text \<open>The state between the two halves of the method: the upper tables are gone, nothing else changed.\<close>

definition upper_removed :: "(bytes \<Rightarrow> u32) \<Rightarrow> compaction_controller \<Rightarrow> 'm lsm_state \<Rightarrow> leveled_task \<Rightarrow> 'm lsm_state \<Rightarrow> bool" where
  "upper_removed crc c st task st1 \<longleftrightarrow>
     ls_memtable st1 = ls_memtable st \<and> ls_imm_memtables st1 = ls_imm_memtables st \<and>
     ls_sstables st1 = ls_sstables st \<and> live_ids st1 = live_ids st - set (lt_upper_level_sst_ids task) \<and>
     places_ok st1 \<and> shape_ok c st1 \<and> (\<forall>l \<in> set (ls_levels st1). level_ok crc (tables_of st1 (snd l))) \<and>
     length (ls_levels st1) = length (ls_levels st) \<and>
     ls_levels st1 ! (lt_lower_level task - 1) = ls_levels st ! (lt_lower_level task - 1)"

lemma remove_upper_ok:
  assumes ok: "state_ok crc fp S st" and tree: "tree_ok crc S c st" and task: "leveled_fits c st task"
  obtains st1 where "remove_upper st task = Inr st1" "upper_removed crc c st task st1"
proof -
  let ?up = "lt_upper_level_sst_ids task"
  note result = that
  have places: "places_ok st" and shape: "shape_ok c st" using tree by (simp_all add: tree_ok_def)
  have c: "flush_to_l0 c" using task by (simp add: leveled_fits_def)
  have lvl: "\<forall>l \<in> set (ls_levels st). level_ok crc (tables_of st (snd l))" using ok by (simp add: state_ok_def)
  show thesis
  proof (cases "lt_upper_level task")
    case None
    have up: "set ?up \<subseteq> set (ls_l0_sstables st)" using task None by (simp add: leveled_fits_def)
    define st1 where "st1 = st\<lparr>ls_l0_sstables := filter (\<lambda>i. i \<notin> set ?up) (ls_l0_sstables st)\<rparr>"
    have "take_out (ls_l0_sstables st) ?up = (ls_l0_sstables st1, [])"
      using places up by (auto simp: take_out_distinct places_ok_def st1_def filter_empty_conv)
    then have "remove_upper st task = Inr st1" using None by (simp add: remove_upper_def st1_def)
    moreover have "upper_removed crc c st task st1"
      using places_l0 [OF places up] lvl shape_ok_same_numbers [OF c shape, of st1]
      by (simp add: upper_removed_def st1_def tables_of_def)
    ultimately show thesis by (rule result)
  next
    case (Some upper)
    have up: "set ?up \<subseteq> set (snd (ls_levels st ! (upper - 1)))" and u: "0 < upper" "upper < length (ls_levels st)"
      "lt_lower_level task = upper + 1" using task Some by (simp_all add: leveled_fits_def)
    define l where "l = ls_levels st ! (upper - 1)"
    define ys where "ys = filter (\<lambda>i. i \<notin> set ?up) (snd l)"
    define st1 where "st1 = st\<lparr>ls_levels := (ls_levels st)[upper - 1 := (fst l, ys)]\<rparr>"
    have len: "upper - 1 < length (ls_levels st)" using u by simp
    have lin: "l \<in> set (ls_levels st)" using len by (simp add: l_def)
    have d: "distinct (snd l)" using places lin by (auto simp: places_ok_def distinct_concat_iff)
    have "take_out (snd l) ?up = (ys, [])"
      using d up by (auto simp: take_out_distinct ys_def l_def filter_empty_conv)
    then have rem: "remove_upper st task = Inr st1"
      using Some u len by (simp add: remove_upper_def checked_sub_def index_def st1_def l_def)
    have disj: "set ys \<inter> (live_ids st - set (snd (ls_levels st ! (upper - 1)))) = {}" by (auto simp: ys_def l_def)
    have dy: "distinct ys" using d by (simp add: ys_def)
    note p = places_level [OF places len dy disj, where n = "fst l", folded st1_def]
    have "live_ids st1 = live_ids st - set ?up"
      using p(2) live_level [OF len] up by (auto simp: ys_def l_def)
    moreover have "map fst (ls_levels st1) = map fst (ls_levels st)"
      by (simp add: st1_def map_update l_def) (metis len list_update_id map_update)
    then have "shape_ok c st1" by (rule shape_ok_same_numbers [OF c shape])
    moreover have "level_ok crc (tables_of st1 (snd k))" if "k \<in> set (ls_levels st1)" for k
    proof (rule applied_level_ok [OF lvl])
      have "level_ok crc (tables_of st (snd l))" using lvl lin by blast
      then show "level_ok crc (tables_of st ys)"
        by (auto simp: level_ok_def tables_of_def ys_def sorted_wrt_map intro: sorted_wrt_filter)
      show "ls_sstables st1 = ls_sstables st" by (simp add: st1_def)
      show "k \<in> set ((ls_levels st)[upper - 1 := (fst l, ys)])" using that by (simp add: st1_def)
    qed
    ultimately have "upper_removed crc c st task st1"
      using p(1) u by (simp add: upper_removed_def st1_def)
    with rem show thesis by (rule result)
  qed
qed

lemma leveled_apply_ok:
  assumes ok: "state_ok crc fp S st" and tree: "tree_ok crc S c st" and task: "leveled_fits c st task"
    and out: "output_fits crc st (lt_upper_level_sst_ids task @ lt_lower_level_sst_ids task) out"
  shows "\<exists>st'. leveled_apply st task out False =
      Inr (st', lt_upper_level_sst_ids task @ lt_lower_level_sst_ids task) \<and>
    applied crc c st (lt_upper_level_sst_ids task @ lt_lower_level_sst_ids task) out st'"
proof -
  let ?up = "lt_upper_level_sst_ids task" and ?low = "lt_lower_level_sst_ids task"
  let ?T = "\<lambda>i. the (ls_sstables st i)"
  obtain st1 where rem: "remove_upper st task = Inr st1" and removed: "upper_removed crc c st task st1"
    by (rule remove_upper_ok [OF ok tree task])
  have st1: "ls_memtable st1 = ls_memtable st" "ls_imm_memtables st1 = ls_imm_memtables st"
      "ls_sstables st1 = ls_sstables st" "live_ids st1 = live_ids st - set ?up" "places_ok st1" "shape_ok c st1"
      "\<forall>l \<in> set (ls_levels st1). level_ok crc (tables_of st1 (snd l))"
      "length (ls_levels st1) = length (ls_levels st)"
      "ls_levels st1 ! (lt_lower_level task - 1) = ls_levels st ! (lt_lower_level task - 1)"
    using removed by (simp_all add: upper_removed_def)
  have c: "flush_to_l0 c" "?up \<noteq> []" and low: "find_overlapping_ssts st ?up (lt_lower_level task) = Inr ?low"
    using task by (simp_all add: leveled_fits_def)
  have ulive: "set ?up \<subseteq> live_ids st" by (rule leveled_fits_upper_live [OF task])
  define j where "j = lt_lower_level task - 1"
  note n = find_overlapping_subset [OF low, folded j_def]
  have j: "j < length (ls_levels st)" using n(1,2) by (simp add: j_def)
  define l where "l = ls_levels st ! j"
  have lj: "ls_levels st1 ! j = l" using st1(9) by (simp add: l_def j_def)
  have loweq: "?low = filter (overlaps st ?up) (snd l)"
    using find_overlapping_ok [OF ok ulive c(2) n(1,2)] low by (simp add: l_def j_def)
  define rest where "rest = filter (\<lambda>i. i \<notin> set ?low) (snd l)"
  have lin: "l \<in> set (ls_levels st)" "l \<in> set (ls_levels st1)"
    using j lj st1(8) nth_mem [of j "ls_levels st"] nth_mem [of j "ls_levels st1"] by (auto simp: l_def)
  have dl: "distinct (snd l)" using st1(5) lin(2) by (auto simp: places_ok_def distinct_concat_iff)
  have take: "take_out (snd l) ?low = (rest, [])"
    using dl n(3) by (auto simp: take_out_distinct rest_def l_def filter_empty_conv)
  have o': "distinct out" "set out \<inter> live_ids st = {}" "level_ok crc (tables_of st out)"
      "pairs_of crc st out \<subseteq> pairs_of crc st (?up @ ?low)" "\<forall>i \<in> set out. ls_sstables st i \<noteq> None"
    using out by (simp_all add: output_fits_def)
  have llive: "set (snd l) \<subseteq> live_ids st" using live_level [OF j] by (simp add: l_def)
  define ids where "ids = sort_key (\<lambda>i. sst_first_key (?T i)) (rest @ out)"
  have dr: "distinct (rest @ out)" using dl o'(1,2) llive by (auto simp: rest_def)
  have present: "ls_sstables st i \<noteq> None" if "i \<in> set (rest @ out)" for i
    using that o'(5) llive ok by (auto simp: rest_def state_ok_def)
  have sst: "sst_ok crc (?T i)" if i: "i \<in> set (rest @ out)" for i
  proof -
    obtain t where "ls_sstables st i = Some t" using present [OF i] by blast
    then show ?thesis using ok by (auto simp: state_ok_def table_ok_def)
  qed
  have "sort_by_first_key st1 (rest @ out) = Inr ids"
  proof (cases "length (rest @ out) < 2")
    case True
    then have "ids = rest @ out" unfolding ids_def by (cases "rest @ out") (auto simp: numeral_2_eq_2 less_Suc_eq)
    then show ?thesis using True by (simp add: sort_by_first_key_def)
  next
    case False
    have "map_res (lookup_res (ls_sstables st)) (rest @ out) = Inr (map ?T (rest @ out))"
    proof (rule map_res_Inr)
      fix i assume "i \<in> set (rest @ out)"
      from present [OF this] show "lookup_res (ls_sstables st) i = Inr (?T i)" by (auto simp: lookup_res_def)
    qed
    then show ?thesis using False by (simp add: sort_by_first_key_def ids_def st1(3))
  qed
  note sorted = this
  define st2 where "st2 = st1\<lparr>ls_levels := (ls_levels st1)[j := (fst l, ids)]\<rparr>"
  have jj: "lt_lower_level task - Suc 0 = j" by (simp add: j_def)
  have res: "leveled_apply st task out False = Inr (st2, ?up @ ?low)"
    using n(1) j st1(8) take sorted
    by (simp add: leveled_apply_def rem Let_def checked_sub_def index_def jj lj st2_def)
  have lvl_rest: "level_ok crc (tables_of st rest)"
    using st1(7) lin(2) by (auto simp: level_ok_def tables_of_def rest_def sorted_wrt_map st1(3) intro: sorted_wrt_filter)
  have bounds: "sst_first_key (?T k) \<in> fst ` pairs_of crc st (?up @ ?low)" "sst_last_key (?T k) \<in> fst ` pairs_of crc st (?up @ ?low)"
    if k: "k \<in> set out" for k
  proof -
    have t: "sst_ok crc (?T k)" using sst k by simp
    note ne = sst_ok_entries [OF t]
    have "set (sst_entries crc (?T k)) \<subseteq> pairs_of crc st (?up @ ?low)"
      using o'(4) k by (auto simp: pairs_of_def)
    then show "sst_first_key (?T k) \<in> fst ` pairs_of crc st (?up @ ?low)" "sst_last_key (?T k) \<in> fst ` pairs_of crc st (?up @ ?low)"
      using hd_in_set [OF ne(1)] last_in_set [OF ne(1)] ne(2) sst_ok_last [OF t] by (metis image_eqI subsetD)+
  qed
  have cross: "sst_last_key (?T i) < sst_first_key (?T k) \<or> sst_last_key (?T k) < sst_first_key (?T i)"
    if i: "i \<in> set rest" and k: "k \<in> set out" for i k
  proof -
    have "i \<in> set (snd (ls_levels st ! j))" "\<not> overlaps st ?up i" using i loweq by (auto simp: rest_def l_def)
    note apart = retained_apart [OF ok ulive j this loweq [unfolded l_def]]
    obtain e e' where "e \<in> pairs_of crc st (?up @ ?low)" "fst e = sst_first_key (?T k)"
      "e' \<in> pairs_of crc st (?up @ ?low)" "fst e' = sst_last_key (?T k)"
      using bounds [OF k] unfolding image_iff by metis
    with apart show ?thesis by metis
  qed
  have apart: "sst_last_key (?T i) < sst_first_key (?T k) \<or> sst_last_key (?T k) < sst_first_key (?T i)"
    if ik: "i \<in> set (rest @ out)" "k \<in> set (rest @ out)" "i \<noteq> k" for i k
  proof -
    have id: "sst_id (?T i) = i" if "i \<in> set (rest @ out)" for i
      using present [OF that] ok by (auto simp: state_ok_def)
    have ne: "?T i \<noteq> ?T k" using id [OF ik(1)] id [OF ik(2)] ik(3) by auto
    consider "i \<in> set rest" "k \<in> set rest" | "i \<in> set rest" "k \<in> set out" | "i \<in> set out" "k \<in> set rest"
      | "i \<in> set out" "k \<in> set out" using ik by auto
    then show ?thesis
    proof cases
      case 1
      then show ?thesis by (intro level_apart [OF lvl_rest _ _ ne]) (auto simp: tables_of_def)
    next
      case 4
      then show ?thesis by (intro level_apart [OF o'(3) _ _ ne]) (auto simp: tables_of_def)
    qed (use cross in blast)+
  qed
  have lvl_ids: "level_ok crc (tables_of st1 ids)"
    using level_ok_sort [OF dr, of crc ?T] sst apart unfolding tables_of_def st1(3) ids_def by blast
  have len: "j < length (ls_levels st1)" using j st1(8) by simp
  have disj: "set ids \<inter> (live_ids st1 - set (snd (ls_levels st1 ! j))) = {}"
    using o'(2) lj st1(4) by (auto simp: ids_def rest_def)
  have dids: "distinct ids" using dr by (simp add: ids_def)
  note p = places_level [OF st1(5) len dids disj, where n = "fst l", folded st2_def]
  have llive1: "set (snd l) \<subseteq> live_ids st1" using live_level [OF len] lj by simp
  have lowsub: "set ?low \<subseteq> set (snd l)" using loweq by auto
  have "live_ids st2 = (live_ids st - set (?up @ ?low)) \<union> set out"
    unfolding p(2) lj using llive1 lowsub st1(4) o'(2) by (auto simp: ids_def rest_def)
  moreover have "map fst (ls_levels st2) = map fst (ls_levels st1)"
    by (simp add: st2_def map_update lj [symmetric]) (metis len list_update_id map_update)
  then have "shape_ok c st2" by (rule shape_ok_same_numbers [OF c(1) st1(6)])
  moreover have "level_ok crc (tables_of st2 (snd k))" if "k \<in> set (ls_levels st2)" for k
    by (rule applied_level_ok [OF st1(7) lvl_ids]) (use that in \<open>simp_all add: st2_def\<close>)
  ultimately have "applied crc c st (?up @ ?low) out st2"
    using p(1) st1(1-3) by (simp add: applied_def st2_def)
  with res show ?thesis by blast
qed

interpretation leveled: compaction_strategy crc fp "S :: ('m, key, bytes) skip_ops" c "leveled_fits c"
    "\<lambda>task. lt_upper_level_sst_ids task @ lt_lower_level_sst_ids task" "\<lambda>st task out. leveled_apply st task out False"
proof
  fix st :: "'m lsm_state" and task ts out
  assume task: "leveled_fits c st task"
  have low: "find_overlapping_ssts st (lt_upper_level_sst_ids task) (lt_lower_level task) =
      Inr (lt_lower_level_sst_ids task)" using task by (simp add: leveled_fits_def)
  note ulive = leveled_fits_upper_live [OF task]
  note n = find_overlapping_subset [OF low]
  show "set (lt_upper_level_sst_ids task @ lt_lower_level_sst_ids task) \<subseteq> live_ids st"
    using ulive n(3) live_level [of "lt_lower_level task - 1" st] n(1,2) by (simp add: subset_trans)
  show "leveled_fits c (insert_ssts ts st) task"
    if ok: "state_ok crc fp S st" and new: "\<forall>t \<in> set ts. ls_sstables st (sst_id t) = None"
  proof -
    have same: "ls_sstables (insert_ssts ts st) i = ls_sstables st i" if i: "i \<in> live_ids st" for i
    proof (rule insert_ssts_other)
      have "ls_sstables st i \<noteq> None" using ok i by (simp add: state_ok_def)
      then show "i \<notin> sst_id ` set ts" using new by auto
    qed
    have "find_overlapping_ssts (insert_ssts ts st) (lt_upper_level_sst_ids task) (lt_lower_level task) =
        find_overlapping_ssts st (lt_upper_level_sst_ids task) (lt_lower_level task)"
      by (rule find_overlapping_cong) (use same ulive in auto)
    then show ?thesis using task by (simp add: leveled_fits_def cong: option.case_cong)
  qed
  show "\<exists>st'. leveled_apply st task out False =
        Inr (st', lt_upper_level_sst_ids task @ lt_lower_level_sst_ids task) \<and>
      applied crc c st (lt_upper_level_sst_ids task @ lt_lower_level_sst_ids task) out st'"
    if "state_ok crc fp S st" "tree_ok crc S c st"
      "output_fits crc st (lt_upper_level_sst_ids task @ lt_lower_level_sst_ids task) out"
    by (rule leveled_apply_ok [OF that(1,2) task that(3)])
qed

section \<open>Level targets\<close>

definition targets_ok :: "nat \<Rightarrow> nat list \<Rightarrow> nat \<Rightarrow> bool" where
  "targets_ok n target base \<longleftrightarrow>
     length target = n \<and> 0 < base \<and> base \<le> n \<and> (\<forall>k < base - 1. target ! k = 0) \<and>
     (base < n \<longrightarrow> 0 < target ! (base - 1))"

text \<open>Before the loop gets to level \<open>i - 1\<close>, the levels below \<open>i\<close> are still zero.\<close>

definition targets_from :: "nat \<Rightarrow> nat \<Rightarrow> nat list \<Rightarrow> nat \<Rightarrow> bool" where
  "targets_from n i target base \<longleftrightarrow>
     length target = n \<and> i < base \<and> base \<le> n \<and> (\<forall>k < base - 1. target ! k = 0) \<and>
     (base < n \<longrightarrow> 0 < target ! (base - 1))"

lemma target_loop_ok:
  assumes "0 < lo_level_size_multiplier o'" "i < n" "targets_from n i target base"
  obtains target' base' where "target_loop o' b i (target, base) = Inr (target', base')"
    "targets_ok n target' base'" "\<forall>k. i \<le> k \<longrightarrow> target' ! k = target ! k"
  using assms(2,3)
proof (induction i arbitrary: target base thesis)
  case 0
  show ?case
    by (rule 0(1) [of target base]) (use 0(3) in \<open>simp_all add: targets_from_def targets_ok_def\<close>)
next
  case (Suc i)
  define t where "t = (if b < target ! (i + 1) then target[i := target ! (i + 1) div lo_level_size_multiplier o'] else target)"
  define b' where "b' = (if 0 < t ! i then i + 1 else base)"
  have from': "length target = n" "Suc i < base" "base \<le> n" "\<forall>k < base - 1. target ! k = 0"
      "base < n \<longrightarrow> 0 < target ! (base - 1)" using Suc.prems(3) by (simp_all add: targets_from_def)
  have tlen: "length t = n" using from'(1) by (simp add: t_def)
  have same: "t ! k = target ! k" if "k \<noteq> i" for k using that by (simp add: t_def)
  have next': "targets_from n i t b'"
  proof (cases "0 < t ! i")
    case True
    then show ?thesis using from'(2-4) tlen same Suc.prems(2) by (simp add: targets_from_def b'_def)
  next
    case False
    have "t ! k = 0" if "k < base - 1" for k using False same from'(4) that by (cases "k = i") auto
    then show ?thesis using False from' tlen same [of "base - 1"] by (simp add: targets_from_def b'_def)
  qed
  have "i < n" using Suc.prems(2) by simp
  with next' obtain target' base' where step: "target_loop o' b i (t, b') = Inr (target', base')"
      "targets_ok n target' base'" "\<forall>k. i \<le> k \<longrightarrow> target' ! k = t ! k"
    using Suc.IH by blast
  have "index target (i + 1) = Inr (target ! (i + 1))" using Suc.prems(2) from'(1) by (simp add: index_def)
  then have "target_loop o' b (Suc i) (target, base) = target_loop o' b i (t, b')"
    using assms(1) by (simp add: checked_div_def Let_def t_def b'_def split del: if_split cong: if_cong)
  then have "target_loop o' b (Suc i) (target, base) = Inr (target', base')" using step(1) by simp
  moreover have "\<forall>k. Suc i \<le> k \<longrightarrow> target' ! k = target ! k" using step(3) same by simp
  ultimately show ?case by (intro Suc.prems(1) [OF _ step(2)])
qed

text \<open>The base size fits exactly when the setting is below \<open>2 ^ 44\<close> megabytes.\<close>

lemma base_level_size_bytes_ok:
  "base_level_size_bytes o' =
     (if lo_base_level_size_mb o' < 2 ^ 44 then Inr (lo_base_level_size_mb o' * 1024 * 1024) else Inl Panic)"
  by (simp add: base_level_size_bytes_def checked_mul_def)

lemma level_targets_ok:
  assumes "0 < lo_level_size_multiplier o'" "0 < lo_max_levels o'" "length sizes = lo_max_levels o'"
    and "lo_base_level_size_mb o' < 2 ^ 44"
  obtains target base where "level_targets o' sizes = Inr (target, base)"
    "targets_ok (lo_max_levels o') target base"
    "target ! (lo_max_levels o' - 1) = max (sizes ! (lo_max_levels o' - 1)) (lo_base_level_size_mb o' * 1024 * 1024)"
proof -
  let ?n = "lo_max_levels o'"
  let ?b = "lo_base_level_size_mb o' * 1024 * 1024"
  let ?t = "(replicate ?n 0)[?n - 1 := max (sizes ! (?n - 1)) ?b]"
  have "targets_from ?n (?n - 1) ?t ?n" using assms(2) by (auto simp: targets_from_def nth_list_update)
  moreover have "?n - 1 < ?n" using assms(2) by simp
  ultimately obtain target base where
    "target_loop o' ?b (?n - 1) (?t, ?n) = Inr (target, base)"
    "targets_ok ?n target base" "\<forall>k. ?n - 1 \<le> k \<longrightarrow> target ! k = ?t ! k"
    using target_loop_ok [OF assms(1)] by blast
  then show thesis
    using assms(2-4)
    by (intro that [of target base]) (auto simp: level_targets_def base_level_size_bytes_ok checked_sub_def index_def Let_def)
qed

section \<open>Generated tasks fit\<close>

lemma set_insert_by [simp]: "set (insert_by le x ys) = insert x (set ys)"
  by (induction ys) auto

lemma set_sort_by [simp]: "set (sort_by le xs) = set xs"
  by (induction xs) (simp_all add: sort_by_def)

lemma shape_ok_leveled:
  "shape_ok (LeveledController o') st \<Longrightarrow> length (ls_levels st) = lo_max_levels o' \<and> 0 < lo_max_levels o'"
  by (auto simp: shape_ok_def dest: arg_cong [of _ _ length])

lemma leveled_generate_cases:
  assumes "leveled_generate o' st = Inr (Some task)"
  obtains base where "leveled_l0_task o' st base = Inr (Some task)"
      "lo_level0_file_num_compaction_trigger o' < length (ls_l0_sstables st)"
  | level where "leveled_level_task o' st level = Inr (Some task)"
proof -
  obtain sizes target base where g: "real_level_size st = Inr sizes" "level_targets o' sizes = Inr (target, base)"
    using assms by (auto simp: leveled_generate_def res_simps)
  show thesis
  proof (cases "lo_level0_file_num_compaction_trigger o' < length (ls_l0_sstables st)")
    case True
    then show thesis using assms g by (intro that(1) [of base]) (simp_all add: leveled_generate_def)
  next
    case False
    then obtain ps where "(case sort_by priority_ge ps of [] \<Rightarrow> Inr None
        | (_, level) # _ \<Rightarrow> leveled_level_task o' st level) = Inr (Some task)"
      using assms g by (auto simp: leveled_generate_def res_simps)
    then show thesis using that(2) by (cases "sort_by priority_ge ps") (auto split: prod.splits)
  qed
qed

lemma leveled_generate_fits:
  assumes "leveled_generate o' st = Inr (Some task)"
  shows "leveled_fits (LeveledController o') st task"
proof -
  have c: "flush_to_l0 (LeveledController o')" by (simp add: flush_to_l0_def)
  show ?thesis
    using assms
  proof (cases rule: leveled_generate_cases)
    case (1 base)
    then obtain low where "find_overlapping_ssts st (ls_l0_sstables st) base = Inr low"
      "task = \<lparr>lt_upper_level = None, lt_upper_level_sst_ids = ls_l0_sstables st, lt_lower_level = base,
        lt_lower_level_sst_ids = low, lt_is_lower_level_bottom_level = (base = lo_max_levels o')\<rparr>"
      by (auto simp: leveled_l0_task_def res_simps)
    moreover have "ls_l0_sstables st \<noteq> []" using 1 by auto
    ultimately show ?thesis using c by (simp add: leveled_fits_def)
  next
    case (2 level)
    then obtain i x low where l: "checked_sub level 1 = Inr i" "index (ls_levels st) i = Inr x" "snd x \<noteq> []"
      "find_overlapping_ssts st [Min (set (snd x))] (level + 1) = Inr low"
      "task = \<lparr>lt_upper_level = Some level, lt_upper_level_sst_ids = [Min (set (snd x))], lt_lower_level = level + 1,
        lt_lower_level_sst_ids = low, lt_is_lower_level_bottom_level = (level + 1 = lo_max_levels o')\<rparr>"
      by (auto simp: leveled_level_task_def res_simps min_res_def split: if_splits)
    have "level + 1 \<le> length (ls_levels st)" by (rule find_overlapping_subset(2) [OF l(4)])
    moreover have "0 < level" "x = ls_levels st ! (level - 1)"
      using l(1,2) by (auto simp: checked_sub_def index_def split: if_splits)
    moreover have "Min (set (snd x)) \<in> set (snd x)" using l(3) by simp
    ultimately show ?thesis using c l(4,5) by (simp add: leveled_fits_def)
  qed
qed

lemma filter_map_res_total:
  assumes "\<And>x. x \<in> set xs \<Longrightarrow> f x = Inr (g x)"
  shows "filter_map_res f xs = Inr (concat (map (\<lambda>x. case g x of None \<Rightarrow> [] | Some y \<Rightarrow> [y]) xs))"
  using assms by (induction xs) (auto split: option.split)

text \<open>
  The last level never has a priority, since its target is at least its size, so that the target
  level of a task always exists; an empty level has none either, so that a table can be selected.
\<close>

lemma level_priorities_ok:
  assumes sizes: "length sizes = n" and n: "n = lo_max_levels o'" "0 < n"
    and target: "targets_ok n target base" "sizes ! (n - 1) \<le> target ! (n - 1)"
  obtains ps where "level_priorities o' sizes target = Inr ps"
    "\<forall>(p, level) \<in> set ps. 0 < level \<and> level < n \<and> sizes ! (level - 1) \<noteq> 0"
proof -
  define g where "g level =
      (if target ! level = 0 then None
       else let priority = f64_div (f64_of_nat (sizes ! level)) (f64_of_nat (target ! level)) in
         if f64_less (f64_of_nat 1) priority then Some (priority, level + 1) else None)" for level
  have len: "length target = n" using target(1) by (simp add: targets_ok_def)
  have "level_priorities o' sizes target =
      Inr (concat (map (\<lambda>x. case g x of None \<Rightarrow> [] | Some y \<Rightarrow> [y]) [0..<n]))"
    unfolding level_priorities_def n(1)
    by (rule filter_map_res_total) (use sizes len n(1) in \<open>simp add: index_def g_def Let_def\<close>)
  moreover have "0 < level \<and> level < n \<and> sizes ! (level - 1) \<noteq> 0"
    if pl: "(p, level) \<in> set (concat (map (\<lambda>x. case g x of None \<Rightarrow> [] | Some y \<Rightarrow> [y]) [0..<n]))" for p level
  proof -
    obtain l where l: "l < n" "g l = Some (p, level)" using pl by (auto split: option.splits)
    then have lev: "level = l + 1" and t: "target ! l \<noteq> 0"
      and more': "f64_less (f64_of_nat 1) (f64_div (f64_of_nat (sizes ! l)) (f64_of_nat (target ! l)))"
      by (auto simp: g_def Let_def split: if_splits)
    have "\<not> sizes ! l \<le> target ! l" using more' f64_ratio_le_one [OF _ t] by blast
    then have "l \<noteq> n - 1" "sizes ! l \<noteq> 0" using target(2) by auto
    then show ?thesis using lev l(1) by simp
  qed
  ultimately show thesis by (intro that) auto
qed

lemma real_level_size_ok:
  assumes "state_ok crc fp S st"
  shows "real_level_size st = Inr (map (\<lambda>l. sum_list (map sst_table_size (tables_of st (snd l)))) (ls_levels st))"
  unfolding real_level_size_def
proof (rule map_res_Inr)
  fix l assume l: "l \<in> set (ls_levels st)"
  have live: "set (snd l) \<subseteq> live_ids st" using l by (auto simp: live_ids_def)
  have "map_res (\<lambda>i. and_then (lookup_res (ls_sstables st) i) (\<lambda>t. Inr (sst_table_size t))) (snd l) =
      Inr (map (\<lambda>i. sst_table_size (the (ls_sstables st i))) (snd l))"
    by (rule map_res_Inr) (use state_ok_lookup [OF assms] live in auto)
  then show "and_then (map_res (\<lambda>i. and_then (lookup_res (ls_sstables st) i) (\<lambda>t. Inr (sst_table_size t))) (snd l))
      (\<lambda>zs. Inr (sum_list zs)) = Inr (sum_list (map sst_table_size (tables_of st (snd l))))"
    by (simp add: tables_of_def comp_def)
qed

lemma leveled_level_task_total:
  assumes ok: "state_ok crc fp S st"
    and level: "0 < level" "level < length (ls_levels st)" "snd (ls_levels st ! (level - 1)) \<noteq> []"
  shows "\<exists>task. leveled_level_task o' st level = Inr task"
proof -
  let ?x = "ls_levels st ! (level - 1)"
  have "Min (set (snd ?x)) \<in> set (snd ?x)" by (rule Min_in) (use level(3) in auto)
  moreover have "set (snd ?x) \<subseteq> live_ids st" by (rule live_level) (use level(1,2) in simp)
  ultimately have "Min (set (snd ?x)) \<in> live_ids st" by (rule rev_subsetD)
  then have "find_overlapping_ssts st [Min (set (snd ?x))] (level + 1) =
      Inr (filter (overlaps st [Min (set (snd ?x))]) (snd (ls_levels st ! level)))"
    using find_overlapping_ok [OF ok, of "[Min (set (snd ?x))]" "level + 1"] level by simp
  then show ?thesis using level by (simp add: leveled_level_task_def checked_sub_def index_def min_res_def)
qed

lemma leveled_generate_total:
  assumes ok: "state_ok crc fp S st" and shape: "shape_ok (LeveledController o') st"
    and mult: "0 < lo_level_size_multiplier o'" and mb: "lo_base_level_size_mb o' < 2 ^ 44"
  shows "\<exists>task. leveled_generate o' st = Inr task"
proof -
  define sizes where "sizes = map (\<lambda>l. sum_list (map sst_table_size (tables_of st (snd l)))) (ls_levels st)"
  have real: "real_level_size st = Inr sizes" unfolding sizes_def by (rule real_level_size_ok [OF ok])
  have n: "length (ls_levels st) = lo_max_levels o'" "0 < lo_max_levels o'"
    using shape_ok_leveled [OF shape] by simp_all
  have len: "length sizes = lo_max_levels o'" by (simp add: sizes_def n)
  obtain target base where t: "level_targets o' sizes = Inr (target, base)"
      "targets_ok (lo_max_levels o') target base"
      "target ! (lo_max_levels o' - 1) = max (sizes ! (lo_max_levels o' - 1)) (lo_base_level_size_mb o' * 1024 * 1024)"
    by (rule level_targets_ok [OF mult n(2) len mb])
  have base: "0 < base" "base \<le> length (ls_levels st)" using t(2) n by (simp_all add: targets_ok_def)
  have le: "sizes ! (lo_max_levels o' - 1) \<le> target ! (lo_max_levels o' - 1)" unfolding t(3) by simp
  obtain ps where ps: "level_priorities o' sizes target = Inr ps"
    "\<forall>(p, level) \<in> set ps. 0 < level \<and> level < lo_max_levels o' \<and> sizes ! (level - 1) \<noteq> 0"
    by (rule level_priorities_ok [OF len refl n(2) t(2) le])
  show ?thesis
  proof (cases "lo_level0_file_num_compaction_trigger o' < length (ls_l0_sstables st)")
    case True
    have "set (ls_l0_sstables st) \<subseteq> live_ids st" "ls_l0_sstables st \<noteq> []" using True by (auto simp: live_ids_def)
    from find_overlapping_ok [OF ok this base]
    show ?thesis using True real t(1) by (simp add: leveled_generate_def leveled_l0_task_def)
  next
    case False
    show ?thesis
    proof (cases "sort_by priority_ge ps")
      case Nil
      then show ?thesis using False real t(1) ps(1) by (simp add: leveled_generate_def)
    next
      case (Cons pl rest)
      obtain p level where pl: "pl = (p, level)" by (cases pl)
      have "(p, level) \<in> set ps" using arg_cong [OF Cons, of set] pl by auto
      then have l: "0 < level" "level < length (ls_levels st)" "sizes ! (level - 1) \<noteq> 0" using ps(2) n(1) by auto
      have "snd (ls_levels st ! (level - 1)) \<noteq> []" using l by (auto simp: sizes_def tables_of_def)
      from leveled_level_task_total [OF ok l(1,2) this]
      show ?thesis using False real t(1) ps(1) Cons pl by (simp add: leveled_generate_def)
    qed
  qed
qed

section \<open>Properties\<close>

text \<open>
  C29: On a well-formed state, with a positive level size multiplier and a base level size below
  \<open>2 ^ 44\<close> megabytes, the leveled controller returns a task or none: the product, the divisions, the subtractions and every
  indexing of its loops succeed (the sums of the file sizes are exact numbers of the model). The
  level it compacts into exists (the bottom level is never chosen as the upper level, rounding of
  the ratios included), the upper tables exist, and the lower tables are exactly the tables of that
  level that overlap their key range. From \<open>2 ^ 44\<close> megabytes on, the product of the base size
  overflows a \<open>usize\<close> and the call panics on every such state.
\<close>

theorem leveled_task_valid:
  assumes "state_ok crc fp S st" "shape_ok (LeveledController o') st" "0 < lo_level_size_multiplier o'"
  shows "if lo_base_level_size_mb o' < 2 ^ 44 then
    \<exists>r. leveled_generate o' st = Inr r \<and>
    (\<forall>task. r = Some task \<longrightarrow>
       0 < lt_lower_level task \<and> lt_lower_level task \<le> lo_max_levels o' \<and>
       lt_upper_level_sst_ids task \<noteq> [] \<and> set (lt_upper_level_sst_ids task) \<subseteq> live_ids st \<and>
       lt_lower_level_sst_ids task =
         filter (overlaps st (lt_upper_level_sst_ids task)) (snd (ls_levels st ! (lt_lower_level task - 1))))
    else leveled_generate o' st = Inl Panic"
proof (cases "lo_base_level_size_mb o' < 2 ^ 44")
  case False
  then show ?thesis
    using real_level_size_ok [OF assms(1)]
    by (simp add: leveled_generate_def level_targets_def base_level_size_bytes_ok Let_def)
next
  case mb: True
  obtain r where r: "leveled_generate o' st = Inr r" using leveled_generate_total [OF assms mb] by blast
  have "0 < lt_lower_level task \<and> lt_lower_level task \<le> lo_max_levels o' \<and>
      lt_upper_level_sst_ids task \<noteq> [] \<and> set (lt_upper_level_sst_ids task) \<subseteq> live_ids st \<and>
      lt_lower_level_sst_ids task =
        filter (overlaps st (lt_upper_level_sst_ids task)) (snd (ls_levels st ! (lt_lower_level task - 1)))"
    if "r = Some task" for task
  proof -
    have fits: "leveled_fits (LeveledController o') st task" using leveled_generate_fits r that by blast
    then have f: "lt_upper_level_sst_ids task \<noteq> []"
      "find_overlapping_ssts st (lt_upper_level_sst_ids task) (lt_lower_level task) = Inr (lt_lower_level_sst_ids task)"
      by (simp_all add: leveled_fits_def)
    note n = find_overlapping_subset [OF f(2)]
    show ?thesis
      using f n find_overlapping_ok [OF assms(1) leveled_fits_upper_live [OF fits] f(1) n(1,2)]
        leveled_fits_upper_live [OF fits] shape_ok_leveled [OF assms(2)] by simp
  qed
  then have "\<exists>r. leveled_generate o' st = Inr r \<and>
    (\<forall>task. r = Some task \<longrightarrow>
       0 < lt_lower_level task \<and> lt_lower_level task \<le> lo_max_levels o' \<and>
       lt_upper_level_sst_ids task \<noteq> [] \<and> set (lt_upper_level_sst_ids task) \<subseteq> live_ids st \<and>
       lt_lower_level_sst_ids task =
         filter (overlaps st (lt_upper_level_sst_ids task)) (snd (ls_levels st ! (lt_lower_level task - 1))))"
    using r by blast
  then show ?thesis using mb by (simp only: if_True)
qed

definition one_level :: leveled_options where
  "one_level = \<lparr>lo_level_size_multiplier = 2, lo_level0_file_num_compaction_trigger = 0, lo_max_levels = 1,
     lo_base_level_size_mb = 1\<rparr>"

lemma sample_state_leveled: "shape_ok (LeveledController one_level) sample_state"
  by (simp add: shape_ok_def one_level_def sample_state_def)

definition huge_level :: leveled_options where
  "huge_level = one_level\<lparr>lo_base_level_size_mb := 2 ^ 44\<rparr>"

lemma sample_state_huge: "shape_ok (LeveledController huge_level) sample_state"
  by (simp add: shape_ok_def huge_level_def one_level_def sample_state_def)

theorem leveled_task_valid_witness:
  "(\<exists>r. leveled_generate one_level sample_state = Inr r \<and>
    (\<forall>task. r = Some task \<longrightarrow>
       0 < lt_lower_level task \<and> lt_lower_level task \<le> lo_max_levels one_level \<and>
       lt_upper_level_sst_ids task \<noteq> [] \<and> set (lt_upper_level_sst_ids task) \<subseteq> live_ids sample_state \<and>
       lt_lower_level_sst_ids task =
         filter (overlaps sample_state (lt_upper_level_sst_ids task)) (snd (ls_levels sample_state ! (lt_lower_level task - 1))))) \<and>
   leveled_generate huge_level sample_state = Inl Panic"
proof
  have small: "lo_base_level_size_mb one_level < 2 ^ 44" "0 < lo_level_size_multiplier one_level"
    and huge: "\<not> lo_base_level_size_mb huge_level < 2 ^ 44" "0 < lo_level_size_multiplier huge_level"
    by (simp_all add: huge_level_def one_level_def)
  show "\<exists>r. leveled_generate one_level sample_state = Inr r \<and>
    (\<forall>task. r = Some task \<longrightarrow>
       0 < lt_lower_level task \<and> lt_lower_level task \<le> lo_max_levels one_level \<and>
       lt_upper_level_sst_ids task \<noteq> [] \<and> set (lt_upper_level_sst_ids task) \<subseteq> live_ids sample_state \<and>
       lt_lower_level_sst_ids task =
         filter (overlaps sample_state (lt_upper_level_sst_ids task)) (snd (ls_levels sample_state ! (lt_lower_level task - 1))))"
    using leveled_task_valid [OF sample_state_ok sample_state_leveled small(2)] by (simp only: small(1) if_True)
  show "leveled_generate huge_level sample_state = Inl Panic"
    using leveled_task_valid [OF sample_state_ok sample_state_huge huge(2)] by (simp only: huge(1) if_False)
qed

text \<open>
  The dynamic level sizes: with a positive multiplier and a base size that fits, the computation
  succeeds, the bottom level has the larger of its own size and the base size as its target, and
  the base level is the first level with a positive target, or the bottom level.
\<close>

lemma level_targets_base:
  assumes "0 < lo_level_size_multiplier o'" "0 < lo_max_levels o'" "length sizes = lo_max_levels o'"
    and "lo_base_level_size_mb o' < 2 ^ 44"
  shows "\<exists>target base. level_targets o' sizes = Inr (target, base) \<and> length target = lo_max_levels o' \<and>
    target ! (lo_max_levels o' - 1) = max (sizes ! (lo_max_levels o' - 1)) (lo_base_level_size_mb o' * 1024 * 1024) \<and>
    0 < base \<and> base \<le> lo_max_levels o' \<and> (\<forall>k < base - 1. target ! k = 0) \<and>
    (base < lo_max_levels o' \<longrightarrow> 0 < target ! (base - 1))"
proof -
  obtain target base where "level_targets o' sizes = Inr (target, base)"
    "targets_ok (lo_max_levels o') target base"
    "target ! (lo_max_levels o' - 1) = max (sizes ! (lo_max_levels o' - 1)) (lo_base_level_size_mb o' * 1024 * 1024)"
    by (rule level_targets_ok [OF assms])
  then show ?thesis unfolding targets_ok_def by blast
qed

definition four_levels :: leveled_options where
  "four_levels = \<lparr>lo_level_size_multiplier = 10, lo_level0_file_num_compaction_trigger = 2, lo_max_levels = 4,
     lo_base_level_size_mb = 0\<rparr>"

lemma level_targets_example: "level_targets four_levels [0, 0, 0, 120] = Inr ([0, 1, 12, 120], 2)"
proof -
  have loop: "target_loop four_levels 0 3 ([0, 0, 0, 120], 4) = Inr ([0, 1, 12, 120], 2)" by code_simp
  have "base_level_size_bytes four_levels = Inr 0" by (simp add: base_level_size_bytes_ok four_levels_def)
  moreover have "lo_max_levels four_levels = 4" by (simp add: four_levels_def)
  moreover have "(replicate 4 0)[3 := 120] = [0, 0, 0, 120 :: nat]" by code_simp
  ultimately show ?thesis by (simp add: level_targets_def checked_sub_def index_def Let_def loop)
qed

text \<open>
  C28: Applying a leveled compaction keeps every level sorted and disjoint: on a well-formed state and
  a task that fits it, with output tables that hold the merged entries, the assertions of the code
  hold, the merged tables are replaced by the output, and sorting the target level by first keys
  makes it a run of disjoint tables again.
\<close>

theorem leveled_apply_sorted:
  assumes "state_ok crc fp S st" "tree_ok crc S c st" "leveled_fits c st task"
    and "output_fits crc st (lt_upper_level_sst_ids task @ lt_lower_level_sst_ids task) out"
  shows "\<exists>st'. leveled_apply st task out False =
      Inr (st', lt_upper_level_sst_ids task @ lt_lower_level_sst_ids task) \<and>
    live_ids st' = (live_ids st - set (lt_upper_level_sst_ids task @ lt_lower_level_sst_ids task)) \<union> set out \<and>
    (\<forall>l \<in> set (ls_levels st'). level_ok crc (tables_of st' (snd l)))"
  using leveled_apply_ok [OF assms] by (auto simp: applied_def)

lemma sample_tree_ok: "tree_ok (\<lambda>_. 0) rbt_ops NoCompactionController sample_state"
  using sample_storage_ok by (simp add: storage_ok_def sample_storage_def)

theorem leveled_apply_sorted_witness:
  "\<exists>t st'. leveled_apply (insert_ssts [t] sample_state)
      \<lparr>lt_upper_level = None, lt_upper_level_sst_ids = [3], lt_lower_level = 1, lt_lower_level_sst_ids = [],
       lt_is_lower_level_bottom_level = True\<rparr> [7] False = Inr (st', [3]) \<and> live_ids st' = {7} \<and>
    (\<forall>l \<in> set (ls_levels st'). level_ok (\<lambda>_. 0) (tables_of st' (snd l)))"
proof -
  let ?task = "\<lparr>lt_upper_level = None, lt_upper_level_sst_ids = [3], lt_lower_level = 1, lt_lower_level_sst_ids = [],
       lt_is_lower_level_bottom_level = True\<rparr>"
  have "sample_entries \<noteq> []" by (simp add: sample_entries_def)
  then obtain sb t where t: "table_ok (\<lambda>_. 0) (\<lambda>_. 1) t" "sst_entries (\<lambda>_. 0) t = sample_entries" "sst_id t = 7"
    using sst_build_table_ok [OF _ sample_entries_ok(2,1), of 40 None 7 "\<lambda>_. 0" "\<lambda>_. 1"] by auto
  let ?st = "insert_ssts [t] sample_state"
  have lookup: "ls_sstables ?st = (ls_sstables sample_state)(7 \<mapsto> t)" by (simp add: insert_ssts_def t(3))
  have fields: "ls_levels sample_state = [(1, [])]" "ls_l0_sstables sample_state = [3]" "live_ids sample_state = {3}"
      "ls_sstables sample_state = [3 \<mapsto> sample_sst (\<lambda>_. 0) (\<lambda>_. 1)]"
    by (simp_all add: sample_state_def live_ids_def)
  have st: "state_ok (\<lambda>_. 0) (\<lambda>_. 1) rbt_ops ?st"
    using sample_state_ok t(1,3) by (simp add: state_ok_def lookup fields tables_of_def)
  have "state_pairs (\<lambda>_. 0) rbt_ops ?st = state_pairs (\<lambda>_. 0) rbt_ops sample_state"
    by (simp add: state_pairs_live mem_pairs_def lookup fields)
  then have tree: "tree_ok (\<lambda>_. 0) rbt_ops NoCompactionController ?st"
    using sample_tree_ok by (simp add: tree_ok_def consistent_def places_ok_def shape_ok_def)
  have task: "leveled_fits NoCompactionController ?st ?task"
    by (simp add: leveled_fits_def flush_to_l0_def fields lookup find_overlapping_ssts_def lookup_res_def min_res_def
        max_res_def checked_sub_def index_def Let_def)
  have "output_fits (\<lambda>_. 0) ?st (lt_upper_level_sst_ids ?task @ lt_lower_level_sst_ids ?task) [7]"
    using t by (simp add: output_fits_def fields lookup tables_of_def level_ok_def table_ok_def sample_sst_ok)
  from leveled_apply_sorted [OF st tree task this] show ?thesis by (intro exI [of _ t]) (simp add: fields)
qed

end
