(* ===== verification/Trigger.thy ===== *)
theory Trigger
  imports CompactTiered CompactLeveled
begin

text \<open>
  Compactions as the storage runs them: the dispatch of \<open>CompactionController\<close> to its three kinds,
  \<open>trigger_compaction\<close> of the compaction thread and \<open>force_full_compaction\<close> of the client
  (\<open>src/compact.rs\<close>), and what they do to the contents of the storage.
\<close>

section \<open>The controller\<close>

definition controller_generate :: "compaction_controller \<Rightarrow> 'm lsm_state \<Rightarrow> compaction_task option res" where
  "controller_generate c snapshot =
     (case c of
        LeveledController ctrl \<Rightarrow> and_then (leveled_generate ctrl snapshot) (\<lambda>t. Inr (map_option LeveledTask t))
      | SimpleController ctrl \<Rightarrow> and_then (simple_generate ctrl snapshot) (\<lambda>t. Inr (map_option SimpleTask t))
      | TieredController ctrl \<Rightarrow> and_then (tiered_generate ctrl snapshot) (\<lambda>t. Inr (map_option TieredTask t))
      | NoCompactionController \<Rightarrow> Inl Panic)"

definition controller_apply ::
    "compaction_controller \<Rightarrow> 'm lsm_state \<Rightarrow> compaction_task \<Rightarrow> nat list \<Rightarrow> bool \<Rightarrow>
     ('m lsm_state \<times> nat list) res" where
  "controller_apply c snapshot task output in_recovery =
     (case (c, task) of
        (LeveledController _, LeveledTask task) \<Rightarrow> leveled_apply snapshot task output in_recovery
      | (SimpleController _, SimpleTask task) \<Rightarrow> simple_apply snapshot task output
      | (TieredController _, TieredTask task) \<Rightarrow> tiered_apply snapshot task output
      | _ \<Rightarrow> Inl Panic)"

section \<open>Running a compaction\<close>

text \<open>\<open>std::fs::remove_file\<close> for each of the tables: an error for a file that is not there.\<close>

fun remove_files :: "nat list \<Rightarrow> 'm storage \<Rightarrow> unit res \<times> 'm storage" where
  "remove_files [] s = (Inr (), s)"
| "remove_files (i # ids) s =
     (case sg_sst_files s i of
        None \<Rightarrow> (Inl IoError, s)
      | Some _ \<Rightarrow> remove_files ids (s\<lparr>sg_sst_files := (sg_sst_files s)(i := None)\<rparr>))"

text \<open>The second half of \<open>trigger_compaction\<close>: installing the output in the state of that time.\<close>

definition compaction_install :: "compaction_task \<Rightarrow> sstable list \<Rightarrow> 'm storage \<Rightarrow> unit res \<times> 'm storage" where
  "compaction_install task output_sst s =
     (case controller_apply (sg_controller s) (insert_ssts output_sst (sg_state s)) task (map sst_id output_sst) False of
        Inl e \<Rightarrow> (Inl e, s)
      | Inr (new_state, removed_ssts) \<Rightarrow>
          remove_files removed_ssts (s\<lparr>sg_state := remove_ssts removed_ssts new_state\<rparr>))"

definition trigger_compaction ::
    "(bytes \<Rightarrow> u32) \<Rightarrow> (bytes \<Rightarrow> u32) \<Rightarrow> 'm storage \<Rightarrow> unit res \<times> 'm storage" where
  "trigger_compaction crc fp s =
     (case controller_generate (sg_controller s) (sg_state s) of
        Inl e \<Rightarrow> (Inl e, s)
      | Inr None \<Rightarrow> (Inr (), s)
      | Inr (Some task) \<Rightarrow> st_then (compact crc fp task s) (compaction_install task))"

definition full_install :: "nat list \<Rightarrow> sstable list \<Rightarrow> 'm storage \<Rightarrow> unit res \<times> 'm storage" where
  "full_install ssts_to_compact new_ssts s =
     (let st = sg_state s;
          st = st\<lparr>ls_l0_sstables := filter (\<lambda>i. i \<notin> set ssts_to_compact) (ls_l0_sstables st)\<rparr>;
          st = insert_ssts new_ssts (remove_ssts ssts_to_compact st)
      in if ls_levels st = [] then (Inl Panic, s\<lparr>sg_state := st\<rparr>)
         else remove_files ssts_to_compact
                (s\<lparr>sg_state := st\<lparr>ls_levels := (ls_levels st)[0 := (1, map sst_id new_ssts)]\<rparr>\<rparr>))"

definition force_full_compaction ::
    "(bytes \<Rightarrow> u32) \<Rightarrow> (bytes \<Rightarrow> u32) \<Rightarrow> 'm storage \<Rightarrow> unit res \<times> 'm storage" where
  "force_full_compaction crc fp s =
     (case index (ls_levels (sg_state s)) 0 of
        Inl e \<Rightarrow> (Inl e, s)
      | Inr l \<Rightarrow>
          let l0_sstables = ls_l0_sstables (sg_state s); l1_sstables = snd l
          in st_then (compact crc fp (ForceFullCompaction l0_sstables l1_sstables) s)
               (full_install (l0_sstables @ l1_sstables)))"

section \<open>Removing files\<close>

lemma remove_files_ok:
  assumes "distinct ids" "\<forall>i \<in> set ids. sg_sst_files s i \<noteq> None"
  shows "remove_files ids s =
    (Inr (), s\<lparr>sg_sst_files := \<lambda>i. if i \<in> set ids then None else sg_sst_files s i\<rparr>)"
  using assms
proof (induction ids arbitrary: s)
  case (Cons i ids)
  obtain data where i: "sg_sst_files s i = Some data" using Cons.prems(2) by auto
  have "remove_files ids (s\<lparr>sg_sst_files := (sg_sst_files s)(i := None)\<rparr>) =
      (Inr (), s\<lparr>sg_sst_files := \<lambda>j. if j \<in> set ids then None else ((sg_sst_files s)(i := None)) j\<rparr>)"
    by (subst Cons.IH) (use Cons.prems in \<open>auto cong: if_cong\<close>)
  moreover have "(\<lambda>j. if j \<in> set ids then None else ((sg_sst_files s)(i := None)) j) =
      (\<lambda>j. if j \<in> set (i # ids) then None else sg_sst_files s j)" by auto
  ultimately show ?case by (simp only: remove_files.simps i option.case)
qed simp

section \<open>One compaction\<close>

text \<open>
  What a compaction leaves of the contents: the same pairs, but for tombstones of its inputs when it
  was to the bottom.
\<close>

definition compacted ::
    "(bytes \<Rightarrow> u32) \<Rightarrow> ('m, key, bytes) skip_ops \<Rightarrow> bool \<Rightarrow> nat list \<Rightarrow> 'm lsm_state \<Rightarrow> 'm lsm_state \<Rightarrow> bool" where
  "compacted crc S bottom ins st st' \<longleftrightarrow>
     ls_memtable st' = ls_memtable st \<and> ls_imm_memtables st' = ls_imm_memtables st \<and>
     set ins \<subseteq> live_ids st \<and> state_pairs crc S st' = kept_pairs crc S bottom ins st"

lemma state_map_pairs_iff:
  assumes "skip_map S" "state_ok crc fp S st" "tree_ok crc S c st"
  shows "state_map crc S st k = Some v \<longleftrightarrow> (k, v) \<in> state_pairs crc S st"
  using state_map_pairs [OF assms(1,2)] assms(3) by (simp add: tree_ok_def)

text \<open>The same on the versions the states hold.\<close>

lemma compacted_versions:
  assumes S: "skip_map S" and st: "state_ok crc fp S st" "tree_ok crc S c st"
    and st': "state_ok crc fp S st'" "tree_ok crc S c st'" and comp: "compacted crc S bottom ins st st'"
  shows "state_map crc S st' k = Some v \<Longrightarrow> state_map crc S st k = Some v"
    and "state_map crc S st k = Some v \<Longrightarrow> state_map crc S st' k = Some v \<or>
      bottom \<and> v = [] \<and> (k, v) \<in> pairs_of crc st ins"
  using comp kept_pairs_subset(1) [of ins st crc S bottom] kept_pairs_subset(2) [of ins st "(k, v)" crc S bottom]
  unfolding state_map_pairs_iff [OF S st] state_map_pairs_iff [OF S st'] compacted_def by fastforce+

text \<open>The storage after \<open>compact\<close>, before its output is installed, and after.\<close>

lemma install_storage_ok:
  assumes S: "skip_map S" and ok: "storage_ok crc fp S s"
    and out: "outputs_ok crc fp s ts s1"
    and ins: "set ins \<subseteq> live_ids (sg_state s)" "distinct ins"
    and inst: "installed crc fp S (sg_controller s) bottom ins ts (sg_state s) st'"
  obtains s' where "remove_files ins (s1\<lparr>sg_state := st'\<rparr>) = (Inr (), s')" "storage_ok crc fp S s'"
    "compacted crc S bottom ins (sg_state s) (sg_state s')" "sg_mvcc s' = sg_mvcc s"
    "sg_controller s' = sg_controller s" "sg_options s' = sg_options s" "sg_manifest s' = sg_manifest s"
proof -
  let ?st = "sg_state s" and ?n = "sg_next_sst_id s"
  have ids: "ids_ok s" and opts: "options_ok s" and ts: "timestamps_ok crc S s" and files: "files_ok s"
    and st: "state_ok crc fp S ?st" and sz: "size_ok S (ls_memtable ?st)" and tree: "tree_ok crc S (sg_controller s) ?st"
    using ok by (simp_all add: storage_ok_def)
  have i: "state_ok crc fp S st'" "tree_ok crc S (sg_controller s) st'"
      "ls_memtable st' = ls_memtable ?st" "ls_imm_memtables st' = ls_imm_memtables ?st"
      "state_pairs crc S st' = kept_pairs crc S bottom ins ?st"
      "\<And>i t. ls_sstables st' i = Some t \<Longrightarrow> i \<notin> set ins \<and> (ls_sstables ?st i = Some t \<or> t \<in> set ts \<and> sst_id t = i)"
    using inst by (auto simp: installed_def)
  obtain f where s1: "s1 = s\<lparr>sg_next_sst_id := ?n + length ts, sg_sst_files := f\<rparr>"
    and f: "\<forall>t \<in> set ts. f (sst_id t) = fo_file (sst_file t)" "\<forall>i < ?n. f i = sg_sst_files s i"
    and num: "map sst_id ts = [?n..<?n + length ts]"
    using out by (auto simp: outputs_ok_def)
  have new: "?n \<le> sst_id t" "sst_id t < ?n + length ts" if "t \<in> set ts" for t
    using arg_cong [OF num, of set] that by force+
  have old: "i < ?n" if "ls_sstables ?st i = Some t" for i t
    using ids that by (auto simp: ids_ok_def Let_def)
  have present: "f i \<noteq> None" if "i \<in> set ins" for i
  proof -
    have "i \<in> live_ids ?st" using ins(1) that by blast
    then obtain t where t: "ls_sstables ?st i = Some t" using st by (auto simp: state_ok_def)
    then have "table_ok crc fp t" using st by (simp add: state_ok_def)
    then have "fo_file (sst_file t) \<noteq> None" using table_ok_file by fastforce
    moreover have "f i = fo_file (sst_file t)" using f(2) old [OF t] files t by (simp add: files_ok_def)
    ultimately show ?thesis by simp
  qed
  define s' where "s' = s1\<lparr>sg_state := st', sg_sst_files := \<lambda>i. if i \<in> set ins then None else f i\<rparr>"
  have run: "remove_files ins (s1\<lparr>sg_state := st'\<rparr>) = (Inr (), s')"
    using remove_files_ok [OF ins(2), of "s1\<lparr>sg_state := st'\<rparr>"] present by (simp add: s1 s'_def cong: if_cong)
  have comp: "compacted crc S bottom ins ?st st'"
    using i(3-5) ins(1) by (simp add: compacted_def)
  have "timestamps_ok crc S s'"
    using ts compacted_versions(1) [OF S st tree i(1,2) comp] by (auto simp: timestamps_ok_def s'_def s1)
  moreover have "ids_ok s'"
    unfolding ids_ok_def Let_def
  proof (intro conjI ballI allI impI)
    show "distinct (map mt_id (ls_memtable (sg_state s') # ls_imm_memtables (sg_state s')))"
      using ids by (simp add: ids_ok_def Let_def s'_def i(3,4))
    fix mt assume "mt \<in> set (ls_memtable (sg_state s') # ls_imm_memtables (sg_state s'))"
    then have mt: "mt \<in> set (ls_memtable ?st # ls_imm_memtables ?st)" by (simp add: s'_def i(3,4))
    then have m: "mt_id mt < ?n" "ls_sstables ?st (mt_id mt) = None" "\<forall>j. sg_block_cache s (mt_id mt, j) = None"
      using ids unfolding ids_ok_def Let_def by blast+
    show "mt_id mt < sg_next_sst_id s'" using m(1) by (simp add: s'_def s1)
    show "ls_sstables (sg_state s') (mt_id mt) = None"
    proof (cases "ls_sstables st' (mt_id mt)")
      case (Some t)
      then show ?thesis using i(6) [OF Some] m(1,2) new(1) [of t] by auto
    qed (simp add: s'_def)
    show "sg_block_cache s' (mt_id mt, j) = None" for j using m(3) by (simp add: s'_def s1)
  next
    fix j assume "ls_sstables (sg_state s') j \<noteq> None"
    then obtain t where "ls_sstables st' j = Some t" by (auto simp: s'_def)
    then show "j < sg_next_sst_id s'" using i(6) [of j t] old [of j t] new(2) [of t] by (auto simp: s'_def s1)
  next
    fix j k assume "sg_next_sst_id s' \<le> j"
    then show "sg_block_cache s' (j, k) = None" "sg_wal_files s' j = None"
      using ids by (auto simp: ids_ok_def Let_def s'_def s1)
  qed
  moreover have "files_ok s'"
    unfolding files_ok_def
  proof (intro allI impI)
    fix j t assume "ls_sstables (sg_state s') j = Some t"
    then have "ls_sstables st' j = Some t" by (simp add: s'_def)
    then show "sg_sst_files s' j = fo_file (sst_file t)"
      using i(6) [of j t] f files old [of j t] by (auto simp: s'_def files_ok_def)
  qed
  moreover have "options_ok s'" "size_ok S (ls_memtable (sg_state s'))"
    using opts sz by (simp_all add: options_ok_def s'_def s1 i(3))
  ultimately have "storage_ok crc fp S s'"
    using i(1,2) by (simp add: storage_ok_def s'_def s1)
  with run comp show thesis by (intro that [of s']) (simp_all add: s'_def s1)
qed

section \<open>Tasks that fit the state\<close>

definition task_fits :: "compaction_controller \<Rightarrow> 'm lsm_state \<Rightarrow> compaction_task \<Rightarrow> bool" where
  "task_fits c st task \<longleftrightarrow> distinct (task_inputs task) \<and>
     (case (c, task) of
        (LeveledController _, LeveledTask task) \<Rightarrow> leveled_fits c st task
      | (SimpleController _, SimpleTask task) \<Rightarrow> simple_fits c st task
      | (TieredController _, TieredTask task) \<Rightarrow> tiered_fits c st task
      | _ \<Rightarrow> False)"

text \<open>
  Options with which the controller always finds a task or none: for the leveled controller a
  multiplier that is not zero (it divides by it) and a base level size that fits into a \<open>usize\<close> in
  bytes.
\<close>

definition tuned :: "compaction_controller \<Rightarrow> bool" where
  "tuned c \<longleftrightarrow>
     (case c of LeveledController o' \<Rightarrow> 0 < lo_level_size_multiplier o' \<and> lo_base_level_size_mb o' < 2 ^ 44
      | SimpleController _ \<Rightarrow> True
      | TieredController o' \<Rightarrow> tiered_options_ok o' | NoCompactionController \<Rightarrow> False)"

lemma task_fits_cases:
  assumes "task_fits c st task"
  obtains o' t where "c = LeveledController o'" "task = LeveledTask t" "leveled_fits c st t"
  | o' t where "c = SimpleController o'" "task = SimpleTask t" "simple_fits c st t"
  | o' t where "c = TieredController o'" "task = TieredTask t" "tiered_fits c st t"
  using assms by (cases c; cases task) (auto simp: task_fits_def)

lemma places_distinct:
  assumes "places_ok st"
  shows "distinct (ls_l0_sstables st)"
    and "l \<in> set (ls_levels st) \<Longrightarrow> distinct (snd l) \<and> set (ls_l0_sstables st) \<inter> set (snd l) = {}"
    and "i < j \<Longrightarrow> j < length (ls_levels st) \<Longrightarrow> set (snd (ls_levels st ! i)) \<inter> set (snd (ls_levels st ! j)) = {}"
proof -
  show "distinct (ls_l0_sstables st)" using assms by (simp add: places_ok_def)
  show "distinct (snd l) \<and> set (ls_l0_sstables st) \<inter> set (snd l) = {}" if "l \<in> set (ls_levels st)"
    using assms that by (auto simp: places_ok_def distinct_concat_iff)
  show "set (snd (ls_levels st ! i)) \<inter> set (snd (ls_levels st ! j)) = {}"
    if ij: "i < j" "j < length (ls_levels st)"
  proof -
    have "ls_levels st = take j (ls_levels st) @ ls_levels st ! j # drop (Suc j) (ls_levels st)"
      using ij by (simp add: id_take_nth_drop)
    then have "distinct (concat (map snd (take j (ls_levels st) @ ls_levels st ! j # drop (Suc j) (ls_levels st))))"
      using assms by (simp add: places_ok_def)
    then have "set (concat (map snd (take j (ls_levels st)))) \<inter> set (snd (ls_levels st ! j)) = {}" by auto
    moreover have "ls_levels st ! i \<in> set (take j (ls_levels st))"
      using ij by (auto simp: in_set_conv_nth intro: exI [of _ i])
    ultimately show ?thesis by auto
  qed
qed

lemma level_ok_single: "state_ok crc fp S st \<Longrightarrow> i \<in> live_ids st \<Longrightarrow> level_ok crc (tables_of st [i])"
  by (auto simp: state_ok_def level_ok_def tables_of_def table_ok_def)

lemma level_ok_sub: "level_ok crc (tables_of st ids) \<Longrightarrow> level_ok crc (tables_of st (filter p ids))"
  by (auto simp: level_ok_def tables_of_def sorted_wrt_map intro: sorted_wrt_filter)

text \<open>What a fitting task reads is live, and the lists that are concatenated are sorted runs.\<close>

lemma leveled_runs:
  assumes ok: "state_ok crc fp S st" and fits: "leveled_fits c st t"
    and up: "lt_upper_level t = None \<or> length (lt_upper_level_sst_ids t) = 1"
  shows "\<forall>ids \<in> set (task_runs (LeveledTask t)). level_ok crc (tables_of st ids)"
proof -
  note ulive = leveled_fits_upper_live [OF fits]
  have low: "find_overlapping_ssts st (lt_upper_level_sst_ids t) (lt_lower_level t) = Inr (lt_lower_level_sst_ids t)"
    and ne: "lt_upper_level_sst_ids t \<noteq> []" using fits by (simp_all add: leveled_fits_def)
  note n = find_overlapping_subset [OF low]
  have "lt_lower_level_sst_ids t = filter (overlaps st (lt_upper_level_sst_ids t)) (snd (ls_levels st ! (lt_lower_level t - 1)))"
    using find_overlapping_ok [OF ok ulive ne n(1,2)] low by simp
  moreover have "ls_levels st ! (lt_lower_level t - 1) \<in> set (ls_levels st)" using n(1,2) by simp
  moreover have "level_ok crc (tables_of st (snd l))" if "l \<in> set (ls_levels st)" for l
    using ok that by (simp add: state_ok_def)
  ultimately have "level_ok crc (tables_of st (lt_lower_level_sst_ids t))" using level_ok_sub by metis
  moreover have "level_ok crc (tables_of st (lt_upper_level_sst_ids t))" if "lt_upper_level t \<noteq> None"
    using up that ulive by (auto simp: length_Suc_conv intro: level_ok_single [OF ok])
  ultimately show ?thesis by auto
qed

lemma simple_runs:
  assumes "state_ok crc fp S st" "simple_fits c st t"
  shows "\<forall>ids \<in> set (task_runs (SimpleTask t)). level_ok crc (tables_of st ids)"
  using assms by (cases "st_upper_level t") (auto simp: simple_fits_def state_ok_def)

lemma tiered_runs:
  assumes "state_ok crc fp S st" "tiered_fits c st t"
  shows "\<forall>ids \<in> set (task_runs (TieredTask t)). level_ok crc (tables_of st ids)"
  using assms by (auto simp: tiered_fits_def state_ok_def)

lemma task_fits_live: "task_fits c st task \<Longrightarrow> set (task_inputs task) \<subseteq> live_ids st"
proof (erule task_fits_cases)
  show "set (task_inputs task) \<subseteq> live_ids st" if "task = LeveledTask t" "leveled_fits c st t" for t
    using leveled.inputs_live [OF that(2)] that(1) by simp
  show "set (task_inputs task) \<subseteq> live_ids st" if "task = SimpleTask t" "simple_fits c st t" for t
    using simple.inputs_live [OF that(2)] that(1) by simp
  show "set (task_inputs task) \<subseteq> live_ids st" if "task = TieredTask t" "tiered_fits c st t" for t
    using tiered.inputs_live [OF that(2)] that(1) by simp
qed

lemma task_fits_install:
  assumes "state_ok crc fp S st" "tree_ok crc S c st" "task_fits c st task"
    and "\<forall>t \<in> set ts. table_ok crc fp t" "distinct (map sst_id ts)"
      "\<forall>t \<in> set ts. ls_sstables st (sst_id t) = None" "level_ok crc ts"
    and "set (level_entries crc ts) = {e \<in> pairs_of crc st (task_inputs task). \<not> (bottom \<and> snd e = [])}"
    and "bottom \<longrightarrow> no_tail_tombstone (pairs_of crc st (task_inputs task))"
  shows "\<exists>st'. controller_apply c (insert_ssts ts st) task (map sst_id ts) False = Inr (st', task_inputs task) \<and>
    installed crc fp S c bottom (task_inputs task) ts st (remove_ssts (task_inputs task) st')"
  using assms(3)
proof (cases rule: task_fits_cases)
  case (1 o' t)
  then show ?thesis
    using leveled.install [OF assms(1,2) _ assms(4-7), of t bottom] assms(8,9) by (simp add: controller_apply_def)
next
  case (2 o' t)
  then show ?thesis
    using simple.install [OF assms(1,2) _ assms(4-7), of t bottom] assms(8,9) by (simp add: controller_apply_def)
next
  case (3 o' t)
  then show ?thesis
    using tiered.install [OF assms(1,2) _ assms(4-7), of t bottom] assms(8,9) by (simp add: controller_apply_def)
qed

section \<open>Generated tasks\<close>

text \<open>
  The tasks a controller generates fit the state, read sorted runs, and take every table once.
\<close>

lemma leveled_generate_upper:
  assumes "leveled_generate o' st = Inr (Some t)"
  shows "lt_upper_level t = None \<and> lt_upper_level_sst_ids t = ls_l0_sstables st \<or>
    lt_upper_level t \<noteq> None \<and> length (lt_upper_level_sst_ids t) = 1"
  using assms
  by (cases rule: leveled_generate_cases) (auto simp: leveled_l0_task_def leveled_level_task_def res_simps)

lemma leveled_generate_distinct:
  assumes gen: "leveled_generate o' st = Inr (Some t)" and ok: "state_ok crc fp S st" and places: "places_ok st"
  shows "distinct (lt_upper_level_sst_ids t @ lt_lower_level_sst_ids t)"
proof -
  note fits = leveled_generate_fits [OF gen]
  note ulive = leveled_fits_upper_live [OF fits]
  have low: "find_overlapping_ssts st (lt_upper_level_sst_ids t) (lt_lower_level t) = Inr (lt_lower_level_sst_ids t)"
    and ne: "lt_upper_level_sst_ids t \<noteq> []" using fits by (simp_all add: leveled_fits_def)
  note n = find_overlapping_subset [OF low]
  define l where "l = ls_levels st ! (lt_lower_level t - 1)"
  have l: "l \<in> set (ls_levels st)" using n(1,2) by (simp add: l_def)
  have loweq: "lt_lower_level_sst_ids t = filter (overlaps st (lt_upper_level_sst_ids t)) (snd l)"
    using find_overlapping_ok [OF ok ulive ne n(1,2)] low by (simp add: l_def)
  then have "distinct (lt_lower_level_sst_ids t)" using places_distinct(2) [OF places l] by simp
  moreover have "distinct (lt_upper_level_sst_ids t)"
    using leveled_generate_upper [OF gen] places_distinct(1) [OF places] by (auto simp: length_Suc_conv)
  moreover have "set (lt_upper_level_sst_ids t) \<inter> set (snd l) = {}"
  proof (cases "lt_upper_level t")
    case None
    then show ?thesis using leveled_generate_upper [OF gen] places_distinct(2) [OF places l] by auto
  next
    case (Some u)
    then have u: "0 < u" "lt_lower_level t = u + 1" "u < length (ls_levels st)"
        "set (lt_upper_level_sst_ids t) \<subseteq> set (snd (ls_levels st ! (u - 1)))"
      using fits by (simp_all add: leveled_fits_def)
    then show ?thesis using places_distinct(3) [OF places, of "u - 1" u] by (auto simp: l_def)
  qed
  ultimately show ?thesis using loweq by auto
qed

lemma simple_scan_upper: "simple_scan o' n ls = Some t \<Longrightarrow> st_upper_level t \<noteq> None"
  by (induction o' n ls rule: simple_scan.induct) (auto split: if_splits)

lemma simple_generate_upper:
  assumes "simple_generate o' st = Inr (Some t)"
  shows "st_upper_level t = None \<longrightarrow> st_upper_level_sst_ids t = ls_l0_sstables st"
proof (cases "so_level0_file_num_compaction_trigger o' \<le> length (ls_l0_sstables st)")
  case True
  then show ?thesis using assms by (auto simp: simple_generate_def res_simps)
next
  case False
  then have "simple_scan o' (length (ls_levels st)) (ls_levels st) = Some t"
    using assms by (auto simp: simple_generate_def res_simps)
  then have "st_upper_level t \<noteq> None" by (rule simple_scan_upper)
  then show ?thesis by auto
qed

lemma simple_generate_distinct:
  assumes gen: "simple_generate o' st = Inr (Some t)" and fits: "simple_fits c st t" and places: "places_ok st"
  shows "distinct (st_upper_level_sst_ids t @ st_lower_level_sst_ids t)"
proof (cases "st_upper_level t")
  case None
  then have "ls_levels st ! 0 \<in> set (ls_levels st)" "st_lower_level_sst_ids t = snd (ls_levels st ! 0)"
    using fits by (simp_all add: simple_fits_def)
  then show ?thesis
    using None simple_generate_upper [OF gen] places_distinct(1,2) [OF places] by auto
next
  case (Some u)
  then have u: "0 < u" "u < length (ls_levels st)" "st_upper_level_sst_ids t = snd (ls_levels st ! (u - 1))"
      "st_lower_level_sst_ids t = snd (ls_levels st ! u)"
    using fits by (simp_all add: simple_fits_def)
  then have "ls_levels st ! (u - 1) \<in> set (ls_levels st)" "ls_levels st ! u \<in> set (ls_levels st)" by simp_all
  then show ?thesis
    using u places_distinct(2) [OF places] places_distinct(3) [OF places, of "u - 1" u] by simp
qed

lemma tiered_generate_distinct:
  assumes fits: "tiered_fits c st t" and places: "places_ok st"
  shows "distinct (concat (map snd (tt_tiers t)))"
  using assms by (auto simp: tiered_fits_def places_ok_def)

lemma controller_generate_fits:
  assumes gen: "controller_generate c st = Inr (Some task)" and tuned: "tuned c"
    and ok: "state_ok crc fp S st" and tree: "tree_ok crc S c st"
  shows "task_fits c st task \<and> (\<forall>ids \<in> set (task_runs task). level_ok crc (tables_of st ids))"
proof -
  have places: "places_ok st" and shape: "shape_ok c st" using tree by (simp_all add: tree_ok_def)
  show ?thesis
  proof (cases c)
    case (LeveledController o')
    then obtain t where t: "leveled_generate o' st = Inr (Some t)" "task = LeveledTask t"
      using gen by (auto simp: controller_generate_def res_simps)
    note fits = leveled_generate_fits [OF t(1)]
    have "lt_upper_level t = None \<or> length (lt_upper_level_sst_ids t) = 1"
      using leveled_generate_upper [OF t(1)] by auto
    from leveled_runs [OF ok fits this] show ?thesis
      using fits leveled_generate_distinct [OF t(1) ok places] LeveledController t(2) by (simp add: task_fits_def)
  next
    case (SimpleController o')
    then obtain t where t: "simple_generate o' st = Inr (Some t)" "task = SimpleTask t"
      using gen by (auto simp: controller_generate_def res_simps)
    have fits: "simple_fits c st t"
      by (rule simple_generate_fits [OF t(1) shape]) (simp add: SimpleController flush_to_l0_def)
    show ?thesis
      using fits simple_generate_distinct [OF t(1) fits places] simple_runs [OF ok fits] SimpleController t(2)
      by (simp add: task_fits_def)
  next
    case (TieredController o')
    then obtain t where t: "tiered_generate o' st = Inr (Some t)" "task = TieredTask t"
      using gen by (auto simp: controller_generate_def res_simps)
    have fits: "tiered_fits c st t"
      by (rule tiered_generate_fits [OF _ t(1)]) (use tuned in \<open>simp_all add: TieredController tuned_def flush_to_l0_def\<close>)
    show ?thesis
      using fits tiered_generate_distinct [OF fits places] tiered_runs [OF ok fits] TieredController t(2)
      by (simp add: task_fits_def)
  next
    case NoCompactionController
    then show ?thesis using tuned by (simp add: tuned_def)
  qed
qed

lemma controller_generate_total:
  assumes "tuned c" "state_ok crc fp S st" "tree_ok crc S c st"
  obtains r where "controller_generate c st = Inr r"
proof -
  have shape: "shape_ok c st" using assms(3) by (simp add: tree_ok_def)
  show thesis
  proof (cases c)
    case (LeveledController o')
    then obtain r where "leveled_generate o' st = Inr r"
      using leveled_generate_total [OF assms(2), of o'] shape assms(1) by (auto simp: tuned_def)
    then show thesis using that LeveledController by (simp add: controller_generate_def)
  next
    case (SimpleController o')
    have "ls_levels st \<noteq> []" using shape SimpleController by (simp add: shape_ok_def)
    then obtain r where "simple_generate o' st = Inr r"
      using simple_generate_total [OF shape, of o'] SimpleController by (auto simp: flush_to_l0_def)
    then show thesis using that SimpleController by (simp add: controller_generate_def)
  next
    case (TieredController o')
    then obtain r where "tiered_generate o' st = Inr r"
      using tiered_generate_total [of o' c st] shape assms(1) by (auto simp: tuned_def flush_to_l0_def)
    then show thesis using that TieredController by (simp add: controller_generate_def)
  next
    case NoCompactionController
    then show thesis using assms(1) by (simp add: tuned_def)
  qed
qed

section \<open>The compaction thread\<close>

text \<open>The tombstones among the inputs of a task.\<close>

definition tail_fits :: "(bytes \<Rightarrow> u32) \<Rightarrow> 'm lsm_state \<Rightarrow> compaction_task \<Rightarrow> bool" where
  "tail_fits crc st task \<longleftrightarrow> (compact_to_bottom_level task \<longrightarrow> no_tail_tombstone (pairs_of crc st (task_inputs task)))"

lemma storage_out_fits: "storage_ok crc fp S s \<Longrightarrow> out_fits s"
  by (auto simp: storage_ok_def out_fits_def ids_ok_def Let_def)

lemma pairs_single_valued:
  assumes "storage_ok crc fp S s" "set ids \<subseteq> live_ids (sg_state s)"
  shows "single_valued (pairs_of crc (sg_state s) ids)"
  by (rule single_valued_subset [OF pairs_of_subset [OF assms(2), of crc S]])
    (use assms(1) in \<open>simp add: storage_ok_def tree_ok_def consistent_def\<close>)

text \<open>What the second half of a compaction can rely on after \<open>compact\<close>.\<close>

definition output_of ::
    "(bytes \<Rightarrow> u32) \<Rightarrow> (bytes \<Rightarrow> u32) \<Rightarrow> compaction_task \<Rightarrow> 'm storage \<Rightarrow> sstable list \<Rightarrow> 'm storage \<Rightarrow> bool" where
  "output_of crc fp task s ts s1 \<longleftrightarrow>
     outputs_ok crc fp s ts s1 \<and> level_ok crc ts \<and> distinct (map sst_id ts) \<and>
     (\<forall>t \<in> set ts. table_ok crc fp t \<and> ls_sstables (sg_state s) (sst_id t) = None) \<and>
     set (level_entries crc ts) =
       {e \<in> pairs_of crc (sg_state s) (task_inputs task). \<not> (compact_to_bottom_level task \<and> snd e = [])} \<and>
     sg_state s1 = sg_state s \<and> sg_controller s1 = sg_controller s"

lemma compact_output_of:
  assumes ok: "storage_ok crc fp S s" and live: "set (task_inputs task) \<subseteq> live_ids (sg_state s)"
    and runs: "\<forall>ids \<in> set (task_runs task). level_ok crc (tables_of (sg_state s) ids)"
    and tail: "tail_fits crc (sg_state s) task"
  obtains ts s1 where "compact crc fp task s = (Inr ts, s1)" "output_of crc fp task s ts s1"
proof -
  have st: "state_ok crc fp S (sg_state s)" and ids: "ids_ok s" using ok by (simp_all add: storage_ok_def)
  obtain ts s1 where c: "compact crc fp task s = (Inr ts, s1)"
    "compact_output_ok crc fp (pairs_of crc (sg_state s) (task_inputs task)) (compact_to_bottom_level task) s ts s1"
    by (rule compact_ok [OF st storage_out_fits [OF ok] live runs pairs_single_valued [OF ok live]])
      (use tail in \<open>auto simp: tail_fits_def\<close>)
  then have o': "outputs_ok crc fp s ts s1" "level_ok crc ts"
      "set (level_entries crc ts) =
         {e \<in> pairs_of crc (sg_state s) (task_inputs task). \<not> (compact_to_bottom_level task \<and> snd e = [])}"
    by (simp_all add: compact_output_ok_def)
  have num: "map sst_id ts = [sg_next_sst_id s..<sg_next_sst_id s + length ts]" "\<forall>t \<in> set ts. table_ok crc fp t"
    and same: "sg_state s1 = sg_state s" "sg_controller s1 = sg_controller s"
    using o'(1) by (auto simp: outputs_ok_def)
  have "sg_next_sst_id s \<le> sst_id t" if "t \<in> set ts" for t
    using arg_cong [OF num(1), of set] that by force
  moreover have "ls_sstables (sg_state s) i = None" if "sg_next_sst_id s \<le> i" for i
    using ids that by (auto simp: ids_ok_def Let_def not_less [symmetric])
  ultimately show thesis
    using c(1) o' num same by (intro that [of ts s1]) (auto simp: output_of_def)
qed

definition task_of :: "'m storage \<Rightarrow> compaction_task option" where
  "task_of s = (case controller_generate (sg_controller s) (sg_state s) of Inr t \<Rightarrow> t | Inl e \<Rightarrow> None)"

lemma trigger_compaction_ok:
  assumes S: "skip_map S" and ok: "storage_ok crc fp S s" and tuned: "tuned (sg_controller s)"
    and tail: "\<And>task. task_of s = Some task \<Longrightarrow> tail_fits crc (sg_state s) task"
  obtains s' where "trigger_compaction crc fp s = (Inr (), s')" "storage_ok crc fp S s'"
    "case task_of s of
       None \<Rightarrow> sg_state s' = sg_state s
     | Some task \<Rightarrow> compacted crc S (compact_to_bottom_level task) (task_inputs task) (sg_state s) (sg_state s')"
    "sg_mvcc s' = sg_mvcc s" "sg_controller s' = sg_controller s" "sg_options s' = sg_options s"
    "sg_manifest s' = sg_manifest s"
proof -
  let ?st = "sg_state s" and ?c = "sg_controller s"
  note result = that
  have st: "state_ok crc fp S ?st" and tree: "tree_ok crc S ?c ?st" using ok by (simp_all add: storage_ok_def)
  obtain r where r: "controller_generate ?c ?st = Inr r" by (rule controller_generate_total [OF tuned st tree])
  show thesis
  proof (cases r)
    case None
    then show thesis using r ok
      by (intro that [of s]) (simp_all add: trigger_compaction_def task_of_def)
  next
    case (Some task)
    have gen: "controller_generate ?c ?st = Inr (Some task)" using r Some by simp
    have fits: "task_fits ?c ?st task" and runs: "\<forall>ids \<in> set (task_runs task). level_ok crc (tables_of ?st ids)"
      using controller_generate_fits [OF gen tuned st tree] by blast+
    have t: "task_of s = Some task" by (simp add: task_of_def gen)
    note tail' = tail [OF t]
    obtain ts s1 where c: "compact crc fp task s = (Inr ts, s1)" "output_of crc fp task s ts s1"
      by (rule compact_output_of [OF ok task_fits_live [OF fits] runs tail'])
    have o': "outputs_ok crc fp s ts s1" "level_ok crc ts" "distinct (map sst_id ts)" "\<forall>t \<in> set ts. table_ok crc fp t"
        "\<forall>t \<in> set ts. ls_sstables ?st (sst_id t) = None" "sg_state s1 = ?st" "sg_controller s1 = ?c"
        "set (level_entries crc ts) =
          {e \<in> pairs_of crc ?st (task_inputs task). \<not> (compact_to_bottom_level task \<and> snd e = [])}"
      using c(2) by (simp_all add: output_of_def)
    obtain st' where st': "controller_apply ?c (insert_ssts ts ?st) task (map sst_id ts) False = Inr (st', task_inputs task)"
      "installed crc fp S ?c (compact_to_bottom_level task) (task_inputs task) ts ?st (remove_ssts (task_inputs task) st')"
      using task_fits_install [OF st tree fits o'(4,3,5,2,8)] tail' by (auto simp: tail_fits_def)
    have d: "distinct (task_inputs task)" using fits by (simp add: task_fits_def)
    obtain s' where "remove_files (task_inputs task) (s1\<lparr>sg_state := remove_ssts (task_inputs task) st'\<rparr>) = (Inr (), s')"
      "storage_ok crc fp S s'" "compacted crc S (compact_to_bottom_level task) (task_inputs task) ?st (sg_state s')"
      "sg_mvcc s' = sg_mvcc s" "sg_controller s' = sg_controller s" "sg_options s' = sg_options s"
      "sg_manifest s' = sg_manifest s"
      by (rule install_storage_ok [OF S ok o'(1) task_fits_live [OF fits] d st'(2)])
    then show thesis
      using st'(1) c(1) o'(6,7)
      by (intro result [of s']) (simp_all add: trigger_compaction_def gen compaction_install_def t)
  qed
qed

section \<open>Full compaction\<close>

text \<open>
  A full compaction by the client does to the state what a simple compaction of all of level 0 into
  level 1 would do, whatever the controller.
\<close>

definition full_task :: "'m lsm_state \<Rightarrow> simple_task" where
  "full_task st =
     \<lparr>st_upper_level = None, st_upper_level_sst_ids = ls_l0_sstables st, st_lower_level = 1,
      st_lower_level_sst_ids = snd (ls_levels st ! 0), st_is_lower_level_bottom_level = True\<rparr>"

definition full_inputs :: "'m lsm_state \<Rightarrow> nat list" where
  "full_inputs st = ls_l0_sstables st @ snd (ls_levels st ! 0)"

lemma insert_remove_ssts:
  assumes "distinct (map sst_id ts)" "sst_id ` set ts \<inter> set ids = {}"
  shows "ls_sstables (insert_ssts ts (remove_ssts ids st)) = ls_sstables (remove_ssts ids (insert_ssts ts st))"
proof
  fix i
  show "ls_sstables (insert_ssts ts (remove_ssts ids st)) i = ls_sstables (remove_ssts ids (insert_ssts ts st)) i"
  proof (cases "i \<in> sst_id ` set ts")
    case True
    then obtain t where t: "t \<in> set ts" "i = sst_id t" by blast
    then have "i \<notin> set ids" using assms(2) by auto
    then show ?thesis
      using insert_ssts_new [OF assms(1) t(1), of "remove_ssts ids st"] insert_ssts_new [OF assms(1) t(1), of st] t(2)
      by simp
  next
    case False
    then show ?thesis by (simp add: insert_ssts_other)
  qed
qed

lemma full_install_simple:
  assumes "simple_apply (insert_ssts ts (sg_state s)) (full_task (sg_state s)) (map sst_id ts) = Inr (st', ids)"
    and "ids = full_inputs (sg_state s)" "ls_levels (sg_state s) \<noteq> []"
    and "distinct (map sst_id ts)" "sst_id ` set ts \<inter> set ids = {}"
    and "places_ok (sg_state s)"
  shows "full_install ids ts s = remove_files ids (s\<lparr>sg_state := remove_ssts ids st'\<rparr>)"
proof -
  let ?st = "sg_state s"
  let ?l0 = "filter (\<lambda>i. i \<notin> set (ls_l0_sstables ?st)) (ls_l0_sstables ?st)"
  have none: "?l0 = []" "filter (\<lambda>i. i \<notin> set ids) (ls_l0_sstables ?st) = []"
    using assms(2) by (auto simp: full_inputs_def filter_empty_conv)
  have st': "st' = insert_ssts ts ?st\<lparr>ls_l0_sstables := [], ls_levels := (ls_levels ?st)[0 := (1, map sst_id ts)]\<rparr>"
    using assms(1,3) none(1)
    by (simp add: simple_apply_def full_task_def set_level_Suc [of 0, simplified] Let_def)
  define st1 where "st1 = insert_ssts ts (remove_ssts ids (?st\<lparr>ls_l0_sstables := []\<rparr>))"
  have "st1\<lparr>ls_levels := (ls_levels st1)[0 := (1, map sst_id ts)]\<rparr> = remove_ssts ids st'"
  proof (rule lsm_state.equality)
    have "ls_sstables st1 = ls_sstables (remove_ssts ids (insert_ssts ts (?st\<lparr>ls_l0_sstables := []\<rparr>)))"
      unfolding st1_def by (rule insert_remove_ssts [OF assms(4,5)])
    also have "\<dots> = ls_sstables (remove_ssts ids st')"
    proof
      fix i
      have "ls_sstables (insert_ssts ts (?st\<lparr>ls_l0_sstables := []\<rparr>)) i = ls_sstables (insert_ssts ts ?st) i"
      proof (cases "i \<in> sst_id ` set ts")
        case True
        then obtain t where "t \<in> set ts" "i = sst_id t" by blast
        then show ?thesis by (simp add: insert_ssts_new [OF assms(4)])
      qed (simp add: insert_ssts_other)
      then show "ls_sstables (remove_ssts ids (insert_ssts ts (?st\<lparr>ls_l0_sstables := []\<rparr>))) i = ls_sstables (remove_ssts ids st') i"
        by (simp add: st')
    qed
    finally show "ls_sstables (st1\<lparr>ls_levels := (ls_levels st1)[0 := (1, map sst_id ts)]\<rparr>) = ls_sstables (remove_ssts ids st')"
      by simp
  qed (simp_all add: st1_def st')
  then show ?thesis
    using assms(3) none(2) by (simp add: full_install_def Let_def st1_def)
qed

lemma force_full_compaction_ok:
  assumes S: "skip_map S" and ok: "storage_ok crc fp S s" and l0: "flush_to_l0 (sg_controller s)"
    and tail: "no_tail_tombstone (pairs_of crc (sg_state s) (full_inputs (sg_state s)))"
  obtains s' where "force_full_compaction crc fp s = (Inr (), s')" "storage_ok crc fp S s'"
    "compacted crc S True (full_inputs (sg_state s)) (sg_state s) (sg_state s')"
    "sg_mvcc s' = sg_mvcc s" "sg_controller s' = sg_controller s" "sg_options s' = sg_options s"
    "sg_manifest s' = sg_manifest s"
proof -
  let ?st = "sg_state s" and ?c = "sg_controller s"
  let ?ins = "full_inputs ?st" and ?task = "ForceFullCompaction (ls_l0_sstables ?st) (snd (ls_levels ?st ! 0))"
  note result = that
  have st: "state_ok crc fp S ?st" and tree: "tree_ok crc S ?c ?st" using ok by (simp_all add: storage_ok_def)
  then have places: "places_ok ?st" and ne: "ls_levels ?st \<noteq> []"
    using l0 by (auto simp: tree_ok_def shape_ok_def flush_to_l0_def split: compaction_controller.splits)
  have mem: "ls_levels ?st ! 0 \<in> set (ls_levels ?st)" using ne by simp
  have fits: "simple_fits ?c ?st (full_task ?st)" using l0 ne by (simp add: simple_fits_def full_task_def)
  have ins: "task_inputs ?task = ?ins" by (simp add: full_inputs_def)
  have live: "set ?ins \<subseteq> live_ids ?st" using simple.inputs_live [OF fits] by (simp add: full_task_def full_inputs_def)
  have d: "distinct ?ins"
    using places_distinct(1,2) [OF places] mem by (auto simp: full_inputs_def)
  obtain ts s1 where c: "compact crc fp ?task s = (Inr ts, s1)" "output_of crc fp ?task s ts s1"
  proof (rule compact_output_of [OF ok])
    show "set (task_inputs ?task) \<subseteq> live_ids ?st" using live by (simp only: ins)
    show "\<forall>ids \<in> set (task_runs ?task). level_ok crc (tables_of ?st ids)" using st mem by (simp add: state_ok_def)
    show "tail_fits crc ?st ?task" using tail unfolding tail_fits_def ins by blast
  qed
  have o': "outputs_ok crc fp s ts s1" "level_ok crc ts" "distinct (map sst_id ts)" "\<forall>t \<in> set ts. table_ok crc fp t"
      "\<forall>t \<in> set ts. ls_sstables ?st (sst_id t) = None" "sg_state s1 = ?st" "sg_controller s1 = ?c"
      "set (level_entries crc ts) = {e \<in> pairs_of crc ?st ?ins. \<not> (True \<and> snd e = [])}"
    using c(2) unfolding output_of_def ins by simp_all
  obtain st' where st': "simple_apply (insert_ssts ts ?st) (full_task ?st) (map sst_id ts) = Inr (st', ?ins)"
      "installed crc fp S ?c True ?ins ts ?st (remove_ssts ?ins st')"
    using simple.install [OF st tree fits o'(4,3,5,2), of True] o'(8) tail by (auto simp: full_task_def full_inputs_def)
  obtain s' where s': "remove_files ?ins (s1\<lparr>sg_state := remove_ssts ?ins st'\<rparr>) = (Inr (), s')"
      "storage_ok crc fp S s'" "compacted crc S True ?ins ?st (sg_state s')"
      "sg_mvcc s' = sg_mvcc s" "sg_controller s' = sg_controller s" "sg_options s' = sg_options s"
      "sg_manifest s' = sg_manifest s"
    by (rule install_storage_ok [OF S ok o'(1) live d st'(2)])
  have fresh: "sst_id ` set ts \<inter> set ?ins = {}"
  proof -
    have has: "ls_sstables ?st i \<noteq> None" if "i \<in> set ?ins" for i using live st that by (auto simp: state_ok_def)
    have "sst_id t \<notin> set ?ins" if "t \<in> set ts" for t using has [of "sst_id t"] o'(5) that by auto
    then show ?thesis by auto
  qed
  have "full_install ?ins ts s1 = remove_files ?ins (s1\<lparr>sg_state := remove_ssts ?ins st'\<rparr>)"
    by (rule full_install_simple) (use st'(1) ne o'(3,6) fresh places in simp_all)
  then have "force_full_compaction crc fp s = (Inr (), s')"
    using c(1) s'(1) ne by (simp add: force_full_compaction_def index_def Let_def full_inputs_def)
  then show thesis using s'(2-) by (rule result)
qed

end
