(* ===== verification/Engine.thy ===== *)
theory Engine
  imports Trigger
begin

text \<open>
  The storage with all of its background work: what compactions keep of the contents, and the
  refinement of a plain map by runs of writes, flushes and compactions.
\<close>

section \<open>Operations leave the controller alone\<close>

lemma force_freeze_controller:
  "sg_controller (snd (force_freeze_memtable S M s)) = sg_controller s"
  by (auto simp: force_freeze_memtable_def next_sst_id_def add_record_def Let_def
      split: sum.split option.split prod.split)

lemma flush_controller:
  "sg_controller (snd (force_flush_next_imm_memtable crc fp S M s)) = sg_controller s"
  by (auto simp: force_flush_next_imm_memtable_def flush_build_def flush_install_def add_record_def Let_def
      split: sum.split option.split prod.split)

lemma st_then_controller:
  "sg_controller (snd r) = c \<Longrightarrow> (\<And>x s. sg_controller s = c \<Longrightarrow> sg_controller (snd (f x s)) = c) \<Longrightarrow>
   sg_controller (snd (st_then r f)) = c"
  by (cases r; cases "fst r") auto

lemma write_batch_controller: "sg_controller (snd (write_batch crc S M batch s)) = sg_controller s"
  unfolding write_batch_def Let_def
  by (auto simp: try_freeze_def force_freeze_controller intro!: st_then_controller)

lemma run_flush_controller: "sg_controller (snd (run_flush crc fp S M op s)) = sg_controller s"
  by (cases op) (auto simp: force_flush_def trigger_flush_def force_freeze_controller flush_controller
      intro!: st_then_controller)

section \<open>Storages without tombstones\<close>

text \<open>
  A store that never deletes: every value of every version is non-empty, and so are the values the
  client writes. Such a store loses nothing in a compaction, to the bottom or not.
\<close>

fun put_fits :: "write_batch_record \<Rightarrow> bool" where
  "put_fits (Put k v) \<longleftrightarrow> record_fits (Put k v) \<and> v \<noteq> []"
| "put_fits (Del k) \<longleftrightarrow> False"

lemma put_fits_record: "put_fits r \<Longrightarrow> record_fits r"
  by (cases r) auto

definition no_tombstones :: "(bytes \<Rightarrow> u32) \<Rightarrow> ('m, key, bytes) skip_ops \<Rightarrow> 'm lsm_state \<Rightarrow> bool" where
  "no_tombstones crc S st \<longleftrightarrow> (\<forall>k v. state_map crc S st k = Some v \<longrightarrow> v \<noteq> [])"

lemma no_tombstones_pairs:
  assumes "skip_map S" "state_ok crc fp S st" "tree_ok crc S c st" "no_tombstones crc S st"
    and "set ids \<subseteq> live_ids st" "e \<in> pairs_of crc st ids"
  shows "snd e \<noteq> []"
proof -
  have "e \<in> state_pairs crc S st" using pairs_of_subset [OF assms(5), of crc S] assms(6) by blast
  then have "state_map crc S st (fst e) = Some (snd e)" by (simp add: state_map_pairs_iff [OF assms(1-3)])
  then show ?thesis using assms(4) by (simp add: no_tombstones_def)
qed

lemma batch_map_values: "batch_map ts batch k = Some v \<Longrightarrow> \<forall>r \<in> set batch. put_fits r \<Longrightarrow> v \<noteq> []"
proof -
  assume "batch_map ts batch k = Some v" and fits: "\<forall>r \<in> set batch. put_fits r"
  then have "(k, v) \<in> set (map (write_record ts) batch)"
    unfolding batch_map_def by (auto dest: map_of_SomeD)
  then obtain r where r: "r \<in> set batch" "(k, v) = write_record ts r" by auto
  have "put_fits r" using fits r(1) by blast
  then show "v \<noteq> []" using r(2) by (cases r) auto
qed

lemma compacted_same:
  assumes S: "skip_map S" and st: "state_ok crc fp S st" "tree_ok crc S c st" "no_tombstones crc S st"
    and st': "state_ok crc fp S st'" "tree_ok crc S c st'" and comp: "compacted crc S bottom ins st st'"
  shows "state_map crc S st' = state_map crc S st"
proof
  fix k
  show "state_map crc S st' k = state_map crc S st k"
  proof (cases "state_map crc S st k")
    case None
    then show ?thesis
      using compacted_versions(1) [OF S st(1,2) st' comp, of k] by (cases "state_map crc S st' k") auto
  next
    case (Some v)
    then have "v \<noteq> []" using st(3) by (simp add: no_tombstones_def)
    then show ?thesis using compacted_versions(2) [OF S st(1,2) st' comp Some] Some by auto
  qed
qed

section \<open>Writes, flushes and compactions\<close>

datatype upkeep = Flushing flush_op | CompactionTick

fun run_upkeep ::
    "(bytes \<Rightarrow> u32) \<Rightarrow> (bytes \<Rightarrow> u32) \<Rightarrow> ('m, key, bytes) skip_ops \<Rightarrow> manifest_ops \<Rightarrow> upkeep \<Rightarrow>
     'm storage \<Rightarrow> unit res \<times> 'm storage" where
  "run_upkeep crc fp S M (Flushing op) = run_flush crc fp S M op"
| "run_upkeep crc fp S M CompactionTick = trigger_compaction crc fp"

definition compaction_good ::
    "(bytes \<Rightarrow> u32) \<Rightarrow> (bytes \<Rightarrow> u32) \<Rightarrow> ('m, key, bytes) skip_ops \<Rightarrow> manifest_ops \<Rightarrow> 'm storage \<Rightarrow> bool" where
  "compaction_good crc fp S M s \<longleftrightarrow>
     storage_good crc fp S M s \<and> tuned (sg_controller s) \<and> no_tombstones crc S (sg_state s)"

lemma trigger_compaction_same:
  assumes "compaction_good crc fp S M s"
  obtains s' where "trigger_compaction crc fp s = (Inr (), s')" "compaction_good crc fp S M s'"
    "state_map crc S (sg_state s') = state_map crc S (sg_state s)" "sg_mvcc s' = sg_mvcc s"
proof -
  have S: "skip_map S" and M: "manifest_works M" and ok: "storage_ok crc fp S s" and tuned: "tuned (sg_controller s)"
    and nt: "no_tombstones crc S (sg_state s)"
    using assms by (simp_all add: compaction_good_def storage_good_def)
  have st: "state_ok crc fp S (sg_state s)" and tree: "tree_ok crc S (sg_controller s) (sg_state s)"
    using ok by (simp_all add: storage_ok_def)
  have tail: "tail_fits crc (sg_state s) task" if "task_of s = Some task" for task
  proof -
    have "controller_generate (sg_controller s) (sg_state s) = Inr (Some task)"
      using that by (auto simp: task_of_def split: sum.splits)
    then have "set (task_inputs task) \<subseteq> live_ids (sg_state s)"
      using controller_generate_fits [OF _ tuned st tree] task_fits_live by blast
    then show ?thesis
      using no_tombstones_pairs [OF S st tree nt] by (auto simp: tail_fits_def no_tail_tombstone_def)
  qed
  obtain s' where s': "trigger_compaction crc fp s = (Inr (), s')" "storage_ok crc fp S s'"
    "case task_of s of
       None \<Rightarrow> sg_state s' = sg_state s
     | Some task \<Rightarrow> compacted crc S (compact_to_bottom_level task) (task_inputs task) (sg_state s) (sg_state s')"
    "sg_mvcc s' = sg_mvcc s" "sg_controller s' = sg_controller s"
    by (rule trigger_compaction_ok [OF S ok tuned tail])
  have st': "state_ok crc fp S (sg_state s')" "tree_ok crc S (sg_controller s) (sg_state s')"
    using s'(2,5) by (simp_all add: storage_ok_def)
  have same: "state_map crc S (sg_state s') = state_map crc S (sg_state s)"
    using s'(3) compacted_same [OF S st tree nt st'] by (cases "task_of s") auto
  then show thesis
    using s' S M tuned nt by (intro that [of s']) (simp_all add: compaction_good_def storage_good_def no_tombstones_def)
qed

interpretation compacting: mv_store "compaction_good crc fp S M" "\<lambda>s. state_map crc S (sg_state s)"
    "\<lambda>s. latest_commit_ts (sg_mvcc s)" put_fits "get_with_ts crc fp S" "write_batch crc S M" "run_upkeep crc fp S M"
proof
  fix s
  assume cgood: "compaction_good crc fp S M s"
  then have good: "storage_good crc fp S M s" and tuned: "tuned (sg_controller s)"
    and nt: "no_tombstones crc S (sg_state s)" by (simp_all add: compaction_good_def)
  show "finite (dom (state_map crc S (sg_state s)))" by simp
  show "get_with_ts crc fp S s u ts = Inr (read_at ts (state_map crc S (sg_state s)) u)" for u ts
    by (rule flushing.get_versions [OF good])
  show "key_ts k \<le> latest_commit_ts (sg_mvcc s)" if "state_map crc S (sg_state s) k = Some v" for k v
    by (rule flushing.versions_clock [OF good that])
  show "\<exists>s'. write_batch crc S M batch s = (Inr (), s') \<and> compaction_good crc fp S M s' \<and>
      latest_commit_ts (sg_mvcc s') = latest_commit_ts (sg_mvcc s) + 1 \<and>
      state_map crc S (sg_state s') = state_map crc S (sg_state s) ++ batch_map (latest_commit_ts (sg_mvcc s) + 1) batch"
    if fits: "\<forall>r \<in> set batch. put_fits r" and left: "latest_commit_ts (sg_mvcc s) \<noteq> - 1" for batch
  proof -
    have rf: "\<forall>r \<in> set batch. record_fits r" using fits put_fits_record by blast
    obtain s' where s': "write_batch crc S M batch s = (Inr (), s')" "storage_good crc fp S M s'"
      "latest_commit_ts (sg_mvcc s') = latest_commit_ts (sg_mvcc s) + 1"
      "state_map crc S (sg_state s') = state_map crc S (sg_state s) ++ batch_map (latest_commit_ts (sg_mvcc s) + 1) batch"
      using flushing.write_versions [OF good rf left] by blast
    have "sg_controller s' = sg_controller s" using write_batch_controller [of crc S M batch s] s'(1) by simp
    moreover have "no_tombstones crc S (sg_state s')"
      using nt batch_map_values [OF _ fits] by (fastforce simp: no_tombstones_def s'(4))
    ultimately show ?thesis using s' tuned by (intro exI [of _ s']) (simp add: compaction_good_def)
  qed
  show "\<exists>s'. run_upkeep crc fp S M op s = (Inr (), s') \<and> compaction_good crc fp S M s' \<and>
      latest_commit_ts (sg_mvcc s') = latest_commit_ts (sg_mvcc s) \<and>
      state_map crc S (sg_state s') = state_map crc S (sg_state s)" for op
  proof (cases op)
    case (Flushing fop)
    obtain s' where s': "run_flush crc fp S M fop s = (Inr (), s')" "storage_good crc fp S M s'"
      "latest_commit_ts (sg_mvcc s') = latest_commit_ts (sg_mvcc s)"
      "state_map crc S (sg_state s') = state_map crc S (sg_state s)"
      using flushing.maintain_versions [OF good] by blast
    have "sg_controller s' = sg_controller s" using run_flush_controller [of crc fp S M fop s] s'(1) by simp
    then show ?thesis
      using s' tuned nt Flushing by (intro exI [of _ s']) (simp add: compaction_good_def no_tombstones_def)
  next
    case CompactionTick
    then show ?thesis using trigger_compaction_same [OF cgood] by (metis run_upkeep.simps(2))
  qed
qed

section \<open>New storages\<close>

text \<open>The storage of a new directory, without a log.\<close>

definition fresh_storage :: "('m, key, bytes) skip_ops \<Rightarrow> lsm_options \<Rightarrow> 'm storage" where
  "fresh_storage S options =
     \<lparr>sg_state = lsm_state_create S options, sg_block_cache = Map.empty, sg_next_sst_id = 1,
      sg_options = options, sg_controller = controller_of (opt_compaction_options options),
      sg_manifest = [], sg_mvcc = mvcc_new 0, sg_compaction_filters = [], sg_sst_files = Map.empty,
      sg_wal_files = Map.empty\<rparr>"

definition levels_positive :: "compaction_options \<Rightarrow> bool" where
  "levels_positive co \<longleftrightarrow>
     (case co of SimpleOptions o' \<Rightarrow> 0 < so_max_levels o' | LeveledOptions o' \<Rightarrow> 0 < lo_max_levels o' | _ \<Rightarrow> True)"

lemma initial_shape_ok:
  assumes "levels_positive co" "ls_levels st = initial_levels co" "ls_l0_sstables st = []"
  shows "shape_ok (controller_of co) st"
proof -
  have num: "map fst (map (\<lambda>level. (level, [])) [1..<n + 1]) = map Suc [0..<n]" for n
    by (induction n) simp_all
  show ?thesis
  proof (cases co)
    case (LeveledOptions o')
    then show ?thesis
      using assms num [of "lo_max_levels o'"]
      by (simp add: shape_ok_def controller_of_def initial_levels_def levels_positive_def del: upt_Suc map_map)
  next
    case (TieredOptions o')
    then show ?thesis using assms by (simp add: shape_ok_def controller_of_def initial_levels_def)
  next
    case (SimpleOptions o')
    then show ?thesis
      using assms num [of "so_max_levels o'"] arg_cong [OF num [of "so_max_levels o'"], of length]
      by (simp add: shape_ok_def controller_of_def initial_levels_def levels_positive_def del: upt_Suc map_map)
  next
    case NoCompaction
    then show ?thesis using assms by (simp add: shape_ok_def controller_of_def initial_levels_def)
  qed
qed

lemma fresh_storage_ok:
  assumes S: "skip_map S" and levels: "levels_positive (opt_compaction_options options)"
    and opts: "0 < opt_target_sst_size options" "opt_block_size options \<le> 65536"
  shows "storage_ok crc fp S (fresh_storage S options)"
    and "state_map crc S (sg_state (fresh_storage S options)) = Map.empty"
proof -
  let ?st = "lsm_state_create S options"
  have mem: "mt_entries S (ls_memtable ?st) = []"
    by (simp add: lsm_state_create_def mt_entries_create [OF S])
  have fields: "ls_imm_memtables ?st = []" "ls_l0_sstables ?st = []" "ls_sstables ?st = Map.empty"
    "ls_levels ?st = initial_levels (opt_compaction_options options)" "mt_id (ls_memtable ?st) = 0"
    "mt_approximate_size (ls_memtable ?st) = 0"
    by (simp_all add: lsm_state_create_def mt_create_def)
  have levels': "snd l = []" if "l \<in> set (initial_levels (opt_compaction_options options))" for l
    using that by (auto simp: initial_levels_def split: compaction_options.splits)
  then have places: "live_ids ?st = {}" "concat (map snd (initial_levels (opt_compaction_options options))) = []"
    by (auto simp: live_ids_def fields)
  have pairs: "state_pairs crc S ?st = {}"
    using levels' by (auto simp: state_pairs_def mem fields tables_of_def)
  have "m = Map.empty" if "m \<in> set (state_sources crc S ?st)" for m
    using that levels' by (auto simp: state_sources_def mem fields tables_of_def level_entries_def)
  then have map: "state_map crc S ?st = Map.empty"
    unfolding state_map_def using overlay_at [of "state_sources crc S ?st"] by (metis option.exhaust option.simps(3))
  show "state_map crc S (sg_state (fresh_storage S options)) = Map.empty"
    using map by (simp add: fresh_storage_def)
  have "shape_ok (controller_of (opt_compaction_options options)) ?st"
    by (rule initial_shape_ok [OF levels fields(4,2)])
  then have "tree_ok crc S (controller_of (opt_compaction_options options)) ?st"
    by (simp add: tree_ok_def consistent_def pairs places_ok_def fields places)
  moreover have "state_ok crc fp S ?st"
    using levels' by (auto simp: state_ok_def mem fields places tables_of_def)
  ultimately show "storage_ok crc fp S (fresh_storage S options)"
    using map opts
    by (simp add: storage_ok_def fresh_storage_def timestamps_ok_def ids_ok_def fields options_ok_def files_ok_def
        size_ok_def Let_def)
qed

section \<open>Properties\<close>

definition compacting_options :: simple_options where
  "compacting_options = \<lparr>so_size_ratio_percent = 200, so_level0_file_num_compaction_trigger = 1, so_max_levels = 1\<rparr>"

definition compacting_storage :: "(key, bytes) rbt storage" where
  "compacting_storage = sample_storage\<lparr>sg_controller := SimpleController compacting_options\<rparr>"

lemma compacting_storage_ok: "storage_ok (\<lambda>_. 0) (\<lambda>_. 1) rbt_ops compacting_storage"
proof -
  have "storage_ok (\<lambda>_. 0) (\<lambda>_. 1) rbt_ops sample_storage" by (rule sample_storage_ok)
  then show ?thesis
    by (simp add: storage_ok_def compacting_storage_def timestamps_ok_def ids_ok_def options_ok_def files_ok_def
        tree_ok_def shape_ok_def sample_storage_def)
qed

lemma sample_pairs: "pairs_of (\<lambda>_. 0) sample_state [3] = set sample_entries"
  by (simp add: sample_state_def sample_sst_ok)

lemma sample_tail: "no_tail_tombstone (set sample_entries)"
  by (auto simp: no_tail_tombstone_def sample_entries_def)

text \<open>A storage whose only contents are the entries of one table of level 0.\<close>

definition one_table_storage :: "sstable \<Rightarrow> (key, bytes) rbt storage" where
  "one_table_storage t =
     \<lparr>sg_state = \<lparr>ls_memtable = mt_create rbt_ops 4, ls_imm_memtables = [], ls_l0_sstables = [3],
        ls_levels = [(1, [])], ls_sstables = [3 \<mapsto> t]\<rparr>,
      sg_block_cache = Map.empty, sg_next_sst_id = 5, sg_options = default_for_week1_test,
      sg_controller = NoCompactionController, sg_manifest = [], sg_mvcc = mvcc_new 9,
      sg_compaction_filters = [], sg_sst_files = [3 \<mapsto> the (fo_file (sst_file t))], sg_wal_files = Map.empty\<rparr>"

lemma one_table_storage_ok:
  assumes t: "table_ok crc fp t" "sst_id t = 3" and ts: "\<forall>e \<in> set (sst_entries crc t). key_ts (fst e) \<le> 9"
  shows "storage_ok crc fp rbt_ops (one_table_storage t)"
    and "state_map crc rbt_ops (sg_state (one_table_storage t)) = map_of (sst_entries crc t)"
    and "full_inputs (sg_state (one_table_storage t)) = [3]"
    and "pairs_of crc (sg_state (one_table_storage t)) [3] = set (sst_entries crc t)"
    and "kept_pairs crc rbt_ops True [3] (sg_state (one_table_storage t)) =
      {e \<in> set (sst_entries crc t). snd e \<noteq> []}"
proof -
  let ?st = "sg_state (one_table_storage t)"
  have mem: "mt_entries rbt_ops (mt_create rbt_ops 4) = []" by (rule mt_entries_create [OF rbt.skip_map_axioms])
  have sorted: "sorted1 (sst_entries crc t)" using t(1) by (simp add: table_ok_def sst_ok_def)
  show map: "state_map crc rbt_ops ?st = map_of (sst_entries crc t)"
    by (simp add: state_map_def state_sources_def one_table_storage_def mem tables_of_def level_entries_def)
  show "full_inputs ?st = [3]" by (simp add: full_inputs_def one_table_storage_def)
  show "pairs_of crc ?st [3] = set (sst_entries crc t)" by (simp add: one_table_storage_def)
  then show "kept_pairs crc rbt_ops True [3] ?st = {e \<in> set (sst_entries crc t). snd e \<noteq> []}"
    by (auto simp: kept_pairs_def mem_pairs_def one_table_storage_def mem live_ids_def)
  have st: "state_ok crc fp rbt_ops ?st"
    using t by (simp add: state_ok_def one_table_storage_def mem live_ids_def tables_of_def)
  have pairs: "state_pairs crc rbt_ops ?st = set (sst_entries crc t)"
    by (simp add: state_pairs_def one_table_storage_def mem tables_of_def)
  have "single_valued (set (sst_entries crc t))"
    by (rule single_valued_entries) (use sorted1_distinct [OF sorted] in simp)
  then have tree: "tree_ok crc rbt_ops NoCompactionController ?st"
    unfolding tree_ok_def consistent_def pairs by (simp add: places_ok_def shape_ok_def one_table_storage_def)
  obtain data where data: "fo_file (sst_file t) = Some data" using table_ok_file [OF t(1)] by blast
  have "timestamps_ok crc rbt_ops (one_table_storage t)"
    unfolding timestamps_ok_def map using ts
    by (auto simp: one_table_storage_def mvcc_new_def latest_commit_ts_def dest!: map_of_SomeD)
  then show "storage_ok crc fp rbt_ops (one_table_storage t)"
    using st tree data
    by (simp add: storage_ok_def ids_ok_def options_ok_def files_ok_def size_ok_def one_table_storage_def mt_create_def
        Let_def default_for_week1_test_def)
qed

text \<open>
  C2: The storage is a map with snapshots while it is compacted. From any well-formed storage with a
  compaction controller whose options it can work with (\<open>tuned\<close>) and without tombstones, any run of write batches of non-empty values, of
  flushes and of ticks of the compaction thread, in any order, succeeds as long as there are
  timestamps left; afterwards reads at the current time answer what the batches, applied to a plain
  map, leave, and reads at older times answer as before.
\<close>

theorem compaction_refines_map:
  assumes "skip_map S" "manifest_works M" "storage_ok crc fp S s" "tuned (sg_controller s)"
    and "\<forall>k v. state_map crc S (sg_state s) k = Some v \<longrightarrow> v \<noteq> []"
    and "\<forall>op \<in> set ops. op_allowed put_fits op"
    and "unat (latest_commit_ts (sg_mvcc s)) + sum_list (map ticks ops) < 2 ^ 64"
  shows "\<exists>s'. run_ops (write_batch crc S M) (run_upkeep crc fp S M) ops s = (Inr (), s') \<and>
    storage_ok crc fp S s' \<and>
    (\<forall>u. storage_get crc fp S s' u = Inr (fold spec_op ops (\<lambda>u. projr (storage_get crc fp S s u)) u)) \<and>
    (\<forall>u ts. ts \<le> latest_commit_ts (sg_mvcc s) \<longrightarrow>
      get_with_ts crc fp S s' u ts = get_with_ts crc fp S s u ts)"
  using compacting.run_ops_get [of crc fp S M s ops] assms
  unfolding storage_get_def storage_good_def compaction_good_def no_tombstones_def by blast

theorem compaction_refines_map_witness:
  "\<exists>s'. run_ops (write_batch (\<lambda>_. 0) rbt_ops manifest_log) (run_upkeep (\<lambda>_. 0) (\<lambda>_. 1) rbt_ops manifest_log)
      [Write [Put [1] [2]], Maintain (Flushing ForceFlush), Maintain CompactionTick, Write [Put [1] [3]]]
      (fresh_storage rbt_ops (default_for_week2_test (SimpleOptions compacting_options))) = (Inr (), s') \<and>
    storage_ok (\<lambda>_. 0) (\<lambda>_. 1) rbt_ops s' \<and>
    (\<forall>u. storage_get (\<lambda>_. 0) (\<lambda>_. 1) rbt_ops s' u =
      Inr (fold spec_op
        [Write [Put [1] [2]], Maintain (Flushing ForceFlush), Maintain CompactionTick, Write [Put [1] [3]]]
        (\<lambda>u. projr (storage_get (\<lambda>_. 0) (\<lambda>_. 1) rbt_ops
          (fresh_storage rbt_ops (default_for_week2_test (SimpleOptions compacting_options))) u)) u)) \<and>
    (\<forall>u ts. ts \<le> latest_commit_ts (sg_mvcc
        (fresh_storage rbt_ops (default_for_week2_test (SimpleOptions compacting_options)))) \<longrightarrow>
      get_with_ts (\<lambda>_. 0) (\<lambda>_. 1) rbt_ops s' u ts =
      get_with_ts (\<lambda>_. 0) (\<lambda>_. 1) rbt_ops
        (fresh_storage rbt_ops (default_for_week2_test (SimpleOptions compacting_options))) u ts)"
proof (rule compaction_refines_map [OF rbt.skip_map_axioms manifest_log_works])
  let ?o = "default_for_week2_test (SimpleOptions compacting_options)"
  have "levels_positive (opt_compaction_options ?o)" "0 < opt_target_sst_size ?o" "opt_block_size ?o \<le> 65536"
    by (simp_all add: levels_positive_def default_for_week2_test_def compacting_options_def)
  note fresh = fresh_storage_ok [OF rbt.skip_map_axioms this]
  show "storage_ok (\<lambda>_. 0) (\<lambda>_. 1) rbt_ops (fresh_storage rbt_ops ?o)" by (rule fresh(1))
  show "\<forall>k v. state_map (\<lambda>_. 0) rbt_ops (sg_state (fresh_storage rbt_ops ?o)) k = Some v \<longrightarrow> v \<noteq> []"
    by (simp add: fresh(2))
qed (simp_all add: tuned_def fresh_storage_def controller_of_def default_for_week2_test_def mvcc_new_def latest_commit_ts_def)

lemma compacting_task:
  "\<exists>task. task_of compacting_storage = Some task \<and> tail_fits (\<lambda>_. 0) (sg_state compacting_storage) task"
proof -
  have "ls_l0_sstables sample_state = [3]" "ls_levels sample_state = [(1, [])]" by (simp_all add: sample_state_def)
  then have task: "task_of compacting_storage =
      Some (SimpleTask \<lparr>st_upper_level = None, st_upper_level_sst_ids = [3], st_lower_level = 1,
        st_lower_level_sst_ids = [], st_is_lower_level_bottom_level = True\<rparr>)"
    by (simp add: task_of_def compacting_storage_def sample_storage_def controller_generate_def simple_generate_def
        compacting_options_def index_def)
  moreover have "sg_state compacting_storage = sample_state"
    by (simp add: compacting_storage_def sample_storage_def)
  ultimately show ?thesis using sample_tail sample_pairs by (simp add: tail_fits_def del: pairs_of_simps)
qed

text \<open>
  C5: One tick of the compaction thread, for each of the three controllers with options it can work
  with (\<open>tuned\<close>: no division by zero, no overflow of the base size, at least one tier), on a
  well-formed storage where a task that compacts to the bottom, if one is found, does not have a
  tombstone as the greatest entry of its input (\<open>tail_fits\<close>; otherwise the code may build a table
  without a block, which cannot be read). The tick finds a task or none without an error, merges
  the tables of the task and installs the output, leaving a well-formed storage. It invents no
  version, and loses none but tombstones of its input, and those only when the task says that it
  compacts to the bottom.
\<close>

theorem trigger_compaction_contents:
  assumes "skip_map S" "storage_ok crc fp S s" "tuned (sg_controller s)"
    and "\<And>task. task_of s = Some task \<Longrightarrow> tail_fits crc (sg_state s) task"
  shows "\<exists>s'. trigger_compaction crc fp s = (Inr (), s') \<and> storage_ok crc fp S s' \<and>
    (\<forall>k v. state_map crc S (sg_state s') k = Some v \<longrightarrow> state_map crc S (sg_state s) k = Some v) \<and>
    (\<forall>k v. state_map crc S (sg_state s) k = Some v \<longrightarrow>
      state_map crc S (sg_state s') k = Some v \<or>
      v = [] \<and> (\<exists>task. task_of s = Some task \<and> compact_to_bottom_level task \<and>
        (k, v) \<in> pairs_of crc (sg_state s) (task_inputs task)))"
proof -
  obtain s' where s': "trigger_compaction crc fp s = (Inr (), s')" "storage_ok crc fp S s'"
    "case task_of s of
       None \<Rightarrow> sg_state s' = sg_state s
     | Some task \<Rightarrow> compacted crc S (compact_to_bottom_level task) (task_inputs task) (sg_state s) (sg_state s')"
    "sg_controller s' = sg_controller s"
    by (rule trigger_compaction_ok [OF assms])
  have st: "state_ok crc fp S (sg_state s)" "tree_ok crc S (sg_controller s) (sg_state s)"
    and st': "state_ok crc fp S (sg_state s')" "tree_ok crc S (sg_controller s) (sg_state s')"
    using assms(2) s'(2,4) by (simp_all add: storage_ok_def)
  show ?thesis
  proof (cases "task_of s")
    case None
    then show ?thesis using s'(1-3) by (intro exI [of _ s']) simp
  next
    case (Some task)
    then have comp: "compacted crc S (compact_to_bottom_level task) (task_inputs task) (sg_state s) (sg_state s')"
      using s'(3) by simp
    then show ?thesis
      using s'(1,2) Some compacted_versions [OF assms(1) st st' comp] by (intro exI [of _ s']) blast
  qed
qed

theorem trigger_compaction_contents_witness:
  "\<exists>s'. trigger_compaction (\<lambda>_. 0) (\<lambda>_. 1) compacting_storage = (Inr (), s') \<and>
    storage_ok (\<lambda>_. 0) (\<lambda>_. 1) rbt_ops s' \<and>
    (\<forall>k v. state_map (\<lambda>_. 0) rbt_ops (sg_state s') k = Some v \<longrightarrow>
      state_map (\<lambda>_. 0) rbt_ops (sg_state compacting_storage) k = Some v) \<and>
    (\<forall>k v. state_map (\<lambda>_. 0) rbt_ops (sg_state compacting_storage) k = Some v \<longrightarrow>
      state_map (\<lambda>_. 0) rbt_ops (sg_state s') k = Some v \<or>
      v = [] \<and> (\<exists>task. task_of compacting_storage = Some task \<and> compact_to_bottom_level task \<and>
        (k, v) \<in> pairs_of (\<lambda>_. 0) (sg_state compacting_storage) (task_inputs task)))"
  by (rule trigger_compaction_contents [OF rbt.skip_map_axioms compacting_storage_ok])
    (use compacting_task in \<open>auto simp: compacting_storage_def tuned_def\<close>)

text \<open>
  C6: A full compaction by the client, on a well-formed storage whose controller flushes to level 0
  and where the entry with the greatest key of levels 0 and 1 is not a tombstone (otherwise the
  code may build a table without a block, which cannot be read): it succeeds, leaves a well-formed
  storage, and this holds exactly the versions of before without the tombstones of level 0 and
  level 1.
\<close>

theorem full_compaction_contents:
  assumes "skip_map S" "storage_ok crc fp S s" "flush_to_l0 (sg_controller s)"
    and "no_tail_tombstone (pairs_of crc (sg_state s) (full_inputs (sg_state s)))"
  shows "\<exists>s'. force_full_compaction crc fp s = (Inr (), s') \<and> storage_ok crc fp S s' \<and>
    (\<forall>k v. state_map crc S (sg_state s') k = Some v \<longleftrightarrow>
      (k, v) \<in> kept_pairs crc S True (full_inputs (sg_state s)) (sg_state s))"
proof -
  obtain s' where s': "force_full_compaction crc fp s = (Inr (), s')" "storage_ok crc fp S s'"
    "compacted crc S True (full_inputs (sg_state s)) (sg_state s) (sg_state s')"
    by (rule force_full_compaction_ok [OF assms])
  have "state_ok crc fp S (sg_state s')" "tree_ok crc S (sg_controller s') (sg_state s')"
    using s'(2) by (simp_all add: storage_ok_def)
  note iff = state_map_pairs_iff [OF assms(1) this]
  show ?thesis
    using s' by (intro exI [of _ s']) (simp add: iff compacted_def)
qed

theorem full_compaction_contents_witness:
  "\<exists>s'. force_full_compaction (\<lambda>_. 0) (\<lambda>_. 1) sample_storage = (Inr (), s') \<and>
    storage_ok (\<lambda>_. 0) (\<lambda>_. 1) rbt_ops s' \<and>
    (\<forall>k v. state_map (\<lambda>_. 0) rbt_ops (sg_state s') k = Some v \<longleftrightarrow>
      (k, v) \<in> kept_pairs (\<lambda>_. 0) rbt_ops True (full_inputs (sg_state sample_storage)) (sg_state sample_storage))"
proof (rule full_compaction_contents [OF rbt.skip_map_axioms sample_storage_ok])
  have "full_inputs sample_state = [3]" by (simp add: full_inputs_def sample_state_def)
  then show "no_tail_tombstone (pairs_of (\<lambda>_. 0) (sg_state sample_storage) (full_inputs (sg_state sample_storage)))"
    using sample_tail sample_pairs by (simp add: sample_storage_def del: pairs_of_simps)
qed (simp add: sample_storage_def flush_to_l0_def)

text \<open>
  C7: A full compaction brings a deleted key back. The compaction keeps every version of a key but
  drops its tombstones, so that a key whose newest version is a tombstone of level 0 or 1 reads as
  absent before the compaction, and as the newest value below the tombstone after it.
\<close>

theorem full_compaction_resurrects:
  assumes "skip_map S" "storage_ok crc fp S s" "flush_to_l0 (sg_controller s)"
    and "no_tail_tombstone (pairs_of crc (sg_state s) (full_inputs (sg_state s)))"
    and "state_map crc S (sg_state s) (Key u t') = Some []"
    and "(Key u t', []) \<notin> kept_pairs crc S True (full_inputs (sg_state s)) (sg_state s)"
    and "state_map crc S (sg_state s) (Key u t) = Some v" "v \<noteq> []" "t < t'"
    and "\<forall>t''. t < t'' \<and> t'' \<noteq> t' \<longrightarrow> state_map crc S (sg_state s) (Key u t'') = None"
  shows "storage_get crc fp S s u = Inr None \<and>
    (\<exists>s'. force_full_compaction crc fp s = (Inr (), s') \<and> storage_get crc fp S s' u = Inr (Some v))"
proof -
  let ?m = "state_map crc S (sg_state s)" and ?ts = "latest_commit_ts (sg_mvcc s)"
  obtain s' where s': "force_full_compaction crc fp s = (Inr (), s')" "storage_ok crc fp S s'"
    "compacted crc S True (full_inputs (sg_state s)) (sg_state s) (sg_state s')" "sg_mvcc s' = sg_mvcc s"
    "sg_controller s' = sg_controller s"
    by (rule force_full_compaction_ok [OF assms(1-4)])
  let ?m' = "state_map crc S (sg_state s')"
  have st: "state_ok crc fp S (sg_state s)" "tree_ok crc S (sg_controller s) (sg_state s)" "timestamps_ok crc S s"
    and st': "state_ok crc fp S (sg_state s')" "tree_ok crc S (sg_controller s) (sg_state s')"
    using assms(2) s'(2,5) by (simp_all add: storage_ok_def)
  have le: "t' \<le> ?ts" using st(3) assms(5) by (auto simp: timestamps_ok_def)
  have "read_at ?ts ?m u = read_at t' ?m u"
    by (rule read_at_older [OF _ le]) (use assms(9,10) in \<open>auto simp: less_trans\<close>)
  then have before: "read_at ?ts ?m u = None" using read_at_newest [of ?m u t' "[]"] assms(5) by simp
  note sub = compacted_versions(1) [OF assms(1) st(1,2) st' s'(3)]
  have kept: "?m' (Key u t) = Some v"
    using compacted_versions(2) [OF assms(1) st(1,2) st' s'(3) assms(7)] assms(8) by blast
  have gone: "?m' (Key u t') = None"
  proof (cases "?m' (Key u t')")
    case (Some w)
    then have "?m' (Key u t') = Some []" using sub [OF Some] assms(5) by simp
    then show ?thesis
      using s'(3) assms(6) unfolding state_map_pairs_iff [OF assms(1) st'] compacted_def by simp
  qed simp
  have new: "?m' (Key u t'') = None" if "t < t''" for t''
    using assms(10) that sub [of "Key u t''"] gone by (cases "?m' (Key u t'')") force+
  have "read_at ?ts ?m' u = read_at t ?m' u"
    by (rule read_at_older) (use le assms(9) new in auto)
  then have after: "read_at ?ts ?m' u = Some v" using read_at_newest [of ?m' u t v] kept assms(8) by simp
  show ?thesis
    using before after s'(1,4) get_with_ts_read_at [OF assms(1) st(1), of u ?ts]
      get_with_ts_read_at [OF assms(1) st'(1), of u ?ts]
    by (simp add: storage_get_def)
qed

theorem full_compaction_resurrects_witness:
  "\<exists>t. storage_ok (\<lambda>_. 0) (\<lambda>_. 1) rbt_ops (one_table_storage t) \<and>
    storage_get (\<lambda>_. 0) (\<lambda>_. 1) rbt_ops (one_table_storage t) [1] = Inr None \<and>
    (\<exists>s'. force_full_compaction (\<lambda>_. 0) (\<lambda>_. 1) (one_table_storage t) = (Inr (), s') \<and>
       storage_get (\<lambda>_. 0) (\<lambda>_. 1) rbt_ops s' [1] = Inr (Some [7]))"
proof -
  let ?es = "[(Key [1] 2, []), (Key [1] 1, [7]), (Key [2] 2, [8])] :: (key \<times> bytes) list"
  have "?es \<noteq> []" "sorted1 ?es" "\<forall>e \<in> set ?es. entry_ok e" by (simp_all add: entry_ok_def)
  then obtain sb t where t: "table_ok (\<lambda>_. 0) (\<lambda>_. 1) t" "sst_entries (\<lambda>_. 0) t = ?es" "sst_id t = 3"
    using sst_build_table_ok [of ?es 40 None 3 "\<lambda>_. 0" "\<lambda>_. 1"] by auto
  have ts: "\<forall>e \<in> set (sst_entries (\<lambda>_. 0) t). key_ts (fst e) \<le> 9" by (simp add: t(2))
  note s = one_table_storage_ok [OF t(1,3) ts]
  have "storage_get (\<lambda>_. 0) (\<lambda>_. 1) rbt_ops (one_table_storage t) [1] = Inr None \<and>
    (\<exists>s'. force_full_compaction (\<lambda>_. 0) (\<lambda>_. 1) (one_table_storage t) = (Inr (), s') \<and>
       storage_get (\<lambda>_. 0) (\<lambda>_. 1) rbt_ops s' [1] = Inr (Some [7]))"
  proof (rule full_compaction_resurrects [OF rbt.skip_map_axioms s(1), where t = 1 and t' = 2])
    show "no_tail_tombstone (pairs_of (\<lambda>_. 0) (sg_state (one_table_storage t)) (full_inputs (sg_state (one_table_storage t))))"
      unfolding s(3,4) t(2) by (auto simp: no_tail_tombstone_def)
    show "(Key [1] 2, []) \<notin> kept_pairs (\<lambda>_. 0) rbt_ops True (full_inputs (sg_state (one_table_storage t)))
        (sg_state (one_table_storage t))"
      unfolding s(3,5) by simp
    show "flush_to_l0 (sg_controller (one_table_storage t))" by (simp add: one_table_storage_def flush_to_l0_def)
  qed (simp_all add: s(2) t(2))
  with s(1) show ?thesis by blast
qed

section \<open>The background threads\<close>

text \<open>
  A background thread runs its operation at every tick of its clock until it is told to stop. An
  error is printed and the thread goes on; a panic ends it.
\<close>

datatype thread_event = Tick | Stop

fun background_loop :: "('s \<Rightarrow> unit res \<times> 's) \<Rightarrow> thread_event list \<Rightarrow> 's \<Rightarrow> 's" where
  "background_loop trigger [] s = s"
| "background_loop trigger (Stop # events) s = s"
| "background_loop trigger (Tick # events) s =
     (case trigger s of
        (Inr _, s) \<Rightarrow> background_loop trigger events s
      | (Inl e, s) \<Rightarrow> if e = Panic \<or> e = Diverges then s else background_loop trigger events s)"

definition spawn_compaction_thread ::
    "(bytes \<Rightarrow> u32) \<Rightarrow> (bytes \<Rightarrow> u32) \<Rightarrow> thread_event list \<Rightarrow> 'm storage \<Rightarrow> 'm storage" where
  "spawn_compaction_thread crc fp events s =
     (case opt_compaction_options (sg_options s) of
        NoCompaction \<Rightarrow> s
      | _ \<Rightarrow> background_loop (trigger_compaction crc fp) events s)"

definition spawn_flush_thread ::
    "(bytes \<Rightarrow> u32) \<Rightarrow> (bytes \<Rightarrow> u32) \<Rightarrow> ('m, key, bytes) skip_ops \<Rightarrow> manifest_ops \<Rightarrow> thread_event list \<Rightarrow>
     'm storage \<Rightarrow> 'm storage" where
  "spawn_flush_thread crc fp S M events s = background_loop (trigger_flush crc fp S M) events s"

lemma force_freeze_options: "sg_options (snd (force_freeze_memtable S M s)) = sg_options s"
  by (auto simp: force_freeze_memtable_def next_sst_id_def add_record_def Let_def
      split: sum.split option.split prod.split)

lemma flush_options: "sg_options (snd (force_flush_next_imm_memtable crc fp S M s)) = sg_options s"
  by (auto simp: force_flush_next_imm_memtable_def flush_build_def flush_install_def add_record_def Let_def
      split: sum.split option.split prod.split)

lemma write_batch_options: "sg_options (snd (write_batch crc S M batch s)) = sg_options s"
proof -
  have freeze: "sg_options (snd (try_freeze S M s)) = sg_options s" for s
    by (simp add: try_freeze_def force_freeze_options)
  let ?s = "s\<lparr>sg_state := (sg_state s)\<lparr>ls_memtable := mt_put_batch crc S (ls_memtable (sg_state s))
    (map (write_record (latest_commit_ts (sg_mvcc s) + 1)) batch)\<rparr>\<rparr>"
  obtain r s' where "try_freeze S M ?s = (r, s')" by fastforce
  then show ?thesis using freeze [of ?s] by (cases r) (simp_all add: write_batch_def Let_def)
qed

lemma run_flush_options: "sg_options (snd (run_flush crc fp S M op s)) = sg_options s"
proof (cases op)
  case ForceFlush
  obtain r s' where s': "(if \<not> mt_is_empty S (ls_memtable (sg_state s)) then force_freeze_memtable S M s
      else (Inr (), s)) = (r, s')" by fastforce
  then have "sg_options s' = sg_options s"
    using force_freeze_options [of S M s] by (auto split: if_splits)
  then show ?thesis using s' by (cases r) (auto simp: ForceFlush force_flush_def flush_options)
qed (simp add: trigger_flush_def flush_options)

lemma run_ops_options:
  "sg_options (snd (run_ops (write_batch crc S M) (run_flush crc fp S M) ops s)) = sg_options s"
proof (induction ops arbitrary: s)
  case (Cons op ops)
  obtain r s' where s': "run_op (write_batch crc S M) (run_flush crc fp S M) op s = (r, s')" by fastforce
  have "sg_options s' = sg_options s"
  proof (cases op)
    case (Write batch)
    then show ?thesis using s' write_batch_options [of crc S M batch s] by simp
  next
    case (Maintain m)
    then show ?thesis using s' run_flush_options [of crc fp S M m s] by simp
  qed
  then show ?case using Cons.IH s' by (cases r) simp_all
qed simp

text \<open>
  C30: The flush thread catches up. From any well-formed storage with a positive memtable limit, as
  many ticks as there are immutable memtables bring the number of memtables within the limit, and
  the contents stay the same.
\<close>

theorem flush_thread_catches_up:
  assumes "skip_map S" "manifest_works M" "storage_ok crc fp S s" "0 < opt_num_memtable_limit (sg_options s)"
    and "length (ls_imm_memtables (sg_state s)) \<le> n"
  shows "1 + length (ls_imm_memtables (sg_state (spawn_flush_thread crc fp S M (replicate n Tick) s)))
      \<le> opt_num_memtable_limit (sg_options s) \<and>
    storage_ok crc fp S (spawn_flush_thread crc fp S M (replicate n Tick) s) \<and>
    state_map crc S (sg_state (spawn_flush_thread crc fp S M (replicate n Tick) s)) = state_map crc S (sg_state s)"
  using assms(3-5) unfolding spawn_flush_thread_def
proof (induction n arbitrary: s)
  case 0
  then show ?case by simp
next
  case (Suc n)
  let ?limit = "opt_num_memtable_limit (sg_options s)"
  show ?case
  proof (cases "?limit < 1 + length (ls_imm_memtables (sg_state s))")
    case True
    obtain s' where s': "force_flush_next_imm_memtable crc fp S M s = (Inr (), s')" "storage_ok crc fp S s'"
      "state_map crc S (sg_state s') = state_map crc S (sg_state s)"
      "ls_imm_memtables (sg_state s') = butlast (ls_imm_memtables (sg_state s))"
      using force_flush_next_imm_memtable_ok [OF assms(1,2) Suc.prems(1)] by blast
    have "sg_options s' = sg_options s" using flush_options [of crc fp S M s] s'(1) by simp
    then show ?thesis
      using Suc.IH [OF s'(2)] Suc.prems(2,3) s' True by (simp add: trigger_flush_def)
  next
    case False
    then have idle: "trigger_flush crc fp S M s = (Inr (), s)" by (simp add: trigger_flush_def)
    then have "background_loop (trigger_flush crc fp S M) (replicate k Tick) s = s" for k
      by (induction k) simp_all
    then show ?thesis using False Suc.prems(1) by (simp del: replicate.simps)
  qed
qed

theorem flush_thread_catches_up_witness:
  "1 + length (ls_imm_memtables (sg_state (spawn_flush_thread (\<lambda>_. 0) (\<lambda>_. 1) rbt_ops manifest_log (replicate 2 Tick) sample_storage)))
      \<le> opt_num_memtable_limit (sg_options sample_storage)"
  using flush_thread_catches_up [OF rbt.skip_map_axioms manifest_log_works sample_storage_ok, of 2]
  by (simp add: sample_storage_def default_for_week1_test_def sample_state_def)

end
