(* ===== verification/Format.thy ===== *)
theory Format
  imports Prelude
begin

text \<open>
  Numbers and lists of numbers as \<open>format!\<close> of the standard library prints them: decimal digits,
  padding with zeros to a width of five, and the \<open>Debug\<close> form of a vector.
\<close>

text \<open>\<open>{}\<close> of a number, \<open>{:05}\<close> of a number.\<close>

fun decimal :: "nat \<Rightarrow> string" where
  "decimal n = (if n < 10 then [char_of (48 + n)] else decimal (n div 10) @ [char_of (48 + n mod 10)])"

declare decimal.simps [simp del]

definition pad5 :: "nat \<Rightarrow> string" where
  "pad5 n = (let d = decimal n in replicate (5 - length d) CHR ''0'' @ d)"

definition fmt_u64 :: "u64 \<Rightarrow> string" where
  "fmt_u64 n = decimal (unat n)"

text \<open>\<open>format!("{:?}", ids)\<close> of a vector of numbers.\<close>

fun fmt_elems :: "nat list \<Rightarrow> string" where
  "fmt_elems [] = ''''"
| "fmt_elems [n] = decimal n"
| "fmt_elems (n # ns) = decimal n @ '', '' @ fmt_elems ns"

definition fmt_list :: "nat list \<Rightarrow> string" where
  "fmt_list ns = ''['' @ fmt_elems ns @ '']''"

definition decimal_value :: "string \<Rightarrow> nat" where
  "decimal_value s = foldl (\<lambda>n c. 10 * n + (of_char c - 48)) 0 s"

lemma decimal_value_simps:
  "decimal_value (replicate n CHR ''0'' @ s) = decimal_value s"
  "decimal_value (s @ [c]) = 10 * decimal_value s + (of_char c - 48)"
  by (induction n) (simp_all add: decimal_value_def)

lemma decimal_value_decimal: "decimal_value (decimal n) = n"
proof (induction n rule: decimal.induct)
  case (1 n)
  have of_char: "of_char (char_of (48 + d) :: char) - 48 = d" if "d < 10" for d :: nat
    using that by (simp add: of_char_of)
  show ?case
  proof (cases "n < 10")
    case True
    then show ?thesis
      using of_char [of n] decimal_value_simps(2) [of "[]" "char_of (48 + n)"]
      by (simp add: decimal.simps [of n]) (simp add: decimal_value_def)
  next
    case False
    then show ?thesis
      using 1 of_char [of "n mod 10"] by (simp add: decimal.simps [of n] decimal_value_simps)
  qed
qed

lemma pad5_inject: "pad5 i = pad5 j \<longleftrightarrow> i = j"
  by (metis decimal_value_decimal decimal_value_simps(1) pad5_def)

lemma decimal_not_Nil [simp]: "decimal n \<noteq> []"
  by (subst decimal.simps) simp

lemma decimal_inject [simp]: "decimal m = decimal n \<longleftrightarrow> m = n"
  by (metis decimal_value_decimal)

lemma length_decimal: "n < 10 ^ Suc k \<Longrightarrow> length (decimal n) \<le> Suc k"
proof (induction k arbitrary: n)
  case 0
  then show ?case by (subst decimal.simps) simp
next
  case (Suc k)
  then have "n div 10 < 10 ^ Suc k" by (simp add: less_mult_imp_div_less mult.commute)
  then have "length (decimal (n div 10)) \<le> Suc k" by (rule Suc.IH)
  then show ?case by (subst decimal.simps) simp
qed

lemma length_fmt_u64: "length (fmt_u64 n) \<le> 20"
proof -
  have "unat n < 2 ^ 64" using unsigned_less [of n, where 'a = nat] by simp
  also have "(2 :: nat) ^ 64 \<le> 10 ^ Suc 19" by simp
  finally show ?thesis using length_decimal [of "unat n" 19] by (simp add: fmt_u64_def)
qed

lemma fmt_u64_inject [simp]: "fmt_u64 m = fmt_u64 n \<longleftrightarrow> m = n" "fmt_u64 n \<noteq> []"
  by (simp_all add: fmt_u64_def word_unat_eq_iff)

end
