(* ===== verification/Recovery.thy ===== *)
theory Recovery
  imports Engine Format
begin

text \<open>
  \<open>LsmStorageInner::open\<close> of \<open>src/lsm_storage.rs\<close>: a storage from a directory, by replaying the
  manifest, reading the logs of the memtables that were not flushed, opening the tables, and
  taking the largest timestamp seen as the clock. A directory is the records of its manifest (if
  there is one) and its files by number; \<open>path_of_sst\<close> and \<open>path_of_wal\<close> give different files
  different names, so numbers can stand for names.
\<close>

section \<open>Directories\<close>

record directory =
  dir_manifest :: "manifest_record list option"
  dir_sst_files :: "nat \<rightharpoonup> bytes"
  dir_wal_files :: "nat \<rightharpoonup> bytes"

text \<open>\<open>format!("{:05}.sst", id)\<close> and \<open>format!("{:05}.wal", id)\<close>.\<close>

definition path_of_sst :: "nat \<Rightarrow> string" where
  "path_of_sst i = pad5 i @ ''.sst''"

definition path_of_wal :: "nat \<Rightarrow> string" where
  "path_of_wal i = pad5 i @ ''.wal''"

lemma paths_differ:
  "path_of_sst i = path_of_sst j \<longleftrightarrow> i = j" "path_of_wal i = path_of_wal j \<longleftrightarrow> i = j" "path_of_sst i \<noteq> path_of_wal j"
  by (simp_all add: path_of_sst_def path_of_wal_def pad5_inject)

section \<open>Replaying the manifest\<close>

record 'm replay =
  rp_state :: "'m lsm_state"
  rp_next_sst_id :: nat
  rp_flushed_memtables :: "nat set"
  rp_all_memtables :: "nat list"

fun replay_record ::
    "compaction_controller \<Rightarrow> manifest_record \<Rightarrow> 'm replay \<Rightarrow> 'm replay res" where
  "replay_record c (NewMemtable new_sst_id) r =
     Inr (r\<lparr>rp_next_sst_id := max (rp_next_sst_id r) (new_sst_id + 1),
            rp_all_memtables := new_sst_id # rp_all_memtables r\<rparr>)"
| "replay_record c (Flush new_sst_id) r =
     (let st = rp_state r in
      Inr (r\<lparr>rp_next_sst_id := max (rp_next_sst_id r) (new_sst_id + 1),
             rp_state := st\<lparr>ls_l0_sstables := new_sst_id # ls_l0_sstables st\<rparr>,
             rp_flushed_memtables := insert new_sst_id (rp_flushed_memtables r)\<rparr>))"
| "replay_record c (Compaction task output) r =
     and_then (controller_apply c (rp_state r) task output True) (\<lambda>(new_state, removed_ssts).
     let t = fold max output 0 in
     Inr (r\<lparr>rp_next_sst_id := max (rp_next_sst_id r) (t + 1), rp_state := new_state\<rparr>))"

definition recover_memtables ::
    "(bytes \<Rightarrow> u32) \<Rightarrow> ('m, key, bytes) skip_ops \<Rightarrow> directory \<Rightarrow> nat list \<Rightarrow> 'm lsm_state \<Rightarrow> 'm lsm_state res" where
  "recover_memtables crc S dir ids st =
     (case ids of
        [] \<Rightarrow> Inr st
      | active_id # rest \<Rightarrow>
          and_then (mt_recover_from_wal crc S active_id (dir_wal_files dir active_id)) (\<lambda>mt.
          and_then (map_res (\<lambda>i. mt_recover_from_wal crc S i (dir_wal_files dir i)) rest) (\<lambda>imms.
          Inr (st\<lparr>ls_memtable := mt, ls_imm_memtables := ls_imm_memtables st @ imms\<rparr>))))"

definition open_table ::
    "(bytes \<Rightarrow> u32) \<Rightarrow> block_cache \<Rightarrow> directory \<Rightarrow> nat \<Rightarrow> 'm lsm_state \<Rightarrow> 'm lsm_state res" where
  "open_table crc cache dir i st =
     (case dir_sst_files dir i of
        None \<Rightarrow> Inl IoError
      | Some data \<Rightarrow>
          and_then (sst_open crc i (Some cache) (file_create data)) (\<lambda>t.
          Inr (st\<lparr>ls_sstables := (ls_sstables st)(i \<mapsto> t)\<rparr>)))"

text \<open>
  The largest timestamp: over the tables in the map (those of level 0 and of the levels, in an
  order that does not matter for a maximum) and over the entries of the memtables.
\<close>

definition recover_max_ts :: "('m, key, bytes) skip_ops \<Rightarrow> 'm lsm_state \<Rightarrow> u64 res" where
  "recover_max_ts S st =
     (let max_ts = fold (\<lambda>i m. max m (sst_max_ts (the (ls_sstables st i))))
            (ls_l0_sstables st @ concat (map snd (ls_levels st))) 0
      in fold_res (\<lambda>mt max_ts. it_for_each ti_ops (\<lambda>k v max_ts. Inr (max max_ts (key_ts k)))
           (mt_scan S mt Unbounded Unbounded) max_ts) (ls_memtable st # ls_imm_memtables st) max_ts)"

definition storage_open ::
    "(bytes \<Rightarrow> u32) \<Rightarrow> ('m, key, bytes) skip_ops \<Rightarrow> manifest_ops \<Rightarrow> lsm_options \<Rightarrow> directory \<Rightarrow> 'm storage res" where
  "storage_open crc S M options dir =
     (let state = lsm_state_create S options;
          controller = controller_of (opt_compaction_options options)
      in case dir_manifest dir of
        Some contents \<Rightarrow>
          and_then (mf_recover M contents) (\<lambda>records.
          and_then (fold_res (replay_record controller) records
            \<lparr>rp_state = state, rp_next_sst_id = 0, rp_flushed_memtables = {}, rp_all_memtables = []\<rparr>) (\<lambda>r.
          let memtables = filter (\<lambda>i. i \<notin> rp_flushed_memtables r) (rp_all_memtables r);
              state = rp_state r
          in and_then (if opt_enable_wal options then recover_memtables crc S dir memtables state else Inr state) (\<lambda>state.
          and_then (fold_res (open_table crc Map.empty dir) (ls_l0_sstables state) state) (\<lambda>state.
          and_then (fold_res (\<lambda>l st. fold_res (open_table crc Map.empty dir) (snd l) st) (ls_levels state) state) (\<lambda>state.
          and_then (recover_max_ts S state) (\<lambda>max_ts.
          Inr \<lparr>sg_state = state, sg_block_cache = Map.empty, sg_next_sst_id = rp_next_sst_id r,
               sg_options = options, sg_controller = controller, sg_manifest = contents,
               sg_mvcc = mvcc_new max_ts, sg_compaction_filters = [],
               sg_sst_files = dir_sst_files dir, sg_wal_files = dir_wal_files dir\<rparr>))))))
      | None \<Rightarrow>
          and_then (mf_create M) (\<lambda>_.
          and_then (if opt_enable_wal options
                    then and_then (mt_create_with_wal S 0 (dir_wal_files dir 0)) (\<lambda>mt.
                         and_then (mf_add M (NewMemtable 0)) (\<lambda>_.
                         Inr (state\<lparr>ls_memtable := mt\<rparr>, [NewMemtable 0], (dir_wal_files dir)(0 \<mapsto> []))))
                    else Inr (state, [], dir_wal_files dir)) (\<lambda>(state, records, wals).
          Inr \<lparr>sg_state = state, sg_block_cache = Map.empty, sg_next_sst_id = 1,
               sg_options = options, sg_controller = controller, sg_manifest = records,
               sg_mvcc = mvcc_new 0, sg_compaction_filters = [],
               sg_sst_files = dir_sst_files dir, sg_wal_files = wals\<rparr>)))"

text \<open>\<open>sync\<close> and \<open>sync_dir\<close> sync the directory only; no file and no buffer changes.\<close>

definition storage_sync :: "'m storage \<Rightarrow> unit res \<times> 'm storage" where
  "storage_sync s = (Inr (), s)"

definition storage_sync_dir :: "'m storage \<Rightarrow> unit res \<times> 'm storage" where
  "storage_sync_dir s = (Inr (), s)"

section \<open>What the directory of a running storage says about it\<close>

text \<open>A memtable is what its log says, and the file of a table is laid out as \<open>sst_open\<close> reads it.\<close>

definition log_ok :: "(bytes \<Rightarrow> u32) \<Rightarrow> ('m, key, bytes) skip_ops \<Rightarrow> 'm memtable \<Rightarrow> bool" where
  "log_ok crc S mt \<longleftrightarrow>
     (\<exists>w fs bs. mt_wal mt = Some w \<and> wal_holds crc w fs bs \<and>
        mt_map mt = fold (\<lambda>(k, v). sm_insert S k v) (fs @ bs) (sm_new S) \<and> (\<forall>e \<in> set (fs @ bs). record_ok e))"

definition file_layout_ok :: "(bytes \<Rightarrow> u32) \<Rightarrow> sstable \<Rightarrow> bool" where
  "file_layout_ok crc t \<longleftrightarrow>
     (\<exists>data bloom. sst_bloom t = Some bloom \<and> length data = sst_block_meta_offset t \<and>
        sst_file t = file_create (table_file crc data (sst_block_meta t) bloom))"

definition replay_start :: "('m, key, bytes) skip_ops \<Rightarrow> lsm_options \<Rightarrow> 'm replay" where
  "replay_start S options =
     \<lparr>rp_state = lsm_state_create S options, rp_next_sst_id = 0, rp_flushed_memtables = {}, rp_all_memtables = []\<rparr>"

definition memtables :: "'m lsm_state \<Rightarrow> 'm memtable list" where
  "memtables st = ls_memtable st # ls_imm_memtables st"

definition manifest_ok :: "('m, key, bytes) skip_ops \<Rightarrow> 'm storage \<Rightarrow> bool" where
  "manifest_ok S s \<longleftrightarrow>
     (\<exists>r. fold_res (replay_record (sg_controller s)) (sg_manifest s) (replay_start S (sg_options s)) = Inr r \<and>
        rp_state r = (lsm_state_create S (sg_options s))\<lparr>ls_l0_sstables := ls_l0_sstables (sg_state s)\<rparr> \<and>
        rp_next_sst_id r = sg_next_sst_id s \<and>
        filter (\<lambda>i. i \<notin> rp_flushed_memtables r) (rp_all_memtables r) = map mt_id (memtables (sg_state s)) \<and>
        (\<forall>i \<in> rp_flushed_memtables r. i < sg_next_sst_id s))"

definition journal_ok :: "(bytes \<Rightarrow> u32) \<Rightarrow> ('m, key, bytes) skip_ops \<Rightarrow> 'm storage \<Rightarrow> bool" where
  "journal_ok crc S s \<longleftrightarrow>
     opt_enable_wal (sg_options s) \<and> sg_controller s = controller_of (opt_compaction_options (sg_options s)) \<and>
     flush_to_l0 (sg_controller s) \<and>
     ls_levels (sg_state s) = initial_levels (opt_compaction_options (sg_options s)) \<and>
     dom (ls_sstables (sg_state s)) = set (ls_l0_sstables (sg_state s)) \<and>
     (\<forall>mt \<in> set (memtables (sg_state s)). log_ok crc S mt) \<and>
     (\<forall>i t. ls_sstables (sg_state s) i = Some t \<longrightarrow> file_layout_ok crc t) \<and>
     manifest_ok S s"

lemma fold_replay_snoc:
  "fold_res (replay_record c) (rs @ [r]) x = and_then (fold_res (replay_record c) rs x) (replay_record c r)"
  by (simp add: fold_res_append) (cases "fold_res (replay_record c) rs x"; simp; cases "replay_record c r (projr (fold_res (replay_record c) rs x))"; simp)

lemma journal_freeze:
  assumes M: "manifest_works M" and j: "journal_ok crc S s" and run: "force_freeze_memtable S M s = (Inr (), s')"
  shows "journal_ok crc S s'"
proof -
  let ?n = "sg_next_sst_id s" and ?st = "sg_state s"
  have wal: "opt_enable_wal (sg_options s)" using j by (simp add: journal_ok_def)
  have free: "sg_wal_files s ?n = None"
    using run wal by (cases "sg_wal_files s ?n")
      (auto simp: force_freeze_memtable_def Let_def next_sst_id_def mt_create_with_wal_def wal_create_def)
  define mt where "mt = \<lparr>mt_map = sm_new S, mt_wal = Some \<lparr>wal_disk = [], wal_buf = []\<rparr>, mt_id = ?n,
    mt_approximate_size = 0\<rparr>"
  have s': "s' = s\<lparr>sg_next_sst_id := ?n + 1, sg_wal_files := (sg_wal_files s)(?n \<mapsto> []),
      sg_manifest := sg_manifest s @ [NewMemtable ?n],
      sg_state := ?st\<lparr>ls_imm_memtables := ls_memtable ?st # ls_imm_memtables ?st, ls_memtable := mt\<rparr>\<rparr>"
    using run M free wal
    by (simp add: force_freeze_memtable_def next_sst_id_def mt_create_with_wal_def wal_create_def
        add_record_def manifest_works_def Let_def mt_def)
  have "log_ok crc S mt"
    unfolding log_ok_def by (intro exI [of _ "\<lparr>wal_disk = [], wal_buf = []\<rparr>"] exI [of _ "[]"])
      (simp add: mt_def wal_holds_def)
  moreover obtain r where r: "fold_res (replay_record (sg_controller s)) (sg_manifest s) (replay_start S (sg_options s)) = Inr r"
      "rp_state r = (lsm_state_create S (sg_options s))\<lparr>ls_l0_sstables := ls_l0_sstables ?st\<rparr>"
      "rp_next_sst_id r = ?n" "filter (\<lambda>i. i \<notin> rp_flushed_memtables r) (rp_all_memtables r) = map mt_id (memtables ?st)"
      "\<forall>i \<in> rp_flushed_memtables r. i < ?n"
    using j by (auto simp: journal_ok_def manifest_ok_def)
  have "manifest_ok S s'"
    unfolding manifest_ok_def
    by (intro exI [of _ "r\<lparr>rp_next_sst_id := max (rp_next_sst_id r) (?n + 1),
        rp_all_memtables := ?n # rp_all_memtables r\<rparr>"])
      (use r in \<open>auto simp: s' fold_replay_snoc memtables_def mt_def\<close>)
  ultimately show ?thesis using j by (auto simp: journal_ok_def s' memtables_def)
qed

lemma journal_mvcc [simp]: "journal_ok crc S (s\<lparr>sg_mvcc := m\<rparr>) = journal_ok crc S s"
  by (simp add: journal_ok_def manifest_ok_def)

lemma journal_put_batch:
  assumes S: "skip_map S" and j: "journal_ok crc S s" and es: "\<forall>e \<in> set es. record_ok e"
  shows "journal_ok crc S (s\<lparr>sg_state := (sg_state s)\<lparr>ls_memtable := mt_put_batch crc S (ls_memtable (sg_state s)) es\<rparr>\<rparr>)"
    (is "journal_ok crc S ?s")
proof -
  let ?mt = "ls_memtable (sg_state s)"
  obtain w fs bs where w: "mt_wal ?mt = Some w" "wal_holds crc w fs bs"
      "mt_map ?mt = fold (\<lambda>(k, v). sm_insert S k v) (fs @ bs) (sm_new S)" "\<forall>e \<in> set (fs @ bs). record_ok e"
    using j by (auto simp: journal_ok_def memtables_def log_ok_def)
  obtain fs' bs' where w': "wal_holds crc (wal_put_all crc es w) fs' bs'" "fs' @ bs' = fs @ bs @ es"
    using wal_put_all_holds [OF w(2), of es] by auto
  have "log_ok crc S (mt_put_batch crc S ?mt es)"
    unfolding log_ok_def
  proof (intro exI conjI)
    show "mt_wal (mt_put_batch crc S ?mt es) = Some (wal_put_all crc es w)" by (simp add: mt_put_batch_wal w(1))
    show "wal_holds crc (wal_put_all crc es w) fs' bs'" by (rule w')
    show "mt_map (mt_put_batch crc S ?mt es) = fold (\<lambda>(k, v). sm_insert S k v) (fs' @ bs') (sm_new S)"
      unfolding w'(2) mt_put_batch_map w(3) by simp
    show "\<forall>e \<in> set (fs' @ bs'). record_ok e" unfolding w'(2) using w(4) es by auto
  qed
  with j show ?thesis by (auto simp: journal_ok_def memtables_def manifest_ok_def)
qed

lemma write_record_record_ok: "record_fits r \<Longrightarrow> record_ok (write_record ts r)"
  by (cases r) (simp_all add: record_ok_def)

lemma journal_write_batch:
  assumes S: "skip_map S" and M: "manifest_works M" and j: "journal_ok crc S s"
    and fits: "\<forall>r \<in> set batch. record_fits r" and run: "write_batch crc S M batch s = (Inr (), s')"
  shows "journal_ok crc S s'"
proof -
  let ?ts = "latest_commit_ts (sg_mvcc s) + 1"
  define es where "es = map (write_record ?ts) batch"
  define s1 where "s1 = s\<lparr>sg_state := (sg_state s)\<lparr>ls_memtable := mt_put_batch crc S (ls_memtable (sg_state s)) es\<rparr>\<rparr>"
  have j1: "journal_ok crc S s1"
    unfolding s1_def by (rule journal_put_batch [OF S j]) (use fits write_record_record_ok in \<open>auto simp: es_def\<close>)
  have left: "latest_commit_ts (sg_mvcc s) \<noteq> - 1" using run by (auto simp: write_batch_def)
  then have run': "st_then (try_freeze S M s1) (\<lambda>_ s. (Inr (), s\<lparr>sg_mvcc := update_commit_ts ?ts (sg_mvcc s)\<rparr>)) = (Inr (), s')"
    using run by (simp add: write_batch_def Let_def s1_def es_def)
  then obtain s2 where s2: "try_freeze S M s1 = (Inr (), s2)" "s' = s2\<lparr>sg_mvcc := update_commit_ts ?ts (sg_mvcc s2)\<rparr>"
    by (cases "try_freeze S M s1"; cases "fst (try_freeze S M s1)") auto
  have "journal_ok crc S s2"
    using s2(1) j1 journal_freeze [OF M j1] by (auto simp: try_freeze_def split: if_splits)
  then show ?thesis by (simp add: s2(2))
qed

lemma sst_build_layout:
  assumes "sst_build crc sb no cache = Inr t"
  shows "file_layout_ok crc t"
proof -
  define sb' where "sb' = (if bb_is_empty (sb_builder sb) then sb else sb_finish_block crc (sb_builder sb) sb)"
  let ?data = "sb_data sb'"
  obtain bloom where t: "t = \<lparr>sst_file = file_create (table_file crc ?data (sb_meta sb') bloom), sst_block_meta = sb_meta sb',
              sst_block_meta_offset = length ?data, sst_id = no, sst_block_cache = cache,
              sst_first_key = sb_first_key sb', sst_last_key = sb_last_key sb',
              sst_bloom = Some bloom, sst_max_ts = sb_max_ts sb'\<rparr>"
    using assms unfolding sst_build_def sb'_def [symmetric] Let_def
    by (auto simp: res_simps table_file_def Let_def encode_block_meta_buf [of _ _ ?data] ac_simps)
  show ?thesis
    unfolding file_layout_ok_def by (intro exI [of _ ?data] exI [of _ bloom]) (simp add: t)
qed

lemma filter_neq_snoc: "distinct (xs @ [x]) \<Longrightarrow> filter (\<lambda>y. y \<noteq> x) (xs @ [x]) = xs"
  by (induction xs) auto

text \<open>What a successful flush to level 0 does to the storage.\<close>

lemma flush_result:
  assumes M: "manifest_works M" and l0: "flush_to_l0 (sg_controller s)" and ne: "ls_imm_memtables (sg_state s) \<noteq> []"
    and mt: "mt = last (ls_imm_memtables (sg_state s))"
    and run: "force_flush_next_imm_memtable crc fp S M s = (Inr (), s')"
  shows "\<exists>t. and_then (mt_flush crc fp S mt (sst_builder_new (opt_block_size (sg_options s))))
      (\<lambda>sb. sst_build crc sb (mt_id mt) (Some (sg_block_cache s))) = Inr t \<and>
    file_layout_ok crc t \<and> sst_id t = mt_id mt \<and>
    s' = s\<lparr>sg_sst_files := (sg_sst_files s)(mt_id mt := fo_file (sst_file t)),
      sg_manifest := sg_manifest s @ [Flush (mt_id mt)],
      sg_state := (sg_state s)\<lparr>ls_imm_memtables := butlast (ls_imm_memtables (sg_state s)),
        ls_l0_sstables := mt_id mt # ls_l0_sstables (sg_state s),
        ls_sstables := (ls_sstables (sg_state s))(mt_id mt \<mapsto> t)\<rparr>\<rparr>"
proof -
  define b where "b = and_then (mt_flush crc fp S mt (sst_builder_new (opt_block_size (sg_options s))))
    (\<lambda>sb. sst_build crc sb (mt_id mt) (Some (sg_block_cache s)))"
  obtain t where t: "b = Inr t"
    using run ne by (cases b) (simp_all add: force_flush_next_imm_memtable_def flush_build_def Let_def flip: b_def mt)
  have lay: "file_layout_ok crc t" "sst_id t = mt_id mt"
    using t unfolding b_def
    by (auto simp: res_simps dest: sst_build_layout) (simp add: sst_build_def Let_def res_simps, auto)
  moreover have "s' = s\<lparr>sg_sst_files := (sg_sst_files s)(mt_id mt := fo_file (sst_file t)),
      sg_manifest := sg_manifest s @ [Flush (mt_id mt)],
      sg_state := (sg_state s)\<lparr>ls_imm_memtables := butlast (ls_imm_memtables (sg_state s)),
        ls_l0_sstables := mt_id mt # ls_l0_sstables (sg_state s),
        ls_sstables := (ls_sstables (sg_state s))(mt_id mt \<mapsto> t)\<rparr>\<rparr>"
    using run ne M t l0
    by (auto simp: force_flush_next_imm_memtable_def flush_build_def flush_install_def Let_def add_record_def
        manifest_works_def lay(2) simp flip: b_def mt)
  ultimately show ?thesis using t by (auto simp: b_def)
qed

lemma journal_flush:
  assumes M: "manifest_works M" and j: "journal_ok crc S s" and ids: "ids_ok s"
    and run: "force_flush_next_imm_memtable crc fp S M s = (Inr (), s')"
  shows "journal_ok crc S s'"
proof (cases "ls_imm_memtables (sg_state s) = []")
  case True
  with run j show ?thesis by (simp add: force_flush_next_imm_memtable_def flush_build_def)
next
  case False
  let ?st = "sg_state s" and ?imms = "ls_imm_memtables (sg_state s)"
  let ?i = "mt_id (last ?imms)"
  have l0: "flush_to_l0 (sg_controller s)" using j unfolding journal_ok_def by blast
  obtain t where lay: "file_layout_ok crc t" and s': "s' = s\<lparr>sg_sst_files := (sg_sst_files s)(?i := fo_file (sst_file t)),
      sg_manifest := sg_manifest s @ [Flush ?i],
      sg_state := ?st\<lparr>ls_imm_memtables := butlast ?imms, ls_l0_sstables := ?i # ls_l0_sstables ?st,
        ls_sstables := (ls_sstables ?st)(?i \<mapsto> t)\<rparr>\<rparr>"
    using flush_result [OF M l0 False refl run] by blast
  have imms: "?imms = butlast ?imms @ [last ?imms]" using False by simp
  obtain r where r: "fold_res (replay_record (sg_controller s)) (sg_manifest s) (replay_start S (sg_options s)) = Inr r"
      "rp_state r = (lsm_state_create S (sg_options s))\<lparr>ls_l0_sstables := ls_l0_sstables ?st\<rparr>"
      "rp_next_sst_id r = sg_next_sst_id s"
      "filter (\<lambda>i. i \<notin> rp_flushed_memtables r) (rp_all_memtables r) = map mt_id (memtables ?st)"
      "\<forall>i \<in> rp_flushed_memtables r. i < sg_next_sst_id s"
    using j by (auto simp: journal_ok_def manifest_ok_def)
  have d: "distinct (map mt_id (memtables ?st))" and less: "?i < sg_next_sst_id s"
    using ids last_in_set [OF False] by (auto simp: ids_ok_def Let_def memtables_def)
  have split: "map mt_id (memtables ?st) = map mt_id (ls_memtable ?st # butlast ?imms) @ [?i]"
    using arg_cong [OF imms, of "map mt_id"] by (simp add: memtables_def)
  have "filter (\<lambda>j. j \<noteq> ?i) (map mt_id (memtables ?st)) = map mt_id (ls_memtable ?st # butlast ?imms)"
    using d unfolding split by (rule filter_neq_snoc)
  then have "filter (\<lambda>j. j \<notin> insert ?i (rp_flushed_memtables r)) (rp_all_memtables r) =
      map mt_id (ls_memtable ?st # butlast ?imms)"
    unfolding r(4) [symmetric] by (simp add: conj_commute)
  then have "manifest_ok S s'"
    unfolding manifest_ok_def
    by (intro exI [of _ "r\<lparr>rp_next_sst_id := max (rp_next_sst_id r) (?i + 1),
        rp_state := (rp_state r)\<lparr>ls_l0_sstables := ?i # ls_l0_sstables (rp_state r)\<rparr>,
        rp_flushed_memtables := insert ?i (rp_flushed_memtables r)\<rparr>"])
      (use r less in \<open>simp add: s' fold_replay_snoc memtables_def Let_def\<close>)
  moreover have "set (butlast ?imms) \<subseteq> set ?imms" by (auto dest: in_set_butlastD)
  ultimately show ?thesis using j lay by (auto simp: journal_ok_def s' memtables_def split: if_splits)
qed

lemma journal_run_flush:
  assumes S: "skip_map S" and M: "manifest_works M" and ok: "storage_ok crc fp S s" and j: "journal_ok crc S s"
    and run: "run_flush crc fp S M op s = (Inr (), s')"
  shows "journal_ok crc S s'"
proof (cases op)
  case TriggerFlush
  have "ids_ok s" using ok by (simp add: storage_ok_def)
  with TriggerFlush run j show ?thesis
    by (auto simp: trigger_flush_def split: if_splits intro: journal_flush [OF M])
next
  case ForceFlush
  show ?thesis
  proof (cases "mt_is_empty S (ls_memtable (sg_state s))")
    case True
    have "ids_ok s" using ok by (simp add: storage_ok_def)
    with True ForceFlush run j show ?thesis
      by (auto simp: force_flush_def split: if_splits intro: journal_flush [OF M])
  next
    case False
    then have ne: "mt_entries S (ls_memtable (sg_state s)) \<noteq> []"
      by (simp add: mt_is_empty_def mt_entries_def skip_map.is_empty_iter [OF S])
    obtain s1 where s1: "force_freeze_memtable S M s = (Inr (), s1)" "storage_ok crc fp S s1"
      using force_freeze_memtable_ok [OF S M ok ne] by metis
    have "ids_ok s1" "journal_ok crc S s1"
      using s1(2) journal_freeze [OF M j s1(1)] by (simp_all add: storage_ok_def)
    with False ForceFlush run s1(1) show ?thesis
      by (auto simp: force_flush_def split: if_splits intro: journal_flush [OF M])
  qed
qed

text \<open>The contract of the storage once more, with the directory in step.\<close>

definition journaled_good ::
    "(bytes \<Rightarrow> u32) \<Rightarrow> (bytes \<Rightarrow> u32) \<Rightarrow> ('m, key, bytes) skip_ops \<Rightarrow> manifest_ops \<Rightarrow> 'm storage \<Rightarrow> bool" where
  "journaled_good crc fp S M s \<longleftrightarrow> storage_good crc fp S M s \<and> journal_ok crc S s"

interpretation journaled: mv_store "journaled_good crc fp S M" "\<lambda>s. state_map crc S (sg_state s)"
    "\<lambda>s. latest_commit_ts (sg_mvcc s)" record_fits "get_with_ts crc fp S" "write_batch crc S M" "run_flush crc fp S M"
proof
  fix s
  assume jg: "journaled_good crc fp S M s"
  then have good: "storage_good crc fp S M s" and j: "journal_ok crc S s" by (simp_all add: journaled_good_def)
  then have S: "skip_map S" and M: "manifest_works M" and ok: "storage_ok crc fp S s"
    by (simp_all add: storage_good_def)
  show "finite (dom (state_map crc S (sg_state s)))" by simp
  show "get_with_ts crc fp S s u ts = Inr (read_at ts (state_map crc S (sg_state s)) u)" for u ts
    by (rule flushing.get_versions [OF good])
  show "key_ts k \<le> latest_commit_ts (sg_mvcc s)" if "state_map crc S (sg_state s) k = Some v" for k v
    by (rule flushing.versions_clock [OF good that])
  show "\<exists>s'. write_batch crc S M batch s = (Inr (), s') \<and> journaled_good crc fp S M s' \<and>
      latest_commit_ts (sg_mvcc s') = latest_commit_ts (sg_mvcc s) + 1 \<and>
      state_map crc S (sg_state s') = state_map crc S (sg_state s) ++ batch_map (latest_commit_ts (sg_mvcc s) + 1) batch"
    if "\<forall>r \<in> set batch. record_fits r" "latest_commit_ts (sg_mvcc s) \<noteq> - 1" for batch
    using flushing.write_versions [OF good that] journal_write_batch [OF S M j that(1)]
    by (auto simp: journaled_good_def)
  show "\<exists>s'. run_flush crc fp S M op s = (Inr (), s') \<and> journaled_good crc fp S M s' \<and>
      latest_commit_ts (sg_mvcc s') = latest_commit_ts (sg_mvcc s) \<and>
      state_map crc S (sg_state s') = state_map crc S (sg_state s)" for op
    using flushing.maintain_versions [OF good, of op] journal_run_flush [OF S M ok j, of op]
    by (auto simp: journaled_good_def)
qed

section \<open>Opening a directory again\<close>

lemma initial_levels_empty: "l \<in> set (initial_levels co) \<Longrightarrow> snd l = []"
  by (auto simp: initial_levels_def split: compaction_options.splits)

definition recovered_memtable ::
    "(bytes \<Rightarrow> u32) \<Rightarrow> ('m, key, bytes) skip_ops \<Rightarrow> nat \<Rightarrow> (key \<times> bytes) list \<Rightarrow> 'm memtable" where
  "recovered_memtable crc S i es =
     (let m = fold (\<lambda>(k, v). sm_insert S k v) es (sm_new S) in
      \<lparr>mt_map = m, mt_wal = Some \<lparr>wal_disk = log_bytes crc es, wal_buf = []\<rparr>, mt_id = i,
       mt_approximate_size = sum_list (map (\<lambda>(k, v). raw_len k + length v) (sm_iter S m))\<rparr>)"

lemma recovered_memtable_simps [simp]:
  "mt_id (recovered_memtable crc S i es) = i"
  "mt_entries S (recovered_memtable crc S i es) = sm_iter S (fold (\<lambda>(k, v). sm_insert S k v) es (sm_new S))"
  by (simp_all add: recovered_memtable_def mt_entries_def Let_def)

lemma mt_recover_log:
  "\<forall>e \<in> set es. record_ok e \<Longrightarrow> file_bytes = Some (log_bytes crc es) \<Longrightarrow>
   mt_recover_from_wal crc S i file_bytes = Inr (recovered_memtable crc S i es)"
  by (simp add: mt_recover_from_wal_def wal_recover_def wal_recover_loop_log recovered_memtable_def Let_def)

lemma recover_memtables_ok:
  assumes "\<forall>mt \<in> set mts. dir_wal_files dir (mt_id mt) = Some (log_bytes crc (lg mt)) \<and> (\<forall>e \<in> set (lg mt). record_ok e)"
    and "mts \<noteq> []" "ls_imm_memtables st = []"
  shows "\<exists>st'. recover_memtables crc S dir (map mt_id mts) st = Inr st' \<and>
    memtables st' = map (\<lambda>mt. recovered_memtable crc S (mt_id mt) (lg mt)) mts \<and>
    ls_l0_sstables st' = ls_l0_sstables st \<and> ls_levels st' = ls_levels st \<and> ls_sstables st' = ls_sstables st"
proof -
  obtain m ms where mts: "mts = m # ms" using assms(2) by (cases mts) auto
  have one: "mt_recover_from_wal crc S (mt_id mt) (dir_wal_files dir (mt_id mt)) =
      Inr (recovered_memtable crc S (mt_id mt) (lg mt))" if "mt \<in> set mts" for mt
    using assms(1) that by (simp add: mt_recover_log)
  have "map_res (\<lambda>i. mt_recover_from_wal crc S i (dir_wal_files dir i)) (map mt_id xs) =
      Inr (map (\<lambda>mt. recovered_memtable crc S (mt_id mt) (lg mt)) xs)" if "set xs \<subseteq> set mts" for xs
    using that by (induction xs) (simp_all add: one)
  from this [of ms] show ?thesis
    using one [of m] assms(3) by (simp add: mts recover_memtables_def memtables_def subset_insertI)
qed

lemma open_tables_ok:
  assumes "\<And>i. i \<in> set ids \<Longrightarrow> \<exists>data. dir_sst_files dir i = Some data \<and>
      sst_open crc i (Some Map.empty) (file_create data) = Inr (f i)"
  shows "fold_res (open_table crc Map.empty dir) ids st =
    Inr (st\<lparr>ls_sstables := (\<lambda>i. if i \<in> set ids then Some (f i) else ls_sstables st i)\<rparr>)"
  using assms
proof (induction ids arbitrary: st)
  case (Cons i ids)
  obtain data where data: "dir_sst_files dir i = Some data"
      "sst_open crc i (Some Map.empty) (file_create data) = Inr (f i)"
    using Cons.prems [of i] by auto
  have "open_table crc Map.empty dir i st = Inr (st\<lparr>ls_sstables := (ls_sstables st)(i \<mapsto> f i)\<rparr>)"
    by (simp add: open_table_def data)
  then show ?case
    using Cons.IH [of "st\<lparr>ls_sstables := (ls_sstables st)(i \<mapsto> f i)\<rparr>"] Cons.prems
    by (simp add: fun_eq_iff)
qed simp

lemma open_levels_ok:
  "\<forall>l \<in> set ls. snd l = [] \<Longrightarrow> fold_res (\<lambda>l st. fold_res (open_table crc c dir) (snd l) st) ls st = Inr st"
  by (induction ls) simp_all

lemma fold_max: "fold max ts (m::u64) = max m (max_list ts)"
proof (induction ts arbitrary: m)
  case (Cons t ts)
  have "max_list (t # ts) = fold max ts (max t 0)" by (simp add: max_list_def)
  then show ?case using Cons.IH [of "max t m"] Cons.IH [of "max t 0"] by (simp add: ac_simps)
qed (simp add: max_list_def)

lemma max_list_append: "max_list (xs @ ys) = max (max_list xs) (max_list ys)"
  using fold_max [of ys "fold max xs 0"] by (simp add: max_list_def)

definition state_timestamps :: "('m, key, bytes) skip_ops \<Rightarrow> 'm lsm_state \<Rightarrow> u64 list" where
  "state_timestamps S st =
     map (\<lambda>i. sst_max_ts (the (ls_sstables st i))) (ls_l0_sstables st @ concat (map snd (ls_levels st))) @
     concat (map (\<lambda>mt. map (\<lambda>e. key_ts (fst e)) (mt_entries S mt)) (memtables st))"

lemma recover_max_ts_ok:
  assumes S: "skip_map S" and ne: "\<forall>mt \<in> set (memtables st). no_empty_key (mt_entries S mt)"
  shows "recover_max_ts S st = Inr (max_list (state_timestamps S st))"
proof -
  have keys: "fold_res (\<lambda>(k, v) m. Inr (max m (key_ts k))) es m = Inr (fold max (map (\<lambda>e. key_ts (fst e)) es) m)"
    for es :: "(key \<times> bytes) list" and m
    by (induction es arbitrary: m) (auto simp: ac_simps)
  have one: "it_for_each ti_ops (\<lambda>k v m. Inr (max m (key_ts k))) (mt_scan S mt Unbounded Unbounded) m =
      Inr (fold max (map (\<lambda>e. key_ts (fst e)) (mt_entries S mt)) m)" if "mt \<in> set (memtables st)" for mt m
    using ti.for_each [OF mt_scan_cont(1) [OF S, of mt Unbounded Unbounded],
        of "\<lambda>k v m. Inr (max m (key_ts k))" m] that ne
    by (simp add: mt_scan_cont(2) [OF S] in_bounds_def keys)
  have mts: "fold_res (\<lambda>mt m. it_for_each ti_ops (\<lambda>k v m. Inr (max m (key_ts k)))
        (mt_scan S mt Unbounded Unbounded) m) mts m =
      Inr (fold max (concat (map (\<lambda>mt. map (\<lambda>e. key_ts (fst e)) (mt_entries S mt)) mts)) m)"
    if "set mts \<subseteq> set (memtables st)" for mts m
    using that by (induction mts arbitrary: m) (simp_all add: one)
  have tabs: "fold (\<lambda>i m. max m (g i)) ids m = fold max (map g ids) m" for g :: "nat \<Rightarrow> u64" and ids m
    by (induction ids arbitrary: m) (simp_all add: ac_simps)
  have "recover_max_ts S st = Inr (fold max (concat (map (\<lambda>mt. map (\<lambda>e. key_ts (fst e)) (mt_entries S mt)) (memtables st)))
      (fold max (map (\<lambda>i. sst_max_ts (the (ls_sstables st i))) (ls_l0_sstables st @ concat (map snd (ls_levels st)))) 0))"
    unfolding recover_max_ts_def Let_def memtables_def [symmetric] tabs by (rule mts [OF order_refl])
  then show ?thesis by (simp add: state_timestamps_def max_list_def)
qed

text \<open>What opening the file of a table gives: the same table under the given number, but for its largest timestamp.\<close>

definition reopened_table ::
    "(bytes \<Rightarrow> u32) \<Rightarrow> (bytes \<Rightarrow> u32) \<Rightarrow> nat \<Rightarrow> sstable \<Rightarrow> sstable \<Rightarrow> bool" where
  "reopened_table crc fp i t t' \<longleftrightarrow>
     table_ok crc fp t' \<and> sst_entries crc t' = sst_entries crc t \<and> sst_id t' = i \<and> sst_file t' = sst_file t \<and>
     sst_max_ts t' = max_list (concat (map (\<lambda>m. [key_ts (bm_first_key m), key_ts (bm_last_key m)]) (sst_block_meta t)))"

lemma reopen_table:
  assumes ok: "table_ok crc fp t" and lay: "file_layout_ok crc t" and size: "fo_size (sst_file t) < 4294967296"
  shows "\<exists>data t'. fo_file (sst_file t) = Some data \<and>
    sst_open crc i (Some Map.empty) (file_create data) = Inr t' \<and> reopened_table crc fp i t t'"
proof -
  obtain data bloom where l: "sst_bloom t = Some bloom" "length data = sst_block_meta_offset t"
      "sst_file t = file_create (table_file crc data (sst_block_meta t) bloom)"
    using lay by (auto simp: file_layout_ok_def)
  have sst: "sst_ok crc t" and blm: "bloom_ok crc fp t" using ok by (simp_all add: table_ok_def)
  have cache: "\<forall>c j. Some Map.empty = Some c \<longrightarrow> c (i, j) = None" by auto
  obtain t' where t': "sst_open crc i (Some Map.empty) (sst_file t) = Inr t'" "sst_ok crc t'"
    "sst_entries crc t' = sst_entries crc t" "sst_bloom t' = Some bloom"
    "sst_id t' = i" "sst_file t' = sst_file t"
    "sst_max_ts t' = max_list (concat (map (\<lambda>m. [key_ts (bm_first_key m), key_ts (bm_last_key m)]) (sst_block_meta t)))"
    by (rule sst_open_ok [OF sst l(1,3,2) size cache]) blast
  have "bloom_ok crc fp t'" using blm t'(3,4) l(1) by (simp add: bloom_ok_def)
  with t' show ?thesis
    by (intro exI [of _ "table_file crc data (sst_block_meta t) bloom"] exI [of _ t'])
      (simp add: reopened_table_def table_ok_def l(3) file_create_def)
qed

lemma recovered_keys:
  assumes "skip_map S"
  shows "fst ` set (sm_iter S (fold (\<lambda>(k, v). sm_insert S k v) xs (sm_new S))) = fst ` set xs"
  using arg_cong [OF skip_map.map_insert_all [OF assms, of xs "sm_new S"], of dom]
  by (simp add: skip_map.iter_new [OF assms] dom_map_of_conv_image_fst)

text \<open>
  \<open>s'\<close> is the storage \<open>s\<close> opened again from its directory, where \<open>lg mt\<close> are the records found in the
  log of the memtable \<open>mt\<close>.
\<close>

definition rebuilt ::
    "(bytes \<Rightarrow> u32) \<Rightarrow> (bytes \<Rightarrow> u32) \<Rightarrow> ('m, key, bytes) skip_ops \<Rightarrow> ('m memtable \<Rightarrow> (key \<times> bytes) list) \<Rightarrow>
     (nat \<rightharpoonup> bytes) \<Rightarrow> 'm storage \<Rightarrow> 'm storage \<Rightarrow> bool" where
  "rebuilt crc fp S lg wals s s' \<longleftrightarrow>
     memtables (sg_state s') = map (\<lambda>mt. recovered_memtable crc S (mt_id mt) (lg mt)) (memtables (sg_state s)) \<and>
     ls_l0_sstables (sg_state s') = ls_l0_sstables (sg_state s) \<and> ls_levels (sg_state s') = ls_levels (sg_state s) \<and>
     dom (ls_sstables (sg_state s')) = dom (ls_sstables (sg_state s)) \<and>
     (\<forall>i t. ls_sstables (sg_state s) i = Some t \<longrightarrow>
        (\<exists>t'. ls_sstables (sg_state s') i = Some t' \<and> reopened_table crc fp i t t')) \<and>
     sg_options s' = sg_options s \<and> sg_controller s' = sg_controller s \<and> sg_next_sst_id s' = sg_next_sst_id s \<and>
     sg_manifest s' = sg_manifest s \<and> sg_sst_files s' = sg_sst_files s \<and> sg_wal_files s' = wals \<and>
     sg_block_cache s' = Map.empty \<and> sg_mvcc s' = mvcc_new (max_list (state_timestamps S (sg_state s')))"

text \<open>The logs of the directory may hold anything for the live memtables, as long as it is whole records.\<close>

lemma reopen_ok:
  assumes S: "skip_map S" and M: "manifest_works M" and ok: "storage_ok crc fp S s" and j: "journal_ok crc S s"
    and sizes: "\<forall>i t. ls_sstables (sg_state s) i = Some t \<longrightarrow> fo_size (sst_file t) < 4294967296"
    and dir: "dir_manifest dir = Some (sg_manifest s)" "dir_sst_files dir = sg_sst_files s"
    and logs: "\<forall>mt \<in> set (memtables (sg_state s)).
      dir_wal_files dir (mt_id mt) = Some (log_bytes crc (lg mt)) \<and> (\<forall>e \<in> set (lg mt). record_ok e \<and> key_ref (fst e) \<noteq> [])"
  shows "\<exists>s'. storage_open crc S M (sg_options s) dir = Inr s' \<and> rebuilt crc fp S lg (dir_wal_files dir) s s'"
proof -
  let ?st = "sg_state s" and ?l0 = "ls_l0_sstables (sg_state s)"
  have ctrl: "sg_controller s = controller_of (opt_compaction_options (sg_options s))"
    and levels: "ls_levels ?st = initial_levels (opt_compaction_options (sg_options s))"
    and dom: "dom (ls_sstables ?st) = set ?l0" and wal: "opt_enable_wal (sg_options s)"
    and lay: "\<And>i t. ls_sstables ?st i = Some t \<Longrightarrow> file_layout_ok crc t"
    using j unfolding journal_ok_def by blast+
  obtain r where r: "fold_res (replay_record (sg_controller s)) (sg_manifest s) (replay_start S (sg_options s)) = Inr r"
      "rp_state r = (lsm_state_create S (sg_options s))\<lparr>ls_l0_sstables := ?l0\<rparr>"
      "rp_next_sst_id r = sg_next_sst_id s"
      "filter (\<lambda>i. i \<notin> rp_flushed_memtables r) (rp_all_memtables r) = map mt_id (memtables ?st)"
    using j unfolding journal_ok_def manifest_ok_def by blast
  have tables: "\<exists>data t'. dir_sst_files dir i = Some data \<and>
      sst_open crc i (Some Map.empty) (file_create data) = Inr t' \<and> reopened_table crc fp i t t'"
    if t: "ls_sstables ?st i = Some t" for i t
  proof -
    have "table_ok crc fp t" "sg_sst_files s i = fo_file (sst_file t)"
      using ok t by (simp_all add: storage_ok_def state_ok_def files_ok_def)
    then show ?thesis using reopen_table [OF _ lay [OF t], of fp i] sizes t by (auto simp: dir(2))
  qed
  define f where "f i = projr (sst_open crc i (Some Map.empty) (file_create (the (dir_sst_files dir i))))" for i
  have f: "\<exists>data. dir_sst_files dir i = Some data \<and> sst_open crc i (Some Map.empty) (file_create data) = Inr (f i)"
    if "i \<in> set ?l0" for i
    using that tables dom by (fastforce simp: f_def)
  have "memtables ?st \<noteq> []" "ls_imm_memtables (rp_state r) = []"
    by (simp_all add: memtables_def r(2) lsm_state_create_def)
  then obtain st1 where st1: "recover_memtables crc S dir (map mt_id (memtables ?st)) (rp_state r) = Inr st1"
      "memtables st1 = map (\<lambda>mt. recovered_memtable crc S (mt_id mt) (lg mt)) (memtables ?st)"
      "ls_l0_sstables st1 = ?l0" "ls_levels st1 = ls_levels ?st" "ls_sstables st1 = Map.empty"
    using recover_memtables_ok [of "memtables ?st" dir crc lg "rp_state r" S] logs
    by (auto simp: r(2) lsm_state_create_def levels)
  define st2 where "st2 = st1\<lparr>ls_sstables := (\<lambda>i. if i \<in> set ?l0 then Some (f i) else None)\<rparr>"
  have st2: "fold_res (open_table crc Map.empty dir) (ls_l0_sstables st1) st1 = Inr st2"
    using open_tables_ok [of ?l0 dir crc f st1] f by (simp add: st1(3,5) st2_def cong: if_cong)
  have lv: "fold_res (\<lambda>l st. fold_res (open_table crc Map.empty dir) (snd l) st) (ls_levels st2) st2 = Inr st2"
    by (rule open_levels_ok) (auto simp: st2_def st1(4) levels dest: initial_levels_empty)
  have mts: "memtables st2 = memtables st1" by (simp add: st2_def memtables_def)
  have "no_empty_key (mt_entries S mt)" if mt: "mt \<in> set (memtables st2)" for mt
  proof -
    obtain m where m: "m \<in> set (memtables ?st)" "mt = recovered_memtable crc S (mt_id m) (lg m)"
      using mt by (auto simp: mts st1(2))
    then have keys: "fst ` set (mt_entries S mt) = fst ` set (lg m)" by (simp add: recovered_keys [OF S])
    show ?thesis
      unfolding no_empty_key_def
    proof
      fix e
      assume "e \<in> set (mt_entries S mt)"
      then have "fst e \<in> fst ` set (lg m)" unfolding keys [symmetric] by simp
      then obtain e' where "e' \<in> set (lg m)" "fst e = fst e'" by blast
      then show "key_ref (fst e) \<noteq> []" using logs m(1) by simp
    qed
  qed
  then have ts: "recover_max_ts S st2 = Inr (max_list (state_timestamps S st2))"
    by (intro recover_max_ts_ok [OF S]) blast
  define s' where "s' = \<lparr>sg_state = st2, sg_block_cache = Map.empty, sg_next_sst_id = sg_next_sst_id s,
    sg_options = sg_options s, sg_controller = sg_controller s, sg_manifest = sg_manifest s,
    sg_mvcc = mvcc_new (max_list (state_timestamps S st2)), sg_compaction_filters = [],
    sg_sst_files = sg_sst_files s, sg_wal_files = dir_wal_files dir\<rparr>"
  have "storage_open crc S M (sg_options s) dir = Inr s'"
    using M r(1) unfolding replay_start_def ctrl
    by (simp add: storage_open_def Let_def dir manifest_works_def r(3,4) wal st1(1) st2 lv ts s'_def ctrl)
  moreover have "\<forall>i t. ls_sstables ?st i = Some t \<longrightarrow> (\<exists>t'. ls_sstables st2 i = Some t' \<and> reopened_table crc fp i t t')"
  proof (intro allI impI)
    fix i t
    assume t: "ls_sstables ?st i = Some t"
    then have "i \<in> set ?l0" using dom by auto
    then show "\<exists>t'. ls_sstables st2 i = Some t' \<and> reopened_table crc fp i t t'"
      using tables [OF t] by (auto simp: st2_def f_def)
  qed
  moreover have "dom (ls_sstables st2) = set ?l0" by (auto simp: st2_def split: if_splits)
  ultimately show ?thesis
    using st1 mts dom by (intro exI [of _ s']) (simp add: rebuilt_def s'_def, simp add: st2_def)
qed

section \<open>After an exit\<close>

text \<open>
  The directory that a storage leaves behind, in the state it has at the end. When the handle is
  dropped, the drop of each \<open>BufWriter\<close> writes its buffer to its log (\<open>shutdown_dir\<close>); when the process
  ends without running destructors, by a crash or by \<open>process::exit\<close>, what is in the buffers is gone
  (\<open>crash_dir\<close>).
\<close>

definition exit_dir :: "(wal \<Rightarrow> bytes) \<Rightarrow> 'm storage \<Rightarrow> directory" where
  "exit_dir contents s =
     \<lparr>dir_manifest = Some (sg_manifest s), dir_sst_files = sg_sst_files s,
      dir_wal_files = (\<lambda>i. case find (\<lambda>mt. mt_id mt = i) (memtables (sg_state s)) of
         Some mt \<Rightarrow> map_option contents (mt_wal mt) | None \<Rightarrow> sg_wal_files s i)\<rparr>"

definition shutdown_dir :: "'m storage \<Rightarrow> directory" where
  "shutdown_dir = exit_dir (\<lambda>w. wal_disk (buf_flush w))"

definition crash_dir :: "'m storage \<Rightarrow> directory" where
  "crash_dir = exit_dir wal_disk"

lemma find_distinct: "distinct (map f xs) \<Longrightarrow> x \<in> set xs \<Longrightarrow> find (\<lambda>y. f y = f x) xs = Some x"
  by (induction xs) (auto split: if_splits)

lemma exit_dir_simps [simp]:
  "dir_manifest (exit_dir c s) = Some (sg_manifest s)" "dir_sst_files (exit_dir c s) = sg_sst_files s"
  by (simp_all add: exit_dir_def)

lemma exit_dir_wal:
  assumes "ids_ok s" "mt \<in> set (memtables (sg_state s))"
  shows "dir_wal_files (exit_dir c s) (mt_id mt) = map_option c (mt_wal mt)"
  using assms find_distinct [of mt_id "memtables (sg_state s)" mt]
  by (simp add: exit_dir_def ids_ok_def Let_def memtables_def)

lemma exit_dir_free: "ids_ok s \<Longrightarrow> sg_next_sst_id s \<le> i \<Longrightarrow> dir_wal_files (exit_dir c s) i = None"
proof -
  assume ids: "ids_ok s" and i: "sg_next_sst_id s \<le> i"
  have "find (\<lambda>mt. mt_id mt = i) (memtables (sg_state s)) = None"
    unfolding find_None_iff using ids i by (auto simp: ids_ok_def Let_def memtables_def)
  then show ?thesis using ids i by (simp add: exit_dir_def ids_ok_def Let_def)
qed

text \<open>What a state holds, after the tables and the memtables have been replaced one by one.\<close>

lemma same_tables:
  assumes "\<And>i t. ls_sstables st i = Some t \<Longrightarrow> \<exists>t'. ls_sstables st' i = Some t' \<and> sst_entries crc t' = sst_entries crc t"
    and "\<forall>i \<in> set ids. ls_sstables st i \<noteq> None"
  shows "map (sst_entries crc) (tables_of st' ids) = map (sst_entries crc) (tables_of st ids)"
  using assms(2)
proof (induction ids)
  case (Cons i ids)
  obtain t where t: "ls_sstables st i = Some t" using Cons.prems by auto
  show ?case using Cons assms(1) [OF t] t by (auto simp: tables_of_def)
qed (simp add: tables_of_def)

lemma state_pairs_alt:
  "state_pairs crc S st =
     \<Union>(set ` set (map (mt_entries S) (memtables st))) \<union>
     \<Union>(set ` set (map (sst_entries crc) (tables_of st (ls_l0_sstables st)))) \<union>
     (\<Union>l \<in> set (ls_levels st). \<Union>(set ` set (map (sst_entries crc) (tables_of st (snd l)))))"
  by (auto simp: state_pairs_def memtables_def)

lemma state_sources_alt:
  assumes "\<forall>l \<in> set (ls_levels st). snd l = []"
  shows "state_sources crc S st =
    map map_of (map (mt_entries S) (memtables st) @ map (sst_entries crc) (tables_of st (ls_l0_sstables st))) @
    map (\<lambda>l. Map.empty) (ls_levels st)"
  using assms by (simp add: state_sources_def memtables_def tables_of_def level_entries_def comp_def)

lemma block_bounds_in_table:
  assumes "sst_ok crc t" "m \<in> set (sst_block_meta t)"
  shows "bm_first_key m \<in> fst ` set (sst_entries crc t)" "bm_last_key m \<in> fst ` set (sst_entries crc t)"
proof -
  obtain bss where h: "table_holds crc t bss" using assms(1) by (auto simp: sst_ok_def)
  then have f: "map bm_first_key (sst_block_meta t) = map (\<lambda>es. fst (hd es)) bss"
    and l: "map bm_last_key (sst_block_meta t) = map (\<lambda>es. fst (last es)) bss" by (simp_all add: table_holds_def)
  have "bm_first_key m \<in> (\<lambda>es. fst (hd es)) ` set bss" "bm_last_key m \<in> (\<lambda>es. fst (last es)) ` set bss"
    using arg_cong [OF f, of set] arg_cong [OF l, of set] assms(2) by auto
  then obtain es es' where es: "es \<in> set bss" "bm_first_key m = fst (hd es)" "es' \<in> set bss" "bm_last_key m = fst (last es')"
    by blast
  have "hd es \<in> set (concat bss)" "last es' \<in> set (concat bss)"
    using es(1,3) hd_in_set [OF conjunct1 [OF table_holds_blocks [OF h es(1)]]]
      last_in_set [OF conjunct1 [OF table_holds_blocks [OF h es(3)]]] by auto
  then show "bm_first_key m \<in> fst ` set (sst_entries crc t)" "bm_last_key m \<in> fst ` set (sst_entries crc t)"
    unfolding table_holds_entries [OF h] es(2,4) by (simp_all only: imageI)
qed

lemma max_list_le: "\<forall>t \<in> set ts. t \<le> c \<Longrightarrow> max_list ts \<le> c"
proof (induction ts rule: rev_induct)
  case (snoc t ts)
  then show ?case by (simp add: max_list_snoc)
qed (simp add: max_list_def)

section \<open>The rebuilt storage\<close>

text \<open>The tables and their entries are the same.\<close>

lemma rebuilt_tables:
  assumes "rebuilt crc fp S lg wals s s'" "set ids \<subseteq> dom (ls_sstables (sg_state s))"
  shows "map (sst_entries crc) (tables_of (sg_state s') ids) = map (sst_entries crc) (tables_of (sg_state s) ids)"
proof (rule same_tables)
  show "\<exists>t'. ls_sstables (sg_state s') i = Some t' \<and> sst_entries crc t' = sst_entries crc t"
    if "ls_sstables (sg_state s) i = Some t" for i t
    using assms(1) that unfolding rebuilt_def reopened_table_def by metis
qed (use assms(2) in blast)

lemma journal_shape:
  "journal_ok crc S s \<Longrightarrow> \<forall>l \<in> set (ls_levels (sg_state s)). snd l = []"
  "journal_ok crc S s \<Longrightarrow> dom (ls_sstables (sg_state s)) = set (ls_l0_sstables (sg_state s))"
  unfolding journal_ok_def by (auto dest: initial_levels_empty)

lemma levels_without_tables:
  assumes "\<forall>l \<in> set (ls_levels st). snd l = []"
  shows "state_pairs crc S st = \<Union> (set ` set (map (mt_entries S) (memtables st))) \<union>
      \<Union> (set ` set (map (sst_entries crc) (tables_of st (ls_l0_sstables st))))"
  using assms unfolding state_pairs_alt by (simp add: tables_of_def)

lemma rebuilt_pairs:
  assumes r: "rebuilt crc fp S lg wals s s'" and j: "journal_ok crc S s"
  shows "state_pairs crc S (sg_state s') = \<Union> (set ` set (map (mt_entries S) (memtables (sg_state s')))) \<union>
      \<Union> (set ` set (map (sst_entries crc) (tables_of (sg_state s) (ls_l0_sstables (sg_state s)))))"
proof -
  have "\<forall>l \<in> set (ls_levels (sg_state s')). snd l = []" "ls_l0_sstables (sg_state s') = ls_l0_sstables (sg_state s)"
    using r journal_shape(1) [OF j] by (simp_all add: rebuilt_def)
  then show ?thesis
    using levels_without_tables [of "sg_state s'" crc S] rebuilt_tables [OF r, of "ls_l0_sstables (sg_state s)"]
      journal_shape(2) [OF j] by simp
qed

lemma rebuilt_kept:
  assumes "rebuilt crc fp S lg wals s s'" "journal_ok crc S s"
  shows "set (level_entries crc (tables_of (sg_state s) (ls_l0_sstables (sg_state s)))) \<subseteq> state_pairs crc S (sg_state s')"
  unfolding rebuilt_pairs [OF assms] level_entries_def by auto

lemma rebuilt_keys:
  assumes S: "skip_map S" and r: "rebuilt crc fp S lg wals s s'" and j: "journal_ok crc S s"
    and lg: "\<And>mt. mt \<in> set (memtables (sg_state s)) \<Longrightarrow> fst ` set (lg mt) \<subseteq> fst ` set (mt_entries S mt)"
  shows "fst ` state_pairs crc S (sg_state s') \<subseteq> fst ` state_pairs crc S (sg_state s)"
proof -
  have mem: "map (mt_entries S) (memtables (sg_state s')) =
      map (\<lambda>mt. sm_iter S (fold (\<lambda>(k, v). sm_insert S k v) (lg mt) (sm_new S))) (memtables (sg_state s))"
    using r by (simp add: rebuilt_def)
  have "fst ` set (sm_iter S (fold (\<lambda>(k, v). sm_insert S k v) (lg mt) (sm_new S))) \<subseteq> fst ` set (mt_entries S mt)"
    if "mt \<in> set (memtables (sg_state s))" for mt
    unfolding recovered_keys [OF S] by (rule lg [OF that])
  then show ?thesis
    unfolding levels_without_tables [OF journal_shape(1) [OF j]] rebuilt_pairs [OF r j] mem
    by (fastforce simp: image_iff)
qed

lemma rebuilt_table_clock:
  assumes S: "skip_map S" and r: "rebuilt crc fp S lg wals s s'" and ok: "storage_ok crc fp S s" and j: "journal_ok crc S s"
    and i: "i \<in> set (ls_l0_sstables (sg_state s))"
    and clock: "\<And>k. k \<in> fst ` state_pairs crc S (sg_state s) \<Longrightarrow> key_ts k \<le> c"
  shows "sst_max_ts (the (ls_sstables (sg_state s') i)) \<le> c"
proof -
  obtain t where t: "ls_sstables (sg_state s) i = Some t" using i journal_shape(2) [OF j] by blast
  obtain t' where t': "ls_sstables (sg_state s') i = Some t'" "reopened_table crc fp i t t'"
    using r t unfolding rebuilt_def by blast
  have sst: "sst_ok crc t" using ok t by (simp add: storage_ok_def state_ok_def table_ok_def)
  have "t \<in> set (tables_of (sg_state s) (ls_l0_sstables (sg_state s)))" using i t by (force simp: tables_of_def)
  then have "fst ` set (sst_entries crc t) \<subseteq> fst ` state_pairs crc S (sg_state s)"
    unfolding levels_without_tables [OF journal_shape(1) [OF j]] by auto
  then have "key_ts (bm_first_key m) \<le> c" "key_ts (bm_last_key m) \<le> c" if "m \<in> set (sst_block_meta t)" for m
    using block_bounds_in_table [OF sst that] clock by (meson subsetD)+
  then have "max_list (concat (map (\<lambda>m. [key_ts (bm_first_key m), key_ts (bm_last_key m)]) (sst_block_meta t))) \<le> c"
    by (intro max_list_le) auto
  then show ?thesis using t' by (simp add: reopened_table_def)
qed

text \<open>The clock never runs ahead of the one before.\<close>

lemma rebuilt_clock:
  assumes S: "skip_map S" and r: "rebuilt crc fp S lg wals s s'" and ok: "storage_ok crc fp S s" and j: "journal_ok crc S s"
    and sub: "fst ` state_pairs crc S (sg_state s') \<subseteq> fst ` state_pairs crc S (sg_state s)"
  shows "latest_commit_ts (sg_mvcc s') \<le> latest_commit_ts (sg_mvcc s)"
proof -
  have clock: "key_ts k \<le> latest_commit_ts (sg_mvcc s)" if "k \<in> fst ` state_pairs crc S (sg_state s)" for k
    using that ok state_map_pairs_iff [OF S, of crc fp "sg_state s" "sg_controller s"]
    by (force simp: storage_ok_def timestamps_ok_def)
  have "key_ts (fst e) \<le> latest_commit_ts (sg_mvcc s)"
    if "mt \<in> set (memtables (sg_state s'))" "e \<in> set (mt_entries S mt)" for mt e
  proof -
    have "e \<in> state_pairs crc S (sg_state s')" using that unfolding rebuilt_pairs [OF r j] by auto
    then show ?thesis using sub clock by blast
  qed
  moreover have "concat (map snd (ls_levels (sg_state s'))) = []"
    using r journal_shape(1) [OF j] by (simp add: rebuilt_def)
  moreover have "sst_max_ts (the (ls_sstables (sg_state s') i)) \<le> latest_commit_ts (sg_mvcc s)"
    if "i \<in> set (ls_l0_sstables (sg_state s'))" for i
    using rebuilt_table_clock [OF S r ok j _ clock, of i] that r by (simp add: rebuilt_def)
  ultimately have "max_list (state_timestamps S (sg_state s')) \<le> latest_commit_ts (sg_mvcc s)"
    unfolding state_timestamps_def by (intro max_list_le) auto
  then show ?thesis using r by (simp add: rebuilt_def mvcc_new_def latest_commit_ts_def)
qed

text \<open>With complete logs the contents are the same, and the storage is well formed but for its clock.\<close>

definition complete_logs ::
    "('m, key, bytes) skip_ops \<Rightarrow> ('m memtable \<Rightarrow> (key \<times> bytes) list) \<Rightarrow> 'm storage \<Rightarrow> bool" where
  "complete_logs S lg s \<longleftrightarrow>
     (\<forall>mt \<in> set (memtables (sg_state s)). mt_map mt = fold (\<lambda>(k, v). sm_insert S k v) (lg mt) (sm_new S))"

lemma rebuilt_memtables:
  assumes "rebuilt crc fp S lg wals s s'" "complete_logs S lg s"
  shows "map (mt_entries S) (memtables (sg_state s')) = map (mt_entries S) (memtables (sg_state s))"
  using assms by (simp add: rebuilt_def complete_logs_def mt_entries_def [of S "_"] recovered_memtable_def Let_def)

lemma rebuilt_map:
  assumes r: "rebuilt crc fp S lg wals s s'" and j: "journal_ok crc S s" and full: "complete_logs S lg s"
  shows "state_map crc S (sg_state s') = state_map crc S (sg_state s)"
proof -
  have "\<forall>l \<in> set (ls_levels (sg_state s')). snd l = []" using r journal_shape(1) [OF j] by (simp add: rebuilt_def)
  note sources = state_sources_alt [OF this, of crc S] state_sources_alt [OF journal_shape(1) [OF j], of crc S]
  have same: "ls_l0_sstables (sg_state s') = ls_l0_sstables (sg_state s)"
      "ls_levels (sg_state s') = ls_levels (sg_state s)" using r by (simp_all add: rebuilt_def)
  have tabs: "map (sst_entries crc) (tables_of (sg_state s') (ls_l0_sstables (sg_state s))) =
      map (sst_entries crc) (tables_of (sg_state s) (ls_l0_sstables (sg_state s)))"
    by (rule rebuilt_tables [OF r]) (simp add: journal_shape(2) [OF j])
  show ?thesis unfolding state_map_def sources same tabs rebuilt_memtables [OF r full] ..
qed

lemma rebuilt_table:
  assumes r: "rebuilt crc fp S lg wals s s'" and files: "files_ok s" and t: "ls_sstables (sg_state s') i = Some t"
  shows "table_ok crc fp t \<and> sst_id t = i \<and> sg_sst_files s i = fo_file (sst_file t)"
proof -
  obtain t0 where t0: "ls_sstables (sg_state s) i = Some t0" using t r unfolding rebuilt_def by blast
  have "sg_sst_files s i = fo_file (sst_file t0)" using files t0 by (simp add: files_ok_def)
  moreover obtain t' where "ls_sstables (sg_state s') i = Some t'" "reopened_table crc fp i t0 t'"
    using r t0 unfolding rebuilt_def by blast
  ultimately show ?thesis using t by (simp add: reopened_table_def)
qed

lemma rebuilt_state_ok:
  assumes r: "rebuilt crc fp S lg wals s s'" and ok: "storage_ok crc fp S s" and j: "journal_ok crc S s"
    and full: "complete_logs S lg s"
  shows "state_ok crc fp S (sg_state s')"
proof -
  let ?st = "sg_state s" and ?st' = "sg_state s'"
  have st: "state_ok crc fp S ?st" and files: "files_ok s" using ok by (simp_all add: storage_ok_def)
  have mts: "map (mt_entries S) (ls_imm_memtables ?st') = map (mt_entries S) (ls_imm_memtables ?st)"
      "mt_entries S (ls_memtable ?st') = mt_entries S (ls_memtable ?st)"
    using rebuilt_memtables [OF r full] by (simp_all add: memtables_def)
  have all: "(\<forall>mt \<in> set (ls_imm_memtables ?st'). Q (mt_entries S mt)) \<longleftrightarrow>
      (\<forall>mt \<in> set (ls_imm_memtables ?st). Q (mt_entries S mt))" for Q
    using arg_cong [OF mts(1), of "\<lambda>xs. \<forall>x \<in> set xs. Q x"] by simp
  have live: "live_ids ?st' = live_ids ?st" using r by (simp add: live_ids_def rebuilt_def)
  show ?thesis
    unfolding state_ok_def live
  proof (intro conjI)
    show "\<forall>mt \<in> set (ls_memtable ?st' # ls_imm_memtables ?st'). \<forall>e \<in> set (mt_entries S mt). entry_ok e"
      using st all [of "\<lambda>es. \<forall>e \<in> set es. entry_ok e"] by (simp add: mts(2) state_ok_def)
    show "\<forall>mt \<in> set (ls_imm_memtables ?st'). mt_entries S mt \<noteq> []"
      using st all [of "\<lambda>es. es \<noteq> []"] by (simp add: state_ok_def)
    show "\<forall>i \<in> live_ids ?st. ls_sstables ?st' i \<noteq> None"
      using st r unfolding state_ok_def rebuilt_def by blast
    show "\<forall>i t. ls_sstables ?st' i = Some t \<longrightarrow> table_ok crc fp t \<and> sst_id t = i"
      using rebuilt_table [OF r files] by blast
    show "\<forall>l \<in> set (ls_levels ?st'). level_ok crc (tables_of ?st' (snd l))"
      using journal_shape(1) [OF j] r by (simp add: rebuilt_def tables_of_def)
  qed
qed

lemma rebuilt_ids_ok:
  assumes r: "rebuilt crc fp S lg wals s s'" and ids: "ids_ok s"
    and wals: "\<forall>i \<ge> sg_next_sst_id s. wals i = None"
  shows "ids_ok s'"
proof -
  let ?st = "sg_state s" and ?st' = "sg_state s'"
  have "map mt_id (memtables ?st') = map mt_id (memtables ?st)" using r by (simp add: rebuilt_def)
  then have idm: "map mt_id (ls_memtable ?st' # ls_imm_memtables ?st') = map mt_id (ls_memtable ?st # ls_imm_memtables ?st)"
    by (simp add: memtables_def)
  have none: "ls_sstables ?st' i = None \<longleftrightarrow> ls_sstables ?st i = None" for i using r unfolding rebuilt_def by blast
  have "\<forall>i \<in> set (map mt_id (ls_memtable ?st # ls_imm_memtables ?st)). i < sg_next_sst_id s \<and> ls_sstables ?st i = None"
    using ids by (auto simp: ids_ok_def Let_def)
  then have "\<forall>i \<in> set (map mt_id (ls_memtable ?st' # ls_imm_memtables ?st')). i < sg_next_sst_id s \<and> ls_sstables ?st' i = None"
    unfolding idm none .
  moreover have "distinct (map mt_id (ls_memtable ?st' # ls_imm_memtables ?st'))"
    unfolding idm using ids by (simp add: ids_ok_def Let_def)
  moreover have "\<forall>i. ls_sstables ?st' i \<noteq> None \<longrightarrow> i < sg_next_sst_id s"
    using ids unfolding none by (simp add: ids_ok_def Let_def)
  moreover have "sg_next_sst_id s' = sg_next_sst_id s" "sg_wal_files s' = wals" "sg_block_cache s' = Map.empty"
    using r by (simp_all add: rebuilt_def)
  ultimately show ?thesis using wals by (simp add: ids_ok_def Let_def del: not_None_eq)
qed

lemma rebuilt_storage_ok:
  assumes r: "rebuilt crc fp S lg wals s s'" and ok: "storage_ok crc fp S s" and j: "journal_ok crc S s"
    and full: "complete_logs S lg s" and wals: "\<forall>i \<ge> sg_next_sst_id s. wals i = None"
  shows "storage_ok crc fp S (s'\<lparr>sg_mvcc := sg_mvcc s\<rparr>)"
proof -
  have tree: "tree_ok crc S (sg_controller s) (sg_state s)" and ids: "ids_ok s" and opts: "options_ok s"
    and files: "files_ok s" and ts: "timestamps_ok crc S s"
    using ok by (simp_all add: storage_ok_def)
  have "state_pairs crc S (sg_state s') = state_pairs crc S (sg_state s)"
    unfolding rebuilt_pairs [OF r j] levels_without_tables [OF journal_shape(1) [OF j]] rebuilt_memtables [OF r full] ..
  then have "tree_ok crc S (sg_controller s') (sg_state s')"
    using tree r by (simp add: tree_ok_def consistent_def places_ok_def shape_ok_def rebuilt_def
        cong: compaction_controller.case_cong)
  moreover have "timestamps_ok crc S (s'\<lparr>sg_mvcc := sg_mvcc s\<rparr>)"
    using ts by (simp add: timestamps_ok_def rebuilt_map [OF r j full])
  moreover have "ids_ok (s'\<lparr>sg_mvcc := sg_mvcc s\<rparr>)"
    using rebuilt_ids_ok [OF r ids wals] by (simp add: ids_ok_def)
  moreover have "options_ok (s'\<lparr>sg_mvcc := sg_mvcc s\<rparr>)" using opts r by (simp add: options_ok_def rebuilt_def)
  moreover have "size_ok S (ls_memtable (sg_state s'))"
  proof -
    have "ls_memtable (sg_state s') =
        recovered_memtable crc S (mt_id (ls_memtable (sg_state s))) (lg (ls_memtable (sg_state s)))"
      using r by (simp add: rebuilt_def memtables_def)
    then show ?thesis by (auto simp: size_ok_def) (simp add: recovered_memtable_def Let_def)
  qed
  moreover have "files_ok (s'\<lparr>sg_mvcc := sg_mvcc s\<rparr>)"
    using rebuilt_table [OF r files] r by (simp add: files_ok_def rebuilt_def)
  ultimately show ?thesis
    using rebuilt_state_ok [OF r ok j full] by (simp add: storage_ok_def)
qed

text \<open>From the directory of an exit: what \<open>contents\<close> makes of a log are records the memtable has taken.\<close>

lemma reopened:
  fixes S :: "('m, key, bytes) skip_ops"
  assumes S: "skip_map S" and M: "manifest_works M" and ok: "storage_ok crc fp S s" and j: "journal_ok crc S s"
    and sizes: "\<forall>i t. ls_sstables (sg_state s) i = Some t \<longrightarrow> fo_size (sst_file t) < 4294967296"
    and logs: "\<And>w fs bs. wal_holds crc w fs bs \<Longrightarrow>
      \<exists>gs. set gs \<subseteq> set (fs @ bs) \<and> contents w = log_bytes crc gs \<and> (full \<longrightarrow> gs = fs @ bs)"
  shows "\<exists>lg s'. storage_open crc S M (sg_options s) (exit_dir contents s) = Inr s' \<and>
    rebuilt crc fp S lg (dir_wal_files (exit_dir contents s)) s s' \<and>
    (\<forall>mt \<in> set (memtables (sg_state s)). fst ` set (lg mt) \<subseteq> fst ` set (mt_entries S mt)) \<and>
    (full \<longrightarrow> complete_logs S lg s)"
proof -
  let ?mts = "memtables (sg_state s)"
  have st: "state_ok crc fp S (sg_state s)" and ids: "ids_ok s" using ok by (simp_all add: storage_ok_def)
  define P where "P mt gs \<longleftrightarrow> map_option contents (mt_wal mt) = Some (log_bytes crc gs) \<and>
      fst ` set gs \<subseteq> fst ` set (mt_entries S mt) \<and> (\<forall>e \<in> set gs. record_ok e) \<and>
      (full \<longrightarrow> mt_map mt = fold (\<lambda>(k, v). sm_insert S k v) gs (sm_new S))" for mt :: "'m memtable" and gs
  have "\<exists>gs. P mt gs" if mt: "mt \<in> set ?mts" for mt
  proof -
    have "log_ok crc S mt" using j mt unfolding journal_ok_def by blast
    then obtain w fs bs where w: "mt_wal mt = Some w" "wal_holds crc w fs bs"
      "mt_map mt = fold (\<lambda>(k, v). sm_insert S k v) (fs @ bs) (sm_new S)" "\<forall>e \<in> set (fs @ bs). record_ok e"
      by (auto simp: log_ok_def)
    obtain gs where gs: "set gs \<subseteq> set (fs @ bs)" "contents w = log_bytes crc gs" "full \<longrightarrow> gs = fs @ bs"
      using logs [OF w(2)] by blast
    have "fst ` set (mt_entries S mt) = fst ` set (fs @ bs)"
      unfolding mt_entries_def w(3) by (rule recovered_keys [OF S])
    then have "P mt gs" using w(1,3,4) gs unfolding P_def by auto
    then show ?thesis ..
  qed
  then have "\<forall>mt \<in> set ?mts. \<exists>gs. P mt gs" by blast
  from bchoice [OF this] obtain lg where lg: "\<forall>mt \<in> set ?mts. P mt (lg mt)" by blast
  have "key_ref (fst e) \<noteq> []" if mt: "mt \<in> set ?mts" and e: "e \<in> set (lg mt)" for mt e
  proof -
    have "fst e \<in> fst ` set (mt_entries S mt)" using lg mt e unfolding P_def by blast
    then show ?thesis using state_ok_no_empty [OF st, of mt] mt by (auto simp: memtables_def no_empty_key_def)
  qed
  then have "\<forall>mt \<in> set ?mts. dir_wal_files (exit_dir contents s) (mt_id mt) = Some (log_bytes crc (lg mt)) \<and>
      (\<forall>e \<in> set (lg mt). record_ok e \<and> key_ref (fst e) \<noteq> [])"
    using lg exit_dir_wal [OF ids] unfolding P_def by simp
  from reopen_ok [OF S M ok j sizes exit_dir_simps this] lg show ?thesis
    unfolding complete_logs_def P_def by blast
qed

section \<open>A new directory\<close>

definition empty_dir :: directory where
  "empty_dir = \<lparr>dir_manifest = None, dir_sst_files = Map.empty, dir_wal_files = Map.empty\<rparr>"

lemma open_empty_without_wal:
  "manifest_works M \<Longrightarrow> \<not> opt_enable_wal options \<Longrightarrow>
   storage_open crc S M options empty_dir = Inr (fresh_storage S options)"
  by (simp add: storage_open_def empty_dir_def manifest_works_def fresh_storage_def Let_def)

definition fresh_logged :: "('m, key, bytes) skip_ops \<Rightarrow> lsm_options \<Rightarrow> 'm storage" where
  "fresh_logged S options = (fresh_storage S options)
     \<lparr>sg_state := (lsm_state_create S options)\<lparr>ls_memtable :=
        (mt_create S 0)\<lparr>mt_wal := Some \<lparr>wal_disk = [], wal_buf = []\<rparr>\<rparr>\<rparr>,
      sg_manifest := [NewMemtable 0], sg_wal_files := [0 \<mapsto> []]\<rparr>"

lemma open_empty_with_wal:
  "manifest_works M \<Longrightarrow> opt_enable_wal options \<Longrightarrow>
   storage_open crc S M options empty_dir = Inr (fresh_logged S options)"
  by (simp add: storage_open_def empty_dir_def manifest_works_def fresh_storage_def fresh_logged_def Let_def
      mt_create_with_wal_def wal_create_def mt_create_def)

lemma fresh_logged_map:
  "skip_map S \<Longrightarrow> state_map crc S (sg_state (fresh_logged S options)) = state_map crc S (sg_state (fresh_storage S options))"
  by (simp add: state_map_def state_sources_def fresh_logged_def fresh_storage_def lsm_state_create_def
      mt_entries_def mt_create_def tables_of_def)

lemma fresh_logged_ok:
  assumes S: "skip_map S" and levels: "levels_positive (opt_compaction_options options)"
    and opts: "0 < opt_target_sst_size options" "opt_block_size options \<le> 65536"
  shows "storage_ok crc fp S (fresh_logged S options)"
proof -
  have f: "storage_ok crc fp S (fresh_storage S options)" by (rule fresh_storage_ok [OF S levels opts])
  have mt: "mt_entries S ((mt_create S 0)\<lparr>mt_wal := w\<rparr>) = mt_entries S (mt_create S 0)" for w
    by (simp add: mt_entries_def)
  have "timestamps_ok crc S (fresh_logged S options)"
    using f fresh_logged_map [OF S, of crc options]
    by (simp add: storage_ok_def timestamps_ok_def) (simp add: fresh_logged_def fresh_storage_def)
  moreover have "state_ok crc fp S (sg_state (fresh_logged S options))"
    using f by (simp add: storage_ok_def state_ok_def fresh_logged_def fresh_storage_def lsm_state_create_def mt
        live_ids_def tables_of_def)
  moreover have "tree_ok crc S (sg_controller (fresh_logged S options)) (sg_state (fresh_logged S options))"
    using f by (simp add: storage_ok_def tree_ok_def consistent_def state_pairs_def places_ok_def shape_ok_def
        fresh_logged_def fresh_storage_def lsm_state_create_def mt tables_of_def cong: compaction_controller.case_cong)
  moreover have "ids_ok (fresh_logged S options)" "options_ok (fresh_logged S options)"
      "files_ok (fresh_logged S options)" "size_ok S (ls_memtable (sg_state (fresh_logged S options)))"
    using opts by (simp_all add: ids_ok_def options_ok_def files_ok_def size_ok_def fresh_logged_def fresh_storage_def
        lsm_state_create_def mt_create_def)
  ultimately show ?thesis by (simp add: storage_ok_def)
qed

lemma fresh_logged_journal:
  assumes wal: "opt_enable_wal options" and l0: "flush_to_l0 (controller_of (opt_compaction_options options))"
  shows "journal_ok crc S (fresh_logged S options)"
proof -
  have "log_ok crc S ((mt_create S 0)\<lparr>mt_wal := Some \<lparr>wal_disk = [], wal_buf = []\<rparr>\<rparr>)"
    unfolding log_ok_def
    by (intro exI [of _ "\<lparr>wal_disk = [], wal_buf = []\<rparr>"] exI [of _ "[]"]) (simp add: wal_holds_def mt_create_def)
  moreover have "manifest_ok S (fresh_logged S options)"
    by (simp add: manifest_ok_def fresh_logged_def fresh_storage_def replay_start_def memtables_def
        lsm_state_create_def mt_create_def)
  ultimately show ?thesis
    using assms by (simp add: journal_ok_def fresh_logged_def fresh_storage_def memtables_def lsm_state_create_def)
qed

section \<open>Properties\<close>

text \<open>
  C21: The directory keeps pace with the storage. Opening an empty directory with the log enabled and
  a controller that flushes to level 0, and running any batches and flushes, never fails; at the
  end the storage is well formed, replaying the manifest gives its tables, its memtables and its
  number counter, and the log of every live memtable holds or buffers exactly its entries.
\<close>

theorem journal_in_step:
  assumes "skip_map S" "manifest_works M" "opt_enable_wal options"
    and "flush_to_l0 (controller_of (opt_compaction_options options))"
    and "levels_positive (opt_compaction_options options)"
    and "0 < opt_target_sst_size options" "opt_block_size options \<le> 65536"
    and "\<forall>op \<in> set ops. op_fits op" "sum_list (map ticks ops) < 2 ^ 64"
  shows "\<exists>s0 s. storage_open crc S M options empty_dir = Inr s0 \<and>
    run_ops (write_batch crc S M) (run_flush crc fp S M) ops s0 = (Inr (), s) \<and>
    storage_ok crc fp S s \<and> journal_ok crc S s"
proof -
  let ?s0 = "fresh_logged S options"
  have opn: "storage_open crc S M options empty_dir = Inr ?s0" by (rule open_empty_with_wal [OF assms(2,3)])
  have "journaled_good crc fp S M ?s0"
    using fresh_logged_ok [OF assms(1,5-7)] fresh_logged_journal [OF assms(3,4)] assms(1,2)
    by (simp add: journaled_good_def storage_good_def)
  moreover have "latest_commit_ts (sg_mvcc ?s0) = 0"
    by (simp add: fresh_logged_def fresh_storage_def mvcc_new_def latest_commit_ts_def)
  ultimately obtain s where "run_ops (write_batch crc S M) (run_flush crc fp S M) ops ?s0 = (Inr (), s)"
      "journaled_good crc fp S M s"
    using journaled.run_ops_refines [of crc fp S M ?s0 ops] assms(8,9) by auto
  with opn show ?thesis by (auto simp: journaled_good_def storage_good_def)
qed

definition journal_options :: lsm_options where
  "journal_options = default_for_week1_test\<lparr>opt_enable_wal := True\<rparr>"

lemma journal_options_good:
  assumes "skip_map S" "manifest_works M"
  shows "journaled_good crc fp S M (fresh_logged S journal_options)"
proof -
  have "levels_positive (opt_compaction_options journal_options)" "0 < opt_target_sst_size journal_options"
    "opt_block_size journal_options \<le> 65536" "opt_enable_wal journal_options"
    "flush_to_l0 (controller_of (opt_compaction_options journal_options))"
    by (simp_all add: journal_options_def default_for_week1_test_def controller_of_def flush_to_l0_def levels_positive_def)
  then show ?thesis
    using fresh_logged_ok [OF assms(1)] fresh_logged_journal assms by (simp add: journaled_good_def storage_good_def)
qed

theorem journal_in_step_witness:
  "\<exists>s0 s. storage_open (\<lambda>_. 0) rbt_ops manifest_log journal_options empty_dir = Inr s0 \<and>
    run_ops (write_batch (\<lambda>_. 0) rbt_ops manifest_log) (run_flush (\<lambda>_. 0) (\<lambda>_. 1) rbt_ops manifest_log)
      [Write [Put [1] [2], Del [6]], Maintain ForceFlush, Write [Put [6] [7]]] s0 = (Inr (), s) \<and>
    storage_ok (\<lambda>_. 0) (\<lambda>_. 1) rbt_ops s \<and> journal_ok (\<lambda>_. 0) rbt_ops s"
  by (rule journal_in_step [OF rbt.skip_map_axioms manifest_log_works])
    (simp_all add: journal_options_def default_for_week1_test_def controller_of_def flush_to_l0_def levels_positive_def)

text \<open>After the handle was dropped, the directory opens with the contents of before.\<close>

lemma reopened_contents:
  assumes "skip_map S" "manifest_works M" "storage_ok crc fp S s" "journal_ok crc S s"
    and "\<forall>i t. ls_sstables (sg_state s) i = Some t \<longrightarrow> fo_size (sst_file t) < 4294967296"
  shows "\<exists>s'. storage_open crc S M (sg_options s) (shutdown_dir s) = Inr s' \<and>
      state_map crc S (sg_state s') = state_map crc S (sg_state s) \<and>
      latest_commit_ts (sg_mvcc s') \<le> latest_commit_ts (sg_mvcc s) \<and>
      storage_ok crc fp S (s'\<lparr>sg_mvcc := sg_mvcc s\<rparr>)"
proof -
  have ids: "ids_ok s" using assms(3) by (simp add: storage_ok_def)
  have full: "\<exists>gs. set gs \<subseteq> set (fs @ bs) \<and> wal_disk (buf_flush w) = log_bytes crc gs \<and> (True \<longrightarrow> gs = fs @ bs)"
    if "wal_holds crc w fs bs" for w fs bs
    using that by (simp add: wal_holds_def buf_flush_def)
  obtain lg s' where s': "storage_open crc S M (sg_options s) (shutdown_dir s) = Inr s'"
      "rebuilt crc fp S lg (dir_wal_files (shutdown_dir s)) s s'"
      "\<forall>mt \<in> set (memtables (sg_state s)). fst ` set (lg mt) \<subseteq> fst ` set (mt_entries S mt)" "complete_logs S lg s"
    using reopened [where contents = "\<lambda>w. wal_disk (buf_flush w)" and full = True, OF assms full]
    unfolding shutdown_dir_def by blast
  have "\<forall>i \<ge> sg_next_sst_id s. dir_wal_files (shutdown_dir s) i = None"
    unfolding shutdown_dir_def using exit_dir_free [OF ids] by blast
  note rebuilt_storage_ok [OF s'(2) assms(3,4) s'(4) this] rebuilt_map [OF s'(2) assms(4) s'(4)]
    rebuilt_clock [OF assms(1) s'(2) assms(3,4) rebuilt_keys [OF assms(1) s'(2) assms(4)]]
  with s' show ?thesis
    by (intro exI [of _ s']) simp
qed

text \<open>
  C3: Nothing that reached the disk is lost. When a storage whose directory is in step ends in order,
  so that its handle is dropped, and is opened again (its tables small enough for their 32-bit offsets), it holds exactly what it
  held, and is well formed but for its clock, which is not ahead of the one before. After a crash
  or an exit of the process it opens too: the flushed tables are there in full, and no version is there that was not before.
\<close>

theorem reopen_after_exit:
  assumes "skip_map S" "manifest_works M" "storage_ok crc fp S s" "journal_ok crc S s"
    and "\<forall>i t. ls_sstables (sg_state s) i = Some t \<longrightarrow> fo_size (sst_file t) < 4294967296"
  shows "(\<exists>s'. storage_open crc S M (sg_options s) (shutdown_dir s) = Inr s' \<and>
      state_map crc S (sg_state s') = state_map crc S (sg_state s) \<and>
      latest_commit_ts (sg_mvcc s') \<le> latest_commit_ts (sg_mvcc s) \<and>
      storage_ok crc fp S (s'\<lparr>sg_mvcc := sg_mvcc s\<rparr>)) \<and>
    (\<exists>s'. storage_open crc S M (sg_options s) (crash_dir s) = Inr s' \<and>
      set (level_entries crc (tables_of (sg_state s) (ls_l0_sstables (sg_state s)))) \<subseteq> state_pairs crc S (sg_state s') \<and>
      fst ` state_pairs crc S (sg_state s') \<subseteq> fst ` state_pairs crc S (sg_state s))"
proof
  show "\<exists>s'. storage_open crc S M (sg_options s) (shutdown_dir s) = Inr s' \<and>
      state_map crc S (sg_state s') = state_map crc S (sg_state s) \<and>
      latest_commit_ts (sg_mvcc s') \<le> latest_commit_ts (sg_mvcc s) \<and>
      storage_ok crc fp S (s'\<lparr>sg_mvcc := sg_mvcc s\<rparr>)"
    by (rule reopened_contents [OF assms])
next
  have part: "\<exists>gs. set gs \<subseteq> set (fs @ bs) \<and> wal_disk w = log_bytes crc gs \<and> (False \<longrightarrow> gs = fs @ bs)"
    if "wal_holds crc w fs bs" for w fs bs
    using that by (auto simp: wal_holds_def)
  obtain lg s' where s': "storage_open crc S M (sg_options s) (crash_dir s) = Inr s'"
      "rebuilt crc fp S lg (dir_wal_files (crash_dir s)) s s'"
      "\<forall>mt \<in> set (memtables (sg_state s)). fst ` set (lg mt) \<subseteq> fst ` set (mt_entries S mt)"
    using reopened [where contents = wal_disk and full = False, OF assms part] unfolding crash_dir_def by blast
  with rebuilt_kept [OF s'(2) assms(4)] rebuilt_keys [OF assms(1) s'(2) assms(4)]
  show "\<exists>s'. storage_open crc S M (sg_options s) (crash_dir s) = Inr s' \<and>
      set (level_entries crc (tables_of (sg_state s) (ls_l0_sstables (sg_state s)))) \<subseteq> state_pairs crc S (sg_state s') \<and>
      fst ` state_pairs crc S (sg_state s') \<subseteq> fst ` state_pairs crc S (sg_state s)"
    by (intro exI [of _ s']) simp
qed

lemma write_batch_sstables: "ls_sstables (sg_state (snd (write_batch crc S M batch s))) = ls_sstables (sg_state s)"
proof -
  have "ls_sstables (sg_state (snd (try_freeze S M s))) = ls_sstables (sg_state s)" for s
    by (auto simp: try_freeze_def force_freeze_memtable_def next_sst_id_def add_record_def Let_def split: sum.split)
  note frz = this [of "s\<lparr>sg_state := (sg_state s)\<lparr>ls_memtable := mt_put_batch crc S (ls_memtable (sg_state s))
    (map (write_record (latest_commit_ts (sg_mvcc s) + 1)) batch)\<rparr>\<rparr>"]
  then show ?thesis
    unfolding write_batch_def Let_def
    by (cases "try_freeze S M (s\<lparr>sg_state := (sg_state s)\<lparr>ls_memtable := mt_put_batch crc S (ls_memtable (sg_state s))
      (map (write_record (latest_commit_ts (sg_mvcc s) + 1)) batch)\<rparr>\<rparr>)") (auto split: sum.splits, case_tac a, auto)
qed

theorem reopen_after_exit_witness:
  "\<exists>s. write_batch (\<lambda>_. 0) rbt_ops manifest_log [Put [1] [2], Del [6]] (fresh_logged rbt_ops journal_options) = (Inr (), s) \<and>
    (\<exists>s'. storage_open (\<lambda>_. 0) rbt_ops manifest_log (sg_options s) (shutdown_dir s) = Inr s' \<and>
      state_map (\<lambda>_. 0) rbt_ops (sg_state s') = state_map (\<lambda>_. 0) rbt_ops (sg_state s) \<and>
      latest_commit_ts (sg_mvcc s') \<le> latest_commit_ts (sg_mvcc s) \<and>
      storage_ok (\<lambda>_. 0) (\<lambda>_. 1) rbt_ops (s'\<lparr>sg_mvcc := sg_mvcc s\<rparr>)) \<and>
    (\<exists>s'. storage_open (\<lambda>_. 0) rbt_ops manifest_log (sg_options s) (crash_dir s) = Inr s' \<and>
      set (level_entries (\<lambda>_. 0) (tables_of (sg_state s) (ls_l0_sstables (sg_state s)))) \<subseteq>
        state_pairs (\<lambda>_. 0) rbt_ops (sg_state s') \<and>
      fst ` state_pairs (\<lambda>_. 0) rbt_ops (sg_state s') \<subseteq> fst ` state_pairs (\<lambda>_. 0) rbt_ops (sg_state s))"
proof -
  let ?s0 = "fresh_logged rbt_ops journal_options" and ?b = "[Put [1] [2], Del [6]]"
  have good: "journaled_good (\<lambda>_. 0) (\<lambda>_. 1) rbt_ops manifest_log ?s0"
    by (rule journal_options_good [OF rbt.skip_map_axioms manifest_log_works])
  have clock: "latest_commit_ts (sg_mvcc ?s0) \<noteq> - 1"
    by (simp add: fresh_logged_def fresh_storage_def mvcc_new_def latest_commit_ts_def)
  obtain s where s: "write_batch (\<lambda>_. 0) rbt_ops manifest_log ?b ?s0 = (Inr (), s)"
      "journaled_good (\<lambda>_. 0) (\<lambda>_. 1) rbt_ops manifest_log s"
    using journaled.write_versions [OF good _ clock, of ?b] by auto
  have "storage_ok (\<lambda>_. 0) (\<lambda>_. 1) rbt_ops s" "journal_ok (\<lambda>_. 0) rbt_ops s"
    using s(2) by (simp_all add: journaled_good_def storage_good_def)
  moreover have "ls_sstables (sg_state s) = Map.empty"
    using write_batch_sstables [of "\<lambda>_. 0" rbt_ops manifest_log ?b ?s0] s(1)
    by (simp add: fresh_logged_def lsm_state_create_def)
  ultimately show ?thesis
    using s(1) reopen_after_exit [OF rbt.skip_map_axioms manifest_log_works, of "\<lambda>_. 0" "\<lambda>_. 1" s] by simp
qed

end
