(* ===== verification/RecoveryFaults.thy ===== *)
theory RecoveryFaults
  imports Recovery
begin

text \<open>
  Where recovery does not give back what was there: the clock after opening a table whose newest
  version is in the middle of a block.
\<close>

section \<open>Newest versions inside a block\<close>

text \<open>Three versions, the newest of them between the other two.\<close>

definition middle_entries :: "(key \<times> bytes) list" where
  "middle_entries = [(Key [1] 1, [1]), (Key [2] 3, [2]), (Key [3] 2, [3])]"

lemma middle_sorted: "sorted1 middle_entries"
  by (simp add: middle_entries_def)

lemma middle_entries_ok: "\<forall>e \<in> set middle_entries. entry_ok e"
  by (simp add: middle_entries_def entry_ok_def)

lemma bloom_filter_length:
  assumes "bloom_build_from_key_hashes keys bits = Inr b"
  shows "length (bloom_filter b) = (max (length keys * bits) 64 + 7) div 8"
proof -
  define nbytes where "nbytes = (max (length keys * bits) 64 + 7) div 8"
  have "0 < nbytes" by (simp add: nbytes_def)
  then obtain bs where "fold_res (\<lambda>h. bloom_set_probes (bloom_num_hashes bits) (nbytes * 8) (word_rotl 15 h) h) keys
      (replicate nbytes 0) = Inr bs" "length bs = nbytes"
    using bloom_fill_ok [of "replicate nbytes 0" "nbytes * 8" "bloom_num_hashes bits" keys] by auto
  then show ?thesis
    using assms by (auto simp: bloom_build_from_key_hashes_def Let_def simp flip: nbytes_def)
qed

lemma middle_builder:
  "\<exists>b h. sst_add_all crc fp middle_entries (sst_builder_new 4096) =
      Inr \<lparr>sb_builder = b, sb_first_key = Key [1] 1, sb_last_key = Key [3] 2, sb_data = [], sb_meta = [],
        sb_block_size = 4096, sb_key_hashes = h, sb_max_ts = 3\<rparr> \<and> bb_first_key b = Key [1] 1 \<and>
      length (bb_offsets b) = 3 \<and> length (bb_data b) < 1000 \<and> length h = 3"
  by (simp add: middle_entries_def sst_add_all_def sst_add_def sst_builder_new_def block_add_def block_builder_new_def
      bb_estimated_size_def bb_is_empty_def SIZEOF_U16_def key_simps entry_bytes_def raw_len_def key_len_def Let_def
      compute_overlap_def)

lemma middle_table:
  assumes "and_then (sst_add_all crc fp middle_entries (sst_builder_new 4096)) (\<lambda>sb. sst_build crc sb i c) = Inr t"
  shows "map (\<lambda>m. (bm_first_key m, bm_last_key m)) (sst_block_meta t) = [(Key [1] 1, Key [3] 2)]"
    and "fo_size (sst_file t) < 4294967296"
proof -
  obtain b h where b: "sst_add_all crc fp middle_entries (sst_builder_new 4096) =
      Inr \<lparr>sb_builder = b, sb_first_key = Key [1] 1, sb_last_key = Key [3] 2, sb_data = [], sb_meta = [],
        sb_block_size = 4096, sb_key_hashes = h, sb_max_ts = 3\<rparr>" "bb_first_key b = Key [1] 1"
      "length (bb_offsets b) = 3" "length (bb_data b) < 1000" "length h = 3"
    using middle_builder by blast
  have ne: "bb_offsets b \<noteq> []" using b(3) by auto
  obtain bloom where bloom: "bloom_build_from_key_hashes h (bloom_bits_per_key 3 (1 / 100)) = Inr bloom"
    using assms b ne by (auto simp: sst_build_def sb_finish_block_def Let_def bb_is_empty_def res_simps)
  then have "length (bloom_filter bloom) = 8"
    using bloom_filter_length [OF bloom] by (simp add: bloom_bits_per_key_001 b(5))
  then have "length (bloom_encode crc bloom []) = 13"
    by (simp add: bloom_encode_def Let_def put_u8_def)
  moreover have "length (concat (map put_u16 (bb_offsets b))) = 6"
    using b(3) by (simp add: length_concat comp_def sum_list_triv)
  ultimately show "map (\<lambda>m. (bm_first_key m, bm_last_key m)) (sst_block_meta t) = [(Key [1] 1, Key [3] 2)]"
    and "fo_size (sst_file t) < 4294967296"
    using assms b ne bloom
    by (auto simp: sst_build_def sb_finish_block_def Let_def bb_is_empty_def res_simps file_create_def
        encode_block_meta_def meta_bytes_def key_field_def block_encode_def block_build_def)
qed

definition middle_memtable :: "(bytes \<Rightarrow> u32) \<Rightarrow> ('m, key, bytes) skip_ops \<Rightarrow> 'm memtable" where
  "middle_memtable crc S = fold (\<lambda>es mt. mt_put_batch crc S mt es) [[(Key [1] 1, [1])], [(Key [3] 2, [3])], [(Key [2] 3, [2])]]
     ((mt_create S 0)\<lparr>mt_wal := Some \<lparr>wal_disk = [], wal_buf = []\<rparr>\<rparr>)"

lemma middle_memtable_entries:
  assumes "skip_map S"
  shows "mt_entries S (middle_memtable crc S) = middle_entries"
proof -
  have "mt_entries S ((mt_create S 0)\<lparr>mt_wal := w\<rparr>) = []" for w
    by (simp add: mt_entries_def mt_create_def skip_map.iter_new [OF assms])
  then have "map_of (mt_entries S (middle_memtable crc S)) = map_of middle_entries"
    by (intro ext) (simp add: middle_memtable_def map_mt_put_batch [OF assms] middle_entries_def map_add_def)
  then show ?thesis
    unfolding mt_entries_def using skip_map.iter_eqI [OF assms _ middle_sorted] by blast
qed

lemma middle_memtable_size:
  "mt_approximate_size (middle_memtable crc S) = 30" "mt_id (middle_memtable crc S) = 0"
  by (simp_all add: middle_memtable_def mt_put_batch_size mt_create_def raw_len_def key_len_def)

definition middle_writes :: "flush_op client_op list" where
  "middle_writes = [Write [Put [1] [1]], Write [Put [3] [3]], Write [Put [2] [2]]]"

definition middle_storage :: "(bytes \<Rightarrow> u32) \<Rightarrow> ('m, key, bytes) skip_ops \<Rightarrow> 'm storage" where
  "middle_storage crc S = (fresh_logged S journal_options)
     \<lparr>sg_state := (sg_state (fresh_logged S journal_options))\<lparr>ls_memtable := middle_memtable crc S\<rparr>, sg_mvcc := mvcc_new 3\<rparr>"

lemma run_middle_writes:
  "run_ops (write_batch crc S M) (run_flush crc fp S M) middle_writes (fresh_logged S journal_options) =
   (Inr (), middle_storage crc S)"
  by (simp add: middle_writes_def write_batch_def try_freeze_def fresh_logged_def fresh_storage_def journal_options_def
      default_for_week1_test_def mvcc_new_def latest_commit_ts_def update_commit_ts_def lsm_state_create_def
      mt_put_batch_size mt_create_def raw_len_def key_len_def middle_storage_def middle_memtable_def Let_def)

lemma middle_storage_good:
  assumes "skip_map S" "manifest_works M"
  shows "journaled_good crc fp S M (middle_storage crc S)"
proof -
  have "latest_commit_ts (sg_mvcc (fresh_logged S journal_options)) = 0"
    by (simp add: fresh_logged_def fresh_storage_def mvcc_new_def latest_commit_ts_def)
  then show ?thesis
    using journaled.run_ops_refines [OF journal_options_good [OF assms, of crc fp], of middle_writes]
      run_middle_writes [of crc S M fp]
    by (simp add: middle_writes_def)
qed

lemma middle_storage_map:
  assumes "skip_map S"
  shows "state_map crc S (sg_state (middle_storage crc S)) = map_of middle_entries"
proof -
  have "state_sources crc S (sg_state (middle_storage crc S)) = [map_of middle_entries, Map.empty]"
    by (simp add: state_sources_def middle_storage_def middle_memtable_entries [OF assms] fresh_logged_def
        lsm_state_create_def journal_options_def default_for_week1_test_def initial_levels_def tables_of_def level_entries_def)
  then show ?thesis by (simp add: state_map_def)
qed

lemma middle_flush:
  assumes S: "skip_map S" and M: "manifest_works M"
    and run: "run_flush crc fp S M ForceFlush (middle_storage crc S) = (Inr (), s)"
  shows "\<exists>t. ls_sstables (sg_state s) = [0 \<mapsto> t] \<and> ls_l0_sstables (sg_state s) = [0] \<and> sg_options s = journal_options \<and>
    map (mt_entries S) (memtables (sg_state s)) = [[]] \<and>
    map (\<lambda>m. (bm_first_key m, bm_last_key m)) (sst_block_meta t) = [(Key [1] 1, Key [3] 2)] \<and>
    fo_size (sst_file t) < 4294967296"
proof -
  let ?s = "middle_storage crc S" and ?mt = "middle_memtable crc S"
  have ne: "\<not> mt_is_empty S (ls_memtable (sg_state ?s))"
    using middle_memtable_entries [OF S, of crc]
    by (simp add: middle_storage_def mt_is_empty_def skip_map.is_empty_iter [OF S] mt_entries_def middle_entries_def)
  have f: "ls_memtable (sg_state ?s) = ?mt" "ls_imm_memtables (sg_state ?s) = []" "ls_l0_sstables (sg_state ?s) = []"
      "ls_sstables (sg_state ?s) = Map.empty" "sg_options ?s = journal_options"
      "sg_controller ?s = NoCompactionController" "sg_wal_files ?s = [0 \<mapsto> []]" "sg_next_sst_id ?s = 1"
    by (simp_all add: middle_storage_def fresh_logged_def fresh_storage_def lsm_state_create_def journal_options_def
        default_for_week1_test_def controller_of_def)
  have wal: "opt_enable_wal journal_options" by (simp add: journal_options_def)
  have add: "mf_add M r = Inr ()" for r using M by (simp add: manifest_works_def)
  define s1 where "s1 = snd (force_freeze_memtable S M ?s)"
  note frz = force_freeze_memtable_def next_sst_id_def f wal mt_create_with_wal_def wal_create_def add_record_def add Let_def
  have s1: "force_freeze_memtable S M ?s = (Inr (), s1)" "ls_imm_memtables (sg_state s1) = [?mt]"
      "ls_l0_sstables (sg_state s1) = []" "ls_sstables (sg_state s1) = Map.empty" "sg_options s1 = journal_options"
      "mt_entries S (ls_memtable (sg_state s1)) = []" "flush_to_l0 (sg_controller s1)"
    by ((simp add: s1_def frz)+, simp add: s1_def frz mt_entries_def skip_map.iter_new [OF S],
        simp add: s1_def frz flush_to_l0_def)
  have "force_flush_next_imm_memtable crc fp S M s1 = (Inr (), s)"
    using run ne s1(1,2) by (simp add: force_flush_def)
  note flushed = this
  have "ls_imm_memtables (sg_state s1) \<noteq> []" "?mt = last (ls_imm_memtables (sg_state s1))" by (simp_all add: s1(2))
  from flush_result [OF M s1(7) this flushed]
  obtain t where t: "and_then (mt_flush crc fp S ?mt (sst_builder_new (opt_block_size (sg_options s1))))
        (\<lambda>sb. sst_build crc sb (mt_id ?mt) (Some (sg_block_cache s1))) = Inr t"
      "s = s1\<lparr>sg_sst_files := (sg_sst_files s1)(mt_id ?mt := fo_file (sst_file t)),
        sg_manifest := sg_manifest s1 @ [Flush (mt_id ?mt)],
        sg_state := (sg_state s1)\<lparr>ls_imm_memtables := butlast (ls_imm_memtables (sg_state s1)),
          ls_l0_sstables := mt_id ?mt # ls_l0_sstables (sg_state s1),
          ls_sstables := (ls_sstables (sg_state s1))(mt_id ?mt \<mapsto> t)\<rparr>\<rparr>"
    by blast
  have "no_empty_key (mt_entries S ?mt)"
    by (simp add: middle_memtable_entries [OF S] no_empty_key_def middle_entries_def)
  then have "and_then (sst_add_all crc fp middle_entries (sst_builder_new 4096))
        (\<lambda>sb. sst_build crc sb 0 (Some (sg_block_cache s1))) = Inr t"
    using t(1) by (simp add: mt_flush_add_all [OF S] middle_memtable_entries [OF S] s1(5) middle_memtable_size
        journal_options_def default_for_week1_test_def)
  from middle_table [OF this] show ?thesis
    by (intro exI [of _ t]) (simp add: t(2) memtables_def s1 middle_memtable_size)
qed

lemma middle_clock:
  assumes r: "rebuilt crc fp S lg wals s s'" and full: "complete_logs S lg s" and j: "journal_ok crc S s"
    and t: "ls_sstables (sg_state s) = [0 \<mapsto> t]" "ls_l0_sstables (sg_state s) = [0]"
    "map (mt_entries S) (memtables (sg_state s)) = [[]]"
    "map (\<lambda>m. (bm_first_key m, bm_last_key m)) (sst_block_meta t) = [(Key [1] 1, Key [3] 2)]"
  shows "latest_commit_ts (sg_mvcc s') = 2"
proof -
  obtain m where m: "sst_block_meta t = [m]" "bm_first_key m = Key [1] 1" "bm_last_key m = Key [3] 2"
    using t(4) by auto
  have "map (mt_entries S) (memtables (sg_state s')) = [[]]"
    using rebuilt_memtables [OF r full] by (simp only: t(3))
  then obtain mt where mt: "memtables (sg_state s') = [mt]" "mt_entries S mt = []" by auto
  obtain t' where t': "ls_sstables (sg_state s') 0 = Some t'" "reopened_table crc fp 0 t t'"
    using r t(1) unfolding rebuilt_def by (metis fun_upd_same)
  have "sst_max_ts t' = max_list [1, 2]" using t'(2) m by (simp add: reopened_table_def)
  moreover have "ls_l0_sstables (sg_state s') = [0]" "concat (map snd (ls_levels (sg_state s'))) = []"
    using r journal_shape(1) [OF j] by (simp_all add: rebuilt_def t(2))
  ultimately have "state_timestamps S (sg_state s') = [max_list [1, 2]]"
    by (simp add: state_timestamps_def mt t'(1))
  then show ?thesis using r by (simp add: rebuilt_def mvcc_new_def latest_commit_ts_def max_list_def)
qed

section \<open>Properties\<close>

text \<open>
  C8: A committed write can disappear at a restart. On a new directory with the log enabled, put
  key 1, key 3, then key 2, and flush: key 2 is read. After an exit in order and a new start it is
  not: \<open>SsTable::open\<close> takes the largest timestamp of a table from the first and last keys of its
  blocks, so the clock restarts at 2 and the version of key 2, at timestamp 3, lies in its future.
\<close>

theorem recovery_hides_newest:
  assumes "skip_map S" "manifest_works M"
  shows "\<exists>s0 s s'. storage_open crc S M journal_options empty_dir = Inr s0 \<and>
    run_ops (write_batch crc S M) (run_flush crc fp S M) middle_writes s0 = (Inr (), s) \<and>
    storage_get crc fp S s [2] = Inr (Some [2]) \<and>
    (\<exists>s1. run_flush crc fp S M ForceFlush s = (Inr (), s1) \<and>
      storage_get crc fp S s1 [2] = Inr (Some [2]) \<and>
      storage_open crc S M journal_options (shutdown_dir s1) = Inr s') \<and>
    storage_get crc fp S s' [2] = Inr None"
proof -
  let ?s = "middle_storage crc S"
  have opn: "storage_open crc S M journal_options empty_dir = Inr (fresh_logged S journal_options)"
    by (rule open_empty_with_wal [OF assms(2)]) (simp add: journal_options_def)
  have good: "journaled_good crc fp S M ?s" by (rule middle_storage_good [OF assms])
  obtain s1 where s1: "run_flush crc fp S M ForceFlush ?s = (Inr (), s1)" "journaled_good crc fp S M s1"
      "latest_commit_ts (sg_mvcc s1) = latest_commit_ts (sg_mvcc ?s)" "state_map crc S (sg_state s1) = map_of middle_entries"
    using journaled.maintain_versions [OF good, of ForceFlush] unfolding middle_storage_map [OF assms(1)] by blast
  have ok: "storage_ok crc fp S s1" and j: "journal_ok crc S s1"
    using s1(2) by (simp_all add: journaled_good_def storage_good_def)
  obtain t where t: "ls_sstables (sg_state s1) = [0 \<mapsto> t]" "ls_l0_sstables (sg_state s1) = [0]"
      "sg_options s1 = journal_options" "map (mt_entries S) (memtables (sg_state s1)) = [[]]"
      "map (\<lambda>m. (bm_first_key m, bm_last_key m)) (sst_block_meta t) = [(Key [1] 1, Key [3] 2)]"
      "fo_size (sst_file t) < 4294967296"
    using middle_flush [OF assms s1(1)] by (elim exE conjE) (rule that)
  have sizes: "\<forall>i t. ls_sstables (sg_state s1) i = Some t \<longrightarrow> fo_size (sst_file t) < 4294967296"
    using t(1,6) by simp
  have full: "\<exists>gs. set gs \<subseteq> set (fs @ bs) \<and> wal_disk (buf_flush w) = log_bytes crc gs \<and> (True \<longrightarrow> gs = fs @ bs)"
    if "wal_holds crc w fs bs" for w fs bs
    using that by (simp add: wal_holds_def buf_flush_def)
  obtain lg s' where s': "storage_open crc S M journal_options (shutdown_dir s1) = Inr s'"
      "rebuilt crc fp S lg (dir_wal_files (shutdown_dir s1)) s1 s'" "complete_logs S lg s1"
    using reopened [where contents = "\<lambda>w. wal_disk (buf_flush w)" and full = True, OF assms ok j sizes full]
    unfolding shutdown_dir_def t(3) by blast
  have clock: "latest_commit_ts (sg_mvcc ?s) = 3"
    by (simp add: middle_storage_def mvcc_new_def latest_commit_ts_def)
  have "read_at 3 (map_of middle_entries) [2] = Some [2]"
    by (subst read_at_newest [of _ _ _ "[2]"]) (simp_all add: middle_entries_def finite_dom_map_of)
  then have reads: "storage_get crc fp S ?s [2] = Inr (Some [2])" "storage_get crc fp S s1 [2] = Inr (Some [2])"
    using journaled.get_versions [OF good] journaled.get_versions [OF s1(2)]
    by (simp_all add: storage_get_def clock s1(3,4) middle_storage_map [OF assms(1)])
  have clock': "latest_commit_ts (sg_mvcc s') = 2" by (rule middle_clock [OF s'(2,3) j t(1,2,4,5)])
  have "read_at 2 (map_of middle_entries) [2] = None"
    using read_at_iff [of "map_of middle_entries" 2 "[2]"]
    by (cases "read_at 2 (map_of middle_entries) [2]") (auto simp: middle_entries_def finite_dom_map_of split: if_splits)
  then have "storage_get crc fp S s' [2] = Inr None"
    using get_with_ts_read_at [OF assms(1) rebuilt_state_ok [OF s'(2) ok j s'(3)]]
    by (simp add: storage_get_def clock' rebuilt_map [OF s'(2) j s'(3)] s1(4))
  with opn run_middle_writes [of crc S M fp] reads s1(1) s'(1) show ?thesis by blast
qed

theorem recovery_hides_newest_witness:
  "\<exists>s0 s s'. storage_open (\<lambda>_. 0) rbt_ops manifest_log journal_options empty_dir = Inr s0 \<and>
    run_ops (write_batch (\<lambda>_. 0) rbt_ops manifest_log) (run_flush (\<lambda>_. 0) (\<lambda>_. 1) rbt_ops manifest_log)
      middle_writes s0 = (Inr (), s) \<and>
    storage_get (\<lambda>_. 0) (\<lambda>_. 1) rbt_ops s [2] = Inr (Some [2]) \<and>
    (\<exists>s1. run_flush (\<lambda>_. 0) (\<lambda>_. 1) rbt_ops manifest_log ForceFlush s = (Inr (), s1) \<and>
      storage_get (\<lambda>_. 0) (\<lambda>_. 1) rbt_ops s1 [2] = Inr (Some [2]) \<and>
      storage_open (\<lambda>_. 0) rbt_ops manifest_log journal_options (shutdown_dir s1) = Inr s') \<and>
    storage_get (\<lambda>_. 0) (\<lambda>_. 1) rbt_ops s' [2] = Inr None"
  by (rule recovery_hides_newest [OF rbt.skip_map_axioms manifest_log_works])

end
