(* ===== verification/Failures.thy ===== *)
theory Failures
  imports Recovery
begin

text \<open>
  Operations that fail halfway, because the manifest does not take a record: what they leave behind
  in the storage, and what the next operation makes of it. The manifest of the repository fails
  always.
\<close>

section \<open>A freeze that fails\<close>

text \<open>Freezing has used up a number and created a log when the manifest refuses the record.\<close>

definition frozen_half :: "'m storage \<Rightarrow> 'm storage" where
  "frozen_half s = s\<lparr>sg_next_sst_id := sg_next_sst_id s + 1,
     sg_wal_files := (if opt_enable_wal (sg_options s) then (sg_wal_files s)(sg_next_sst_id s \<mapsto> [])
                      else sg_wal_files s)\<rparr>"

lemma frozen_half_simps [simp]:
  "sg_state (frozen_half s) = sg_state s" "sg_mvcc (frozen_half s) = sg_mvcc s"
  by (simp_all add: frozen_half_def)

lemma frozen_half_ok:
  assumes "storage_ok crc fp S s"
  shows "storage_ok crc fp S (frozen_half s)"
proof -
  have "ids_ok (frozen_half s)"
    using assms by (auto simp: storage_ok_def ids_ok_def frozen_half_def Let_def)
  then show ?thesis
    using assms by (simp add: storage_ok_def timestamps_ok_def options_ok_def files_ok_def)
      (simp add: frozen_half_def)
qed

lemma failed_freeze:
  assumes "force_freeze_memtable S M s = (Inl e, s')" "sg_wal_files s (sg_next_sst_id s) = None"
  shows "s' = frozen_half s"
  using assms
  by (cases s) (auto simp: force_freeze_memtable_def next_sst_id_def mt_create_with_wal_def wal_create_def
      add_record_def frozen_half_def Let_def split: if_splits sum.splits)

section \<open>A write that fails\<close>

lemma write_put_append: "write_put crc S ts later (write_put crc S ts batch s) = write_put crc S ts (batch @ later) s"
  by (simp add: write_put_def mt_put_batch_def)

lemma write_put_half: "frozen_half (write_put crc S ts batch s) = write_put crc S ts batch (frozen_half s)"
  by (cases s) (simp add: frozen_half_def write_put_def)

lemma failed_write:
  assumes "storage_ok crc fp S s" "latest_commit_ts (sg_mvcc s) \<noteq> - 1" "write_batch crc S M batch s = (Inl e, s1)"
  shows "s1 = write_put crc S (latest_commit_ts (sg_mvcc s) + 1) batch (frozen_half s)"
proof -
  let ?s = "write_put crc S (latest_commit_ts (sg_mvcc s) + 1) batch s"
  obtain r s' where r: "try_freeze S M ?s = (r, s')" by fastforce
  then have "try_freeze S M ?s = (Inl e, s1)"
    using assms(3) by (cases r) (simp_all add: write_batch_split [OF assms(2) refl])
  then have "force_freeze_memtable S M ?s = (Inl e, s1)" by (simp add: try_freeze_def split: if_splits)
  moreover have "sg_wal_files ?s (sg_next_sst_id ?s) = None"
    using assms(1) by (auto simp: storage_ok_def ids_ok_def write_put_def Let_def)
  ultimately have "s1 = frozen_half ?s" by (rule failed_freeze)
  then show ?thesis by (simp add: write_put_half)
qed

section \<open>Properties\<close>

text \<open>With the manifest of the repository no directory opens.\<close>

lemma repo_never_opens: "storage_open crc S manifest_repo options dir = Inl Unimplemented"
  by (simp add: storage_open_def manifest_repo_def Let_def split: option.split)

text \<open>
  C10: A write that fails comes back. When a batch cannot be committed because freezing the memtable
  fails, the client gets an error and reads what it read before; but the batch stays in the memtable
  at the timestamp of the next commit, and the next batch that succeeds makes it visible, as if
  both had been one.
\<close>

theorem failed_write_comes_back:
  assumes "skip_map S" "storage_ok crc fp S s" "latest_commit_ts (sg_mvcc s) \<noteq> - 1"
    and "\<forall>r \<in> set (batch @ later). record_fits r"
    and "write_batch crc S M batch s = (Inl e, s1)" "manifest_works M'"
  shows "(\<forall>u. storage_get crc fp S s1 u = storage_get crc fp S s u) \<and>
    (\<exists>s2. write_batch crc S M' later s1 = (Inr (), s2) \<and>
      (\<forall>u. storage_get crc fp S s2 u =
        Inr (fold apply_record (batch @ later) (\<lambda>u. projr (storage_get crc fp S s u)) u)))"
proof
  let ?n = "latest_commit_ts (sg_mvcc s)" and ?h = "frozen_half s"
  have s1: "s1 = write_put crc S (?n + 1) batch ?h" by (rule failed_write [OF assms(2,3,5)])
  have half: "storage_ok crc fp S ?h" by (rule frozen_half_ok [OF assms(2)])
  then have good: "storage_good crc fp S M' ?h" using assms(1,6) by (simp add: storage_good_def)
  have left: "latest_commit_ts (sg_mvcc ?h) \<noteq> - 1" using assms(3) by simp
  have before: "storage_get crc fp S s u = Inr (read_at ?n (state_map crc S (sg_state s)) u)" for u
    using assms(1,2) by (simp add: storage_get_def get_with_ts_read_at storage_ok_def)
  have fits: "\<forall>r \<in> set batch. record_fits r" using assms(4) by simp
  have put: "state_ok crc fp S (sg_state s1)"
      "state_map crc S (sg_state s1) = state_map crc S (sg_state s) ++ batch_map (?n + 1) batch"
    using write_put_ok [OF assms(1) half fits left, of "?n + 1"]
    by (simp_all add: s1 storage_ok_def batch_map_def)
  have clock: "sg_mvcc s1 = sg_mvcc s" by (simp add: s1 write_put_def)
  show "\<forall>u. storage_get crc fp S s1 u = storage_get crc fp S s u"
    using flushing.read_snapshot [OF good left, of ?n batch]
    unfolding before by (simp add: storage_get_def get_with_ts_read_at [OF assms(1) put(1)] put(2) clock)
  have same: "write_batch crc S M' later s1 = write_batch crc S M' (batch @ later) ?h"
  proof -
    have "latest_commit_ts (sg_mvcc s1) \<noteq> - 1" "?n + 1 = latest_commit_ts (sg_mvcc s1) + 1"
      using assms(3) by (simp_all add: clock)
    note write_batch_split [OF this, of crc S M' later]
    moreover note write_batch_split [OF left, of "?n + 1" crc S M' "batch @ later"]
    ultimately show ?thesis by (simp add: s1 write_put_append)
  qed
  obtain s2 where s2: "write_batch crc S M' (batch @ later) ?h = (Inr (), s2)" "storage_ok crc fp S s2"
      "state_map crc S (sg_state s2) = state_map crc S (sg_state s) ++ batch_map (?n + 1) (batch @ later)"
      "latest_commit_ts (sg_mvcc s2) = ?n + 1"
    using write_batch_ok [OF assms(1,6) half assms(4) left] unfolding batch_map_def by auto
  have "storage_get crc fp S s2 u =
      Inr (fold apply_record (batch @ later) (read_at ?n (state_map crc S (sg_state s))) u)" for u
    using flushing.read_own_write [OF good left, of "batch @ later"] assms(1) s2(2)
    by (simp add: storage_get_def get_with_ts_read_at storage_ok_def s2(3,4))
  moreover have "(\<lambda>u. projr (storage_get crc fp S s u)) = read_at ?n (state_map crc S (sg_state s))"
    by (rule ext) (simp add: before)
  ultimately show "\<exists>s2. write_batch crc S M' later s1 = (Inr (), s2) \<and>
      (\<forall>u. storage_get crc fp S s2 u =
        Inr (fold apply_record (batch @ later) (\<lambda>u. projr (storage_get crc fp S s u)) u))"
    using s2(1) same by (intro exI [of _ s2]) simp
qed

text \<open>A storage whose memtable is full after any write.\<close>

definition full_storage :: "(key, bytes) rbt storage" where
  "full_storage = sample_storage\<lparr>sg_options := (sg_options sample_storage)\<lparr>opt_target_sst_size := 1\<rparr>\<rparr>"

lemma full_storage_ok: "storage_ok crc fp rbt_ops full_storage" if "crc = (\<lambda>_. 0)" "fp = (\<lambda>_. 1)"
  using sample_storage_ok unfolding that full_storage_def
  by (simp add: storage_ok_def timestamps_ok_def ids_ok_def options_ok_def files_ok_def Let_def)

theorem failed_write_comes_back_witness:
  "\<exists>s1 s2. write_batch (\<lambda>_. 0) rbt_ops manifest_repo [Put [1] [2]] full_storage = (Inl Unimplemented, s1) \<and>
    storage_get (\<lambda>_. 0) (\<lambda>_. 1) rbt_ops s1 [1] = storage_get (\<lambda>_. 0) (\<lambda>_. 1) rbt_ops full_storage [1] \<and>
    write_batch (\<lambda>_. 0) rbt_ops manifest_log [Put [5] [3]] s1 = (Inr (), s2) \<and>
    storage_get (\<lambda>_. 0) (\<lambda>_. 1) rbt_ops s2 [1] = Inr (Some [2])"
proof -
  let ?b = "[Put [1] [2]]"
  have clock: "latest_commit_ts (sg_mvcc full_storage) \<noteq> - 1"
    by (simp add: full_storage_def sample_storage_def mvcc_new_def latest_commit_ts_def)
  have size: "0 < mt_approximate_size (mt_put_batch (\<lambda>_. 0) rbt_ops mt (map (write_record ts) ?b))" for mt ts
    by (simp add: mt_put_batch_size)
  obtain s1 where s1: "write_batch (\<lambda>_. 0) rbt_ops manifest_repo ?b full_storage = (Inl Unimplemented, s1)"
    using size clock
    by (auto simp: write_batch_def try_freeze_def force_freeze_memtable_def next_sst_id_def add_record_def Let_def
        full_storage_def sample_storage_def default_for_week1_test_def manifest_repo_def Suc_le_eq)
  have fits: "\<forall>r \<in> set (?b @ [Put [5] [3]]). record_fits r" by simp
  have "(\<forall>u. storage_get (\<lambda>_. 0) (\<lambda>_. 1) rbt_ops s1 u = storage_get (\<lambda>_. 0) (\<lambda>_. 1) rbt_ops full_storage u) \<and>
    (\<exists>s2. write_batch (\<lambda>_. 0) rbt_ops manifest_log [Put [5] [3]] s1 = (Inr (), s2) \<and>
      (\<forall>u. storage_get (\<lambda>_. 0) (\<lambda>_. 1) rbt_ops s2 u =
        Inr (fold apply_record (?b @ [Put [5] [3]]) (\<lambda>u. projr (storage_get (\<lambda>_. 0) (\<lambda>_. 1) rbt_ops full_storage u)) u)))"
    by (rule failed_write_comes_back [OF rbt.skip_map_axioms full_storage_ok [OF refl refl] clock fits s1 manifest_log_works])
  then obtain s2 where "write_batch (\<lambda>_. 0) rbt_ops manifest_log [Put [5] [3]] s1 = (Inr (), s2)"
    "storage_get (\<lambda>_. 0) (\<lambda>_. 1) rbt_ops s2 [1] = Inr (Some [2])"
    "storage_get (\<lambda>_. 0) (\<lambda>_. 1) rbt_ops s1 [1] = storage_get (\<lambda>_. 0) (\<lambda>_. 1) rbt_ops full_storage [1]"
    by auto
  then show ?thesis using s1 by blast
qed

end
