(* ===== verification/Concurrent.thy ===== *)
theory Concurrent
  imports Engine
begin

text \<open>
  Interleavings of the threads of the engine at the granularity of their locks: a writer that puts
  a batch into the memtable, freezes the memtable when it is full and moves the clock at the end, the flush thread that builds a table
  without a lock and installs it later, and the compaction thread that copies the state, works on
  the copy and writes it back. Reads may happen between any two steps.
\<close>

section \<open>Worlds and their steps\<close>

datatype writer =
    WriterIdle
  | Writing u64 "write_batch_record list"
  | Frozen u64 "write_batch_record list"
datatype flusher = FlusherIdle | FlusherBuilt sstable

record 'm world =
  wd_storage :: "'m storage"
  wd_writer :: writer
  wd_flusher :: flusher

definition idle_world :: "'m storage \<Rightarrow> 'm world" where
  "idle_world s = \<lparr>wd_storage = s, wd_writer = WriterIdle, wd_flusher = FlusherIdle\<rparr>"

datatype event = BeginWrite "write_batch_record list" | FreezeWrite | EndWrite | BuildTable | InstallTable

text \<open>
  One step of a thread: the three parts of \<open>write_batch\<close>, which put the batch into the memtable, call
  \<open>try_freeze\<close> and call \<open>update_commit_ts\<close> (from the first to the last the lock \<open>write_lock\<close> keeps other
  writers out), and the first and the second half of \<open>force_flush_next_imm_memtable\<close> in a tick of
  the flush thread. \<open>None\<close> is a step that cannot happen
  now. Freezing and installing exclude each other by \<open>state_lock\<close>.
\<close>

fun world_step ::
    "(bytes \<Rightarrow> u32) \<Rightarrow> (bytes \<Rightarrow> u32) \<Rightarrow> ('m, key, bytes) skip_ops \<Rightarrow> manifest_ops \<Rightarrow> event \<Rightarrow> 'm world \<Rightarrow>
     (unit res \<times> 'm world) option" where
  "world_step crc fp S M (BeginWrite batch) w =
     (case wd_writer w of
        WriterIdle \<Rightarrow>
          let s = wd_storage w; now = latest_commit_ts (sg_mvcc s) in
          if now = - 1 then Some (Inl Panic, w)
          else Some (Inr (), w\<lparr>wd_storage := write_put crc S (now + 1) batch s,
                               wd_writer := Writing (now + 1) batch\<rparr>)
      | _ \<Rightarrow> None)"
| "world_step crc fp S M FreezeWrite w =
     (case wd_writer w of
        Writing ts batch \<Rightarrow>
          Some (case try_freeze S M (wd_storage w) of
                  (Inl e, s) \<Rightarrow> (Inl e, w\<lparr>wd_storage := s, wd_writer := WriterIdle\<rparr>)
                | (Inr _, s) \<Rightarrow> (Inr (), w\<lparr>wd_storage := s, wd_writer := Frozen ts batch\<rparr>))
      | _ \<Rightarrow> None)"
| "world_step crc fp S M EndWrite w =
     (case wd_writer w of
        Frozen ts batch \<Rightarrow> Some (Inr (), w\<lparr>wd_storage := at_clock ts (wd_storage w), wd_writer := WriterIdle\<rparr>)
      | _ \<Rightarrow> None)"
| "world_step crc fp S M BuildTable w =
     (case wd_flusher w of
        FlusherBuilt _ \<Rightarrow> None
      | FlusherIdle \<Rightarrow>
          let s = wd_storage w in
          if opt_num_memtable_limit (sg_options s) < 1 + length (ls_imm_memtables (sg_state s)) then
            Some (case flush_build crc fp S s of
                    (Inl e, s) \<Rightarrow> (Inl e, w\<lparr>wd_storage := s\<rparr>)
                  | (Inr None, s) \<Rightarrow> (Inr (), w\<lparr>wd_storage := s\<rparr>)
                  | (Inr (Some t), s) \<Rightarrow> (Inr (), w\<lparr>wd_storage := s, wd_flusher := FlusherBuilt t\<rparr>))
          else Some (Inr (), w))"
| "world_step crc fp S M InstallTable w =
     (case wd_flusher w of
        FlusherIdle \<Rightarrow> None
      | FlusherBuilt t \<Rightarrow>
          Some (case flush_install M t (wd_storage w) of
                  (r, s) \<Rightarrow> (r, w\<lparr>wd_storage := s, wd_flusher := FlusherIdle\<rparr>)))"

text \<open>The worlds that a schedule of successful steps leads to.\<close>

inductive reaches ::
    "(bytes \<Rightarrow> u32) \<Rightarrow> (bytes \<Rightarrow> u32) \<Rightarrow> ('m, key, bytes) skip_ops \<Rightarrow> manifest_ops \<Rightarrow> 'm world \<Rightarrow>
     event list \<Rightarrow> 'm world \<Rightarrow> bool"
  for crc fp S M w0 where
  start: "reaches crc fp S M w0 [] w0"
| step: "reaches crc fp S M w0 es w \<Longrightarrow> world_step crc fp S M e w = Some (Inr (), w') \<Longrightarrow>
    reaches crc fp S M w0 (es @ [e]) w'"

inductive_cases reaches_snocE: "reaches crc fp S M w0 (es @ [e]) w'"

text \<open>The batches a schedule has committed, and the one under way.\<close>

fun track :: "event \<Rightarrow> write_batch_record list list \<times> write_batch_record list option \<Rightarrow>
    write_batch_record list list \<times> write_batch_record list option" where
  "track (BeginWrite batch) (batches, _) = (batches, Some batch)"
| "track EndWrite (batches, Some batch) = (batches @ [batch], None)"
| "track e bp = bp"

definition tracked :: "event list \<Rightarrow> write_batch_record list list \<times> write_batch_record list option" where
  "tracked es = fold track es ([], None)"

definition committed :: "event list \<Rightarrow> write_batch_record list list" where
  "committed es = fst (tracked es)"

fun event_fits :: "event \<Rightarrow> bool" where
  "event_fits (BeginWrite batch) \<longleftrightarrow> (\<forall>r \<in> set batch. record_fits r)"
| "event_fits _ \<longleftrightarrow> True"

text \<open>The three parts make the whole: without interleaving a write is \<open>write_batch\<close>.\<close>

lemma write_parts:
  assumes "wd_writer w = WriterIdle" "write_batch crc S M batch (wd_storage w) = (Inr (), s')"
  shows "\<exists>v v'. world_step crc fp S M (BeginWrite batch) w = Some (Inr (), v) \<and>
    world_step crc fp S M FreezeWrite v = Some (Inr (), v') \<and>
    world_step crc fp S M EndWrite v' = Some (Inr (), w\<lparr>wd_storage := s'\<rparr>)"
proof -
  have left: "latest_commit_ts (sg_mvcc (wd_storage w)) \<noteq> - 1" using assms(2) by (auto simp: write_batch_def)
  let ?ts = "latest_commit_ts (sg_mvcc (wd_storage w)) + 1"
  obtain r s1 where freeze: "try_freeze S M (write_put crc S ?ts batch (wd_storage w)) = (r, s1)" by fastforce
  have "st_then (try_freeze S M (write_put crc S ?ts batch (wd_storage w))) (\<lambda>_ s. (Inr (), at_clock ?ts s)) =
      (Inr (), s')"
    using assms(2) write_batch_split [OF left refl, of crc S M batch] by simp
  then have "r = Inr ()" "s' = at_clock ?ts s1" unfolding freeze by (cases r; simp)+
  then show ?thesis using assms(1) left freeze by (cases w) (simp add: Let_def)
qed

section \<open>The flush thread does not look at the clock\<close>

lemma flush_build_mvcc:
  "flush_build crc fp S (s\<lparr>sg_mvcc := m\<rparr>) = (case flush_build crc fp S s of (r, s') \<Rightarrow> (r, s'\<lparr>sg_mvcc := m\<rparr>))"
  by (simp add: flush_build_def Let_def split: sum.split)

lemma flush_install_mvcc:
  "flush_install M t (s\<lparr>sg_mvcc := m\<rparr>) = (case flush_install M t s of (r, s') \<Rightarrow> (r, s'\<lparr>sg_mvcc := m\<rparr>))"
  by (simp add: flush_install_def add_record_def Let_def split: sum.split cong: if_cong)

lemma flush_install_same_mvcc: "sg_mvcc (snd (flush_install M t s)) = sg_mvcc s"
  by (simp add: flush_install_def add_record_def Let_def split: sum.split)

text \<open>A table that was built stays fit to be installed while others write and freeze.\<close>

definition built_ok ::
    "(bytes \<Rightarrow> u32) \<Rightarrow> (bytes \<Rightarrow> u32) \<Rightarrow> ('m, key, bytes) skip_ops \<Rightarrow> sstable \<Rightarrow> 'm storage \<Rightarrow> bool" where
  "built_ok crc fp S t s \<longleftrightarrow>
     ls_imm_memtables (sg_state s) \<noteq> [] \<and> table_ok crc fp t \<and>
     mt_id (last (ls_imm_memtables (sg_state s))) = sst_id t \<and>
     mt_entries S (last (ls_imm_memtables (sg_state s))) = sst_entries crc t \<and>
     sg_sst_files s (sst_id t) = fo_file (sst_file t)"

lemma built_ok_mvcc [simp]: "built_ok crc fp S t (s\<lparr>sg_mvcc := m\<rparr>) = built_ok crc fp S t s"
  by (simp add: built_ok_def)

lemma built_ok_put: "built_ok crc fp S t s \<Longrightarrow> built_ok crc fp S t (write_put crc S ts batch s)"
  by (simp add: built_ok_def write_put_def)

lemma built_ok_freeze:
  "built_ok crc fp S t s \<Longrightarrow> sg_sst_files s' = sg_sst_files s \<Longrightarrow>
   ls_imm_memtables (sg_state s') = ls_imm_memtables (sg_state s) \<or>
   ls_imm_memtables (sg_state s') = ls_memtable (sg_state s) # ls_imm_memtables (sg_state s) \<Longrightarrow>
   built_ok crc fp S t s'"
  by (auto simp: built_ok_def)

lemma build_step:
  assumes S: "skip_map S" and ok: "storage_ok crc fp S (s\<lparr>sg_mvcc := m\<rparr>)"
    and ne: "ls_imm_memtables (sg_state s) \<noteq> []"
  obtains t s' where "flush_build crc fp S s = (Inr (Some t), s')" "storage_ok crc fp S (s'\<lparr>sg_mvcc := m\<rparr>)"
    "built_ok crc fp S t s'" "sg_state s' = sg_state s" "sg_mvcc s' = sg_mvcc s"
proof -
  let ?mt = "last (ls_imm_memtables (sg_state s))"
  obtain t where t: "flush_build crc fp S (s\<lparr>sg_mvcc := m\<rparr>) = (Inr (Some t), (s\<lparr>sg_mvcc := m\<rparr>)\<lparr>sg_sst_files :=
        (sg_sst_files (s\<lparr>sg_mvcc := m\<rparr>))(mt_id (last (ls_imm_memtables (sg_state (s\<lparr>sg_mvcc := m\<rparr>)))) :=
          fo_file (sst_file t))\<rparr>)"
    "table_ok crc fp t" "sst_id t = mt_id (last (ls_imm_memtables (sg_state (s\<lparr>sg_mvcc := m\<rparr>))))"
    "sst_entries crc t = mt_entries S (last (ls_imm_memtables (sg_state (s\<lparr>sg_mvcc := m\<rparr>))))"
    using flush_build_ok [OF S ok] ne by auto
  define s' where "s' = s\<lparr>sg_sst_files := (sg_sst_files s)(mt_id ?mt := fo_file (sst_file t))\<rparr>"
  have "flush_build crc fp S s = flush_build crc fp S ((s\<lparr>sg_mvcc := m\<rparr>)\<lparr>sg_mvcc := sg_mvcc s\<rparr>)" by simp
  also have "\<dots> = (Inr (Some t), s')" by (subst flush_build_mvcc) (simp add: t(1) s'_def)
  finally have run: "flush_build crc fp S s = (Inr (Some t), s')" .
  have "?mt \<in> set (ls_imm_memtables (sg_state s))" using ne by simp
  then have "ls_sstables (sg_state (s\<lparr>sg_mvcc := m\<rparr>)) (mt_id ?mt) = None"
    using ok by (auto simp: storage_ok_def ids_ok_def Let_def)
  then have "storage_ok crc fp S (s'\<lparr>sg_mvcc := m\<rparr>)"
    using storage_ok_new_file [OF ok, of "mt_id ?mt" "fo_file (sst_file t)"] by (cases s) (simp add: s'_def)
  then show thesis
    using run ne t(2-4) by (intro that [of t s']) (simp_all add: s'_def built_ok_def)
qed

lemma install_step:
  assumes M: "manifest_works M" and ok: "storage_ok crc fp S (s\<lparr>sg_mvcc := m\<rparr>)" and t: "built_ok crc fp S t s"
  obtains s' where "flush_install M t s = (Inr (), s')" "storage_ok crc fp S (s'\<lparr>sg_mvcc := m\<rparr>)"
    "state_map crc S (sg_state s') = state_map crc S (sg_state s)" "sg_mvcc s' = sg_mvcc s"
proof -
  obtain s1 where s1: "flush_install M t (s\<lparr>sg_mvcc := m\<rparr>) = (Inr (), s1)" "storage_ok crc fp S s1"
    "state_map crc S (sg_state s1) = state_map crc S (sg_state (s\<lparr>sg_mvcc := m\<rparr>))"
    using flush_install_ok [OF M ok, of t] t by (auto simp: built_ok_def)
  obtain r s' where run: "flush_install M t s = (r, s')" by fastforce
  have same: "sg_mvcc s' = sg_mvcc s" using flush_install_same_mvcc [of M t s] run by simp
  have "r = Inr ()" "s1 = s'\<lparr>sg_mvcc := m\<rparr>" using s1(1) by (simp_all add: flush_install_mvcc run)
  then show thesis using run same s1 by (intro that [of s']) simp_all
qed

section \<open>The invariant of a world\<close>

text \<open>
  While a batch is half written the storage is well formed for the clock of that batch; at the clock
  that readers use the contents are those of the committed batches.
\<close>

fun pending :: "writer \<Rightarrow> (u64 \<times> write_batch_record list) option" where
  "pending WriterIdle = None"
| "pending (Writing ts batch) = Some (ts, batch)"
| "pending (Frozen ts batch) = Some (ts, batch)"

definition coming_mvcc :: "'m world \<Rightarrow> mvcc" where
  "coming_mvcc w =
     (case pending (wd_writer w) of
        None \<Rightarrow> sg_mvcc (wd_storage w)
      | Some (ts, _) \<Rightarrow> update_commit_ts ts (sg_mvcc (wd_storage w)))"

definition world_ok ::
    "(bytes \<Rightarrow> u32) \<Rightarrow> (bytes \<Rightarrow> u32) \<Rightarrow> ('m, key, bytes) skip_ops \<Rightarrow> (bytes \<rightharpoonup> bytes) \<Rightarrow>
     write_batch_record list list \<times> write_batch_record list option \<Rightarrow> 'm world \<Rightarrow> bool" where
  "world_ok crc fp S m bp w \<longleftrightarrow>
     (let s = wd_storage w; versions = state_map crc S (sg_state s) in
      storage_ok crc fp S (s\<lparr>sg_mvcc := coming_mvcc w\<rparr>) \<and>
      (case wd_flusher w of FlusherIdle \<Rightarrow> True | FlusherBuilt t \<Rightarrow> built_ok crc fp S t s) \<and>
      read_at (latest_commit_ts (sg_mvcc s)) versions = fold apply_record (concat (fst bp)) m \<and>
      (case pending (wd_writer w) of
         None \<Rightarrow> snd bp = None
       | Some (ts, batch) \<Rightarrow> snd bp = Some batch \<and>
           read_at ts versions = fold apply_record batch (fold apply_record (concat (fst bp)) m)))"

lemma idle_world_ok:
  assumes "skip_map S" "storage_ok crc fp S s"
  shows "world_ok crc fp S (\<lambda>u. projr (storage_get crc fp S s u)) ([], None) (idle_world s)"
proof -
  have "(\<lambda>u. projr (storage_get crc fp S s u)) = read_at (latest_commit_ts (sg_mvcc s)) (state_map crc S (sg_state s))"
    by (rule ext) (use assms in \<open>simp add: storage_get_def get_with_ts_read_at storage_ok_def\<close>)
  then show ?thesis using assms(2) by (simp add: world_ok_def idle_world_def coming_mvcc_def)
qed

lemma world_get:
  assumes "skip_map S" "world_ok crc fp S m bp w"
  shows "storage_get crc fp S (wd_storage w) u = Inr (fold apply_record (concat (fst bp)) m u)"
proof -
  have "state_ok crc fp S (sg_state (wd_storage w))"
    using assms(2) by (simp add: world_ok_def Let_def storage_ok_def)
  then show ?thesis
    using assms by (simp add: storage_get_def get_with_ts_read_at world_ok_def Let_def)
qed

text \<open>Each kind of step keeps the invariant and succeeds; a write needs a timestamp.\<close>

lemma begin_write_ok:
  assumes S: "skip_map S" and M: "manifest_works M" and ok: "world_ok crc fp S m bp w"
    and fits: "\<forall>r \<in> set batch. record_fits r" and idle: "wd_writer w = WriterIdle"
    and left: "latest_commit_ts (sg_mvcc (wd_storage w)) \<noteq> - 1"
  shows "\<exists>w'. world_step crc fp S M (BeginWrite batch) w = Some (Inr (), w') \<and>
    world_ok crc fp S m (track (BeginWrite batch) bp) w'"
proof -
  let ?s = "wd_storage w" and ?ts = "latest_commit_ts (sg_mvcc (wd_storage w)) + 1"
  let ?s' = "write_put crc S ?ts batch ?s"
  have s: "storage_ok crc fp S ?s" using ok idle by (simp add: world_ok_def Let_def coming_mvcc_def)
  have good: "storage_good crc fp S M ?s" using S M s by (simp add: storage_good_def)
  note put = write_put_ok [OF S s fits left refl]
  have versions: "state_map crc S (sg_state ?s') = state_map crc S (sg_state ?s) ++ batch_map ?ts batch"
    using put by (simp add: batch_map_def)
  have mvcc: "sg_mvcc ?s' = sg_mvcc ?s" by (simp add: write_put_def)
  have built: "case wd_flusher w of FlusherIdle \<Rightarrow> True | FlusherBuilt t \<Rightarrow> built_ok crc fp S t ?s'"
    using ok built_ok_put [of crc fp S _ ?s ?ts batch] by (simp add: world_ok_def Let_def split: flusher.splits)
  have "read_at (latest_commit_ts (sg_mvcc ?s)) (state_map crc S (sg_state ?s')) =
      read_at (latest_commit_ts (sg_mvcc ?s)) (state_map crc S (sg_state ?s))"
    unfolding versions by (rule flushing.read_snapshot [OF good left order_refl])
  moreover have "read_at ?ts (state_map crc S (sg_state ?s')) =
      fold apply_record batch (read_at (latest_commit_ts (sg_mvcc ?s)) (state_map crc S (sg_state ?s)))"
    unfolding versions by (rule flushing.read_own_write [OF good left])
  ultimately have "world_ok crc fp S m (track (BeginWrite batch) bp) (w\<lparr>wd_storage := ?s', wd_writer := Writing ?ts batch\<rparr>)"
    using ok idle put built by (cases bp) (simp add: world_ok_def Let_def coming_mvcc_def mvcc)
  then show ?thesis using idle left by (simp add: Let_def)
qed

lemma freeze_write_ok:
  assumes S: "skip_map S" and M: "manifest_works M" and ok: "world_ok crc fp S m bp w"
    and writing: "wd_writer w = Writing ts batch"
  shows "\<exists>w'. world_step crc fp S M FreezeWrite w = Some (Inr (), w') \<and>
    world_ok crc fp S m (track FreezeWrite bp) w' \<and> wd_writer w' = Frozen ts batch"
proof -
  have s: "storage_ok crc fp S (at_clock ts (wd_storage w))"
    using ok writing by (simp add: world_ok_def Let_def coming_mvcc_def)
  obtain s' where s': "try_freeze S M (wd_storage w) = (Inr (), s')" "storage_ok crc fp S (at_clock ts s')"
    "state_map crc S (sg_state s') = state_map crc S (sg_state (wd_storage w))" "sg_mvcc s' = sg_mvcc (wd_storage w)"
    "ls_imm_memtables (sg_state s') = ls_imm_memtables (sg_state (wd_storage w)) \<or>
     ls_imm_memtables (sg_state s') = ls_memtable (sg_state (wd_storage w)) # ls_imm_memtables (sg_state (wd_storage w))"
    "sg_sst_files s' = sg_sst_files (wd_storage w)"
    by (rule write_finish_ok [OF S M s])
  have "case wd_flusher w of FlusherIdle \<Rightarrow> True | FlusherBuilt t \<Rightarrow> built_ok crc fp S t s'"
    using ok built_ok_freeze [OF _ s'(6,5)] by (simp add: world_ok_def Let_def split: flusher.splits)
  then have "world_ok crc fp S m (track FreezeWrite bp) (w\<lparr>wd_storage := s', wd_writer := Frozen ts batch\<rparr>)"
    using ok writing s'(2-4) by (cases bp) (simp add: world_ok_def Let_def coming_mvcc_def)
  then show ?thesis using writing s'(1) by simp
qed

lemma end_write_ok:
  assumes ok: "world_ok crc fp S m bp w" and frozen: "wd_writer w = Frozen ts batch"
  shows "\<exists>w'. world_step crc fp S M EndWrite w = Some (Inr (), w') \<and> world_ok crc fp S m (track EndWrite bp) w'"
proof -
  have "world_ok crc fp S m (track EndWrite bp) (w\<lparr>wd_storage := at_clock ts (wd_storage w), wd_writer := WriterIdle\<rparr>)"
    using ok frozen
    by (cases bp) (auto simp: world_ok_def Let_def coming_mvcc_def split: flusher.splits)
  then show ?thesis using frozen by simp
qed

lemma build_table_ok:
  assumes S: "skip_map S" and ok: "world_ok crc fp S m bp w" and idle: "wd_flusher w = FlusherIdle"
  shows "\<exists>w'. world_step crc fp S M BuildTable w = Some (Inr (), w') \<and> world_ok crc fp S m (track BuildTable bp) w'"
proof (cases "opt_num_memtable_limit (sg_options (wd_storage w)) < 1 + length (ls_imm_memtables (sg_state (wd_storage w))) \<and>
    ls_imm_memtables (sg_state (wd_storage w)) \<noteq> []")
  case False
  then show ?thesis using ok idle by (cases bp) (auto simp: Let_def flush_build_def)
next
  case True
  have s: "storage_ok crc fp S ((wd_storage w)\<lparr>sg_mvcc := coming_mvcc w\<rparr>)"
    using ok by (simp add: world_ok_def Let_def)
  obtain t s' where t: "flush_build crc fp S (wd_storage w) = (Inr (Some t), s')"
    "storage_ok crc fp S (s'\<lparr>sg_mvcc := coming_mvcc w\<rparr>)" "built_ok crc fp S t s'"
    "sg_state s' = sg_state (wd_storage w)" "sg_mvcc s' = sg_mvcc (wd_storage w)"
    using build_step [OF S s] True by blast
  have "coming_mvcc (w\<lparr>wd_storage := s', wd_flusher := FlusherBuilt t\<rparr>) = coming_mvcc w"
    by (simp add: coming_mvcc_def t(5) split: option.split)
  then have "world_ok crc fp S m (track BuildTable bp) (w\<lparr>wd_storage := s', wd_flusher := FlusherBuilt t\<rparr>)"
    using ok t(2-5) by (cases bp) (auto simp: world_ok_def Let_def split: option.splits)
  then show ?thesis using idle True t(1) by (simp add: Let_def)
qed

lemma install_table_ok:
  assumes S: "skip_map S" and M: "manifest_works M" and ok: "world_ok crc fp S m bp w"
    and built: "wd_flusher w = FlusherBuilt t"
  shows "\<exists>w'. world_step crc fp S M InstallTable w = Some (Inr (), w') \<and> world_ok crc fp S m (track InstallTable bp) w'"
proof -
  have s: "storage_ok crc fp S ((wd_storage w)\<lparr>sg_mvcc := coming_mvcc w\<rparr>)"
    and t: "built_ok crc fp S t (wd_storage w)"
    using ok built by (simp_all add: world_ok_def Let_def)
  obtain s' where s': "flush_install M t (wd_storage w) = (Inr (), s')"
    "storage_ok crc fp S (s'\<lparr>sg_mvcc := coming_mvcc w\<rparr>)"
    "state_map crc S (sg_state s') = state_map crc S (sg_state (wd_storage w))" "sg_mvcc s' = sg_mvcc (wd_storage w)"
    by (rule install_step [OF M s t])
  have "coming_mvcc (w\<lparr>wd_storage := s', wd_flusher := FlusherIdle\<rparr>) = coming_mvcc w"
    by (simp add: coming_mvcc_def s'(4) split: option.split)
  then have "world_ok crc fp S m (track InstallTable bp) (w\<lparr>wd_storage := s', wd_flusher := FlusherIdle\<rparr>)"
    using ok s'(2-4) by (cases bp) (auto simp: world_ok_def Let_def split: option.splits)
  then show ?thesis using built s'(1) by simp
qed

lemma world_step_ok:
  assumes "skip_map S" "manifest_works M" "world_ok crc fp S m bp w" "event_fits e"
  shows "world_step crc fp S M e w = None \<or>
    latest_commit_ts (sg_mvcc (wd_storage w)) = - 1 \<and> world_step crc fp S M e w = Some (Inl Panic, w) \<or>
    (\<exists>w'. world_step crc fp S M e w = Some (Inr (), w') \<and> world_ok crc fp S m (track e bp) w')"
proof (cases e)
  case (BeginWrite batch)
  then show ?thesis
    using begin_write_ok [OF assms(1-3), of batch] assms(4)
    by (cases "wd_writer w") (auto simp: Let_def)
next
  case FreezeWrite
  then show ?thesis using freeze_write_ok [OF assms(1-3)] by (cases "wd_writer w") auto
next
  case EndWrite
  then show ?thesis using end_write_ok [OF assms(3)] by (cases "wd_writer w") simp_all
next
  case BuildTable
  then show ?thesis using build_table_ok [OF assms(1,3)] by (cases "wd_flusher w") simp_all
next
  case InstallTable
  then show ?thesis using install_table_ok [OF assms(1-3)] by (cases "wd_flusher w") simp_all
qed

lemma reaches_ok:
  assumes "skip_map S" "manifest_works M" "world_ok crc fp S m ([], None) w0" "reaches crc fp S M w0 es w"
    and "\<forall>e \<in> set es. event_fits e"
  shows "world_ok crc fp S m (tracked es) w"
  using assms(4,5)
proof (induction rule: reaches.induct)
  case start
  then show ?case using assms(3) by (simp add: tracked_def)
next
  case (step es w e w')
  then have "world_ok crc fp S m (tracked es) w" "event_fits e" by simp_all
  from world_step_ok [OF assms(1,2) this] have "world_ok crc fp S m (track e (tracked es)) w'"
    using step.hyps(2) by auto
  then show ?case by (simp add: tracked_def)
qed

text \<open>
  C12: Writers and the flush thread may interleave at any of their locks. After any schedule of
  successful steps, in whatever state a write and a flush are, a read answers what the batches
  committed so far leave on the contents at the start: a batch is visible as a whole or not at all,
  and a flush at no time. Every further step that is possible succeeds, unless the timestamps are
  exhausted.
\<close>

theorem concurrent_writes_and_flushes:
  assumes "skip_map S" "manifest_works M" "storage_ok crc fp S s"
    and "reaches crc fp S M (idle_world s) es w" "\<forall>e \<in> set (e # es). event_fits e"
  shows "(\<forall>u. storage_get crc fp S (wd_storage w) u =
      Inr (fold apply_record (concat (committed es)) (\<lambda>u. projr (storage_get crc fp S s u)) u)) \<and>
    (world_step crc fp S M e w = None \<or> latest_commit_ts (sg_mvcc (wd_storage w)) = - 1 \<or>
     (\<exists>w'. world_step crc fp S M e w = Some (Inr (), w')))"
proof -
  have ok: "world_ok crc fp S (\<lambda>u. projr (storage_get crc fp S s u)) (tracked es) w"
    using reaches_ok [OF assms(1,2) idle_world_ok [OF assms(1,3)] assms(4)] assms(5) by simp
  show ?thesis
    using world_get [OF assms(1) ok] world_step_ok [OF assms(1,2) ok, of e] assms(5)
    unfolding committed_def by auto
qed

theorem concurrent_writes_and_flushes_witness:
  "\<exists>w. reaches (\<lambda>_. 0) (\<lambda>_. 1) rbt_ops manifest_log (idle_world sample_storage)
      [BeginWrite [Put [1] [2]], FreezeWrite, BuildTable, EndWrite, BeginWrite [Put [1] [3]]] w \<and>
    storage_get (\<lambda>_. 0) (\<lambda>_. 1) rbt_ops (wd_storage w) [1] = Inr (Some [2])"
proof -
  let ?m = "\<lambda>u. projr (storage_get (\<lambda>_. 0) (\<lambda>_. 1) rbt_ops sample_storage u)"
  let ?step = "world_step (\<lambda>_. 0) (\<lambda>_. 1) rbt_ops manifest_log"
  let ?reaches = "reaches (\<lambda>_. 0) (\<lambda>_. 1) rbt_ops manifest_log (idle_world sample_storage)"
  let ?ok = "world_ok (\<lambda>_. 0) (\<lambda>_. 1) rbt_ops ?m"
  have R: "skip_map rbt_ops" by (rule rbt.skip_map_axioms)
  note ok0 = idle_world_ok [OF R sample_storage_ok]
  have w0: "wd_writer (idle_world sample_storage) = WriterIdle" "wd_flusher (idle_world sample_storage) = FlusherIdle"
    "latest_commit_ts (sg_mvcc (wd_storage (idle_world sample_storage))) = 9"
    by (simp_all add: idle_world_def sample_storage_def mvcc_new_def latest_commit_ts_def)
  obtain w1 bp1 where w1: "?step (BeginWrite [Put [1] [2]]) (idle_world sample_storage) = Some (Inr (), w1)" "?ok bp1 w1"
    using begin_write_ok [OF R manifest_log_works ok0, of "[Put [1] [2]]"] w0 by auto
  have f1: "wd_writer w1 = Writing 10 [Put [1] [2]]" "wd_flusher w1 = FlusherIdle"
    using w1(1) w0 by (auto simp: Let_def)
  obtain w2 bp2 where w2: "?step FreezeWrite w1 = Some (Inr (), w2)" "?ok bp2 w2" "wd_writer w2 = Frozen 10 [Put [1] [2]]"
    using freeze_write_ok [OF R manifest_log_works w1(2) f1(1)] by blast
  have f2: "wd_flusher w2 = FlusherIdle"
    using w2(1) f1 by (auto split: prod.splits sum.splits)
  obtain w3 bp3 where w3: "?step BuildTable w2 = Some (Inr (), w3)" "?ok bp3 w3"
    using build_table_ok [OF R w2(2) f2] by blast
  have f3: "wd_writer w3 = Frozen 10 [Put [1] [2]]"
    using w3(1) w2(3) f2 by (auto simp: Let_def split: if_splits sum.splits option.splits prod.splits)
  obtain w4 bp4 where w4: "?step EndWrite w3 = Some (Inr (), w4)" "?ok bp4 w4"
    using end_write_ok [OF w3(2) f3] by blast
  have f4: "wd_writer w4 = WriterIdle" "latest_commit_ts (sg_mvcc (wd_storage w4)) = 10"
    using w4(1) f3 by auto
  obtain w5 where w5: "?step (BeginWrite [Put [1] [3]]) w4 = Some (Inr (), w5)"
    using begin_write_ok [OF R manifest_log_works w4(2), of "[Put [1] [3]]"] f4 by auto
  note r = step [OF step [OF step [OF step [OF step [OF start w1(1)] w2(1)] w3(1)] w4(1)] w5, simplified append.simps]
  have "committed [BeginWrite [Put [1] [2]], FreezeWrite, BuildTable, EndWrite, BeginWrite [Put [1] [3]]] = [[Put [1] [2]]]"
    by (simp add: committed_def tracked_def)
  then show ?thesis
    using concurrent_writes_and_flushes [OF R manifest_log_works sample_storage_ok r, of EndWrite] r
    by auto
qed

section \<open>The compaction thread and the state lock\<close>

text \<open>
  The second half of \<open>trigger_compaction\<close> copies the state, applies the result to the copy and
  writes the copy back, without taking \<open>state_lock\<close>: \<open>compaction_install\<close> is these two steps.
\<close>

definition compaction_prepare ::
    "compaction_task \<Rightarrow> sstable list \<Rightarrow> 'm storage \<Rightarrow> ('m lsm_state \<times> nat list) res" where
  "compaction_prepare task output_sst s =
     and_then (controller_apply (sg_controller s) (insert_ssts output_sst (sg_state s)) task (map sst_id output_sst) False)
       (\<lambda>(new_state, removed_ssts). Inr (remove_ssts removed_ssts new_state, removed_ssts))"

definition compaction_publish :: "'m lsm_state \<times> nat list \<Rightarrow> 'm storage \<Rightarrow> unit res \<times> 'm storage" where
  "compaction_publish p s = remove_files (snd p) (s\<lparr>sg_state := fst p\<rparr>)"

lemma compaction_install_split:
  "compaction_install task output_sst s =
     (case compaction_prepare task output_sst s of Inl e \<Rightarrow> (Inl e, s) | Inr p \<Rightarrow> compaction_publish p s)"
  by (simp add: compaction_install_def compaction_prepare_def compaction_publish_def split: sum.split prod.split)

lemma remove_files_state: "sg_state (snd (remove_files ids s)) = sg_state s \<and> sg_mvcc (snd (remove_files ids s)) = sg_mvcc s"
  by (induction ids arbitrary: s) (simp_all split: option.split)

lemma compaction_publish_state:
  "sg_state (snd (compaction_publish p s)) = fst p" "sg_mvcc (snd (compaction_publish p s)) = sg_mvcc s"
  by (simp_all add: compaction_publish_def remove_files_state)

text \<open>The storage between the two halves is well formed.\<close>

lemma outputs_storage_ok:
  assumes "storage_ok crc fp S s" "outputs_ok crc fp s ts s1"
  shows "storage_ok crc fp S s1"
proof -
  obtain f where s1: "s1 = s\<lparr>sg_next_sst_id := sg_next_sst_id s + length ts, sg_sst_files := f\<rparr>"
    and f: "\<forall>i < sg_next_sst_id s. f i = sg_sst_files s i"
    using assms(2) by (auto simp: outputs_ok_def)
  have "ids_ok s1" using assms(1) by (auto simp: storage_ok_def ids_ok_def Let_def s1)
  moreover have "files_ok s1"
    using assms(1) f by (auto simp: storage_ok_def ids_ok_def files_ok_def Let_def s1)
  ultimately show ?thesis
    using assms(1) by (simp add: storage_ok_def timestamps_ok_def options_ok_def s1)
qed

lemma trigger_halves:
  assumes "trigger_compaction crc fp s = (Inr (), s')" "task_of s = Some task"
  obtains ts s1 p where "compact crc fp task s = (Inr ts, s1)" "compaction_prepare task ts s1 = Inr p"
    "compaction_publish p s1 = (Inr (), s')"
proof -
  have gen: "controller_generate (sg_controller s) (sg_state s) = Inr (Some task)"
    using assms(2) by (simp add: task_of_def split: sum.splits)
  obtain r s1 where c: "compact crc fp task s = (r, s1)" by fastforce
  then obtain ts where r: "r = Inr ts" using assms(1) by (cases r) (simp_all add: trigger_compaction_def gen)
  then have inst: "compaction_install task ts s1 = (Inr (), s')"
    using assms(1) c by (simp add: trigger_compaction_def gen)
  then obtain p where "compaction_prepare task ts s1 = Inr p" "compaction_publish p s1 = (Inr (), s')"
    by (cases "compaction_prepare task ts s1") (simp_all add: compaction_install_split)
  then show thesis using that c r by blast
qed

text \<open>
  C13: A compaction loses the writes that come between its two halves. Let a controller whose options
  it can work with find a task that fits on a well-formed storage. If the memtable, which is not
  empty, is frozen and a batch is written after the compaction thread has copied the state, the
  write succeeds and is read back; when the compaction then writes its copy back, no version newer than the clock of before is
  left, whether removing the old files succeeds or not.
\<close>

theorem compaction_loses_writes:
  assumes "skip_map S" "manifest_works M" "storage_ok crc fp S s" "tuned (sg_controller s)"
    and "task_of s = Some task" "tail_fits crc (sg_state s) task"
    and "mt_entries S (ls_memtable (sg_state s)) \<noteq> []"
    and "record_fits (Put u v)" "v \<noteq> []" "latest_commit_ts (sg_mvcc s) \<noteq> - 1"
  shows "\<exists>ts s1 p s2 s3. compact crc fp task s = (Inr ts, s1) \<and> compaction_prepare task ts s1 = Inr p \<and>
    force_freeze_memtable S M s1 = (Inr (), s2) \<and> storage_put crc S M u v s2 = (Inr (), s3) \<and>
    storage_get crc fp S s3 u = Inr (Some v) \<and>
    latest_commit_ts (sg_mvcc (snd (compaction_publish p s3))) = latest_commit_ts (sg_mvcc s) + 1 \<and>
    (\<forall>t > latest_commit_ts (sg_mvcc s).
      state_map crc S (sg_state (snd (compaction_publish p s3))) (Key u t) = None)"
proof -
  let ?now = "latest_commit_ts (sg_mvcc s)"
  obtain s' where s': "trigger_compaction crc fp s = (Inr (), s')" "storage_ok crc fp S s'" "sg_mvcc s' = sg_mvcc s"
    by (rule trigger_compaction_ok [OF assms(1,3,4)]) (use assms(5,6) in auto)
  obtain ts s1 p where halves: "compact crc fp task s = (Inr ts, s1)" "compaction_prepare task ts s1 = Inr p"
    "compaction_publish p s1 = (Inr (), s')"
    by (rule trigger_halves [OF s'(1) assms(5)])
  have p: "fst p = sg_state s'" using compaction_publish_state(1) [of p s1] halves(3) by simp
  have st: "state_ok crc fp S (sg_state s)" "tree_ok crc S (sg_controller s) (sg_state s)"
    using assms(3) by (simp_all add: storage_ok_def)
  have gen: "controller_generate (sg_controller s) (sg_state s) = Inr (Some task)"
    using assms(5) by (simp add: task_of_def split: sum.splits)
  have fits: "task_fits (sg_controller s) (sg_state s) task"
    and runs: "\<forall>ids \<in> set (task_runs task). level_ok crc (tables_of (sg_state s) ids)"
    using controller_generate_fits [OF gen assms(4) st] by blast+
  have out: "outputs_ok crc fp s ts s1"
    using compact_output_of [OF assms(3) task_fits_live [OF fits] runs assms(6)] halves(1)
    by (auto simp: output_of_def)
  then have s1: "storage_ok crc fp S s1" "sg_state s1 = sg_state s" "sg_mvcc s1 = sg_mvcc s"
    using outputs_storage_ok [OF assms(3)] by (auto simp: outputs_ok_def)
  obtain s2 where s2: "force_freeze_memtable S M s1 = (Inr (), s2)" "storage_ok crc fp S s2" "sg_mvcc s2 = sg_mvcc s1"
    using force_freeze_memtable_ok [OF assms(1,2) s1(1)] assms(7) s1(2) by auto
  have fit: "\<forall>r \<in> set [Put u v]. record_fits r" using assms(8) by simp
  have left: "latest_commit_ts (sg_mvcc s2) \<noteq> - 1" using assms(10) s1(3) s2(3) by simp
  obtain s3 where s3: "write_batch crc S M [Put u v] s2 = (Inr (), s3)" "storage_ok crc fp S s3"
    "state_map crc S (sg_state s3) = state_map crc S (sg_state s2) ++
       map_of (rev (map (write_record (latest_commit_ts (sg_mvcc s2) + 1)) [Put u v]))"
    "latest_commit_ts (sg_mvcc s3) = latest_commit_ts (sg_mvcc s2) + 1"
    by (rule write_batch_ok [OF assms(1,2) s2(2) fit left])
  have "state_map crc S (sg_state s3) (Key u (latest_commit_ts (sg_mvcc s3))) = Some v" by (simp add: s3(3,4))
  then have "storage_get crc fp S s3 u = Inr (Some v)"
    using read_at_newest [of "state_map crc S (sg_state s3)" u] assms(9) s3(2)
    by (simp add: storage_get_def get_with_ts_read_at assms(1) storage_ok_def)
  moreover have "state_map crc S (sg_state s') (Key u t) = None" if "?now < t" for t
  proof (cases "state_map crc S (sg_state s') (Key u t)")
    case (Some w)
    then have "t \<le> ?now" using s'(2,3) by (fastforce simp: storage_ok_def timestamps_ok_def)
    with that show ?thesis by simp
  qed
  ultimately show ?thesis
    using halves(1,2) s2(1,3) s3(1,4) s1(3)
    by (intro exI [of _ ts] exI [of _ s1] exI [of _ p] exI [of _ s2] exI [of _ s3])
      (simp add: compaction_publish_state p storage_put_def)
qed

theorem compaction_loses_writes_witness:
  "\<exists>task ts s1 p s2 s3. compact (\<lambda>_. 0) (\<lambda>_. 1) task compacting_storage = (Inr ts, s1) \<and>
    compaction_prepare task ts s1 = Inr p \<and>
    force_freeze_memtable rbt_ops manifest_log s1 = (Inr (), s2) \<and>
    storage_put (\<lambda>_. 0) rbt_ops manifest_log [1] [5] s2 = (Inr (), s3) \<and>
    storage_get (\<lambda>_. 0) (\<lambda>_. 1) rbt_ops s3 [1] = Inr (Some [5]) \<and>
    state_map (\<lambda>_. 0) rbt_ops (sg_state (snd (compaction_publish p s3))) (Key [1] 10) = None"
proof -
  obtain task where task: "task_of compacting_storage = Some task"
    "tail_fits (\<lambda>_. 0) (sg_state compacting_storage) task"
    using compacting_task by blast
  have "map_of (mt_entries rbt_ops (ls_memtable sample_state)) (Key [6] 9) = Some [6]"
    by (simp add: sample_state_def map_mt_put_batch [OF rbt.skip_map_axioms])
  then have ne: "mt_entries rbt_ops (ls_memtable (sg_state compacting_storage)) \<noteq> []"
    by (auto simp: compacting_storage_def sample_storage_def)
  have now: "latest_commit_ts (sg_mvcc compacting_storage) = 9"
    by (simp add: compacting_storage_def sample_storage_def mvcc_new_def latest_commit_ts_def)
  have tuned: "tuned (sg_controller compacting_storage)" by (simp add: compacting_storage_def tuned_def)
  have fits: "record_fits (Put [1] [5])" "([5] :: bytes) \<noteq> []" "latest_commit_ts (sg_mvcc compacting_storage) \<noteq> - 1"
    by (simp_all add: now)
  show ?thesis
    using compaction_loses_writes [OF rbt.skip_map_axioms manifest_log_works compacting_storage_ok tuned task ne fits] now
    by (elim exE conjE) (rule exI [of _ task], auto)
qed

end
