(* ===== verification/Txn.thy ===== *)
theory Txn
  imports Engine
begin

text \<open>
  \<open>src/mvcc/txn.rs\<close> and \<open>LsmMvccInner::new_txn\<close> of \<open>src/mvcc.rs\<close>: transactions with a read
  timestamp, a private map of uncommitted writes, and the hashes of the keys they touch.

  The storage a transaction shares (\<open>inner\<close>) is an argument of the operations that use it, as it
  is when they run. \<open>L\<close> is the skip map of the private writes, \<open>h\<close> is \<open>farmhash::hash32\<close>. A
  local iterator holds the private entries of its range as they are when it starts; a
  \<open>TxnIterator\<close> carries the transaction whose read set it extends.
\<close>

section \<open>Transactions\<close>

record 'n transaction =
  tx_read_ts :: u64
  tx_local_storage :: 'n
  tx_committed :: bool
  tx_key_hashes :: "(u32 set \<times> u32 set) option"

definition new_txn :: "('n, bytes, bytes) skip_ops \<Rightarrow> mvcc \<Rightarrow> bool \<Rightarrow> 'n transaction" where
  "new_txn L m serializable =
     \<lparr>tx_read_ts = latest_commit_ts m, tx_local_storage = sm_new L, tx_committed = False,
      tx_key_hashes = (if serializable then Some ({}, {}) else None)\<rparr>"

definition storage_new_txn :: "('n, bytes, bytes) skip_ops \<Rightarrow> 'm storage \<Rightarrow> 'n transaction" where
  "storage_new_txn L s = new_txn L (sg_mvcc s) (opt_serializable (sg_options s))"

text \<open>The block that opens \<open>get\<close>, \<open>put\<close> and \<open>delete\<close>: all three add to the second set of the pair.\<close>

definition record_hash :: "(bytes \<Rightarrow> u32) \<Rightarrow> bytes \<Rightarrow> 'n transaction \<Rightarrow> 'n transaction" where
  "record_hash h key t =
     (case tx_key_hashes t of
        None \<Rightarrow> t
      | Some (writes, reads) \<Rightarrow> t\<lparr>tx_key_hashes := Some (writes, insert (h key) reads)\<rparr>)"

definition txn_get ::
    "(bytes \<Rightarrow> u32) \<Rightarrow> ('n, bytes, bytes) skip_ops \<Rightarrow> (bytes \<Rightarrow> u32) \<Rightarrow> (bytes \<Rightarrow> u32) \<Rightarrow>
     ('m, key, bytes) skip_ops \<Rightarrow> 'm storage \<Rightarrow> bytes \<Rightarrow> 'n transaction \<Rightarrow>
     bytes option res \<times> 'n transaction" where
  "txn_get h L crc fp S inner key t =
     (let t = record_hash h key t in
      case sm_get L (tx_local_storage t) key of
        Some v \<Rightarrow> (if v = [] then (Inr None, t) else (Inr (Some v), t))
      | None \<Rightarrow> (get_with_ts crc fp S inner key (tx_read_ts t), t))"

definition txn_put ::
    "(bytes \<Rightarrow> u32) \<Rightarrow> ('n, bytes, bytes) skip_ops \<Rightarrow> bytes \<Rightarrow> bytes \<Rightarrow> 'n transaction \<Rightarrow> 'n transaction" where
  "txn_put h L key value t =
     (let t = record_hash h key t in t\<lparr>tx_local_storage := sm_insert L key value (tx_local_storage t)\<rparr>)"

definition txn_delete ::
    "(bytes \<Rightarrow> u32) \<Rightarrow> ('n, bytes, bytes) skip_ops \<Rightarrow> bytes \<Rightarrow> 'n transaction \<Rightarrow> 'n transaction" where
  "txn_delete h L key t =
     (let t = record_hash h key t in t\<lparr>tx_local_storage := sm_insert L key [] (tx_local_storage t)\<rparr>)"

definition txn_commit :: "'n transaction \<Rightarrow> unit res" where
  "txn_commit t = Inl Unimplemented"

lemma record_hash_simps [simp]:
  "tx_read_ts (record_hash h u t) = tx_read_ts t"
  "tx_local_storage (record_hash h u t) = tx_local_storage t"
  "tx_key_hashes (record_hash h u t) = map_option (\<lambda>(ws, rs). (ws, insert (h u) rs)) (tx_key_hashes t)"
  by (simp_all add: record_hash_def split: option.splits prod.split)

lemma txn_put_simps [simp]:
  "tx_read_ts (txn_put h L u v t) = tx_read_ts t"
  "tx_local_storage (txn_put h L u v t) = sm_insert L u v (tx_local_storage t)"
  "tx_key_hashes (txn_put h L u v t) = map_option (\<lambda>(ws, rs). (ws, insert (h u) rs)) (tx_key_hashes t)"
  by (simp_all add: txn_put_def Let_def)

lemma txn_delete_put: "txn_delete h L u t = txn_put h L u [] t"
  by (simp add: txn_delete_def txn_put_def)

lemma snd_txn_get [simp]: "snd (txn_get h L crc fp S s u t) = record_hash h u t"
  by (simp add: txn_get_def Let_def split: option.split)

text \<open>What a transaction sees: its own writes over a snapshot; an empty value is a deletion.\<close>

definition txn_view :: "(bytes \<rightharpoonup> bytes) \<Rightarrow> (bytes \<rightharpoonup> bytes) \<Rightarrow> bytes \<rightharpoonup> bytes" where
  "txn_view own snapshot u =
     (case own u of None \<Rightarrow> snapshot u | Some v \<Rightarrow> if v = [] then None else Some v)"

definition own_writes :: "('n, bytes, bytes) skip_ops \<Rightarrow> 'n transaction \<Rightarrow> bytes \<rightharpoonup> bytes" where
  "own_writes L t = map_of (sm_iter L (tx_local_storage t))"

lemma txn_get_view:
  assumes "skip_map L" "\<And>u. get_with_ts crc fp S s u (tx_read_ts t) = Inr (snap u)"
  shows "txn_get h L crc fp S s u t = (Inr (txn_view (own_writes L t) snap u), record_hash h u t)"
  using assms
  by (simp add: txn_get_def Let_def skip_map.get_iter [OF assms(1)] txn_view_def own_writes_def
      split: option.split)

lemma txn_view_put: "txn_view (own(u \<mapsto> v)) snap = apply_record (Put u v) (txn_view own snap)"
  by (simp add: txn_view_def fun_eq_iff)

lemma own_writes_new: "skip_map L \<Longrightarrow> own_writes L (new_txn L m b) = Map.empty"
  by (simp add: own_writes_def new_txn_def skip_map.iter_new)

lemma own_writes_put: "skip_map L \<Longrightarrow> own_writes L (txn_put h L u v t) = (own_writes L t)(u \<mapsto> v)"
  by (simp add: own_writes_def skip_map.map_insert)

section \<open>Sessions\<close>

text \<open>
  One transaction among the other clients of the storage: the steps of the transaction and the
  operations on the storage in any order.
\<close>

datatype 'op session_step =
    TxnGet bytes
  | TxnWrite write_batch_record
  | Other "'op client_op"

fun txn_write ::
    "(bytes \<Rightarrow> u32) \<Rightarrow> ('n, bytes, bytes) skip_ops \<Rightarrow> write_batch_record \<Rightarrow> 'n transaction \<Rightarrow> 'n transaction" where
  "txn_write h L (Put k v) t = txn_put h L k v t"
| "txn_write h L (Del k) t = txn_delete h L k t"

fun run_session ::
    "(bytes \<Rightarrow> u32) \<Rightarrow> ('n, bytes, bytes) skip_ops \<Rightarrow> (bytes \<Rightarrow> u32) \<Rightarrow> (bytes \<Rightarrow> u32) \<Rightarrow>
     ('m, key, bytes) skip_ops \<Rightarrow>
     (write_batch_record list \<Rightarrow> 'm storage \<Rightarrow> unit res \<times> 'm storage) \<Rightarrow>
     ('op \<Rightarrow> 'm storage \<Rightarrow> unit res \<times> 'm storage) \<Rightarrow>
     'op session_step list \<Rightarrow> 'm storage \<times> 'n transaction \<Rightarrow> unit res \<times> 'm storage \<times> 'n transaction" where
  "run_session h L crc fp S commit maintain [] st = (Inr (), st)"
| "run_session h L crc fp S commit maintain (TxnGet u # steps) (s, t) =
     (case txn_get h L crc fp S s u t of
        (Inl e, t) \<Rightarrow> (Inl e, s, t)
      | (Inr _, t) \<Rightarrow> run_session h L crc fp S commit maintain steps (s, t))"
| "run_session h L crc fp S commit maintain (TxnWrite r # steps) (s, t) =
     run_session h L crc fp S commit maintain steps (s, txn_write h L r t)"
| "run_session h L crc fp S commit maintain (Other op # steps) (s, t) =
     (case run_op commit maintain op s of
        (Inl e, s) \<Rightarrow> (Inl e, s, t)
      | (Inr _, s) \<Rightarrow> run_session h L crc fp S commit maintain steps (s, t))"

fun record_key :: "write_batch_record \<Rightarrow> bytes" where
  "record_key (Put k v) = k"
| "record_key (Del k) = k"

definition session_writes :: "'op session_step list \<Rightarrow> write_batch_record list" where
  "session_writes steps = concat (map (\<lambda>x. case x of TxnWrite r \<Rightarrow> [r] | _ \<Rightarrow> []) steps)"

definition session_others :: "'op session_step list \<Rightarrow> 'op client_op list" where
  "session_others steps = concat (map (\<lambda>x. case x of Other op \<Rightarrow> [op] | _ \<Rightarrow> []) steps)"

definition session_keys :: "'op session_step list \<Rightarrow> bytes set" where
  "session_keys steps =
     (\<Union>x \<in> set steps. case x of TxnGet u \<Rightarrow> {u} | TxnWrite r \<Rightarrow> {record_key r} | Other op \<Rightarrow> {})"

lemma session_simps [simp]:
  "session_writes [] = []" "session_others [] = []" "session_keys [] = {}"
  "session_writes (x # xs) = (case x of TxnWrite r \<Rightarrow> [r] | _ \<Rightarrow> []) @ session_writes xs"
  "session_others (x # xs) = (case x of Other op \<Rightarrow> [op] | _ \<Rightarrow> []) @ session_others xs"
  "session_keys (x # xs) =
     (case x of TxnGet u \<Rightarrow> {u} | TxnWrite r \<Rightarrow> {record_key r} | Other op \<Rightarrow> {}) \<union> session_keys xs"
  by (simp_all add: session_writes_def session_others_def session_keys_def)

definition add_reads :: "u32 set \<Rightarrow> (u32 set \<times> u32 set) option \<Rightarrow> (u32 set \<times> u32 set) option" where
  "add_reads H = map_option (\<lambda>(ws, rs). (ws, H \<union> rs))"

lemma txn_write_view:
  "skip_map L \<Longrightarrow>
   txn_view (own_writes L (txn_write h L r t)) snap = apply_record r (txn_view (own_writes L t) snap)"
  by (cases r) (simp_all add: own_writes_put txn_view_put txn_delete_put)

lemma txn_write_simps [simp]:
  "tx_read_ts (txn_write h L r t) = tx_read_ts t"
  "tx_key_hashes (txn_write h L r t) = add_reads {h (record_key r)} (tx_key_hashes t)"
  by (cases r; simp add: txn_delete_put add_reads_def)+

lemma add_reads_empty: "add_reads {} hs = hs"
  by (cases hs) (simp_all add: add_reads_def)

lemma add_reads_Un: "add_reads A (add_reads B hs) = add_reads (A \<union> B) hs"
  by (cases hs) (auto simp: add_reads_def)

lemma run_session_ok:
  assumes store: "mv_store good versions clock allowed (get_with_ts crc fp S) commit maintain" and L: "skip_map L"
    and "good s" "\<forall>op \<in> set (session_others steps). op_allowed allowed op"
    and "unat (clock s) + sum_list (map ticks (session_others steps)) < 2 ^ 64"
    and "tx_read_ts t \<le> clock s"
  shows "\<exists>s' t'. run_session h L crc fp S commit maintain steps (s, t) = (Inr (), s', t') \<and> good s' \<and>
    run_ops commit maintain (session_others steps) s = (Inr (), s') \<and> tx_read_ts t' = tx_read_ts t \<and>
    read_at (tx_read_ts t) (versions s') = read_at (tx_read_ts t) (versions s) \<and>
    txn_view (own_writes L t') (read_at (tx_read_ts t) (versions s)) =
      fold apply_record (session_writes steps) (txn_view (own_writes L t) (read_at (tx_read_ts t) (versions s))) \<and>
    tx_key_hashes t' = add_reads (h ` session_keys steps) (tx_key_hashes t)"
  using assms(3-)
proof (induction steps arbitrary: s t)
  case Nil
  then show ?case by (simp add: add_reads_empty)
next
  case (Cons x steps)
  show ?case
  proof (cases x)
    case (TxnGet u)
    have "txn_get h L crc fp S s u t =
        (Inr (txn_view (own_writes L t) (read_at (tx_read_ts t) (versions s)) u), record_hash h u t)"
      by (rule txn_get_view [OF L]) (rule mv_store.get_versions [OF store Cons.prems(1)])
    moreover have "own_writes L (record_hash h u t) = own_writes L t" by (simp add: own_writes_def)
    moreover have "tx_key_hashes (record_hash h u t) = add_reads {h u} (tx_key_hashes t)"
      by (simp add: add_reads_def)
    ultimately show ?thesis
      using Cons.IH [OF Cons.prems(1), of "record_hash h u t"] Cons.prems TxnGet by (simp add: add_reads_Un)
  next
    case (TxnWrite r)
    then show ?thesis
      using Cons.IH [OF Cons.prems(1), of "txn_write h L r t"] Cons.prems
      by (simp add: txn_write_view [OF L] add_reads_Un)
  next
    case (Other op)
    have "op_allowed allowed op" "unat (clock s) + ticks op < 2 ^ 64" using Cons.prems(2,3) Other by auto
    then obtain s1 where s1: "run_op commit maintain op s = (Inr (), s1)" "good s1"
        "unat (clock s1) = unat (clock s) + ticks op" "clock s \<le> clock s1"
        "\<And>ts. ts \<le> clock s \<Longrightarrow> read_at ts (versions s1) = read_at ts (versions s)"
      using mv_store.run_op_ok [OF store Cons.prems(1), of op] by metis
    have "unat (clock s1) + sum_list (map ticks (session_others steps)) < 2 ^ 64" "tx_read_ts t \<le> clock s1"
      using s1(3,4) Cons.prems(3,4) Other by auto
    then show ?thesis
      using Cons.IH [OF s1(2), of t] Cons.prems Other s1(1) s1(5) [OF Cons.prems(4)] by simp
  qed
qed

section \<open>The iterator over the private writes\<close>

fun map_bound :: "bytes bound \<Rightarrow> bytes bound" where
  "map_bound (Included x) = Included x"
| "map_bound (Excluded x) = Excluded x"
| "map_bound Unbounded = Unbounded"

lemma map_bound_same [simp]: "map_bound b = b"
  by (cases b) simp_all

record txn_local_iter =
  tl_rest :: "(bytes \<times> bytes) list"
  tl_item :: "bytes \<times> bytes"

definition tl_is_valid :: "txn_local_iter \<Rightarrow> bool" where
  "tl_is_valid it \<longleftrightarrow> fst (tl_item it) \<noteq> []"

definition tl_next :: "txn_local_iter \<Rightarrow> unit res \<times> txn_local_iter" where
  "tl_next it =
     (case tl_rest it of
        [] \<Rightarrow> (Inr (), it\<lparr>tl_item := ([], [])\<rparr>)
      | e # es \<Rightarrow> (Inr (), it\<lparr>tl_rest := es, tl_item := e\<rparr>))"

definition tl_ops :: "(txn_local_iter, bytes) iter_ops" where
  "tl_ops =
     \<lparr>it_value = (\<lambda>it. Inr (snd (tl_item it))), it_key = (\<lambda>it. Inr (fst (tl_item it))),
      it_is_valid = (\<lambda>it. Inr (tl_is_valid it)), it_next = tl_next, it_num_active = (\<lambda>_. 1)\<rparr>"

definition txn_local_create ::
    "('n, bytes, bytes) skip_ops \<Rightarrow> 'n \<Rightarrow> bytes bound \<Rightarrow> bytes bound \<Rightarrow> txn_local_iter" where
  "txn_local_create L m lower upper =
     snd (tl_next \<lparr>tl_rest = sm_range L (map_bound lower) (map_bound upper) m, tl_item = ([], [])\<rparr>)"

definition tl_inv :: "txn_local_iter \<Rightarrow> bool" where
  "tl_inv it \<longleftrightarrow>
     (if tl_is_valid it then sorted1 (tl_item it # tl_rest it) else tl_rest it = []) \<and>
     (\<forall>e \<in> set (tl_rest it). fst e \<noteq> [])"

definition tl_cont :: "txn_local_iter \<Rightarrow> (bytes \<times> bytes) list" where
  "tl_cont it = (if tl_is_valid it then tl_item it # tl_rest it else [])"

lemma tl_next_ok:
  assumes "tl_inv it"
  shows "\<exists>it'. tl_next it = (Inr (), it') \<and> tl_inv it' \<and> tl_cont it' = tl (tl_cont it)"
  using assms
  by (cases "tl_rest it") (auto simp: tl_next_def tl_inv_def tl_cont_def tl_is_valid_def split: if_splits)

interpretation txn_local: sorted_iterator tl_ops tl_inv tl_cont
proof
  fix it
  assume iv: "tl_inv it"
  show "it_is_valid tl_ops it = Inr (tl_cont it \<noteq> [])" by (simp add: tl_ops_def tl_cont_def)
  show "\<exists>it'. it_next tl_ops it = (Inr (), it') \<and> tl_inv it' \<and> tl_cont it' = tl (tl_cont it)"
    using tl_next_ok [OF iv] by (simp add: tl_ops_def)
  show "sorted1 (tl_cont it)" using iv by (auto simp: tl_inv_def tl_cont_def split: if_splits)
  fix x xs
  assume "tl_cont it = x # xs"
  then show "it_key tl_ops it = Inr (fst x)" "it_value tl_ops it = Inr (snd x)"
    by (simp_all add: tl_cont_def tl_ops_def split: if_splits)
qed

text \<open>As in a memtable, an entry with an empty key would hide everything; without one all is seen.\<close>

lemma txn_local_create_ok:
  assumes L: "skip_map L" and ne: "\<forall>e \<in> set (sm_iter L m). fst e \<noteq> []"
  shows "tl_inv (txn_local_create L m lower upper) \<and>
    tl_cont (txn_local_create L m lower upper) = filter (\<lambda>e. in_bounds lower upper (fst e)) (sm_iter L m)"
proof -
  have r: "sm_range L lower upper m = filter (\<lambda>e. in_bounds lower upper (fst e)) (sm_iter L m)"
    by (rule skip_map.range_iter [OF L])
  have s: "sorted1 (sm_range L lower upper m)" by (rule skip_map.range_sorted [OF L])
  have k: "\<forall>e \<in> set (sm_range L lower upper m). fst e \<noteq> []" using ne by (simp add: r)
  show ?thesis
    using s k unfolding r [symmetric]
    by (cases "sm_range L lower upper m")
      (simp_all add: txn_local_create_def tl_next_def tl_inv_def tl_cont_def tl_is_valid_def)
qed

lemma take_1_tl: "set (take n (tl xs)) \<union> set (take (Suc 0) xs) = set (take (Suc n) xs)"
  by (cases xs) simp_all

lemma map_of_filter_value:
  "distinct (map fst es) \<Longrightarrow> map_of (filter (\<lambda>e. P (snd e)) es) k =
    (case map_of es k of None \<Rightarrow> None | Some v \<Rightarrow> if P v then Some v else None)"
proof (induction es)
  case (Cons e es)
  then have "map_of es (fst e) = None" by (simp add: map_of_eq_None_iff)
  with Cons show ?case by (cases e) (auto split: option.split)
qed simp

section \<open>The iterator of a transaction\<close>

record ('n, 'i) txn_iter =
  xi_txn :: "'n transaction"
  xi_iter :: 'i

definition xi_record_read_key ::
    "(bytes \<Rightarrow> u32) \<Rightarrow> ('i, bytes) iter_ops \<Rightarrow> ('n, 'i) txn_iter \<Rightarrow> ('n, 'i) txn_iter res" where
  "xi_record_read_key h d it =
     and_then (it_is_valid d (xi_iter it)) (\<lambda>valid.
     if \<not> valid then Inr it
     else
       (case tx_key_hashes (xi_txn it) of
          None \<Rightarrow> Inr it
        | Some _ \<Rightarrow>
            and_then (it_key d (xi_iter it)) (\<lambda>key.
            Inr (it\<lparr>xi_txn := record_hash h key (xi_txn it)\<rparr>))))"

definition xi_skip_key :: "('i, bytes) iter_ops \<Rightarrow> 'i \<Rightarrow> unit res \<times> 'i" where
  "xi_skip_key d i =
     (case it_key d i of Inl e \<Rightarrow> (Inl e, i) | Inr key \<Rightarrow> it_skip_while d (\<lambda>k. k = key) i)"

definition xi_move_to_non_delete :: "('i, bytes) iter_ops \<Rightarrow> 'i \<Rightarrow> unit res \<times> 'i" where
  "xi_move_to_non_delete d =
     loop_until (\<lambda>i.
       case it_is_valid d i of
         Inl e \<Rightarrow> (Some (Inl e), i)
       | Inr False \<Rightarrow> (Some (Inr ()), i)
       | Inr True \<Rightarrow>
           (case it_value d i of
              Inl e \<Rightarrow> (Some (Inl e), i)
            | Inr v \<Rightarrow>
                if v \<noteq> [] then (Some (Inr ()), i)
                else (case xi_skip_key d i of
                        (Inl e, i') \<Rightarrow> (Some (Inl e), i')
                      | (Inr _, i') \<Rightarrow> (None, i'))))"

definition xi_create ::
    "(bytes \<Rightarrow> u32) \<Rightarrow> ('i, bytes) iter_ops \<Rightarrow> 'n transaction \<Rightarrow> 'i \<Rightarrow> ('n, 'i) txn_iter res" where
  "xi_create h d txn i =
     (case xi_move_to_non_delete d i of
        (Inl e, _) \<Rightarrow> Inl e
      | (Inr _, i) \<Rightarrow> xi_record_read_key h d \<lparr>xi_txn = txn, xi_iter = i\<rparr>)"

definition xi_next ::
    "(bytes \<Rightarrow> u32) \<Rightarrow> ('i, bytes) iter_ops \<Rightarrow> ('n, 'i) txn_iter \<Rightarrow> unit res \<times> ('n, 'i) txn_iter" where
  "xi_next h d it =
     (case xi_skip_key d (xi_iter it) of
        (Inl e, i) \<Rightarrow> (Inl e, it\<lparr>xi_iter := i\<rparr>)
      | (Inr _, i) \<Rightarrow>
     (case xi_move_to_non_delete d i of
        (Inl e, i) \<Rightarrow> (Inl e, it\<lparr>xi_iter := i\<rparr>)
      | (Inr _, i) \<Rightarrow>
     (case xi_record_read_key h d (it\<lparr>xi_iter := i\<rparr>) of
        Inl e \<Rightarrow> (Inl e, it\<lparr>xi_iter := i\<rparr>)
      | Inr it \<Rightarrow> (Inr (), it))))"

definition xi_ops ::
    "(bytes \<Rightarrow> u32) \<Rightarrow> ('i, bytes) iter_ops \<Rightarrow> (('n, 'i) txn_iter, bytes) iter_ops" where
  "xi_ops h d =
     \<lparr>it_value = (\<lambda>it. it_value d (xi_iter it)), it_key = (\<lambda>it. it_key d (xi_iter it)),
      it_is_valid = (\<lambda>it. it_is_valid d (xi_iter it)), it_next = xi_next h d,
      it_num_active = (\<lambda>it. it_num_active d (xi_iter it))\<rparr>"

definition xi_inv :: "('i \<Rightarrow> bool) \<Rightarrow> ('i \<Rightarrow> (bytes \<times> bytes) list) \<Rightarrow> ('n, 'i) txn_iter \<Rightarrow> bool" where
  "xi_inv iinv cont it \<longleftrightarrow> iinv (xi_iter it) \<and> (case cont (xi_iter it) of [] \<Rightarrow> True | e # _ \<Rightarrow> snd e \<noteq> [])"

definition xi_cont :: "('i \<Rightarrow> (bytes \<times> bytes) list) \<Rightarrow> ('n, 'i) txn_iter \<Rightarrow> (bytes \<times> bytes) list" where
  "xi_cont cont it = filter (\<lambda>e. snd e \<noteq> []) (cont (xi_iter it))"

text \<open>The loops ask for the key even past the last entry, so the merged iterator must have one there.\<close>

locale txn_iterator = sorted_iterator d iinv cont
  for d :: "('i, bytes) iter_ops" and iinv cont +
  assumes key_end: "iinv i \<Longrightarrow> cont i = [] \<Longrightarrow> \<exists>k. it_key d i = Inr k"

context txn_iterator
begin

lemma skip_key: "iinv i \<Longrightarrow> \<exists>i'. xi_skip_key d i = (Inr (), i') \<and> iinv i' \<and> cont i' = tl (cont i)"
proof (cases "cont i")
  case Nil
  assume i: "iinv i"
  obtain k where k: "it_key d i = Inr k" using key_end [OF i Nil] by blast
  obtain i' where "it_skip_while d (\<lambda>x. x = k) i = (Inr (), i')" "iinv i'"
      "cont i' = dropWhile (\<lambda>x. fst x = k) (cont i)"
    using skip_while [OF i, of "\<lambda>x. x = k"] by blast
  then show ?thesis by (simp add: xi_skip_key_def k Nil)
next
  case (Cons e es)
  assume i: "iinv i"
  obtain i' where i': "it_skip_while d (\<lambda>x. x = fst e) i = (Inr (), i')" "iinv i'"
      "cont i' = dropWhile (\<lambda>x. fst x = fst e) (cont i)"
    using skip_while [OF i, of "\<lambda>x. x = fst e"] by blast
  have "dropWhile (\<lambda>x. fst x = fst e) es = es"
    using sorted [OF i] Cons by (cases es) auto
  then show ?thesis using i' Cons by (simp add: xi_skip_key_def key [OF i Cons])
qed

lemma move_to_non_delete:
  "iinv i \<Longrightarrow> \<exists>i'. xi_move_to_non_delete d i = (Inr (), i') \<and> iinv i' \<and>
    cont i' = dropWhile (\<lambda>e. snd e = []) (cont i)"
proof (induction "length (cont i)" arbitrary: i)
  case 0
  then show ?case
    by (simp add: xi_move_to_non_delete_def loop_until_unfold [where s = i] valid)
next
  case (Suc n)
  obtain e es where Cons: "cont i = e # es" using Suc.hyps(2) by (cases "cont i") auto
  show ?case
  proof (cases "snd e = []")
    case False
    with Cons Suc.prems show ?thesis
      by (simp add: xi_move_to_non_delete_def loop_until_unfold [where s = i] valid val [OF _ Cons])
  next
    case True
    obtain i1 where i1: "xi_skip_key d i = (Inr (), i1)" "iinv i1" "cont i1 = es"
      using skip_key [OF Suc.prems] Cons by auto
    have n: "n = length (cont i1)" using Suc.hyps(2) Cons i1(3) by simp
    have "xi_move_to_non_delete d i = xi_move_to_non_delete d i1"
      using Suc.prems Cons i1(1) True
      by (simp add: xi_move_to_non_delete_def loop_until_unfold [where s = i] valid val [OF _ Cons])
    then show ?thesis using Suc.hyps(1) [OF n i1(2)] i1(3) Cons True by simp
  qed
qed

lemma non_delete_cont:
  assumes "iinv i" "cont i = dropWhile (\<lambda>e. snd e = []) es"
  shows "xi_inv iinv cont \<lparr>xi_txn = t, xi_iter = i\<rparr>"
    "xi_cont cont \<lparr>xi_txn = t, xi_iter = i\<rparr> = filter (\<lambda>e. snd e \<noteq> []) es"
proof -
  have "filter (\<lambda>e. snd e \<noteq> []) (dropWhile (\<lambda>e. snd e = []) es) = filter (\<lambda>e. snd e \<noteq> []) es"
    by (induction es) simp_all
  then show "xi_cont cont \<lparr>xi_txn = t, xi_iter = i\<rparr> = filter (\<lambda>e. snd e \<noteq> []) es"
    by (simp add: xi_cont_def assms(2))
  show "xi_inv iinv cont \<lparr>xi_txn = t, xi_iter = i\<rparr>"
    using assms hd_dropWhile [of "\<lambda>e. snd e = []" es]
    by (cases "dropWhile (\<lambda>e. snd e = []) es") (auto simp: xi_inv_def)
qed

text \<open>The key of the entry an iterator stands at, if any.\<close>

lemma record_read_key:
  assumes "xi_inv iinv cont it"
  shows "\<exists>it'. xi_record_read_key h d it = Inr it' \<and> xi_iter it' = xi_iter it \<and>
    tx_key_hashes (xi_txn it') =
      add_reads (h ` fst ` set (take 1 (xi_cont cont it))) (tx_key_hashes (xi_txn it))"
proof (cases "cont (xi_iter it)")
  case Nil
  then show ?thesis
    using assms
    by (cases "tx_key_hashes (xi_txn it)")
      (simp_all add: xi_record_read_key_def valid xi_inv_def xi_cont_def add_reads_def)
next
  case (Cons e es)
  then show ?thesis
    using assms
    by (cases "tx_key_hashes (xi_txn it)")
      (simp_all add: xi_record_read_key_def valid key xi_inv_def xi_cont_def add_reads_def split: prod.split)
qed

lemma create_ok:
  assumes "iinv i"
  shows "\<exists>it. xi_create h d t i = Inr it \<and> xi_inv iinv cont it \<and>
    xi_cont cont it = filter (\<lambda>e. snd e \<noteq> []) (cont i) \<and>
    tx_key_hashes (xi_txn it) = add_reads (h ` fst ` set (take 1 (xi_cont cont it))) (tx_key_hashes t)"
proof -
  obtain i' where i': "xi_move_to_non_delete d i = (Inr (), i')" "iinv i'"
      "cont i' = dropWhile (\<lambda>e. snd e = []) (cont i)"
    using move_to_non_delete [OF assms] by blast
  have "xi_create h d t i = xi_record_read_key h d \<lparr>xi_txn = t, xi_iter = i'\<rparr>"
    by (simp add: xi_create_def i'(1))
  with record_read_key [OF non_delete_cont(1) [OF i'(2,3)], of h t] non_delete_cont [OF i'(2,3), of t]
  show ?thesis by (auto simp: xi_inv_def xi_cont_def)
qed

lemma xi_next_ok:
  assumes "xi_inv iinv cont it"
  shows "\<exists>it'. xi_next h d it = (Inr (), it') \<and> xi_inv iinv cont it' \<and>
    xi_cont cont it' = tl (xi_cont cont it) \<and>
    tx_key_hashes (xi_txn it') =
      add_reads (h ` fst ` set (take 1 (xi_cont cont it'))) (tx_key_hashes (xi_txn it))"
proof -
  obtain t i where it: "it = \<lparr>xi_txn = t, xi_iter = i\<rparr>" by (cases it)
  have i: "iinv i" and hd: "case cont i of [] \<Rightarrow> True | e # _ \<Rightarrow> snd e \<noteq> []"
    using assms by (simp_all add: it xi_inv_def)
  obtain i1 where i1: "xi_skip_key d i = (Inr (), i1)" "iinv i1" "cont i1 = tl (cont i)"
    using skip_key [OF i] by blast
  obtain i2 where i2: "xi_move_to_non_delete d i1 = (Inr (), i2)" "iinv i2"
      "cont i2 = dropWhile (\<lambda>e. snd e = []) (cont i1)"
    using move_to_non_delete [OF i1(2)] by blast
  have "filter (\<lambda>e. snd e \<noteq> []) (tl (cont i)) = tl (filter (\<lambda>e. snd e \<noteq> []) (cont i))"
    using hd by (cases "cont i") simp_all
  then have c: "xi_cont cont \<lparr>xi_txn = t, xi_iter = i2\<rparr> = tl (xi_cont cont it)"
    using non_delete_cont(2) [OF i2(2,3), of t] i1(3) by (simp add: it xi_cont_def)
  obtain it' where it': "xi_record_read_key h d \<lparr>xi_txn = t, xi_iter = i2\<rparr> = Inr it'" "xi_iter it' = i2"
      "tx_key_hashes (xi_txn it') =
        add_reads (h ` fst ` set (take 1 (xi_cont cont \<lparr>xi_txn = t, xi_iter = i2\<rparr>))) (tx_key_hashes t)"
    using record_read_key [OF non_delete_cont(1) [OF i2(2,3)], of h t] by auto
  have "xi_inv iinv cont it'" "xi_cont cont it' = tl (xi_cont cont it)"
    using non_delete_cont(1) [OF i2(2,3), of t] c it'(2) by (simp_all add: xi_inv_def xi_cont_def)
  moreover have "xi_next h d it = (Inr (), it')" using i1(1) i2(1) it'(1) by (simp add: xi_next_def it)
  ultimately show ?thesis using it'(3) c by (intro exI [of _ it']) (simp add: it)
qed

end

sublocale txn_iterator \<subseteq> out: sorted_iterator "xi_ops h d" "xi_inv iinv cont" "xi_cont cont" for h
proof
  fix it :: "('n, 'i) txn_iter"
  assume iv: "xi_inv iinv cont it"
  then have i: "iinv (xi_iter it)" by (simp add: xi_inv_def)
  have ne: "xi_cont cont it = [] \<longleftrightarrow> cont (xi_iter it) = []"
    using iv by (cases "cont (xi_iter it)") (simp_all add: xi_inv_def xi_cont_def)
  show "it_is_valid (xi_ops h d) it = Inr (xi_cont cont it \<noteq> [])"
    using i by (simp add: xi_ops_def valid ne)
  show "\<exists>it'. it_next (xi_ops h d) it = (Inr (), it') \<and> xi_inv iinv cont it' \<and>
      xi_cont cont it' = tl (xi_cont cont it)"
    using xi_next_ok [OF iv, of h] by (auto simp: xi_ops_def)
  show "sorted1 (xi_cont cont it)" using sorted [OF i] by (simp add: xi_cont_def sorted1_filter)
  fix x xs
  assume c: "xi_cont cont it = x # xs"
  then obtain ys where ys: "cont (xi_iter it) = x # ys"
    using iv by (cases "cont (xi_iter it)") (auto simp: xi_inv_def xi_cont_def)
  show "it_key (xi_ops h d) it = Inr (fst x)" "it_value (xi_ops h d) it = Inr (snd x)"
    using key [OF i ys] val [OF i ys] by (simp_all add: xi_ops_def)
qed

text \<open>\<open>n\<close> calls of \<open>next\<close>.\<close>

fun it_steps :: "('i, 'k) iter_ops \<Rightarrow> nat \<Rightarrow> 'i \<Rightarrow> unit res \<times> 'i" where
  "it_steps d 0 i = (Inr (), i)"
| "it_steps d (Suc n) i = (case it_next d i of (Inl e, i) \<Rightarrow> (Inl e, i) | (Inr _, i) \<Rightarrow> it_steps d n i)"

context txn_iterator
begin

text \<open>The read set grows by the keys the iterator shows on its way.\<close>

lemma steps_reads:
  assumes "xi_inv iinv cont it"
  shows "\<exists>it'. it_steps (xi_ops h d) n it = (Inr (), it') \<and>
    tx_key_hashes (xi_txn it') =
      add_reads (h ` fst ` set (take n (tl (xi_cont cont it)))) (tx_key_hashes (xi_txn it))"
  using assms
proof (induction n arbitrary: it)
  case 0
  then show ?case by (simp add: add_reads_empty)
next
  case (Suc n)
  obtain it1 where it1: "xi_next h d it = (Inr (), it1)" "xi_inv iinv cont it1"
      "xi_cont cont it1 = tl (xi_cont cont it)"
      "tx_key_hashes (xi_txn it1) =
        add_reads (h ` fst ` set (take 1 (xi_cont cont it1))) (tx_key_hashes (xi_txn it))"
    using xi_next_ok [OF Suc.prems, of h] by blast
  obtain it' where it': "it_steps (xi_ops h d) n it1 = (Inr (), it')"
      "tx_key_hashes (xi_txn it') =
        add_reads (h ` fst ` set (take n (tl (xi_cont cont it1)))) (tx_key_hashes (xi_txn it1))"
    using Suc.IH [OF it1(2)] by blast
  have "it_steps (xi_ops h d) (Suc n) it = (Inr (), it')" using it1(1) it'(1) by (simp add: xi_ops_def)
  with it'(2) show ?case
    by (simp add: it1(3,4) add_reads_Un take_1_tl flip: image_Un)
qed

end

section \<open>Scanning\<close>

definition txn_inner_ops ::
    "(bytes \<Rightarrow> u32) \<Rightarrow> ((txn_local_iter, lsm_inner lsm_iter fused_iter) two_merge_iter, bytes) iter_ops" where
  "txn_inner_ops crc = two_merge_ops tl_ops (scan_ops crc)"

definition txn_scan ::
    "(bytes \<Rightarrow> u32) \<Rightarrow> ('n, bytes, bytes) skip_ops \<Rightarrow> (bytes \<Rightarrow> u32) \<Rightarrow> ('m, key, bytes) skip_ops \<Rightarrow>
     'm storage \<Rightarrow> bytes bound \<Rightarrow> bytes bound \<Rightarrow> 'n transaction \<Rightarrow>
     ('n, (txn_local_iter, lsm_inner lsm_iter fused_iter) two_merge_iter) txn_iter res" where
  "txn_scan h L crc S inner lower upper t =
     and_then (scan_with_ts crc S inner lower upper (tx_read_ts t)) (\<lambda>lsm_iter.
     let local_iter = txn_local_create L (tx_local_storage t) lower upper in
     xi_create h (txn_inner_ops crc) t (two_merge_create tl_ops (scan_ops crc) local_iter lsm_iter))"

abbreviation txn_inner_inv where
  "txn_inner_inv crc \<equiv> two_merge_inv tl_inv (scan_inv crc)"

abbreviation txn_inner_cont where
  "txn_inner_cont crc \<equiv> two_merge_cont tl_cont (scan_cont crc)"

interpretation txn_merge: two_merge tl_ops tl_inv tl_cont "scan_ops crc" "scan_inv crc" "scan_cont crc" ..

interpretation txn_scanning: txn_iterator "txn_inner_ops crc" "txn_inner_inv crc" "txn_inner_cont crc"
  unfolding txn_inner_ops_def
proof
  fix i
  assume "txn_inner_inv crc i" "txn_inner_cont crc i = []"
  then show "\<exists>k. it_key (two_merge_ops tl_ops (scan_ops crc)) i = Inr k"
    using txn_merge.from_a [of i crc]
    by (auto simp: two_merge_ops_def two_merge_key_def two_merge_inv_def two_merge_cont_def tl_ops_def)
qed

lemma txn_scan_ok:
  assumes S: "skip_map S" and L: "skip_map L" and ok: "state_ok crc fp S (sg_state s)"
    and ne: "\<forall>e \<in> set (sm_iter L (tx_local_storage t)). fst e \<noteq> []"
  obtains it where "txn_scan h L crc S s lower upper t = Inr it"
    "xi_inv (txn_inner_inv crc) (txn_inner_cont crc) it"
    "map_of (xi_cont (txn_inner_cont crc) it) = (\<lambda>u. if in_bounds lower upper u then
       txn_view (own_writes L t) (visible_get (tx_read_ts t) (state_entries crc S (sg_state s))) u else None)"
    "tx_key_hashes (xi_txn it) =
       add_reads (h ` fst ` set (take 1 (xi_cont (txn_inner_cont crc) it))) (tx_key_hashes t)"
proof -
  let ?es = "visible (tx_read_ts t) (state_entries crc S (sg_state s))"
  let ?own = "sm_iter L (tx_local_storage t)"
  obtain b where b: "scan_with_ts crc S s lower upper (tx_read_ts t) = Inr b" "scan_inv crc b"
    "scan_cont crc b = filter (\<lambda>x. in_bounds lower upper (fst x)) ?es"
    using scan_with_ts_ok [OF S ok] by blast
  define a where "a = txn_local_create L (tx_local_storage t) lower upper"
  have a: "tl_inv a" "tl_cont a = filter (\<lambda>e. in_bounds lower upper (fst e)) ?own"
    unfolding a_def using txn_local_create_ok [OF L ne, of lower upper] by blast+
  let ?i = "two_merge_create tl_ops (scan_ops crc) a b"
  have i: "txn_inner_inv crc ?i" "txn_inner_cont crc ?i = kmerge (tl_cont a) (scan_cont crc b)"
    using a(1) b(2) by (simp_all add: two_merge_create_def two_merge_inv_def two_merge_cont_def)
  obtain it where it: "xi_create h (txn_inner_ops crc) t ?i = Inr it"
    "xi_inv (txn_inner_inv crc) (txn_inner_cont crc) it"
    "xi_cont (txn_inner_cont crc) it = filter (\<lambda>e. snd e \<noteq> []) (txn_inner_cont crc ?i)"
    "tx_key_hashes (xi_txn it) =
       add_reads (h ` fst ` set (take 1 (xi_cont (txn_inner_cont crc) it))) (tx_key_hashes t)"
    using txn_scanning.create_ok [OF i(1), of h t] by blast
  have s: "sorted1 ?es" "sorted1 ?own"
    using sorted1_visible [OF sorted1_state_entries] skip_map.iter_sorted [OF L] by blast+
  have m: "map_of (txn_inner_cont crc ?i) u = (if in_bounds lower upper u then
      (case map_of ?own u of None \<Rightarrow> map_of ?es u | Some v \<Rightarrow> Some v) else None)" for u
    unfolding i(2) a(2) b(3) map_of_kmerge [OF sorted1_filter [OF s(2)] sorted1_filter [OF s(1)]]
    by (simp add: map_add_def map_of_filter_key [where p = "in_bounds lower upper"] split: option.split)
  have vis: "map_of ?es u \<noteq> Some []" for u
    unfolding map_of_visible [OF sorted1_state_entries]
    using visible_get_iff [OF sorted1_state_entries, of "tx_read_ts t" crc S "sg_state s" u "[]"] by simp
  have d: "distinct (map fst (txn_inner_cont crc ?i))"
    using txn_scanning.sorted [OF i(1)] by (rule sorted1_distinct)
  have "map_of (xi_cont (txn_inner_cont crc) it) u = (if in_bounds lower upper u then
      txn_view (own_writes L t) (visible_get (tx_read_ts t) (state_entries crc S (sg_state s))) u else None)" for u
    unfolding it(3) map_of_filter_value [where P = "\<lambda>v. v \<noteq> []", OF d] m map_of_visible [OF sorted1_state_entries, symmetric] txn_view_def
      own_writes_def
    using vis [of u] by (auto split: option.splits)
  then show thesis
    using that it b(1) unfolding txn_scan_def a_def by (simp add: Let_def fun_eq_iff)
qed

section \<open>Properties\<close>

text \<open>A new storage with serializable transactions, and a transaction among other work on it.\<close>

definition session_storage :: "(key, bytes) rbt storage" where
  "session_storage = fresh_storage rbt_ops
     ((default_for_week2_test (SimpleOptions compacting_options))\<lparr>opt_serializable := True\<rparr>)"

definition sample_session :: "upkeep session_step list" where
  "sample_session =
     [TxnGet [1], TxnWrite (Put [1] [5]), Other (Write [Put [1] [9]]), TxnWrite (Del [2]),
      Other (Maintain CompactionTick)]"

lemma session_storage_good: "compaction_good (\<lambda>_. 0) (\<lambda>_. 1) rbt_ops manifest_log session_storage"
proof -
  let ?o = "(default_for_week2_test (SimpleOptions compacting_options))\<lparr>opt_serializable := True\<rparr>"
  have "levels_positive (opt_compaction_options ?o)" "0 < opt_target_sst_size ?o" "opt_block_size ?o \<le> 65536"
    by (simp_all add: levels_positive_def default_for_week2_test_def compacting_options_def)
  note fresh = fresh_storage_ok [OF rbt.skip_map_axioms this, folded session_storage_def]
  have "tuned (sg_controller session_storage)"
    by (simp add: session_storage_def tuned_def fresh_storage_def controller_of_def default_for_week2_test_def)
  with fresh show ?thesis
    by (simp add: compaction_good_def storage_good_def rbt.skip_map_axioms manifest_log_works no_tombstones_def)
qed



text \<open>
  C16: A scan inside a transaction agrees with its point reads: on a well-formed storage, with no
  private write to the empty key, it starts and runs without an error and produces, ascending and
  each key once, exactly the pairs within the bounds that \<open>get\<close> returns, private writes over the
  snapshot and private deletions left out. After \<open>n\<close> further steps the read set has grown by the
  hashes of exactly the keys shown so far.
\<close>

theorem txn_scan_agrees_with_get:
  assumes "skip_map S" "skip_map L" "state_ok crc fp S (sg_state s)"
    and "\<forall>e \<in> set (sm_iter L (tx_local_storage t)). fst e \<noteq> []"
  shows "\<exists>it es. txn_scan h L crc S s lower upper t = Inr it \<and>
    it_drain (xi_ops h (txn_inner_ops crc)) (length es) it = Inr es \<and> sorted1 es \<and>
    (\<forall>u v. (u, v) \<in> set es \<longleftrightarrow>
      in_bounds lower upper u \<and> fst (txn_get h L crc fp S s u t) = Inr (Some v)) \<and>
    (\<forall>n. \<exists>it'. it_steps (xi_ops h (txn_inner_ops crc)) n it = (Inr (), it') \<and>
      tx_key_hashes (xi_txn it') = add_reads (h ` fst ` set (take (Suc n) es)) (tx_key_hashes t))"
proof -
  let ?snap = "visible_get (tx_read_ts t) (state_entries crc S (sg_state s))"
  obtain it where it: "txn_scan h L crc S s lower upper t = Inr it"
    "xi_inv (txn_inner_inv crc) (txn_inner_cont crc) it"
    "map_of (xi_cont (txn_inner_cont crc) it) =
       (\<lambda>u. if in_bounds lower upper u then txn_view (own_writes L t) ?snap u else None)"
    "tx_key_hashes (xi_txn it) =
       add_reads (h ` fst ` set (take 1 (xi_cont (txn_inner_cont crc) it))) (tx_key_hashes t)"
    by (rule txn_scan_ok [OF assms])
  let ?c = "xi_cont (txn_inner_cont crc) it"
  have s: "sorted1 ?c" by (rule txn_scanning.out.sorted [OF it(2)])
  have get: "txn_get h L crc fp S s u t = (Inr (txn_view (own_writes L t) ?snap u), record_hash h u t)" for u
    by (rule txn_get_view [OF assms(2)]) (rule get_with_ts_ok [OF assms(1,3)])
  have "(u, v) \<in> set ?c \<longleftrightarrow> in_bounds lower upper u \<and> fst (txn_get h L crc fp S s u t) = Inr (Some v)" for u v
    using map_of_eq_Some_iff [OF sorted1_distinct [OF s], of u v]
    by (auto simp: get it(3) split: if_splits)
  moreover have "\<exists>it'. it_steps (xi_ops h (txn_inner_ops crc)) n it = (Inr (), it') \<and>
      tx_key_hashes (xi_txn it') = add_reads (h ` fst ` set (take (Suc n) ?c)) (tx_key_hashes t)" for n
    using txn_scanning.steps_reads [OF it(2), of h n]
    by (auto simp: it(4) add_reads_Un take_1_tl simp flip: image_Un)
  ultimately show ?thesis
    using it(1) s txn_scanning.out.drain [OF it(2) order_refl, of h]
    by (intro exI [of _ it] exI [of _ ?c]) blast
qed

theorem txn_scan_agrees_with_get_witness:
  "\<exists>it es. txn_scan (\<lambda>_. 7) rbt_ops (\<lambda>_. 0) rbt_ops sample_storage Unbounded (Excluded [9])
      (txn_put (\<lambda>_. 7) rbt_ops [4] [4] (storage_new_txn rbt_ops sample_storage)) = Inr it \<and>
    it_drain (xi_ops (\<lambda>_. 7) (txn_inner_ops (\<lambda>_. 0))) (length es) it = Inr es \<and> sorted1 es \<and>
    (\<forall>u v. (u, v) \<in> set es \<longleftrightarrow>
      in_bounds Unbounded (Excluded [9]) u \<and>
      fst (txn_get (\<lambda>_. 7) rbt_ops (\<lambda>_. 0) (\<lambda>_. 1) rbt_ops sample_storage u
        (txn_put (\<lambda>_. 7) rbt_ops [4] [4] (storage_new_txn rbt_ops sample_storage))) = Inr (Some v)) \<and>
    (\<forall>n. \<exists>it'. it_steps (xi_ops (\<lambda>_. 7) (txn_inner_ops (\<lambda>_. 0))) n it = (Inr (), it') \<and>
      tx_key_hashes (xi_txn it') = add_reads ((\<lambda>_. 7) ` fst ` set (take (Suc n) es))
        (tx_key_hashes (txn_put (\<lambda>_. 7) rbt_ops [4] [4] (storage_new_txn rbt_ops sample_storage))))"
  by (rule txn_scan_agrees_with_get [OF rbt.skip_map_axioms rbt.skip_map_axioms])
    (simp_all add: sample_storage_def sample_state_ok storage_new_txn_def new_txn_def rbt.iter_new
      rbt.set_insert)

end
