(* ===== verification/MiniLsm.thy ===== *)
theory MiniLsm
  imports Recovery Txn
begin

text \<open>
  \<open>MiniLsm\<close> of \<open>src/lsm_storage.rs\<close>, the handle of the client: \<open>open\<close>, which starts the background
  threads, \<open>close\<close>, which stops them and writes out what is in memory, and the methods that are
  passed on to \<open>LsmStorageInner\<close>. \<open>force_flush\<close> is in the theory \<open>Writes\<close>.
\<close>

section \<open>The handle\<close>

text \<open>A thread is there until it was joined.\<close>

record 'm mini_lsm =
  ml_inner :: "'m storage"
  ml_flush_thread :: bool
  ml_compaction_thread :: bool

definition mini_open ::
    "(bytes \<Rightarrow> u32) \<Rightarrow> ('m, key, bytes) skip_ops \<Rightarrow> manifest_ops \<Rightarrow> lsm_options \<Rightarrow> directory \<Rightarrow> 'm mini_lsm res" where
  "mini_open crc S M options dir =
     and_then (storage_open crc S M options dir) (\<lambda>s.
     Inr \<lparr>ml_inner = s, ml_flush_thread = True,
          ml_compaction_thread = (case opt_compaction_options options of NoCompaction \<Rightarrow> False | _ \<Rightarrow> True)\<rparr>)"

text \<open>\<open>Drop\<close> tells the threads to stop; they are not waited for.\<close>

definition on_inner ::
    "('m storage \<Rightarrow> 'a res \<times> 'm storage) \<Rightarrow> 'm mini_lsm \<Rightarrow> 'a res \<times> 'm mini_lsm" where
  "on_inner f m = (case f (ml_inner m) of (r, s) \<Rightarrow> (r, m\<lparr>ml_inner := s\<rparr>))"

definition mini_new_txn :: "('n, bytes, bytes) skip_ops \<Rightarrow> 'm mini_lsm \<Rightarrow> 'n transaction" where
  "mini_new_txn T m = storage_new_txn T (ml_inner m)"

definition mini_write_batch where
  "mini_write_batch crc S M batch = on_inner (write_batch crc S M batch)"

definition mini_add_compaction_filter :: "compaction_filter \<Rightarrow> 'm mini_lsm \<Rightarrow> 'm mini_lsm" where
  "mini_add_compaction_filter f m = m\<lparr>ml_inner := add_compaction_filter f (ml_inner m)\<rparr>"

definition mini_get where
  "mini_get crc fp S m key = storage_get crc fp S (ml_inner m) key"

definition mini_put where
  "mini_put crc S M key value = on_inner (storage_put crc S M key value)"

definition mini_delete where
  "mini_delete crc S M key = on_inner (storage_delete crc S M key)"

definition mini_sync :: "'m mini_lsm \<Rightarrow> unit res \<times> 'm mini_lsm" where
  "mini_sync = on_inner storage_sync"

definition mini_scan where
  "mini_scan crc S m lower upper = storage_scan crc S (ml_inner m) lower upper"

definition mini_force_flush where
  "mini_force_flush crc fp S M = on_inner (force_flush crc fp S M)"

definition mini_force_full_compaction where
  "mini_force_full_compaction crc fp = on_inner (force_full_compaction crc fp)"

section \<open>Closing\<close>

text \<open>
  \<open>force_freeze_memtable\<close> and \<open>force_flush_next_imm_memtable\<close> up to the point where they ask for the
  write lock of the state.
\<close>

definition freeze_prepare ::
    "('m, key, bytes) skip_ops \<Rightarrow> manifest_ops \<Rightarrow> 'm storage \<Rightarrow> 'm lsm_state res \<times> 'm storage" where
  "freeze_prepare S M s =
     (let st = sg_state s;
          new_storage_state = st\<lparr>ls_imm_memtables := ls_memtable st # ls_imm_memtables st\<rparr>;
          (memtable_id, s) = next_sst_id s
      in case (if opt_enable_wal (sg_options s)
               then mt_create_with_wal S memtable_id (sg_wal_files s memtable_id)
               else Inr (mt_create S memtable_id)) of
           Inl e \<Rightarrow> (Inl e, s)
         | Inr memtable \<Rightarrow>
             let s = (if opt_enable_wal (sg_options s)
                      then s\<lparr>sg_wal_files := (sg_wal_files s)(memtable_id \<mapsto> [])\<rparr> else s)
             in st_then (add_record M (NewMemtable (mt_id memtable)) s) (\<lambda>_ s.
                (Inr (new_storage_state\<lparr>ls_memtable := memtable\<rparr>), s)))"

lemma force_freeze_split:
  "force_freeze_memtable S M s = st_then (freeze_prepare S M s) (\<lambda>st s. (Inr (), s\<lparr>sg_state := st\<rparr>))"
  by (simp add: force_freeze_memtable_def freeze_prepare_def next_sst_id_def add_record_def Let_def split: sum.split)

text \<open>
  \<open>state.write()\<close> by a thread that holds a read guard of the same lock waits for itself: the lock of
  \<open>parking_lot\<close> is not reentrant.
\<close>

definition write_while_reading :: "'m storage \<Rightarrow> unit res \<times> 'm storage" where
  "write_while_reading s = (Inl Diverges, s)"

definition freeze_while_reading ::
    "('m, key, bytes) skip_ops \<Rightarrow> manifest_ops \<Rightarrow> 'm storage \<Rightarrow> unit res \<times> 'm storage" where
  "freeze_while_reading S M s = st_then (freeze_prepare S M s) (\<lambda>_ s. write_while_reading s)"

definition flush_while_reading ::
    "(bytes \<Rightarrow> u32) \<Rightarrow> (bytes \<Rightarrow> u32) \<Rightarrow> ('m, key, bytes) skip_ops \<Rightarrow> 'm storage \<Rightarrow> unit res \<times> 'm storage" where
  "flush_while_reading crc fp S s =
     st_then (flush_build crc fp S s) (\<lambda>t s. case t of None \<Rightarrow> (Inr (), s) | Some _ \<Rightarrow> write_while_reading s)"

text \<open>
  \<open>close\<close> keeps the read guard in the variable \<open>snapshot\<close> until it returns. Its loop tests the
  snapshot, which does not change: a second round would be like the first.
\<close>

definition storage_close ::
    "(bytes \<Rightarrow> u32) \<Rightarrow> (bytes \<Rightarrow> u32) \<Rightarrow> ('m, key, bytes) skip_ops \<Rightarrow> manifest_ops \<Rightarrow> 'm storage \<Rightarrow> unit res \<times> 'm storage" where
  "storage_close crc fp S M s =
     (if opt_enable_wal (sg_options s) then st_then (storage_sync s) (\<lambda>_. storage_sync_dir)
      else
        let snapshot = sg_state s
        in st_then (if \<not> mt_is_empty S (ls_memtable snapshot) then freeze_while_reading S M s else (Inr (), s)) (\<lambda>_ s.
           if ls_imm_memtables snapshot = [] then (Inr (), s)
           else st_then (flush_while_reading crc fp S s) (\<lambda>_ s. (Inl Diverges, s))))"

definition mini_close ::
    "(bytes \<Rightarrow> u32) \<Rightarrow> (bytes \<Rightarrow> u32) \<Rightarrow> ('m, key, bytes) skip_ops \<Rightarrow> manifest_ops \<Rightarrow> 'm mini_lsm \<Rightarrow> unit res \<times> 'm mini_lsm" where
  "mini_close crc fp S M m =
     on_inner (storage_close crc fp S M) (m\<lparr>ml_flush_thread := False, ml_compaction_thread := False\<rparr>)"

section \<open>Properties\<close>

lemma freeze_prepare_ok:
  assumes "manifest_works M" "\<not> opt_enable_wal (sg_options s)"
  shows "\<exists>st s'. freeze_prepare S M s = (Inr st, s')"
  using assms by (simp add: freeze_prepare_def next_sst_id_def add_record_def manifest_works_def Let_def)

lemma mt_is_empty_entries: "skip_map S \<Longrightarrow> mt_is_empty S mt \<longleftrightarrow> mt_entries S mt = []"
  by (simp add: mt_is_empty_def mt_entries_def skip_map.is_empty_iter)

text \<open>
  C9: When \<open>close\<close> returns. On a well-formed storage it stops the threads and returns without an
  error when the write-ahead log is enabled or when there is nothing in memory; otherwise it waits
  for its own read guard and never returns.
\<close>

theorem close_returns_iff:
  assumes "skip_map S" "manifest_works M" "storage_ok crc fp S (ml_inner m)"
  shows "fst (mini_close crc fp S M m) =
    (if opt_enable_wal (sg_options (ml_inner m)) \<or>
        mt_entries S (ls_memtable (sg_state (ml_inner m))) = [] \<and> ls_imm_memtables (sg_state (ml_inner m)) = []
     then Inr () else Inl Diverges)"
proof -
  let ?s = "ml_inner m"
  let ?st = "sg_state ?s"
  consider (wal) "opt_enable_wal (sg_options ?s)"
    | (full) "\<not> opt_enable_wal (sg_options ?s)" "mt_entries S (ls_memtable ?st) \<noteq> []"
    | (imms) "\<not> opt_enable_wal (sg_options ?s)" "mt_entries S (ls_memtable ?st) = []" "ls_imm_memtables ?st \<noteq> []"
    | (none) "\<not> opt_enable_wal (sg_options ?s)" "mt_entries S (ls_memtable ?st) = []" "ls_imm_memtables ?st = []"
    by blast
  then show ?thesis
  proof cases
    case wal
    then show ?thesis
      by (simp add: mini_close_def on_inner_def storage_close_def storage_sync_def storage_sync_dir_def)
  next
    case full
    obtain st s' where "freeze_prepare S M ?s = (Inr st, s')"
      using freeze_prepare_ok [OF assms(2) full(1)] by blast
    then show ?thesis
      using full by (simp add: mini_close_def on_inner_def storage_close_def freeze_while_reading_def
          write_while_reading_def mt_is_empty_entries [OF assms(1)] Let_def)
  next
    case imms
    obtain t s' where "flush_build crc fp S ?s = (Inr (Some t), s')"
      using flush_build_ok [OF assms(1,3) imms(3)] by blast
    then show ?thesis
      using imms by (simp add: mini_close_def on_inner_def storage_close_def flush_while_reading_def
          write_while_reading_def mt_is_empty_entries [OF assms(1)] Let_def)
  next
    case none
    then show ?thesis
      by (simp add: mini_close_def on_inner_def storage_close_def mt_is_empty_entries [OF assms(1)] Let_def)
  qed
qed

definition sample_mini :: "(key, bytes) rbt mini_lsm" where
  "sample_mini = \<lparr>ml_inner = sample_storage, ml_flush_thread = True, ml_compaction_thread = False\<rparr>"

theorem close_returns_iff_witness:
  "fst (mini_close (\<lambda>_. 0) (\<lambda>_. 1) rbt_ops manifest_log sample_mini) = Inl Diverges"
proof -
  have "map_of (mt_entries rbt_ops (ls_memtable sample_state)) (Key [6] 9) = Some [6]"
    by (simp add: sample_state_def map_mt_put_batch [OF rbt.skip_map_axioms])
  then have "mt_entries rbt_ops (ls_memtable (sg_state sample_storage)) \<noteq> []"
    by (auto simp: sample_storage_def)
  moreover have "\<not> opt_enable_wal (sg_options sample_storage)"
    by (simp add: sample_storage_def default_for_week1_test_def)
  ultimately show ?thesis
    using close_returns_iff [OF rbt.skip_map_axioms manifest_log_works, of "\<lambda>_. 0" "\<lambda>_. 1" sample_mini] sample_storage_ok
    by (simp add: sample_mini_def)
qed

section \<open>A whole life\<close>

text \<open>What is left when no table was written and nothing of the log reached the disk: nothing.\<close>

lemma reopened_empty:
  assumes S: "skip_map S" and M: "manifest_works M" and ok: "storage_ok crc fp S s" and j: "journal_ok crc S s"
    and imm: "ls_imm_memtables (sg_state s) = []" and l0: "ls_l0_sstables (sg_state s) = []"
    and disk: "map_option wal_disk (mt_wal (ls_memtable (sg_state s))) = Some []"
  shows "\<exists>s'. storage_open crc S M (sg_options s) (crash_dir s) = Inr s' \<and>
    (\<forall>u ts. get_with_ts crc fp S s' u ts = Inr None)"
proof -
  have ids: "ids_ok s" using ok by (simp add: storage_ok_def)
  have mts: "memtables (sg_state s) = [ls_memtable (sg_state s)]" by (simp add: memtables_def imm)
  have none: "ls_sstables (sg_state s) = Map.empty" using journal_shape(2) [OF j] l0 by auto
  have dir: "dir_manifest (crash_dir s) = Some (sg_manifest s)" "dir_sst_files (crash_dir s) = sg_sst_files s"
    by (simp_all add: crash_dir_def)
  have "dir_wal_files (crash_dir s) (mt_id (ls_memtable (sg_state s))) = Some []"
    using exit_dir_wal [OF ids, of "ls_memtable (sg_state s)" wal_disk] disk by (simp add: mts crash_dir_def)
  then have logs: "\<forall>mt \<in> set (memtables (sg_state s)).
      dir_wal_files (crash_dir s) (mt_id mt) = Some (log_bytes crc []) \<and> (\<forall>e \<in> set []. record_ok e \<and> key_ref (fst e) \<noteq> [])"
    by (simp add: mts log_bytes_def)
  obtain s' where s': "storage_open crc S M (sg_options s) (crash_dir s) = Inr s'"
      "rebuilt crc fp S (\<lambda>_. []) (dir_wal_files (crash_dir s)) s s'"
    using reopen_ok [OF S M ok j _ dir logs] none by auto
  have mem: "map (mt_entries S) (memtables (sg_state s')) = [[]]"
    using s'(2) recovered_keys [OF S, of "[]"] by (simp add: rebuilt_def mts)
  have tabs: "ls_sstables (sg_state s') = Map.empty" "ls_l0_sstables (sg_state s') = []"
      "\<forall>l \<in> set (ls_levels (sg_state s')). snd l = []"
    using s'(2) none l0 journal_shape(1) [OF j] by (simp_all add: rebuilt_def)
  have one: "mt_entries S (ls_memtable (sg_state s')) = []" "ls_imm_memtables (sg_state s') = []"
    using mem by (simp_all add: memtables_def)
  have st: "state_ok crc fp S (sg_state s')"
    using one tabs by (auto simp: state_ok_def live_ids_def tables_of_def level_ok_def)
  have empty: "overlay (map (\<lambda>l. Map.empty) ls) = Map.empty" for ls :: "(nat \<times> nat list) list"
    by (induction ls) auto
  have "state_map crc S (sg_state s') = Map.empty"
    unfolding state_map_def state_sources_alt [OF tabs(3)]
    by (simp add: memtables_def tables_of_def one tabs(2) empty)
  moreover have "read_at ts Map.empty u = None" for u ts
    using read_at_iff [of Map.empty ts u] by (cases "read_at ts Map.empty u") auto
  ultimately have "get_with_ts crc fp S s' u ts = Inr None" for u ts
    by (simp add: get_with_ts_read_at [OF S st])
  with s'(1) show ?thesis by blast
qed

text \<open>
  C4: The life of a database. A new directory is opened with the log enabled and a controller that
  flushes to level 0, any batches and flushes are run, and \<open>close\<close> returns without an error: it has
  joined both threads and has changed nothing else, for with the log it only synchronises the
  directory, and the buffers of the logs are not flushed by it. What becomes of the data depends
  on what comes next. When the closed handle is dropped, the buffers are written, and if the tables
  are small enough for their 32-bit offsets the directory opens again and every read at every
  timestamp answers as before (the clock may be older, which the theory \<open>RecoveryFaults\<close> is about).
  When the process exits right after \<open>close\<close>, as the program \<open>tiny-lsm-cli\<close> does, the buffers are
  lost: if nothing was frozen or flushed and the log never overflowed its buffer, the directory
  opens again and every read finds nothing.
\<close>

theorem open_run_close_open:
  assumes "skip_map S" "manifest_works M" "opt_enable_wal options"
    and "flush_to_l0 (controller_of (opt_compaction_options options))"
    and "levels_positive (opt_compaction_options options)"
    and "0 < opt_target_sst_size options" "opt_block_size options \<le> 65536"
    and "\<forall>op \<in> set ops. op_fits op" "sum_list (map ticks ops) < 2 ^ 64"
  shows "\<exists>m s m'. mini_open crc S M options empty_dir = Inr m \<and>
    run_ops (write_batch crc S M) (run_flush crc fp S M) ops (ml_inner m) = (Inr (), s) \<and>
    mini_close crc fp S M (m\<lparr>ml_inner := s\<rparr>) = (Inr (), m') \<and>
    m' = \<lparr>ml_inner = s, ml_flush_thread = False, ml_compaction_thread = False\<rparr> \<and>
    ((\<forall>i t. ls_sstables (sg_state s) i = Some t \<longrightarrow> fo_size (sst_file t) < 4294967296) \<longrightarrow>
     (\<exists>r. mini_open crc S M options (shutdown_dir (ml_inner m')) = Inr r \<and>
       (\<forall>u ts. get_with_ts crc fp S (ml_inner r) u ts = get_with_ts crc fp S s u ts))) \<and>
    (ls_imm_memtables (sg_state s) = [] \<and> ls_l0_sstables (sg_state s) = [] \<and>
     map_option wal_disk (mt_wal (ls_memtable (sg_state s))) = Some [] \<longrightarrow>
     (\<exists>r. mini_open crc S M options (crash_dir (ml_inner m')) = Inr r \<and>
       (\<forall>u ts. get_with_ts crc fp S (ml_inner r) u ts = Inr None)))"
proof -
  let ?s0 = "fresh_logged S options"
  obtain m where m: "mini_open crc S M options empty_dir = Inr m" "ml_inner m = ?s0"
    by (simp add: mini_open_def open_empty_with_wal [OF assms(2,3)])
  have good: "journaled_good crc fp S M ?s0"
    using fresh_logged_ok [OF assms(1,5-7)] fresh_logged_journal [OF assms(3,4)] assms(1,2)
    by (simp add: journaled_good_def storage_good_def)
  have "latest_commit_ts (sg_mvcc ?s0) = 0"
    by (simp add: fresh_logged_def fresh_storage_def mvcc_new_def latest_commit_ts_def)
  then obtain s where s: "run_ops (write_batch crc S M) (run_flush crc fp S M) ops ?s0 = (Inr (), s)"
      "journaled_good crc fp S M s"
    using journaled.run_ops_refines [OF good, of ops] assms(8,9) by auto
  have opts: "sg_options s = options"
    using run_ops_options [of crc S M fp ops ?s0] s(1) by (simp add: fresh_logged_def fresh_storage_def)
  have ok: "storage_ok crc fp S s" "journal_ok crc S s"
    using s(2) by (simp_all add: journaled_good_def storage_good_def)
  have drop: "\<exists>r. mini_open crc S M options (shutdown_dir s) = Inr r \<and>
      (\<forall>u ts. get_with_ts crc fp S (ml_inner r) u ts = get_with_ts crc fp S s u ts)"
    if sizes: "\<forall>i t. ls_sstables (sg_state s) i = Some t \<longrightarrow> fo_size (sst_file t) < 4294967296"
  proof -
    obtain s' where s': "storage_open crc S M options (shutdown_dir s) = Inr s'"
      "state_map crc S (sg_state s') = state_map crc S (sg_state s)"
      "storage_ok crc fp S (s'\<lparr>sg_mvcc := sg_mvcc s\<rparr>)"
      using reopened_contents [OF assms(1,2) ok sizes] unfolding opts by (elim exE conjE) (rule that)
    have states: "state_ok crc fp S (sg_state s')" "state_ok crc fp S (sg_state s)"
      using s'(3) ok(1) by (simp_all add: storage_ok_def)
    have "get_with_ts crc fp S s' u ts = get_with_ts crc fp S s u ts" for u ts
      by (simp add: get_with_ts_read_at [OF assms(1) states(1)] get_with_ts_read_at [OF assms(1) states(2)] s'(2))
    then show ?thesis using s'(1) by (simp add: mini_open_def)
  qed
  have exit: "\<exists>r. mini_open crc S M options (crash_dir s) = Inr r \<and> (\<forall>u ts. get_with_ts crc fp S (ml_inner r) u ts = Inr None)"
    if "ls_imm_memtables (sg_state s) = [] \<and> ls_l0_sstables (sg_state s) = [] \<and>
      map_option wal_disk (mt_wal (ls_memtable (sg_state s))) = Some []"
    using reopened_empty [OF assms(1,2) ok] that unfolding opts by (auto simp: mini_open_def)
  have "mini_close crc fp S M (m\<lparr>ml_inner := s\<rparr>) =
      (Inr (), \<lparr>ml_inner = s, ml_flush_thread = False, ml_compaction_thread = False\<rparr>)"
    using assms(3) opts
    by (cases m) (simp add: mini_close_def on_inner_def storage_close_def storage_sync_def storage_sync_dir_def)
  then show ?thesis
    using m s(1) drop exit
    by (intro exI [of _ m] exI [of _ s] exI [of _ "\<lparr>ml_inner = s, ml_flush_thread = False, ml_compaction_thread = False\<rparr>"]) simp
qed

lemma sample_run_buffered:
  "\<exists>s. run_ops (write_batch crc S M) (run_flush crc fp S M)
      [Write [Put [1] [2]], Write [Del [1], Put [6] [7]]] (fresh_logged S journal_options) = (Inr (), s) \<and>
    ls_imm_memtables (sg_state s) = [] \<and> ls_l0_sstables (sg_state s) = [] \<and> ls_sstables (sg_state s) = Map.empty \<and>
    map_option wal_disk (mt_wal (ls_memtable (sg_state s))) = Some []"
  by (simp add: fresh_logged_def fresh_storage_def journal_options_def default_for_week1_test_def lsm_state_create_def
      mvcc_new_def latest_commit_ts_def write_batch_def try_freeze_def mt_put_batch_def mt_put_def mt_create_def
      wal_put_def buf_write_all_def buf_capacity_def wal_record_def Let_def raw_len_def key_len_def codec_simps
      update_commit_ts_def)

theorem open_run_close_open_witness:
  "\<exists>m s m'. mini_open (\<lambda>_. 0) rbt_ops manifest_log journal_options empty_dir = Inr m \<and>
    run_ops (write_batch (\<lambda>_. 0) rbt_ops manifest_log) (run_flush (\<lambda>_. 0) (\<lambda>_. 1) rbt_ops manifest_log)
      [Write [Put [1] [2]], Write [Del [1], Put [6] [7]]] (ml_inner m) = (Inr (), s) \<and>
    mini_close (\<lambda>_. 0) (\<lambda>_. 1) rbt_ops manifest_log (m\<lparr>ml_inner := s\<rparr>) = (Inr (), m') \<and>
    (\<exists>r. mini_open (\<lambda>_. 0) rbt_ops manifest_log journal_options (shutdown_dir (ml_inner m')) = Inr r \<and>
      (\<forall>u ts. get_with_ts (\<lambda>_. 0) (\<lambda>_. 1) rbt_ops (ml_inner r) u ts = get_with_ts (\<lambda>_. 0) (\<lambda>_. 1) rbt_ops s u ts)) \<and>
    (\<exists>r. mini_open (\<lambda>_. 0) rbt_ops manifest_log journal_options (crash_dir (ml_inner m')) = Inr r \<and>
      (\<forall>u ts. get_with_ts (\<lambda>_. 0) (\<lambda>_. 1) rbt_ops (ml_inner r) u ts = Inr None))"
proof -
  let ?ops = "[Write [Put [1] [2]], Write [Del [1], Put [6] [7]]] :: flush_op client_op list"
  have "opt_enable_wal journal_options" "flush_to_l0 (controller_of (opt_compaction_options journal_options))"
    "levels_positive (opt_compaction_options journal_options)" "0 < opt_target_sst_size journal_options"
    "opt_block_size journal_options \<le> 65536" "\<forall>op \<in> set ?ops. op_fits op" "sum_list (map ticks ?ops) < 2 ^ 64"
    by (simp_all add: journal_options_def default_for_week1_test_def controller_of_def flush_to_l0_def levels_positive_def)
  from open_run_close_open [OF rbt.skip_map_axioms manifest_log_works this, of "\<lambda>_. 0" "\<lambda>_. 1"]
  obtain m s m' where m: "mini_open (\<lambda>_. 0) rbt_ops manifest_log journal_options empty_dir = Inr m"
    and s: "run_ops (write_batch (\<lambda>_. 0) rbt_ops manifest_log) (run_flush (\<lambda>_. 0) (\<lambda>_. 1) rbt_ops manifest_log)
      ?ops (ml_inner m) = (Inr (), s)"
    and m': "mini_close (\<lambda>_. 0) (\<lambda>_. 1) rbt_ops manifest_log (m\<lparr>ml_inner := s\<rparr>) = (Inr (), m')"
    and drop: "(\<forall>i t. ls_sstables (sg_state s) i = Some t \<longrightarrow> fo_size (sst_file t) < 4294967296) \<longrightarrow>
     (\<exists>r. mini_open (\<lambda>_. 0) rbt_ops manifest_log journal_options (shutdown_dir (ml_inner m')) = Inr r \<and>
       (\<forall>u ts. get_with_ts (\<lambda>_. 0) (\<lambda>_. 1) rbt_ops (ml_inner r) u ts = get_with_ts (\<lambda>_. 0) (\<lambda>_. 1) rbt_ops s u ts))"
    and exit: "ls_imm_memtables (sg_state s) = [] \<and> ls_l0_sstables (sg_state s) = [] \<and>
     map_option wal_disk (mt_wal (ls_memtable (sg_state s))) = Some [] \<longrightarrow>
     (\<exists>r. mini_open (\<lambda>_. 0) rbt_ops manifest_log journal_options (crash_dir (ml_inner m')) = Inr r \<and>
       (\<forall>u ts. get_with_ts (\<lambda>_. 0) (\<lambda>_. 1) rbt_ops (ml_inner r) u ts = Inr None))"
    by (elim exE conjE) (rule that)
  have "ml_inner m = fresh_logged rbt_ops journal_options"
    using m by (auto simp: mini_open_def open_empty_with_wal [OF manifest_log_works] journal_options_def)
  then have "ls_imm_memtables (sg_state s) = [] \<and> ls_l0_sstables (sg_state s) = [] \<and>
      ls_sstables (sg_state s) = Map.empty \<and> map_option wal_disk (mt_wal (ls_memtable (sg_state s))) = Some []"
    using sample_run_buffered [of "\<lambda>_. 0" rbt_ops manifest_log "\<lambda>_. 1"] s by auto
  then show ?thesis
    using m s m' drop exit by (intro exI [of _ m] exI [of _ s] exI [of _ m']) simp
qed

end
