(* ===== verification/Cli.thy ===== *)
theory Cli
  imports MiniLsm
begin

text \<open>
  The command-line client \<open>src/bin/tiny-lsm-cli.rs\<close> and \<open>dump_structure\<close> of \<open>src/debug.rs\<close>: the
  commands, the handler that runs them on the storage, the loop that reads them, and the options of
  \<open>main\<close>. The lines printed are part of the state. \<open>Command::parse\<close> is an argument here and
  modelled in the theory \<open>CliParse\<close>; the \<open>Debug\<close> form of \<open>bytes::Bytes\<close> is a parameter.
\<close>

section \<open>Text\<close>

definition as_bytes :: "string \<Rightarrow> bytes" where
  "as_bytes s = map (\<lambda>c. word_of_nat (of_char c)) s"

lemma as_bytes_simps [simp]:
  "as_bytes (s @ t) = as_bytes s @ as_bytes t" "length (as_bytes s) = length s" "as_bytes s = [] \<longleftrightarrow> s = []"
  by (simp_all add: as_bytes_def)

lemma as_bytes_inject [simp]: "as_bytes s = as_bytes t \<longleftrightarrow> s = t"
proof -
  have "inj (\<lambda>c. word_of_nat (of_char c) :: byte)"
  proof (rule injI)
    fix c d :: char
    assume "(word_of_nat (of_char c) :: byte) = word_of_nat (of_char d)"
    then have "unat (word_of_nat (of_char c) :: byte) = unat (word_of_nat (of_char d) :: byte)" by simp
    moreover have "(of_char c :: nat) < 256" "(of_char d :: nat) < 256" by simp_all
    ultimately have "(of_char c :: nat) = of_char d" by (simp add: unat_of_nat)
    then show "c = d" by simp
  qed
  then show ?thesis by (auto simp: as_bytes_def dest: map_injective)
qed

section \<open>The session\<close>

datatype command =
    Fill u64 u64
  | DelKey string
  | GetKey string
  | Scan "string option" "string option"
  | Dump
  | FlushAll
  | FullCompaction
  | Quit
  | Close

text \<open>A command leaves the session running or ends the process.\<close>

datatype control = Continue | Exit

record 'm repl =
  rh_epoch :: u64
  rh_lsm :: "'m mini_lsm"
  rh_out :: "string list"

definition println :: "string \<Rightarrow> 'm repl \<Rightarrow> 'm repl" where
  "println line r = r\<lparr>rh_out := rh_out r @ [line]\<rparr>"

definition on_lsm :: "('m mini_lsm \<Rightarrow> 'a res \<times> 'm mini_lsm) \<Rightarrow> 'm repl \<Rightarrow> 'a res \<times> 'm repl" where
  "on_lsm f r = (case f (rh_lsm r) of (x, m) \<Rightarrow> (x, r\<lparr>rh_lsm := m\<rparr>))"

definition next_epoch :: "'m repl \<Rightarrow> control res \<times> 'm repl" where
  "next_epoch r = (if rh_epoch r = - 1 then (Inl Panic, r) else (Inr Continue, r\<lparr>rh_epoch := rh_epoch r + 1\<rparr>))"

fun st_each :: "('x \<Rightarrow> 's \<Rightarrow> unit res \<times> 's) \<Rightarrow> 'x list \<Rightarrow> 's \<Rightarrow> unit res \<times> 's" where
  "st_each f [] s = (Inr (), s)"
| "st_each f (x # xs) s = st_then (f x s) (\<lambda>_ s. st_each f xs s)"

definition range_incl :: "u64 \<Rightarrow> u64 \<Rightarrow> u64 list" where
  "range_incl lo hi = map word_of_nat [unat lo..<Suc (unat hi)]"

definition fill_key :: "u64 \<Rightarrow> bytes" where
  "fill_key i = as_bytes (fmt_u64 i)"

definition fill_value :: "u64 \<Rightarrow> u64 \<Rightarrow> bytes" where
  "fill_value epoch i = as_bytes (''value'' @ fmt_u64 i @ ''@'' @ fmt_u64 epoch)"

text \<open>
  \<open>while iter.is_valid() { println!(..); iter.next()?; cnt += 1 }\<close>: the lines printed so far stay
  printed when the iterator fails.
\<close>

definition print_scan ::
    "(bytes \<Rightarrow> string) \<Rightarrow> ('i, bytes) iter_ops \<Rightarrow> 'i \<Rightarrow> 'm repl \<Rightarrow> unit res \<times> 'm repl \<times> nat" where
  "print_scan dbg d it r =
     (case loop_until (\<lambda>(i, r, cnt).
         case it_is_valid d i of
           Inl e \<Rightarrow> (Some (Inl e), i, r, cnt)
         | Inr False \<Rightarrow> (Some (Inr ()), i, r, cnt)
         | Inr True \<Rightarrow>
             (case and_then (it_key d i) (\<lambda>k. and_then (it_value d i) (\<lambda>v. Inr (dbg k @ ''='' @ dbg v))) of
                Inl e \<Rightarrow> (Some (Inl e), i, r, cnt)
              | Inr line \<Rightarrow>
                  (case it_next d i of
                     (Inl e, i') \<Rightarrow> (Some (Inl e), i', println line r, cnt)
                   | (Inr _, i') \<Rightarrow> (None, i', println line r, cnt + 1)))) (it, r, 0) of
        (x, _, r, cnt) \<Rightarrow> (x, r, cnt))"

definition scan_command ::
    "(bytes \<Rightarrow> string) \<Rightarrow> (bytes \<Rightarrow> u32) \<Rightarrow> ('m, key, bytes) skip_ops \<Rightarrow> bytes bound \<Rightarrow> bytes bound \<Rightarrow>
     'm repl \<Rightarrow> unit res \<times> 'm repl" where
  "scan_command dbg crc S lower upper r =
     (case mini_scan crc S (rh_lsm r) lower upper of
        Inl e \<Rightarrow> (Inl e, r)
      | Inr it \<Rightarrow>
          (case print_scan dbg (scan_ops crc) it r of
             (Inl e, r, _) \<Rightarrow> (Inl e, r)
           | (Inr _, r, cnt) \<Rightarrow> (Inr (), println (decimal cnt @ '' keys scanned'') (println '''' r))))"

definition dump_structure :: "'m lsm_state \<Rightarrow> string list" where
  "dump_structure st =
     (if ls_l0_sstables st \<noteq> []
      then [''L0 ('' @ decimal (length (ls_l0_sstables st)) @ ''): '' @ fmt_list (ls_l0_sstables st)] else []) @
     map (\<lambda>(level, files). ''L'' @ decimal level @ '' ('' @ decimal (length files) @ ''): '' @ fmt_list files)
       (ls_levels st)"

fun handle ::
    "(bytes \<Rightarrow> string) \<Rightarrow> (bytes \<Rightarrow> u32) \<Rightarrow> (bytes \<Rightarrow> u32) \<Rightarrow> ('m, key, bytes) skip_ops \<Rightarrow> manifest_ops \<Rightarrow>
     command \<Rightarrow> 'm repl \<Rightarrow> control res \<times> 'm repl" where
  "handle dbg crc fp S M (Fill lo hi) r =
     st_then (on_lsm (st_each (\<lambda>i. mini_put crc S M (fill_key i) (fill_value (rh_epoch r) i)) (range_incl lo hi)) r)
       (\<lambda>_ r. if hi < lo \<or> hi - lo = - 1 then (Inl Panic, r)
               else next_epoch (println (fmt_u64 (hi - lo + 1) @ '' values filled with epoch '' @ fmt_u64 (rh_epoch r)) r))"
| "handle dbg crc fp S M (DelKey key) r =
     st_then (on_lsm (mini_delete crc S M (as_bytes key)) r) (\<lambda>_ r. next_epoch (println (key @ '' deleted'') r))"
| "handle dbg crc fp S M (GetKey key) r =
     (case mini_get crc fp S (rh_lsm r) (as_bytes key) of
        Inl e \<Rightarrow> (Inl e, r)
      | Inr (Some v) \<Rightarrow> next_epoch (println (key @ ''='' @ dbg v) r)
      | Inr None \<Rightarrow> next_epoch (println (key @ '' not exist'') r))"
| "handle dbg crc fp S M (Scan lo hi) r =
     (case (lo, hi) of
        (None, None) \<Rightarrow> st_then (scan_command dbg crc S Unbounded Unbounded r) (\<lambda>_. next_epoch)
      | (Some b, Some e) \<Rightarrow>
          st_then (scan_command dbg crc S (Included (as_bytes b)) (Included (as_bytes e)) r) (\<lambda>_. next_epoch)
      | _ \<Rightarrow> next_epoch (println ''invalid command'' r))"
| "handle dbg crc fp S M Dump r =
     next_epoch (println ''dump success''
       (fold println (dump_structure (sg_state (ml_inner (rh_lsm r)))) r))"
| "handle dbg crc fp S M FlushAll r =
     st_then (on_lsm (mini_force_flush crc fp S M) r) (\<lambda>_ r. next_epoch (println ''flush success'' r))"
| "handle dbg crc fp S M FullCompaction r =
     st_then (on_lsm (mini_force_full_compaction crc fp) r) (\<lambda>_ r. next_epoch (println ''full compaction success'' r))"
| "handle dbg crc fp S M Quit r = st_then (on_lsm (mini_close crc fp S M) r) (\<lambda>_ r. (Inr Exit, r))"
| "handle dbg crc fp S M Close r = st_then (on_lsm (mini_close crc fp S M) r) (\<lambda>_ r. (Inr Exit, r))"

text \<open>
  The loop reads lines until the input ends, which is an error of \<open>readline\<close>; the first error of
  a command ends it too. Lines are taken as ASCII text.
\<close>

definition is_whitespace :: "char \<Rightarrow> bool" where
  "is_whitespace c \<longleftrightarrow> c \<in> {CHR '' '', CHR 0x09, CHR 0x0A, CHR 0x0B, CHR 0x0C, CHR 0x0D}"

definition is_blank :: "string \<Rightarrow> bool" where
  "is_blank line \<longleftrightarrow> (\<forall>c \<in> set line. is_whitespace c)"

fun repl_loop ::
    "(string \<Rightarrow> command res) \<Rightarrow> (bytes \<Rightarrow> string) \<Rightarrow> (bytes \<Rightarrow> u32) \<Rightarrow> (bytes \<Rightarrow> u32) \<Rightarrow> ('m, key, bytes) skip_ops \<Rightarrow>
     manifest_ops \<Rightarrow> string list \<Rightarrow> 'm repl \<Rightarrow> control res \<times> 'm repl" where
  "repl_loop parse dbg crc fp S M [] r = (Inl IoError, r)"
| "repl_loop parse dbg crc fp S M (line # lines) r =
     (if is_blank line then repl_loop parse dbg crc fp S M lines r
      else case parse line of
        Inl e \<Rightarrow> (Inl e, r)
      | Inr command \<Rightarrow>
          st_then (handle dbg crc fp S M command r) (\<lambda>c r.
          if c = Exit then (Inr Exit, r) else repl_loop parse dbg crc fp S M lines r))"

text \<open>The texts of a session, and the builder that collects them.\<close>

record repl_builder =
  rb_app_name :: string
  rb_description :: string
  rb_prompt :: string

definition builder_new :: repl_builder where
  "builder_new =
     \<lparr>rb_app_name = ''mini-lsm-cli'', rb_description = ''A CLI for mini-lsm'', rb_prompt = ''mini-lsm-cli> ''\<rparr>"

definition builder_app_name :: "string \<Rightarrow> repl_builder \<Rightarrow> repl_builder" where
  "builder_app_name app_name b = b\<lparr>rb_app_name := app_name\<rparr>"

definition builder_description :: "string \<Rightarrow> repl_builder \<Rightarrow> repl_builder" where
  "builder_description description b = b\<lparr>rb_description := description\<rparr>"

definition builder_prompt :: "string \<Rightarrow> repl_builder \<Rightarrow> repl_builder" where
  "builder_prompt prompt b = b\<lparr>rb_prompt := prompt\<rparr>"

definition bootstrap :: "repl_builder \<Rightarrow> 'm repl \<Rightarrow> 'm repl" where
  "bootstrap b r = println '''' (println (rb_description b) (println (''Welcome to '' @ rb_app_name b @ ''!'') r))"

definition repl_run where
  "repl_run parse dbg crc fp S M b lines r = repl_loop parse dbg crc fp S M lines (bootstrap b r)"

section \<open>The options\<close>

datatype compaction_choice = ChooseSimple | ChooseLeveled | ChooseTiered | ChooseNone

fun cli_compaction :: "compaction_choice \<Rightarrow> compaction_options" where
  "cli_compaction ChooseNone = NoCompaction"
| "cli_compaction ChooseSimple = SimpleOptions
     \<lparr>so_size_ratio_percent = 200, so_level0_file_num_compaction_trigger = 2, so_max_levels = 4\<rparr>"
| "cli_compaction ChooseTiered = TieredOptions
     \<lparr>to_num_tiers = 3, to_max_size_amplification_percent = 200, to_size_ratio = 1, to_min_merge_width = 2,
      to_max_merge_width = None\<rparr>"
| "cli_compaction ChooseLeveled = LeveledOptions
     \<lparr>lo_level_size_multiplier = 2, lo_level0_file_num_compaction_trigger = 2, lo_max_levels = 4,
      lo_base_level_size_mb = 128\<rparr>"

definition cli_options :: "compaction_choice \<Rightarrow> bool \<Rightarrow> bool \<Rightarrow> lsm_options" where
  "cli_options compaction enable_wal serializable =
     \<lparr>opt_block_size = 4096, opt_target_sst_size = 2 * 2 ^ 20, opt_num_memtable_limit = 3,
      opt_compaction_options = cli_compaction compaction, opt_enable_wal = enable_wal,
      opt_serializable = serializable\<rparr>"

definition cli_main where
  "cli_main parse dbg crc fp S M compaction enable_wal serializable dir lines =
     (case mini_open crc S M (cli_options compaction enable_wal serializable) dir of
        Inl e \<Rightarrow> (Inl e, [])
      | Inr m \<Rightarrow>
          (case repl_run parse dbg crc fp S M
              (builder_prompt ''mini-lsm-cli> '' (builder_description ''A CLI for mini-lsm''
                (builder_app_name ''mini-lsm-cli'' builder_new))) lines
              \<lparr>rh_epoch = 0, rh_lsm = m, rh_out = []\<rparr> of
             (x, r) \<Rightarrow> (x, rh_out r)))"

section \<open>Filling\<close>

lemma st_each_inner: "st_each (\<lambda>i. on_inner (f i)) xs m = on_inner (st_each f xs) m"
proof (induction xs arbitrary: m)
  case Nil
  then show ?case by (simp add: on_inner_def)
next
  case (Cons x xs)
  obtain a s where s: "f x (ml_inner m) = (a, s)" by fastforce
  then have "on_inner (f x) m = (a, m\<lparr>ml_inner := s\<rparr>)" by (simp add: on_inner_def)
  then show ?case
    by (cases a) (simp_all add: Cons.IH, simp_all add: on_inner_def s)
qed

lemma st_each_puts:
  "st_each (\<lambda>i. storage_put crc S M (k i) (v i)) xs s =
   run_ops (write_batch crc S M) (run_flush crc fp S M) (map (\<lambda>i. Write [Put (k i) (v i)]) xs) s"
proof (induction xs arbitrary: s)
  case (Cons x xs)
  then have "st_each (\<lambda>i. storage_put crc S M (k i) (v i)) xs =
      run_ops (write_batch crc S M) (run_flush crc fp S M) (map (\<lambda>i. Write [Put (k i) (v i)]) xs)"
    by (rule ext)
  then show ?case by (simp add: storage_put_def)
qed simp

text \<open>A run of puts under different keys, on a plain map.\<close>

lemma fold_puts_other:
  "u \<notin> k ` set xs \<Longrightarrow> fold spec_op (map (\<lambda>i. Write [Put (k i) (v i)]) xs) m u = m u"
  by (induction xs arbitrary: m) auto

lemma fold_puts_same:
  assumes "inj k" "\<And>i. v i \<noteq> []" "i \<in> set xs"
  shows "fold spec_op (map (\<lambda>i. Write [Put (k i) (v i)]) xs) m (k i) = Some (v i)"
  using assms(3)
proof (induction xs arbitrary: m)
  case (Cons x xs)
  show ?case
  proof (cases "i \<in> set xs")
    case True
    then show ?thesis using Cons.IH by simp
  next
    case False
    then have "i = x" "k i \<notin> k ` set xs" using Cons.prems assms(1) by (auto simp: inj_def)
    then show ?thesis using fold_puts_other [of "k x" k xs v "m(k x \<mapsto> v x)"] assms(2) by simp
  qed
qed simp

lemma set_range_incl: "set (range_incl lo hi) = {lo..hi}"
proof -
  have "i \<in> word_of_nat ` {unat lo..unat hi}" if "lo \<le> i" "i \<le> hi" for i :: u64
    using that by (intro image_eqI [of _ _ "unat i"]) (simp_all add: word_le_nat_alt)
  moreover have "lo \<le> word_of_nat n \<and> word_of_nat n \<le> hi" if "unat lo \<le> n" "n \<le> unat hi" for n
  proof -
    have "n < 2 ^ 64" using that(2) unsigned_less [of hi, where 'a = nat] by simp
    then have "unat (word_of_nat n :: u64) = n" by (simp add: unat_of_nat)
    then show ?thesis using that by (simp add: word_le_nat_alt)
  qed
  ultimately show ?thesis by (auto simp: range_incl_def atLeastLessThanSuc_atLeastAtMost simp del: upt_Suc)
qed

lemma length_range_incl: "length (range_incl lo hi) = Suc (unat hi) - unat lo"
  by (simp add: range_incl_def del: upt_Suc)

lemma fill_key_inj: "inj fill_key"
  by (simp add: inj_def fill_key_def)

lemma fill_fits: "record_fits (Put (fill_key i) (fill_value epoch i))" "fill_value epoch i \<noteq> []"
  using length_fmt_u64 [of i] length_fmt_u64 [of epoch] by (simp_all add: fill_key_def fill_value_def)

text \<open>
  C23: \<open>fill\<close> of the client: on a well-formed storage with enough timestamps left it says how many
  values it wrote and moves the epoch; afterwards every number of the range reads as its value of
  that epoch, and every other key as before.
\<close>

theorem cli_fill_then_get:
  assumes "skip_map S" "manifest_works M" "storage_ok crc fp S (ml_inner (rh_lsm r))"
    and "rh_epoch r \<noteq> - 1" "lo \<le> hi"
    and "unat (latest_commit_ts (sg_mvcc (ml_inner (rh_lsm r)))) + (Suc (unat hi) - unat lo) < 2 ^ 64"
  shows "\<exists>r'. handle dbg crc fp S M (Fill lo hi) r = (Inr Continue, r') \<and>
    rh_out r' = rh_out r @ [fmt_u64 (hi - lo + 1) @ '' values filled with epoch '' @ fmt_u64 (rh_epoch r)] \<and>
    rh_epoch r' = rh_epoch r + 1 \<and>
    (\<forall>i. lo \<le> i \<and> i \<le> hi \<longrightarrow> mini_get crc fp S (rh_lsm r') (fill_key i) = Inr (Some (fill_value (rh_epoch r) i))) \<and>
    (\<forall>key. key \<notin> fill_key ` {lo..hi} \<longrightarrow> mini_get crc fp S (rh_lsm r') key = mini_get crc fp S (rh_lsm r) key)"
proof -
  let ?s = "ml_inner (rh_lsm r)" and ?v = "fill_value (rh_epoch r)"
  let ?ops = "map (\<lambda>i. Write [Put (fill_key i) (?v i)]) (range_incl lo hi) :: flush_op client_op list"
  have ticks: "sum_list (map ticks ?ops) = Suc (unat hi) - unat lo"
    by (simp add: o_def sum_list_triv length_range_incl)
  have good: "storage_good crc fp S M ?s" using assms(1-3) by (simp add: storage_good_def)
  have "\<forall>op \<in> set ?ops. op_fits op" using fill_fits by auto
  then obtain s' where s': "run_ops (write_batch crc S M) (run_flush crc fp S M) ?ops ?s = (Inr (), s')"
    "\<forall>u. get_with_ts crc fp S s' u (latest_commit_ts (sg_mvcc s')) =
      Inr (fold spec_op ?ops (\<lambda>u. projr (get_with_ts crc fp S ?s u (latest_commit_ts (sg_mvcc ?s)))) u)"
    using flushing.run_ops_get [OF good, of ?ops] assms(6) ticks by auto
  have old: "storage_get crc fp S ?s u = Inr (projr (storage_get crc fp S ?s u))" for u
    using assms(1,3) by (simp add: storage_get_def get_with_ts_read_at storage_ok_def)
  have size: "unat (hi - lo) = unat hi - unat lo" using assms(5) by (simp add: unat_sub word_le_nat_alt)
  have "hi - lo \<noteq> - 1"
  proof
    assume "hi - lo = - 1"
    then have "unat (hi - lo) = 2 ^ 64 - 1" by (simp add: unsigned_minus_1_eq_mask mask_eq_exp_minus_1)
    then show False using size assms(5,6) by (simp add: word_le_nat_alt)
  qed
  moreover define m where "m = (rh_lsm r)\<lparr>ml_inner := s'\<rparr>"
  moreover have "on_lsm (st_each (\<lambda>i. mini_put crc S M (fill_key i) (?v i)) (range_incl lo hi)) r = (Inr (), r\<lparr>rh_lsm := m\<rparr>)"
    using s'(1) by (simp add: on_lsm_def mini_put_def st_each_inner st_each_puts [where fp = fp] on_inner_def m_def)
  moreover have "mini_get crc fp S m (fill_key i) = Inr (Some (?v i))" if "lo \<le> i" "i \<le> hi" for i
  proof -
    have "fold spec_op ?ops g (fill_key i) = Some (?v i)" for g
      by (rule fold_puts_same [OF fill_key_inj fill_fits(2)]) (simp add: set_range_incl that)
    then show ?thesis using s'(2) by (simp add: mini_get_def storage_get_def m_def)
  qed
  moreover have "mini_get crc fp S m u = mini_get crc fp S (rh_lsm r) u" if "u \<notin> fill_key ` {lo..hi}" for u
  proof -
    have "fold spec_op ?ops g u = g u" for g
      by (rule fold_puts_other) (use that in \<open>simp add: set_range_incl\<close>)
    then show ?thesis using s'(2) old [of u] by (simp add: mini_get_def storage_get_def m_def)
  qed
  ultimately show ?thesis
    using assms(4,5) by (simp add: println_def next_epoch_def)
qed

lemma cli_options_good:
  "levels_positive (cli_compaction c)" "0 < opt_target_sst_size (cli_options c wal ser)"
  "opt_block_size (cli_options c wal ser) \<le> 65536" "opt_compaction_options (cli_options c wal ser) = cli_compaction c"
  "opt_enable_wal (cli_options c wal ser) = wal"
  by (cases c; simp add: cli_options_def levels_positive_def)+

theorem cli_fill_then_get_witness:
  "\<exists>m r'. mini_open (\<lambda>_. 0) rbt_ops manifest_log (cli_options ChooseLeveled True False) empty_dir = Inr m \<and>
    handle (\<lambda>_. []) (\<lambda>_. 0) (\<lambda>_. 1) rbt_ops manifest_log (Fill 8 11) \<lparr>rh_epoch = 3, rh_lsm = m, rh_out = []\<rparr> =
      (Inr Continue, r') \<and>
    rh_out r' = [''4 values filled with epoch 3''] \<and>
    mini_get (\<lambda>_. 0) (\<lambda>_. 1) rbt_ops (rh_lsm r') (as_bytes ''10'') = Inr (Some (as_bytes ''value10@3''))"
proof -
  let ?o = "cli_options ChooseLeveled True False"
  let ?m = "\<lparr>ml_inner = fresh_logged rbt_ops ?o, ml_flush_thread = True, ml_compaction_thread = True\<rparr>"
  let ?r = "\<lparr>rh_epoch = 3, rh_lsm = ?m, rh_out = []\<rparr>"
  have opn: "mini_open (\<lambda>_. 0) rbt_ops manifest_log ?o empty_dir = Inr ?m"
    by (simp add: mini_open_def open_empty_with_wal [OF manifest_log_works] cli_options_good)
  have ok: "storage_ok (\<lambda>_. 0) (\<lambda>_. 1) rbt_ops (ml_inner (rh_lsm ?r))"
    by simp (rule fresh_logged_ok [OF rbt.skip_map_axioms]; simp add: cli_options_good levels_positive_def)
  have clock: "latest_commit_ts (sg_mvcc (ml_inner (rh_lsm ?r))) = 0"
    by (simp add: fresh_logged_def fresh_storage_def mvcc_new_def latest_commit_ts_def)
  have fmt: "fmt_u64 4 = ''4''" "fmt_u64 3 = ''3''" "fmt_u64 10 = ''10''"
    by code_simp+
  have "unat (latest_commit_ts (sg_mvcc (ml_inner (rh_lsm ?r)))) + (Suc (unat (11 :: u64)) - unat (8 :: u64)) < 2 ^ 64"
    "rh_epoch ?r \<noteq> - 1" "(8 :: u64) \<le> 11"
    unfolding clock by simp_all
  then obtain r' where r': "handle (\<lambda>_. []) (\<lambda>_. 0) (\<lambda>_. 1) rbt_ops manifest_log (Fill 8 11) ?r = (Inr Continue, r')"
    "rh_out r' = rh_out ?r @ [fmt_u64 (11 - 8 + 1) @ '' values filled with epoch '' @ fmt_u64 (rh_epoch ?r)]"
    "\<forall>i. 8 \<le> i \<and> i \<le> 11 \<longrightarrow>
      mini_get (\<lambda>_. 0) (\<lambda>_. 1) rbt_ops (rh_lsm r') (fill_key i) = Inr (Some (fill_value (rh_epoch ?r) i))"
    using cli_fill_then_get [OF rbt.skip_map_axioms manifest_log_works ok, of 8 11 "\<lambda>_. []"] by blast
  have "mini_get (\<lambda>_. 0) (\<lambda>_. 1) rbt_ops (rh_lsm r') (fill_key 10) = Inr (Some (fill_value 3 10))"
    using r'(3) by simp
  then show ?thesis
    using opn r'(1,2) fmt by (intro exI [of _ ?m] exI [of _ r']) (simp add: fill_key_def fill_value_def)
qed

end
