(* ===== verification/CliParse.thy ===== *)
theory CliParse
  imports Cli
begin

text \<open>
  \<open>Command::parse\<close> of \<open>src/bin/tiny-lsm-cli.rs\<close>. It is built from the parser combinators of the
  crate \<open>nom\<close>, which is not part of the repository: each combinator is a field of a record, at the
  type the code uses it at, and the locale \<open>nom_parsers\<close> has their documented behaviour. Lines are
  taken as ASCII text, and the text of a parse error is left out.
\<close>

section \<open>The combinators\<close>

text \<open>A parser takes the input and returns the rest of it with its output, or an error.\<close>

type_synonym 'a parser = "string \<Rightarrow> (string \<times> 'a) option"

type_synonym word4 = "string \<times> string \<times> string \<times> string"

record nom_ops =
  nom_tag_no_case :: "string \<Rightarrow> string parser"
  nom_space1 :: "string parser"
  nom_digit1 :: "string parser"
  nom_take_till1 :: "(char \<Rightarrow> bool) \<Rightarrow> string parser"
  nom_map_res :: "string parser \<Rightarrow> (string \<Rightarrow> u64 option) \<Rightarrow> u64 parser"
  nom_map_string :: "string parser \<Rightarrow> (string \<Rightarrow> string) \<Rightarrow> string parser"
  nom_tuple5 :: "string parser \<Rightarrow> string parser \<Rightarrow> u64 parser \<Rightarrow> string parser \<Rightarrow> u64 parser \<Rightarrow>
    (string \<times> string \<times> u64 \<times> string \<times> u64) parser"
  nom_map5 :: "(string \<times> string \<times> u64 \<times> string \<times> u64) parser \<Rightarrow> (string \<times> string \<times> u64 \<times> string \<times> u64 \<Rightarrow> command) \<Rightarrow>
    command parser"
  nom_tuple3 :: "string parser \<Rightarrow> string parser \<Rightarrow> string parser \<Rightarrow> (string \<times> string \<times> string) parser"
  nom_map3 :: "(string \<times> string \<times> string) parser \<Rightarrow> (string \<times> string \<times> string \<Rightarrow> command) \<Rightarrow> command parser"
  nom_tuple4 :: "string parser \<Rightarrow> string parser \<Rightarrow> string parser \<Rightarrow> string parser \<Rightarrow> word4 parser"
  nom_opt :: "word4 parser \<Rightarrow> word4 option parser"
  nom_tuple2 :: "string parser \<Rightarrow> word4 option parser \<Rightarrow> (string \<times> word4 option) parser"
  nom_map2 :: "(string \<times> word4 option) parser \<Rightarrow> (string \<times> word4 option \<Rightarrow> command) \<Rightarrow> command parser"
  nom_map_command :: "string parser \<Rightarrow> (string \<Rightarrow> command) \<Rightarrow> command parser"
  nom_alt :: "command parser list \<Rightarrow> command parser"

text \<open>What the manual of \<open>nom\<close> says of them.\<close>

definition to_lowercase :: "char \<Rightarrow> char" where
  "to_lowercase c = (if 65 \<le> (of_char c :: nat) \<and> (of_char c :: nat) \<le> 90 then char_of ((of_char c :: nat) + 32) else c)"

definition is_ascii_digit :: "char \<Rightarrow> bool" where
  "is_ascii_digit c \<longleftrightarrow> 48 \<le> (of_char c :: nat) \<and> (of_char c :: nat) \<le> 57"

definition spec_tag_no_case :: "string \<Rightarrow> string parser" where
  "spec_tag_no_case t s =
     (if length t \<le> length s \<and> map to_lowercase (take (length t) s) = map to_lowercase t
      then Some (drop (length t) s, take (length t) s) else None)"

definition spec_span1 :: "(char \<Rightarrow> bool) \<Rightarrow> string parser" where
  "spec_span1 P s = (if takeWhile P s = [] then None else Some (dropWhile P s, takeWhile P s))"

definition spec_bind :: "'a parser \<Rightarrow> ('a \<Rightarrow> 'b parser) \<Rightarrow> 'b parser" where
  "spec_bind p f s = (case p s of None \<Rightarrow> None | Some (rest, x) \<Rightarrow> f x rest)"

definition spec_map :: "'a parser \<Rightarrow> ('a \<Rightarrow> 'b) \<Rightarrow> 'b parser" where
  "spec_map p f = spec_bind p (\<lambda>x rest. Some (rest, f x))"

definition spec_map_res :: "'a parser \<Rightarrow> ('a \<Rightarrow> 'b option) \<Rightarrow> 'b parser" where
  "spec_map_res p f = spec_bind p (\<lambda>x rest. map_option (Pair rest) (f x))"

definition spec_pair :: "'a parser \<Rightarrow> 'b parser \<Rightarrow> ('a \<times> 'b) parser" where
  "spec_pair p q = spec_bind p (\<lambda>x. spec_map q (Pair x))"

definition spec_opt :: "'a parser \<Rightarrow> 'a option parser" where
  "spec_opt p s = (case p s of None \<Rightarrow> Some (s, None) | Some (rest, x) \<Rightarrow> Some (rest, Some x))"

fun spec_alt :: "'a parser list \<Rightarrow> 'a parser" where
  "spec_alt [] s = None"
| "spec_alt (p # ps) s = (case p s of None \<Rightarrow> spec_alt ps s | Some r \<Rightarrow> Some r)"

locale nom_parsers =
  fixes N :: nom_ops
  assumes tag_no_case: "nom_tag_no_case N t s = spec_tag_no_case t s"
    and space1: "nom_space1 N s = spec_span1 (\<lambda>c. c = CHR '' '' \<or> c = CHR 0x09) s"
    and digit1: "nom_digit1 N s = spec_span1 is_ascii_digit s"
    and take_till1: "nom_take_till1 N P s = spec_span1 (\<lambda>c. \<not> P c) s"
    and map_res: "nom_map_res N p5 f5 s = spec_map_res p5 f5 s"
    and map_string: "nom_map_string N p6 f6 s = spec_map p6 f6 s"
    and tuple5: "nom_tuple5 N a b c d e s = spec_pair a (spec_pair b (spec_pair c (spec_pair d e))) s"
    and map5: "nom_map5 N p7 f7 s = spec_map p7 f7 s"
    and tuple3: "nom_tuple3 N a b d s = spec_pair a (spec_pair b d) s"
    and map3: "nom_map3 N p8 f8 s = spec_map p8 f8 s"
    and tuple4: "nom_tuple4 N a b d d' s = spec_pair a (spec_pair b (spec_pair d d')) s"
    and opt: "nom_opt N p9 s = spec_opt p9 s"
    and tuple2: "nom_tuple2 N a p10 s = spec_pair a p10 s"
    and map2: "nom_map2 N p11 f11 s = spec_map p11 f11 s"
    and map_command: "nom_map_command N p12 f12 s = spec_map p12 f12 s"
    and alt: "nom_alt N ps s = spec_alt ps s"

section \<open>The parser\<close>

text \<open>\<open>s.parse::<u64>()\<close> of the standard library.\<close>

definition parse_u64 :: "string \<Rightarrow> u64 option" where
  "parse_u64 s =
     (let digits = (case s of [] \<Rightarrow> [] | c # cs \<Rightarrow> if c = CHR ''+'' then cs else s) in
      if digits \<noteq> [] \<and> list_all is_ascii_digit digits \<and> decimal_value digits < 2 ^ 64
      then Some (word_of_nat (decimal_value digits)) else None)"

definition parse_uint :: "nom_ops \<Rightarrow> u64 parser" where
  "parse_uint N = nom_map_res N (nom_digit1 N) parse_u64"

definition parse_string :: "nom_ops \<Rightarrow> string parser" where
  "parse_string N = nom_map_string N (nom_take_till1 N is_whitespace) (\<lambda>s. s)"

definition parse_fill :: "nom_ops \<Rightarrow> command parser" where
  "parse_fill N = nom_map5 N
     (nom_tuple5 N (nom_tag_no_case N ''fill'') (nom_space1 N) (parse_uint N) (nom_space1 N) (parse_uint N))
     (\<lambda>(_, _, key, _, value). Fill key value)"

definition parse_del :: "nom_ops \<Rightarrow> command parser" where
  "parse_del N = nom_map3 N (nom_tuple3 N (nom_tag_no_case N ''del'') (nom_space1 N) (parse_string N))
     (\<lambda>(_, _, key). DelKey key)"

definition parse_get :: "nom_ops \<Rightarrow> command parser" where
  "parse_get N = nom_map3 N (nom_tuple3 N (nom_tag_no_case N ''get'') (nom_space1 N) (parse_string N))
     (\<lambda>(_, _, key). GetKey key)"

definition parse_scan :: "nom_ops \<Rightarrow> command parser" where
  "parse_scan N = nom_map2 N
     (nom_tuple2 N (nom_tag_no_case N ''scan'')
        (nom_opt N (nom_tuple4 N (nom_space1 N) (parse_string N) (nom_space1 N) (parse_string N))))
     (\<lambda>(_, opt_args).
        let (begin, end') = (case opt_args of
              None \<Rightarrow> (None, None) | Some (_, begin, _, end') \<Rightarrow> (Some begin, Some end'))
        in Scan begin end')"

definition parse_keyword :: "nom_ops \<Rightarrow> string \<Rightarrow> command \<Rightarrow> command parser" where
  "parse_keyword N word c = nom_map_command N (nom_tag_no_case N word) (\<lambda>_. c)"

definition command_parse :: "nom_ops \<Rightarrow> string \<Rightarrow> command res" where
  "command_parse N input =
     (case nom_alt N [parse_fill N, parse_del N, parse_get N, parse_scan N,
         parse_keyword N ''dump'' Dump, parse_keyword N ''flush'' FlushAll,
         parse_keyword N ''full_compaction'' FullCompaction, parse_keyword N ''quit'' Quit,
         parse_keyword N ''close'' Close] input of
        Some (_, c) \<Rightarrow> Inr c
      | None \<Rightarrow> Inl ParseError)"

section \<open>Words and numbers\<close>

lemma of_char_decimal: "c \<in> set (decimal n) \<Longrightarrow> is_ascii_digit c"
proof (induction n rule: decimal.induct)
  case (1 n)
  have "is_ascii_digit (char_of (48 + d))" if "d < 10" for d :: nat
    using that by (simp add: is_ascii_digit_def of_char_of)
  then show ?case using 1 by (subst (asm) (2) decimal.simps) (auto split: if_splits)
qed

lemma parse_u64_fmt: "parse_u64 (fmt_u64 n) = Some n"
proof -
  have "\<not> is_ascii_digit CHR ''+''" by (simp add: is_ascii_digit_def)
  then have plus: "hd (fmt_u64 n) \<noteq> CHR ''+''"
    using of_char_decimal [of "hd (fmt_u64 n)" "unat n"] by (auto simp: fmt_u64_def)
  have digits: "(case fmt_u64 n of [] \<Rightarrow> [] | c # cs \<Rightarrow> if c = CHR ''+'' then cs else fmt_u64 n) = fmt_u64 n"
    using plus by (cases "fmt_u64 n") simp_all
  have val: "decimal_value (fmt_u64 n) = unat n" by (simp add: fmt_u64_def decimal_value_decimal)
  have "list_all is_ascii_digit (fmt_u64 n)" by (simp add: list_all_iff fmt_u64_def of_char_decimal)
  moreover have "unat n < 2 ^ 64" using unsigned_less [of n, where 'a = nat] by simp
  ultimately show ?thesis
    using digits by (simp add: parse_u64_def val)
qed

lemma spec_span1_stop:
  assumes "s \<noteq> []" "\<forall>c \<in> set s. P c" "rest = [] \<or> \<not> P (hd rest)"
  shows "spec_span1 P (s @ rest) = Some (rest, s)"
proof -
  have "takeWhile P (s @ rest) = s" "dropWhile P (s @ rest) = rest"
    using assms(2,3) by (cases rest; simp)+
  then show ?thesis using assms(1) by (simp add: spec_span1_def)
qed

lemma spec_pair_simp:
  "spec_pair p q s = (case p s of None \<Rightarrow> None | Some (r, x) \<Rightarrow>
     (case q r of None \<Rightarrow> None | Some (r', y) \<Rightarrow> Some (r', (x, y))))"
  by (simp add: spec_pair_def spec_map_def spec_bind_def split: option.split prod.split)

lemma spec_map_simp: "spec_map p f s = map_option (\<lambda>(r, x). (r, f x)) (p s)"
  by (simp add: spec_map_def spec_bind_def split: option.split)

lemma spec_map_res_simp:
  "spec_map_res p f s = (case p s of None \<Rightarrow> None | Some (r, x) \<Rightarrow> map_option (Pair r) (f x))"
  by (simp add: spec_map_res_def spec_bind_def)

lemmas spec_simps = spec_pair_simp spec_map_simp spec_map_res_simp spec_opt_def

lemma spec_tag_simps [simp]:
  "spec_tag_no_case [] s = Some (s, [])"
  "spec_tag_no_case (t # ts) [] = None"
  "spec_tag_no_case (t # ts) (c # s) =
     (if to_lowercase c = to_lowercase t then map_option (\<lambda>(r, x). (r, c # x)) (spec_tag_no_case ts s) else None)"
  by (simp_all add: spec_tag_no_case_def)

context nom_parsers
begin

lemma combinators:
  "nom_tag_no_case N t = spec_tag_no_case t" "nom_space1 N = spec_span1 (\<lambda>c. c = CHR '' '' \<or> c = CHR 0x09)"
  "nom_map5 N p f = spec_map p f" "nom_map3 N p3 f3 = spec_map p3 f3" "nom_map2 N p2 f2 = spec_map p2 f2"
  "nom_map_command N q g = spec_map q g" "nom_opt N o' = spec_opt o'"
  "nom_tuple5 N a b c d e = spec_pair a (spec_pair b (spec_pair c (spec_pair d e)))"
  "nom_tuple4 N a b d d' = spec_pair a (spec_pair b (spec_pair d d'))"
  "nom_tuple3 N a b d = spec_pair a (spec_pair b d)" "nom_tuple2 N a o2 = spec_pair a o2"
  by (rule ext, simp add: tag_no_case space1 map5 map3 map2 map_command opt tuple5 tuple4 tuple3 tuple2)+

lemma parse_uint: "parse_uint N = spec_map_res (spec_span1 is_ascii_digit) parse_u64"
proof -
  have "nom_digit1 N = spec_span1 is_ascii_digit" by (rule ext) (rule digit1)
  then show ?thesis by (intro ext) (simp add: parse_uint_def map_res)
qed

lemma parse_string: "parse_string N = spec_span1 (\<lambda>c. \<not> is_whitespace c)"
proof -
  have "nom_take_till1 N is_whitespace = spec_span1 (\<lambda>c. \<not> is_whitespace c)" by (rule ext) (rule take_till1)
  then show ?thesis
    by (intro ext) (simp add: parse_string_def map_string spec_map_simp option.map_ident_strong prod.case_eq_if)
qed

lemmas parsers =
  parse_fill_def parse_del_def parse_get_def parse_scan_def parse_keyword_def combinators parse_uint parse_string

end

lemma span_blank:
  "s \<noteq> [] \<Longrightarrow> \<not> is_whitespace (hd s) \<Longrightarrow> spec_span1 (\<lambda>c. c = CHR '' '' \<or> c = CHR 0x09) (CHR '' '' # s) = Some (s, '' '')"
  by (cases s) (auto simp: spec_span1_def is_whitespace_def)

definition valid_word :: "string \<Rightarrow> bool" where
  "valid_word s \<longleftrightarrow> s \<noteq> [] \<and> (\<forall>c \<in> set s. \<not> is_whitespace c)"

definition ends_word :: "string \<Rightarrow> bool" where
  "ends_word rest \<longleftrightarrow> rest = [] \<or> is_whitespace (hd rest)"

lemma span_word:
  assumes "valid_word s" "ends_word rest"
  shows "spec_span1 (\<lambda>c. \<not> is_whitespace c) (s @ rest) = Some (rest, s)"
  using assms by (intro spec_span1_stop) (auto simp: valid_word_def ends_word_def)

lemma digit_not_whitespace: "is_ascii_digit c \<Longrightarrow> \<not> is_whitespace c"
  by (auto simp: is_ascii_digit_def is_whitespace_def)

lemma span_number:
  assumes "ends_word rest"
  shows "spec_map_res (spec_span1 is_ascii_digit) parse_u64 (fmt_u64 n @ rest) = Some (rest, n)"
proof -
  have "spec_span1 is_ascii_digit (fmt_u64 n @ rest) = Some (rest, fmt_u64 n)"
    using assms by (intro spec_span1_stop) (auto simp: fmt_u64_def of_char_decimal ends_word_def dest: digit_not_whitespace)
  then show ?thesis by (simp add: spec_map_res_simp parse_u64_fmt)
qed

lemma blank_before_word:
  "valid_word s \<Longrightarrow> spec_span1 (\<lambda>c. c = CHR '' '' \<or> c = CHR 0x09) (CHR '' '' # s @ rest) = Some (s @ rest, '' '')"
  by (rule span_blank) (auto simp: valid_word_def)

lemma fmt_u64_word: "valid_word (fmt_u64 n)"
  by (auto simp: valid_word_def fmt_u64_def dest!: of_char_decimal digit_not_whitespace)

section \<open>Properties\<close>

text \<open>How a user types a command.\<close>

fun show_command :: "command \<Rightarrow> string" where
  "show_command (Fill lo hi) = ''fill '' @ fmt_u64 lo @ '' '' @ fmt_u64 hi"
| "show_command (DelKey key) = ''del '' @ key"
| "show_command (GetKey key) = ''get '' @ key"
| "show_command (Scan (Some lo) (Some hi)) = ''scan '' @ lo @ '' '' @ hi"
| "show_command (Scan _ _) = ''scan''"
| "show_command Dump = ''dump''"
| "show_command FlushAll = ''flush''"
| "show_command FullCompaction = ''full_compaction''"
| "show_command Quit = ''quit''"
| "show_command Close = ''close''"

fun valid_command :: "command \<Rightarrow> bool" where
  "valid_command (DelKey key) \<longleftrightarrow> valid_word key"
| "valid_command (GetKey key) \<longleftrightarrow> valid_word key"
| "valid_command (Scan (Some lo) (Some hi)) \<longleftrightarrow> valid_word lo \<and> valid_word hi"
| "valid_command (Scan lo hi) \<longleftrightarrow> lo = None \<and> hi = None"
| "valid_command _ \<longleftrightarrow> True"

lemma ends_word_blank: "ends_word (CHR '' '' # s)"
  by (simp add: ends_word_def is_whitespace_def)

lemmas command_simps =
  command_parse_def nom_parsers.alt nom_parsers.parsers spec_simps to_lowercase_def span_word span_number
  blank_before_word fmt_u64_word ends_word_blank

lemma parse_show_fill:
  assumes "nom_parsers N" "ends_word rest"
  shows "command_parse N (show_command (Fill lo hi) @ rest) = Inr (Fill lo hi)"
  using assms span_number [OF ends_word_blank, of lo] span_number [OF assms(2), of hi]
  by (simp add: command_simps)

lemma parse_show:
  assumes "nom_parsers N" "valid_command c" "ends_word rest" "c = Scan None None \<longrightarrow> rest = []"
  shows "command_parse N (show_command c @ rest) = Inr c"
proof (cases c)
  case (Fill lo hi)
  then show ?thesis using parse_show_fill [OF assms(1,3)] by simp
next
  case (Scan lo hi)
  consider l h where "lo = Some l" "hi = Some h" "valid_word l" "valid_word h" | "lo = None" "hi = None"
    using assms(2) Scan by (cases lo; cases hi) auto
  then show ?thesis
    using assms(1,3,4) Scan by cases (simp_all add: command_simps, simp add: spec_span1_def)
qed (use assms in \<open>simp_all add: command_simps\<close>)

text \<open>A range with one bound is read as no range at all.\<close>

lemma parse_half_scan:
  assumes "nom_parsers N" "valid_word key"
  shows "command_parse N (''scan '' @ key) = Inr (Scan None None)"
  using assms span_word [OF assms(2), of "[]"] blank_before_word [OF assms(2), of "[]"]
  by (simp add: command_simps ends_word_def) (simp add: spec_span1_def)

lemma parse_scan_both:
  assumes "nom_parsers N" "command_parse N s = Inr (Scan lo hi)"
  shows "lo = None \<longleftrightarrow> hi = None"
  using assms
  by (auto simp: command_parse_def nom_parsers.alt nom_parsers.parsers spec_map_simp Let_def
      split: option.splits prod.splits)

text \<open>
  C24: What the parser of the client reads. A command typed in full is read back with its arguments,
  and text after it is ignored; but \<open>scan\<close> with one bound is read as a scan of everything, and no
  input is read as a scan with one bound, so that the handler never answers \<open>invalid command\<close>.
\<close>

theorem cli_parse:
  assumes "nom_parsers N" "valid_command c" "rest = [] \<or> c \<noteq> Scan None None \<and> is_whitespace (hd rest)" "valid_word key"
  shows "command_parse N (show_command c @ rest) = Inr c \<and>
    command_parse N (''scan '' @ key) = Inr (Scan None None) \<and>
    command_parse N s \<noteq> Inr (Scan (Some lo) None) \<and> command_parse N s \<noteq> Inr (Scan None (Some hi))"
  using assms parse_show [OF assms(1,2), of rest] parse_half_scan [OF assms(1,4)]
    parse_scan_both [OF assms(1), of s "Some lo" None] parse_scan_both [OF assms(1), of s None "Some hi"]
  by (auto simp: ends_word_def)

text \<open>Combinators that behave as documented.\<close>

definition nom_reference :: nom_ops where
  "nom_reference =
     \<lparr>nom_tag_no_case = spec_tag_no_case, nom_space1 = spec_span1 (\<lambda>c. c = CHR '' '' \<or> c = CHR 0x09),
      nom_digit1 = spec_span1 is_ascii_digit, nom_take_till1 = (\<lambda>P. spec_span1 (\<lambda>c. \<not> P c)),
      nom_map_res = spec_map_res, nom_map_string = spec_map,
      nom_tuple5 = (\<lambda>a b c d e. spec_pair a (spec_pair b (spec_pair c (spec_pair d e)))), nom_map5 = spec_map,
      nom_tuple3 = (\<lambda>a b c. spec_pair a (spec_pair b c)), nom_map3 = spec_map,
      nom_tuple4 = (\<lambda>a b c d. spec_pair a (spec_pair b (spec_pair c d))), nom_opt = spec_opt,
      nom_tuple2 = spec_pair, nom_map2 = spec_map, nom_map_command = spec_map, nom_alt = spec_alt\<rparr>"

interpretation nom_reference: nom_parsers nom_reference
  by unfold_locales (simp_all add: nom_reference_def)

theorem cli_parse_witness:
  "command_parse nom_reference ''fill 10 12 done'' = Inr (Fill 10 12) \<and>
    command_parse nom_reference ''scan a'' = Inr (Scan None None)"
proof -
  have "fmt_u64 10 = ''10''" "fmt_u64 12 = ''12''" by code_simp+
  then show ?thesis
    using cli_parse [OF nom_reference.nom_parsers_axioms, of "Fill 10 12" "'' done''" "''a''"]
    by (simp add: valid_word_def is_whitespace_def)
qed

end
