(* ===== verification/Simulator.thy ===== *)
theory Simulator
  imports Format CompactTiered CompactLeveled "HOL-Library.AList"
begin

text \<open>
  The compaction simulator \<open>src/bin/compaction-simulator.rs\<close>: a mock storage that knows tables by
  number only, and for each controller the loop that flushes a table and compacts until the
  controller is content. Random numbers are arguments. Of what is printed, the dumps of the levels
  are modelled, which can panic; headers and statistics are values of the result.
\<close>

section \<open>The mock storage\<close>

record 'm mock_storage =
  ms_snapshot :: "'m lsm_state"
  ms_next_sst_id :: nat
  ms_file_list :: "(nat \<times> nat) list"
  ms_total_flushes :: nat
  ms_total_writes :: nat

definition mock_new :: "('m, key, bytes) skip_ops \<Rightarrow> 'm mock_storage" where
  "mock_new S =
     \<lparr>ms_snapshot = \<lparr>ls_memtable = mt_create S 0, ls_imm_memtables = [], ls_l0_sstables = [], ls_levels = [],
        ls_sstables = Map.empty\<rparr>,
      ms_next_sst_id = 1, ms_file_list = [], ms_total_flushes = 0, ms_total_writes = 0\<rparr>"

definition generate_sst_id :: "'m mock_storage \<Rightarrow> nat \<times> 'm mock_storage" where
  "generate_sst_id m = (ms_next_sst_id m, m\<lparr>ms_next_sst_id := ms_next_sst_id m + 1\<rparr>)"

definition flush_sst_to_l0 :: "'m mock_storage \<Rightarrow> nat \<times> 'm mock_storage" where
  "flush_sst_to_l0 m =
     (let (i, m) = generate_sst_id m; st = ms_snapshot m in
      (i, m\<lparr>ms_snapshot := st\<lparr>ls_l0_sstables := ls_l0_sstables st @ [i]\<rparr>,
            ms_file_list := AList.update i i (ms_file_list m),
            ms_total_flushes := ms_total_flushes m + 1, ms_total_writes := ms_total_writes m + 1\<rparr>))"

definition flush_sst_to_new_tier :: "'m mock_storage \<Rightarrow> 'm mock_storage" where
  "flush_sst_to_new_tier m =
     (let (i, m) = generate_sst_id m; st = ms_snapshot m in
      m\<lparr>ms_snapshot := st\<lparr>ls_levels := (i, [i]) # ls_levels st\<rparr>,
        ms_file_list := AList.update i i (ms_file_list m),
        ms_total_flushes := ms_total_flushes m + 1, ms_total_writes := ms_total_writes m + 1\<rparr>)"

fun mock_remove :: "nat list \<Rightarrow> 'm mock_storage \<Rightarrow> unit res \<times> 'm mock_storage" where
  "mock_remove [] m = (Inr (), m)"
| "mock_remove (i # ids) m =
     (case map_of (ms_file_list m) i of
        None \<Rightarrow> (Inl Panic, m)
      | Some _ \<Rightarrow> mock_remove ids (m\<lparr>ms_file_list := AList.delete i (ms_file_list m)\<rparr>))"

text \<open>\<open>check_keys\<close>: neighbours of a level must not overlap.\<close>

fun check_files :: "'m lsm_state \<Rightarrow> nat list \<Rightarrow> unit res" where
  "check_files st (i # j # ids) =
     and_then (lookup_res (ls_sstables st) i) (\<lambda>this_file.
     and_then (lookup_res (ls_sstables st) j) (\<lambda>next_file.
     if sst_first_key next_file \<le> sst_last_key this_file then Inl Panic else check_files st (j # ids)))"
| "check_files st ids = Inr ()"

definition check_keys :: "'m mock_storage \<Rightarrow> unit res" where
  "check_keys m = fold_res (\<lambda>l _. check_files (ms_snapshot m) (snd l)) (ls_levels (ms_snapshot m)) ()"

section \<open>Dumps\<close>

definition dump_size_only :: "'m mock_storage \<Rightarrow> string list" where
  "dump_size_only m =
     [''Levels: '' @ decimal (length (ls_l0_sstables (ms_snapshot m))) @
      concat (map (\<lambda>l. '' '' @ decimal (length (snd l))) (ls_levels (ms_snapshot m)))]"

definition dump_l0 :: "bool \<Rightarrow> 'm lsm_state \<Rightarrow> string list" where
  "dump_l0 always_show_l0 st =
     (if ls_l0_sstables st \<noteq> [] \<or> always_show_l0
      then [''L0 ('' @ decimal (length (ls_l0_sstables st)) @ ''): '' @ fmt_list (ls_l0_sstables st)] else [])"

definition dump_level :: "nat \<Rightarrow> nat list \<Rightarrow> nat list \<Rightarrow> string" where
  "dump_level level files shown =
     ''L'' @ decimal level @ '' ('' @ decimal (length files) @ ''): '' @ fmt_list shown"

definition dump_original_id :: "bool \<Rightarrow> bool \<Rightarrow> 'm mock_storage \<Rightarrow> string list res" where
  "dump_original_id always_show_l0 with_key m =
     and_then (map_res (\<lambda>(level, files).
       and_then (map_res (lookup_res (map_of (ms_file_list m))) files) (\<lambda>shown. Inr (dump_level level files shown)))
       (ls_levels (ms_snapshot m))) (\<lambda>levels.
     and_then (if with_key then check_keys m else Inr ()) (\<lambda>_.
     Inr (dump_l0 always_show_l0 (ms_snapshot m) @ levels)))"

definition dump_real_id :: "bool \<Rightarrow> bool \<Rightarrow> 'm mock_storage \<Rightarrow> string list res" where
  "dump_real_id always_show_l0 with_key m =
     and_then (if with_key then check_keys m else Inr ()) (\<lambda>_.
     Inr (dump_l0 always_show_l0 (ms_snapshot m) @
          map (\<lambda>(level, files). dump_level level files files) (ls_levels (ms_snapshot m))))"

record sim_flags =
  sf_dump_real_id :: bool
  sf_size_only :: bool

definition sim_dump :: "sim_flags \<Rightarrow> bool \<Rightarrow> bool \<Rightarrow> 'm mock_storage \<Rightarrow> string list res" where
  "sim_dump flags always_show_l0 with_key m =
     (if sf_size_only flags then Inr (dump_size_only m)
      else if sf_dump_real_id flags then dump_real_id always_show_l0 with_key m
      else dump_original_id always_show_l0 with_key m)"

section \<open>The loops\<close>

text \<open>
  The state of a run: the storage, the largest number of files so far, and the dumps. A new file
  remembers the file it comes from.
\<close>

record 'm sim =
  si_storage :: "'m mock_storage"
  si_max_space :: nat
  si_dumps :: "string list"

record sim_stats =
  ss_compactions :: nat
  ss_total_writes :: nat
  ss_total_flushes :: nat
  ss_max_space :: nat
  ss_read_amplification :: nat

definition sim_see_space :: "'m sim \<Rightarrow> 'm sim" where
  "sim_see_space s = s\<lparr>si_max_space := max (si_max_space s) (length (ms_file_list (si_storage s)))\<rparr>"

definition sim_print :: "sim_flags \<Rightarrow> bool \<Rightarrow> bool \<Rightarrow> 'm sim \<Rightarrow> unit res \<times> 'm sim" where
  "sim_print flags always_show_l0 with_key s =
     (case sim_dump flags always_show_l0 with_key (si_storage s) of
        Inl e \<Rightarrow> (Inl e, s)
      | Inr lines \<Rightarrow> (Inr (), s\<lparr>si_dumps := si_dumps s @ lines\<rparr>))"

fun copy_files :: "nat list \<Rightarrow> 'm mock_storage \<Rightarrow> nat list \<times> 'm mock_storage" where
  "copy_files [] m = ([], m)"
| "copy_files (f # fs) m =
     (let (i, m) = generate_sst_id m;
          (ids, m) = copy_files fs (m\<lparr>ms_file_list := AList.update i f (ms_file_list m),
                                       ms_total_writes := ms_total_writes m + 1\<rparr>)
      in (i # ids, m))"

text \<open>The result of a compaction is taken over, and the files it removed are dropped.\<close>

definition sim_apply :: "('m lsm_state \<times> nat list) res \<Rightarrow> 'm sim \<Rightarrow> unit res \<times> 'm sim" where
  "sim_apply result s =
     (case result of
        Inl e \<Rightarrow> (Inl e, s)
      | Inr (snapshot, del) \<Rightarrow>
          (case mock_remove del ((si_storage s)\<lparr>ms_snapshot := snapshot\<rparr>) of
             (r, m) \<Rightarrow> (r, s\<lparr>si_storage := m\<rparr>)))"

text \<open>
  \<open>while let Some(task) = controller.generate_compaction_task(..)\<close> with its counter: the common form
  of the three loops. The counter bounds the rounds, so the recursion ends.
\<close>

function sim_rounds ::
    "('m sim \<Rightarrow> 'task option res) \<Rightarrow> ('task \<Rightarrow> 'm sim \<Rightarrow> unit res \<times> 'm sim) \<Rightarrow> nat \<Rightarrow> nat \<Rightarrow> 'm sim \<Rightarrow>
     nat res \<times> 'm sim" where
  "sim_rounds gen compaction limit num_compactions s =
     (case gen s of
        Inl e \<Rightarrow> (Inl e, s)
      | Inr None \<Rightarrow> (Inr num_compactions, s)
      | Inr (Some task) \<Rightarrow>
          st_then (compaction task s) (\<lambda>_ s.
          if limit \<le> num_compactions + 1 then (Inl Panic, s)
          else sim_rounds gen compaction limit (num_compactions + 1) s))"
  by pat_completeness auto
termination by (relation "measure (\<lambda>(gen, compaction, limit, n, s). limit - n)") auto

declare sim_rounds.simps [simp del]

definition sim_stats_of :: "nat \<Rightarrow> 'm sim \<Rightarrow> sim_stats" where
  "sim_stats_of num_compactions s =
     (let m = si_storage s; st = ms_snapshot m in
      \<lparr>ss_compactions = num_compactions, ss_total_writes = ms_total_writes m,
       ss_total_flushes = ms_total_flushes m, ss_max_space = si_max_space s,
       ss_read_amplification = length (ls_l0_sstables st) + length (filter (\<lambda>l. snd l \<noteq> []) (ls_levels st))\<rparr>)"

fun sim_iterations :: "('x \<Rightarrow> 's \<Rightarrow> 'a res \<times> 's) \<Rightarrow> 'x list \<Rightarrow> 's \<Rightarrow> 'a list res \<times> 's" where
  "sim_iterations iteration [] s = (Inr [], s)"
| "sim_iterations iteration (x # xs) s =
     st_then (iteration x s) (\<lambda>a s. st_then (sim_iterations iteration xs s) (\<lambda>as s. (Inr (a # as), s)))"

section \<open>Simple leveled compaction\<close>

definition simple_sim_compaction :: "sim_flags \<Rightarrow> simple_task \<Rightarrow> 'm sim \<Rightarrow> unit res \<times> 'm sim" where
  "simple_sim_compaction flags task s =
     (let (sst_ids, m) = copy_files (st_upper_level_sst_ids task @ st_lower_level_sst_ids task) (si_storage s);
          s = sim_see_space (s\<lparr>si_storage := m\<rparr>)
      in st_then (sim_apply (simple_apply (ms_snapshot m) task sst_ids) s) (\<lambda>_. sim_print flags True False))"

definition simple_sim_iteration :: "sim_flags \<Rightarrow> simple_options \<Rightarrow> 'm sim \<Rightarrow> sim_stats res \<times> 'm sim" where
  "simple_sim_iteration flags o' s =
     st_then (sim_print flags True False (s\<lparr>si_storage := snd (flush_sst_to_l0 (si_storage s))\<rparr>)) (\<lambda>_ s.
     st_then (sim_rounds (\<lambda>s. simple_generate o' (ms_snapshot (si_storage s))) (simple_sim_compaction flags)
       (so_max_levels o' * 2) 0 s) (\<lambda>num_compactions s.
     let s = sim_see_space s in (Inr (sim_stats_of num_compactions s), s)))"

definition sim_start :: "('m, key, bytes) skip_ops \<Rightarrow> nat \<Rightarrow> 'm sim" where
  "sim_start S max_levels =
     (let m = mock_new S in
      \<lparr>si_storage = m\<lparr>ms_snapshot := (ms_snapshot m)\<lparr>ls_levels := map (\<lambda>i. (i + 1, [])) [0..<max_levels]\<rparr>\<rparr>,
       si_max_space = 0, si_dumps = []\<rparr>)"

definition simple_sim ::
    "('m, key, bytes) skip_ops \<Rightarrow> sim_flags \<Rightarrow> simple_options \<Rightarrow> nat \<Rightarrow> sim_stats list res \<times> 'm sim" where
  "simple_sim S flags o' iterations =
     sim_iterations (\<lambda>_. simple_sim_iteration flags o') [0..<iterations] (sim_start S (so_max_levels o'))"

section \<open>Tiered compaction\<close>

definition tiered_sim_compaction :: "sim_flags \<Rightarrow> tiered_task \<Rightarrow> 'm sim \<Rightarrow> unit res \<times> 'm sim" where
  "tiered_sim_compaction flags task s =
     (let (sst_ids, m) = copy_files (concat (map snd (tt_tiers task))) (si_storage s);
          s = sim_see_space (s\<lparr>si_storage := m\<rparr>)
      in st_then (sim_apply (tiered_apply (ms_snapshot m) task sst_ids) s) (\<lambda>_. sim_print flags False False))"

definition tiered_sim_iteration :: "sim_flags \<Rightarrow> tiered_options \<Rightarrow> 'm sim \<Rightarrow> sim_stats res \<times> 'm sim" where
  "tiered_sim_iteration flags o' s =
     st_then (sim_print flags False False (s\<lparr>si_storage := flush_sst_to_new_tier (si_storage s)\<rparr>)) (\<lambda>_ s.
     st_then (sim_rounds (\<lambda>s. tiered_generate o' (ms_snapshot (si_storage s))) (tiered_sim_compaction flags)
       (to_num_tiers o' * 3) 0 s) (\<lambda>num_compactions s.
     let s = sim_see_space s in (Inr (sim_stats_of num_compactions s), s)))"

definition tiered_sim ::
    "('m, key, bytes) skip_ops \<Rightarrow> sim_flags \<Rightarrow> tiered_options \<Rightarrow> nat \<Rightarrow> sim_stats list res \<times> 'm sim" where
  "tiered_sim S flags o' iterations =
     sim_iterations (\<lambda>_. tiered_sim_iteration flags o') [0..<iterations] (sim_start S 0)"

section \<open>Leveled compaction\<close>

definition u64_key :: "nat \<Rightarrow> key" where
  "u64_key n = Key (put_u64 (word_of_nat n)) TS_DEFAULT"

text \<open>The two random numbers are drawn from the ranges up to \<open>2 ^ 31\<close>.\<close>

definition generate_random_key_range :: "nat \<times> nat \<Rightarrow> key \<times> key" where
  "generate_random_key_range draw = (u64_key (fst draw), u64_key (fst draw + snd draw))"

definition u64_checked :: "nat \<Rightarrow> nat res" where
  "u64_checked n = (if n < 2 ^ 64 then Inr n else Inl Panic)"

definition split_bounds :: "nat \<Rightarrow> nat \<Rightarrow> nat \<Rightarrow> nat \<Rightarrow> (nat \<times> nat) res" where
  "split_bounds start len split i =
     and_then (u64_checked (len * i)) (\<lambda>x.
     and_then (u64_checked (start + x div split)) (\<lambda>nb.
     and_then (u64_checked (len * (i + 1))) (\<lambda>y.
     and_then (u64_checked (start + y div split)) (\<lambda>z.
     and_then (checked_sub z 1) (\<lambda>ne. Inr (nb, ne))))))"

definition generate_random_split :: "key \<Rightarrow> key \<Rightarrow> nat \<Rightarrow> (key \<times> key) list res" where
  "generate_random_split begin_bytes end_bytes split =
     and_then (get_u64 (key_ref begin_bytes)) (\<lambda>(b, _).
     and_then (get_u64 (key_ref end_bytes)) (\<lambda>(e, _).
     and_then (checked_sub (unat e) (unat b)) (\<lambda>d.
     and_then (u64_checked (d + 1)) (\<lambda>len.
     and_then (ensure (split \<le> len) Panic) (\<lambda>_.
     map_res (\<lambda>i. and_then (split_bounds (unat b) len split i) (\<lambda>(nb, ne). Inr (u64_key nb, u64_key ne)))
       [0..<split])))))"

fun copy_tables :: "nat \<Rightarrow> (nat \<times> key \<times> key) list \<Rightarrow> 'm mock_storage \<Rightarrow> nat list \<times> 'm mock_storage" where
  "copy_tables sst_size [] m = ([], m)"
| "copy_tables sst_size ((f, first_key, last_key) # fs) m =
     (let (i, m) = generate_sst_id m;
          st = ms_snapshot m;
          (ids, m) = copy_tables sst_size fs
            (m\<lparr>ms_file_list := AList.update i f (ms_file_list m), ms_total_writes := ms_total_writes m + 1,
               ms_snapshot := st\<lparr>ls_sstables :=
                 (ls_sstables st)(i \<mapsto> sst_create_meta_only i sst_size first_key last_key)\<rparr>\<rparr>)
      in (i # ids, m))"

definition leveled_sim_compaction :: "sim_flags \<Rightarrow> nat \<Rightarrow> leveled_task \<Rightarrow> 'm sim \<Rightarrow> unit res \<times> 'm sim" where
  "leveled_sim_compaction flags sst_size_mb task s =
     (let files = lt_upper_level_sst_ids task @ lt_lower_level_sst_ids task; m = si_storage s in
      case and_then (map_res (lookup_res (ls_sstables (ms_snapshot m))) files) (\<lambda>tables.
           and_then (ensure (tables \<noteq> []) Panic) (\<lambda>_.
           generate_random_split (Min (set (map sst_first_key tables))) (Max (set (map sst_last_key tables)))
             (length files))) of
        Inl e \<Rightarrow> (Inl e, s)
      | Inr splits \<Rightarrow>
          let (sst_ids, m) = copy_tables (sst_size_mb * 1024 * 1024) (zip files splits) m;
              s = sim_see_space (s\<lparr>si_storage := m\<rparr>)
          in st_then (sim_apply (leveled_apply (ms_snapshot m) task sst_ids False) s) (\<lambda>_. sim_print flags True True))"

definition leveled_sim_flush :: "nat \<Rightarrow> nat \<times> nat \<Rightarrow> 'm mock_storage \<Rightarrow> 'm mock_storage" where
  "leveled_sim_flush sst_size_mb draw m =
     (let (i, m) = flush_sst_to_l0 m;
          (first_key, last_key) = generate_random_key_range draw;
          st = ms_snapshot m
      in m\<lparr>ms_snapshot := st\<lparr>ls_sstables :=
             (ls_sstables st)(i \<mapsto> sst_create_meta_only i (sst_size_mb * 1024 * 1024) first_key last_key)\<rparr>\<rparr>)"

definition leveled_sim_iteration ::
    "sim_flags \<Rightarrow> leveled_options \<Rightarrow> nat \<Rightarrow> nat \<times> nat \<Rightarrow> 'm sim \<Rightarrow> sim_stats res \<times> 'm sim" where
  "leveled_sim_iteration flags o' sst_size_mb draw s =
     st_then (sim_print flags False True (s\<lparr>si_storage := leveled_sim_flush sst_size_mb draw (si_storage s)\<rparr>)) (\<lambda>_ s.
     st_then (sim_rounds (\<lambda>s. leveled_generate o' (ms_snapshot (si_storage s))) (leveled_sim_compaction flags sst_size_mb)
       (lo_level0_file_num_compaction_trigger o' * lo_max_levels o' * 2) 0 s) (\<lambda>num_compactions s.
     let s = sim_see_space s in (Inr (sim_stats_of num_compactions s), s)))"

definition leveled_sim ::
    "('m, key, bytes) skip_ops \<Rightarrow> sim_flags \<Rightarrow> leveled_options \<Rightarrow> nat \<Rightarrow> (nat \<times> nat) list \<Rightarrow>
     sim_stats list res \<times> 'm sim" where
  "leveled_sim S flags o' sst_size_mb draws =
     sim_iterations (leveled_sim_iteration flags o' sst_size_mb) draws (sim_start S (lo_max_levels o'))"

section \<open>The program\<close>

text \<open>
  The subcommands with their options and the number of iterations (and, for leveled compaction, the
  size of a table), as \<open>clap\<close> hands them over, and the defaults of the options.
\<close>

datatype sim_args =
    ArgsSimple sim_flags simple_options nat
  | ArgsTiered sim_flags tiered_options nat
  | ArgsLeveled sim_flags leveled_options nat nat

fun sim_main :: "('m, key, bytes) skip_ops \<Rightarrow> (nat \<Rightarrow> nat \<times> nat) \<Rightarrow> sim_args \<Rightarrow> sim_stats list res \<times> 'm sim" where
  "sim_main S draw (ArgsSimple flags o' iterations) = simple_sim S flags o' iterations"
| "sim_main S draw (ArgsTiered flags o' iterations) = tiered_sim S flags o' iterations"
| "sim_main S draw (ArgsLeveled flags o' iterations sst_size_mb) =
     leveled_sim S flags o' sst_size_mb (map draw [0..<iterations])"

definition default_simple_args :: "sim_flags \<Rightarrow> sim_args" where
  "default_simple_args flags = ArgsSimple flags
     \<lparr>so_size_ratio_percent = 200, so_level0_file_num_compaction_trigger = 2, so_max_levels = 3\<rparr> 50"

definition default_tiered_options :: tiered_options where
  "default_tiered_options =
     \<lparr>to_num_tiers = 8, to_max_size_amplification_percent = 200, to_size_ratio = 1, to_min_merge_width = 2,
      to_max_merge_width = None\<rparr>"

definition default_tiered_args :: "sim_flags \<Rightarrow> sim_args" where
  "default_tiered_args flags = ArgsTiered flags default_tiered_options 50"

definition default_leveled_args :: "sim_flags \<Rightarrow> sim_args" where
  "default_leveled_args flags = ArgsLeveled flags
     \<lparr>lo_level_size_multiplier = 2, lo_level0_file_num_compaction_trigger = 2, lo_max_levels = 4,
      lo_base_level_size_mb = 128\<rparr> 50 32"

section \<open>The list of files\<close>

definition all_files :: "'m lsm_state \<Rightarrow> nat list" where
  "all_files st = ls_l0_sstables st @ concat (map snd (ls_levels st))"

abbreviation file_keys :: "'m mock_storage \<Rightarrow> nat list" where
  "file_keys m \<equiv> map fst (ms_file_list m)"

text \<open>The files of the list are those of the levels, each once, and their numbers were given out.\<close>

definition files_ok :: "'m mock_storage \<Rightarrow> bool" where
  "files_ok m \<longleftrightarrow>
     mset (file_keys m) = mset (all_files (ms_snapshot m)) \<and> distinct (file_keys m) \<and>
     (\<forall>i \<in> set (file_keys m). i < ms_next_sst_id m)"

lemma copy_files_ok:
  assumes "\<forall>i \<in> set (file_keys m). i < ms_next_sst_id m"
  obtains fl where "copy_files fs m = ([ms_next_sst_id m..<ms_next_sst_id m + length fs],
      m\<lparr>ms_next_sst_id := ms_next_sst_id m + length fs, ms_file_list := fl,
        ms_total_writes := ms_total_writes m + length fs\<rparr>)"
    "map fst fl = file_keys m @ [ms_next_sst_id m..<ms_next_sst_id m + length fs]"
proof -
  have "\<exists>fl. copy_files fs m = ([ms_next_sst_id m..<ms_next_sst_id m + length fs],
      m\<lparr>ms_next_sst_id := ms_next_sst_id m + length fs, ms_file_list := fl,
        ms_total_writes := ms_total_writes m + length fs\<rparr>) \<and>
    map fst fl = file_keys m @ [ms_next_sst_id m..<ms_next_sst_id m + length fs]"
    using assms
  proof (induction fs arbitrary: m)
    case Nil
    then show ?case by (intro exI [of _ "ms_file_list m"]) simp
  next
    case (Cons f fs)
    let ?n = "ms_next_sst_id m"
    let ?m = "m\<lparr>ms_next_sst_id := ?n + 1, ms_file_list := AList.update ?n f (ms_file_list m),
      ms_total_writes := ms_total_writes m + 1\<rparr>"
    have new: "?n \<notin> set (file_keys m)" using Cons.prems by blast
    then have keys: "file_keys ?m = file_keys m @ [?n]" by (simp add: update_keys)
    then have "\<forall>i \<in> set (file_keys ?m). i < ms_next_sst_id ?m" using Cons.prems by (auto simp: less_Suc_eq)
    from Cons.IH [OF this] obtain fl where fl: "copy_files fs ?m = ([?n + 1..<?n + 1 + length fs],
        ?m\<lparr>ms_next_sst_id := ?n + 1 + length fs, ms_file_list := fl, ms_total_writes := ms_total_writes m + 1 + length fs\<rparr>)"
      "map fst fl = file_keys ?m @ [?n + 1..<?n + 1 + length fs]"
      by auto
    have "[?n..<?n + length (f # fs)] = ?n # [?n + 1..<?n + 1 + length fs]"
      using upt_conv_Cons [of ?n "?n + length (f # fs)"] by (simp del: upt_Suc)
    then show ?case
      using fl keys by (intro exI [of _ fl]) (simp add: generate_sst_id_def)
  qed
  then show thesis using that by blast
qed

lemma mock_remove_ok:
  assumes "set ids \<subseteq> set (file_keys m)" "distinct ids"
  obtains fl where "mock_remove ids m = (Inr (), m\<lparr>ms_file_list := fl\<rparr>)"
    "map fst fl = filter (\<lambda>i. i \<notin> set ids) (file_keys m)"
proof -
  have "\<exists>fl. mock_remove ids m = (Inr (), m\<lparr>ms_file_list := fl\<rparr>) \<and>
    map fst fl = filter (\<lambda>i. i \<notin> set ids) (file_keys m)"
    using assms
  proof (induction ids arbitrary: m)
    case Nil
    then show ?case by (intro exI [of _ "ms_file_list m"]) simp
  next
    case (Cons i ids)
    let ?m = "m\<lparr>ms_file_list := AList.delete i (ms_file_list m)\<rparr>"
    obtain x where x: "map_of (ms_file_list m) i = Some x"
      using Cons.prems(1) by (cases "map_of (ms_file_list m) i") (auto simp: map_of_eq_None_iff)
    have keys: "file_keys ?m = removeAll i (file_keys m)" by (simp add: delete_keys)
    then have "set ids \<subseteq> set (file_keys ?m)" using Cons.prems by auto
    from Cons.IH [OF this] Cons.prems(2) obtain fl where "mock_remove ids ?m = (Inr (), ?m\<lparr>ms_file_list := fl\<rparr>)"
      "map fst fl = filter (\<lambda>i. i \<notin> set ids) (file_keys ?m)"
      by auto
    then show ?case
      using x keys by (intro exI [of _ fl]) (auto simp: removeAll_filter_not_eq filter_filter intro!: filter_cong)
  qed
  then show thesis using that by blast
qed

lemma mset_filter_out:
  assumes "distinct ks" "mset ks = mset rm + R"
  shows "mset (filter (\<lambda>i. i \<notin> set rm) ks) = R"
proof -
  have "x \<notin> set rm" if "x \<in># R" for x
  proof
    assume "x \<in> set rm"
    then have "0 < count (mset rm) x" "0 < count R x" using that by (simp_all add: count_greater_zero_iff)
    then have "1 < count (mset ks) x" unfolding assms(2) count_union by linarith
    moreover have "count (mset ks) x \<le> 1"
      using assms(1) by (simp add: distinct_count_atmost_1)
    ultimately show False by simp
  qed
  then have zero: "count R x = 0" if "x \<in> set rm" for x using that by (meson not_in_iff)
  have "filter_mset (\<lambda>i. i \<notin> set rm) (mset rm + R) = R"
  proof (rule multiset_eqI)
    fix x
    show "count (filter_mset (\<lambda>i. i \<notin> set rm) (mset rm + R)) x = count R x"
      using zero [of x] not_in_iff [of x "mset rm"] by (cases "x \<in> set rm") simp_all
  qed
  then show ?thesis unfolding mset_filter assms(2) .
qed

text \<open>A compaction step on the storage, whatever the controller did with the levels.\<close>

lemma mock_step_ok:
  assumes ok: "files_ok m" and old: "mset (all_files (ms_snapshot m)) = mset rm + R"
    and new: "mset (all_files st') = mset [ms_next_sst_id m..<ms_next_sst_id m + length rm] + R"
  obtains m1 m2 where "copy_files rm m = ([ms_next_sst_id m..<ms_next_sst_id m + length rm], m1)"
    "ms_snapshot m1 = ms_snapshot m" "mock_remove rm (m1\<lparr>ms_snapshot := st'\<rparr>) = (Inr (), m2)"
    "files_ok m2" "ms_snapshot m2 = st'" "ms_total_flushes m2 = ms_total_flushes m"
    "length (ms_file_list m2) = length (ms_file_list m)"
    "ms_total_writes m2 = ms_total_writes m + length rm"
proof -
  let ?n = "ms_next_sst_id m"
  let ?ids = "[?n..<?n + length rm]"
  have b: "\<forall>i \<in> set (file_keys m). i < ?n" and d: "distinct (file_keys m)"
    and k: "mset (file_keys m) = mset rm + R"
    using ok old by (simp_all add: files_ok_def)
  obtain fl where fl: "copy_files rm m = (?ids, m\<lparr>ms_next_sst_id := ?n + length rm, ms_file_list := fl,
        ms_total_writes := ms_total_writes m + length rm\<rparr>)" "map fst fl = file_keys m @ ?ids"
    by (rule copy_files_ok [OF b])
  define m1 where "m1 = m\<lparr>ms_next_sst_id := ?n + length rm, ms_file_list := fl,
        ms_total_writes := ms_total_writes m + length rm\<rparr>"
  have keys: "file_keys (m1\<lparr>ms_snapshot := st'\<rparr>) = file_keys m @ ?ids" by (simp add: m1_def fl(2))
  have mset: "mset (file_keys m @ ?ids) = mset rm + (mset ?ids + R)" by (simp add: k del: mset_map)
  have dis: "distinct (file_keys m @ ?ids)" using d b by auto
  have sub: "set rm \<subseteq> set (file_keys (m1\<lparr>ms_snapshot := st'\<rparr>))"
    unfolding keys using mset_subset_eq_add_left [of "mset rm" "mset ?ids + R"] mset
    by (metis set_mset_mset set_mset_mono)
  have drm: "distinct rm"
    unfolding distinct_count_atmost_1
  proof
    fix x
    have "count (mset rm) x \<le> count (mset (file_keys m)) x" by (simp add: k del: mset_map)
    also have "\<dots> \<le> 1" using d by (simp add: distinct_count_atmost_1 del: mset_map)
    finally have le: "count (mset rm) x \<le> 1" .
    show "count (mset rm) x = (if x \<in> set rm then 1 else 0)"
    proof (cases "x \<in> set rm")
      case True
      then have "0 < count (mset rm) x" by (simp add: count_greater_zero_iff)
      with le have "count (mset rm) x = 1" by linarith
      with True show ?thesis by simp
    next
      case False
      then show ?thesis using not_in_iff [of x "mset rm"] by simp
    qed
  qed
  obtain fl' where fl': "mock_remove rm (m1\<lparr>ms_snapshot := st'\<rparr>) = (Inr (), (m1\<lparr>ms_snapshot := st'\<rparr>)\<lparr>ms_file_list := fl'\<rparr>)"
    "map fst fl' = filter (\<lambda>i. i \<notin> set rm) (file_keys (m1\<lparr>ms_snapshot := st'\<rparr>))"
    by (rule mock_remove_ok [OF sub drm])
  define m2 where "m2 = (m1\<lparr>ms_snapshot := st'\<rparr>)\<lparr>ms_file_list := fl'\<rparr>"
  have keys2: "file_keys m2 = filter (\<lambda>i. i \<notin> set rm) (file_keys m @ ?ids)"
    using fl'(2) keys by (simp add: m2_def)
  have mset2: "mset (file_keys m2) = mset ?ids + R"
    unfolding keys2 by (rule mset_filter_out [OF dis mset])
  have "files_ok m2"
    unfolding files_ok_def
  proof (intro conjI)
    show "mset (file_keys m2) = mset (all_files (ms_snapshot m2))" using mset2 new by (simp add: m2_def)
    show "distinct (file_keys m2)" unfolding keys2 by (rule distinct_filter [OF dis])
    show "\<forall>i \<in> set (file_keys m2). i < ms_next_sst_id m2"
      unfolding keys2 using b by (auto simp: m2_def m1_def)
  qed
  moreover have "length (ms_file_list m2) = length (ms_file_list m)"
    using arg_cong [OF mset2, of size] arg_cong [OF k, of size] by simp
  ultimately show thesis
    using fl(1) fl'(1) by (intro that [of m1 m2]) (simp_all add: m1_def m2_def)
qed

lemma sim_print_ok:
  assumes "files_ok (si_storage s)"
  obtains s' where "sim_print flags always False s = (Inr (), s')" "si_storage s' = si_storage s"
proof -
  let ?m = "si_storage s"
  have "set (snd l) \<subseteq> set (file_keys ?m)" if "l \<in> set (ls_levels (ms_snapshot ?m))" for l
  proof -
    have "set (snd l) \<subseteq> set (all_files (ms_snapshot ?m))" using that by (auto simp: all_files_def)
    then show ?thesis using assms by (metis files_ok_def mset_eq_setD)
  qed
  then have look: "map_res (lookup_res (map_of (ms_file_list ?m))) (snd l) =
      Inr (map (\<lambda>i. the (map_of (ms_file_list ?m) i)) (snd l))" if "l \<in> set (ls_levels (ms_snapshot ?m))" for l
    using that by (intro map_res_Inr) (fastforce simp: lookup_res_def map_of_eq_None_iff split: option.split)
  have "\<exists>lines. dump_original_id always False ?m = Inr lines"
    unfolding dump_original_id_def
    by (subst map_res_Inr [where g = "\<lambda>(level, files). dump_level level files
          (map (\<lambda>i. the (map_of (ms_file_list ?m) i)) files)"]) (use look in \<open>auto simp: split_def\<close>)
  then have "\<exists>lines. sim_dump flags always False ?m = Inr lines"
    by (auto simp: sim_dump_def dump_real_id_def)
  then obtain lines where "sim_dump flags always False ?m = Inr lines" by blast
  then show thesis by (intro that [of "s\<lparr>si_dumps := si_dumps s @ lines\<rparr>"]) (simp_all add: sim_print_def)
qed

lemma sim_see_space_storage [simp]: "si_storage (sim_see_space s) = si_storage s"
  by (simp add: sim_see_space_def)

end
