(* ===== verification/SimSimple.thy ===== *)
theory SimSimple
  imports Simulator
begin

text \<open>
  The simulation of simple leveled compaction converges: after a flush the compactions move down
  the levels, each level at most once.
\<close>

text \<open>The levels between which the controller has nothing to do.\<close>

fun quiet :: "simple_options \<Rightarrow> (nat \<times> nat list) list \<Rightarrow> bool" where
  "quiet o' ((upper_l, upper) # (lower_l, lower) # rest) \<longleftrightarrow>
     \<not> compaction_required o' (length upper) (length lower) \<and> quiet o' ((lower_l, lower) # rest)"
| "quiet o' _ \<longleftrightarrow> True"

lemma quiet_scan: "quiet o' ls \<Longrightarrow> simple_scan o' n ls = None"
  by (induction o' ls rule: quiet.induct) simp_all

lemma quiet_tl: "quiet o' (l # ls) \<Longrightarrow> quiet o' ls"
  by (cases l; cases ls) auto

lemma quiet_empty: "\<forall>l \<in> set ls. snd l = [] \<Longrightarrow> quiet o' ls"
  by (induction o' ls rule: quiet.induct) (simp_all add: compaction_required_def)

text \<open>Empty levels at the top do not matter.\<close>

lemma scan_skip_empty: "\<forall>l \<in> set pre. snd l = [] \<Longrightarrow> simple_scan o' n (pre @ x # post) = simple_scan o' n (x # post)"
proof (induction pre)
  case (Cons p pre)
  obtain k where p: "p = (k, [])" using Cons.prems by (cases p) auto
  obtain y ys where y: "pre @ x # post = y # ys" by (cases pre) auto
  have "simple_scan o' n (p # y # ys) = simple_scan o' n (y # ys)"
    by (cases y) (simp add: p compaction_required_def)
  then show ?case using Cons y by simp
qed simp

lemma quiet_skip_empty: "\<forall>l \<in> set pre. snd l = [] \<Longrightarrow> quiet o' (x # post) \<Longrightarrow> quiet o' (pre @ x # post)"
proof (induction pre)
  case (Cons p pre)
  obtain k where p: "p = (k, [])" using Cons.prems by (cases p) auto
  obtain y ys where y: "pre @ x # post = y # ys" by (cases pre) auto
  have "quiet o' (p # y # ys) \<longleftrightarrow> quiet o' (y # ys)"
    by (cases y) (simp add: p compaction_required_def)
  then show ?case using Cons y by simp
qed simp

lemma numbered_split:
  assumes "map fst (pre @ x # post) = map Suc [0..<n]"
  shows "fst x = Suc (length pre)" "length pre < n" "n = Suc (length pre + length post)"
proof -
  have n: "n = length (pre @ x # post)" using arg_cong [OF assms, of length] by simp
  then show lt: "length pre < n" and "n = Suc (length pre + length post)" by simp_all
  have "map fst (pre @ x # post) ! length pre = fst x" by (simp add: nth_append)
  moreover have "map Suc [0..<n] ! length pre = Suc (length pre)" using lt by simp
  ultimately show "fst x = Suc (length pre)" using assms by simp
qed

definition mock_ok :: "nat \<Rightarrow> 'm mock_storage \<Rightarrow> bool" where
  "mock_ok max_levels m \<longleftrightarrow> map fst (ls_levels (ms_snapshot m)) = map Suc [0..<max_levels] \<and> files_ok m"

lemma mock_ok_files: "mock_ok n m \<Longrightarrow> files_ok m"
  by (simp add: mock_ok_def)

text \<open>One compaction of the simulation, from what \<open>simple_apply\<close> does to the levels.\<close>

lemma simple_sim_step:
  assumes ok: "mock_ok n (si_storage s)"
    and old: "mset (all_files (ms_snapshot (si_storage s))) =
      mset (st_upper_level_sst_ids task @ st_lower_level_sst_ids task) + R"
    and app: "\<And>out. simple_apply (ms_snapshot (si_storage s)) task out =
      Inr (f out, st_upper_level_sst_ids task @ st_lower_level_sst_ids task)"
    and new: "\<And>out. mset (all_files (f out)) = mset out + R"
    and levels: "\<And>out. map fst (ls_levels (f out)) = map Suc [0..<n]"
  obtains out s' where "simple_sim_compaction flags task s = (Inr (), s')" "mock_ok n (si_storage s')"
    "ms_snapshot (si_storage s') = f out"
    "ms_total_flushes (si_storage s') = ms_total_flushes (si_storage s)"
    "length (ms_file_list (si_storage s')) = length (ms_file_list (si_storage s))"
proof -
  let ?m = "si_storage s" and ?rm = "st_upper_level_sst_ids task @ st_lower_level_sst_ids task"
  let ?out = "[ms_next_sst_id ?m..<ms_next_sst_id ?m + length ?rm]"
  obtain m1 m2 where m: "copy_files ?rm ?m = (?out, m1)" "ms_snapshot m1 = ms_snapshot ?m"
    "mock_remove ?rm (m1\<lparr>ms_snapshot := f ?out\<rparr>) = (Inr (), m2)" "files_ok m2" "ms_snapshot m2 = f ?out"
    "ms_total_flushes m2 = ms_total_flushes ?m" "length (ms_file_list m2) = length (ms_file_list ?m)"
    by (rule mock_step_ok [OF mock_ok_files [OF ok] old, of "f ?out"]) (use new in auto)
  define out where "out = ?out"
  note m = m [folded out_def]
  define s1 where "s1 = (sim_see_space (s\<lparr>si_storage := m1\<rparr>))\<lparr>si_storage := m2\<rparr>"
  have "files_ok (si_storage s1)" by (simp add: s1_def m(4))
  then obtain s' where s': "sim_print flags True False s1 = (Inr (), s')" "si_storage s' = si_storage s1"
    by (rule sim_print_ok)
  have "simple_sim_compaction flags task s = (Inr (), s')"
    using s'(1) by (simp add: simple_sim_compaction_def m(1) sim_apply_def app m(2,3) s1_def Let_def)
  then show thesis
    using m(4-7) s'(2) levels by (intro that [of s' out]) (simp_all add: s1_def mock_ok_def)
qed

definition calm :: "simple_options \<Rightarrow> 'm mock_storage \<Rightarrow> bool" where
  "calm o' m \<longleftrightarrow> mock_ok (so_max_levels o') m \<and> quiet o' (ls_levels (ms_snapshot m)) \<and>
     length (ls_l0_sstables (ms_snapshot m)) < so_level0_file_num_compaction_trigger o'"

abbreviation simple_sim_rounds where
  "simple_sim_rounds flags o' \<equiv>
     sim_rounds (\<lambda>s. simple_generate o' (ms_snapshot (si_storage s))) (simple_sim_compaction flags) (so_max_levels o' * 2)"

text \<open>
  Below level 0: the levels above \<open>x\<close> are empty and those below it are quiet, so that every
  compaction moves \<open>x\<close> one level down.
\<close>

lemma simple_cascade:
  assumes "mock_ok (so_max_levels o') (si_storage s)"
    and "length (ls_l0_sstables (ms_snapshot (si_storage s))) < so_level0_file_num_compaction_trigger o'"
    and "ls_levels (ms_snapshot (si_storage s)) = pre @ x # post"
    and "\<forall>l \<in> set pre. snd l = []" "quiet o' post" "num + length post < so_max_levels o' * 2"
  shows "\<exists>k s'. simple_sim_rounds flags o' num s = (Inr k, s') \<and> k \<le> num + length post \<and> calm o' (si_storage s') \<and>
    ms_total_flushes (si_storage s') = ms_total_flushes (si_storage s) \<and>
    length (ms_file_list (si_storage s')) = length (ms_file_list (si_storage s))"
  using assms
proof (induction post arbitrary: pre x num s)
  case Nil
  let ?st = "ms_snapshot (si_storage s)"
  have "quiet o' (pre @ [x])" by (rule quiet_skip_empty [OF Nil.prems(4)]) (cases x, simp)
  then have q: "quiet o' (ls_levels ?st)" using Nil.prems(3) by simp
  then have "simple_generate o' ?st = Inr None"
    using Nil.prems(2,3) by (simp add: simple_generate_def checked_sub_def quiet_scan)
  then have "simple_sim_rounds flags o' num s = (Inr num, s)" by (subst sim_rounds.simps) simp
  then show ?case using Nil.prems(1,2) q by (intro exI [of _ num] exI [of _ s]) (simp add: calm_def)
next
  case (Cons y post)
  let ?st = "ms_snapshot (si_storage s)"
  obtain u us where x: "x = (u, us)" by (cases x)
  obtain l ls where y: "y = (l, ls)" by (cases y)
  have nums: "map fst (pre @ x # y # post) = map Suc [0..<so_max_levels o']"
    using Cons.prems(1,3) by (simp add: mock_ok_def)
  have u: "u = Suc (length pre)" using numbered_split(1) [OF nums] x by simp
  have l: "l = Suc (Suc (length pre))"
    using numbered_split(1) [of "pre @ [x]" y post "so_max_levels o'"] nums y by simp
  have gen: "simple_generate o' ?st = Inr (simple_scan o' (length (ls_levels ?st)) ((u, us) # (l, ls) # post))"
    using Cons.prems(2,3) scan_skip_empty [OF Cons.prems(4)] x y
    by (simp add: simple_generate_def checked_sub_def)
  show ?case
  proof (cases "compaction_required o' (length us) (length ls)")
    case False
    then have "quiet o' (x # y # post)" using Cons.prems(5) x y by simp
    then have q: "quiet o' (ls_levels ?st)" using quiet_skip_empty [OF Cons.prems(4)] Cons.prems(3) by metis
    have "simple_generate o' ?st = Inr None" using gen False Cons.prems(5) y by (simp add: quiet_scan)
    then have "simple_sim_rounds flags o' num s = (Inr num, s)" by (subst sim_rounds.simps) simp
    then show ?thesis using Cons.prems(1,2) q by (intro exI [of _ num] exI [of _ s]) (simp add: calm_def)
  next
    case True
    define task where "task = \<lparr>st_upper_level = Some u, st_upper_level_sst_ids = us, st_lower_level = l,
      st_lower_level_sst_ids = ls, st_is_lower_level_bottom_level = (length (ls_levels ?st) = l)\<rparr>"
    have gen': "simple_generate o' ?st = Inr (Some task)" using gen True by (simp add: task_def)
    define f where "f out = ?st\<lparr>ls_levels := pre @ (u, []) # (l, out) # post\<rparr>" for out
    define R where "R = mset (ls_l0_sstables ?st) + mset (concat (map snd pre)) + mset (concat (map snd post))"
    have lev: "ls_levels ?st = pre @ (u, us) # (l, ls) # post" using Cons.prems(3) x y by simp
    obtain out s1 where s1: "simple_sim_compaction flags task s = (Inr (), s1)"
      "mock_ok (so_max_levels o') (si_storage s1)" "ms_snapshot (si_storage s1) = f out"
      "ms_total_flushes (si_storage s1) = ms_total_flushes (si_storage s)"
      "length (ms_file_list (si_storage s1)) = length (ms_file_list (si_storage s))"
    proof (rule simple_sim_step [OF Cons.prems(1), where R = R and f = f and task = task and flags = flags])
      show "mset (all_files ?st) = mset (st_upper_level_sst_ids task @ st_lower_level_sst_ids task) + R"
        by (simp add: all_files_def lev R_def task_def)
      show "mset (all_files (f out)) = mset out + R" for out by (simp add: all_files_def f_def R_def)
      show "map fst (ls_levels (f out)) = map Suc [0..<so_max_levels o']" for out
        using nums x y by (simp add: f_def)
      show "simple_apply ?st task out = Inr (f out, st_upper_level_sst_ids task @ st_lower_level_sst_ids task)" for out
        by (simp add: simple_apply_def task_def u l set_level_Suc lev f_def list_update_append)
    qed blast
    have more: "num + 1 + length post < so_max_levels o' * 2" using Cons.prems(6) by simp
    have "\<exists>k s'. simple_sim_rounds flags o' (num + 1) s1 = (Inr k, s') \<and> k \<le> num + 1 + length post \<and>
      calm o' (si_storage s') \<and> ms_total_flushes (si_storage s') = ms_total_flushes (si_storage s1) \<and>
      length (ms_file_list (si_storage s')) = length (ms_file_list (si_storage s1))"
    proof (rule Cons.IH [OF s1(2) _ _ _ _ more])
      show "length (ls_l0_sstables (ms_snapshot (si_storage s1))) < so_level0_file_num_compaction_trigger o'"
        using Cons.prems(2) by (simp add: s1(3) f_def)
      show "ls_levels (ms_snapshot (si_storage s1)) = (pre @ [(u, [])]) @ (l, out) # post" by (simp add: s1(3) f_def)
      show "\<forall>l \<in> set (pre @ [(u, [])]). snd l = []" using Cons.prems(4) by simp
      show "quiet o' post" by (rule quiet_tl [OF Cons.prems(5)])
    qed
    moreover have "simple_sim_rounds flags o' num s = simple_sim_rounds flags o' (num + 1) s1"
      using more by (subst sim_rounds.simps) (simp add: gen' s1(1))
    ultimately show ?thesis using s1(4,5) by fastforce
  qed
qed

text \<open>The rounds of one iteration: level 0 first, if it is full.\<close>

lemma simple_rounds_ok:
  assumes ok: "mock_ok (so_max_levels o') (si_storage s)" and quiet: "quiet o' (ls_levels (ms_snapshot (si_storage s)))"
    and pos: "0 < so_max_levels o'" "0 < so_level0_file_num_compaction_trigger o'"
  shows "\<exists>k s'. simple_sim_rounds flags o' 0 s = (Inr k, s') \<and> k \<le> so_max_levels o' \<and> calm o' (si_storage s') \<and>
    ms_total_flushes (si_storage s') = ms_total_flushes (si_storage s) \<and>
    length (ms_file_list (si_storage s')) = length (ms_file_list (si_storage s))"
proof -
  let ?st = "ms_snapshot (si_storage s)"
  have nums: "map fst (ls_levels ?st) = map Suc [0..<so_max_levels o']" using ok by (simp add: mock_ok_def)
  obtain x post where lev: "ls_levels ?st = x # post"
    using nums pos(1) by (cases "ls_levels ?st") auto
  have size: "so_max_levels o' = Suc (length post)"
    using numbered_split(3) [of "[]" x post "so_max_levels o'"] nums lev by simp
  have post: "quiet o' post" using quiet lev by (metis quiet_tl)
  show ?thesis
  proof (cases "length (ls_l0_sstables ?st) < so_level0_file_num_compaction_trigger o'")
    case True
    then show ?thesis
      using simple_cascade [OF ok True, of "[]" x post 0 flags] lev post size by fastforce
  next
    case False
    define task where "task = \<lparr>st_upper_level = None, st_upper_level_sst_ids = ls_l0_sstables ?st, st_lower_level = 1,
      st_lower_level_sst_ids = snd x, st_is_lower_level_bottom_level = (length (ls_levels ?st) = 1)\<rparr>"
    have gen: "simple_generate o' ?st = Inr (Some task)"
      using False lev by (simp add: simple_generate_def index_def task_def)
    define f where "f out = ?st\<lparr>ls_l0_sstables := [], ls_levels := (1, out) # post\<rparr>" for out
    define R where "R = mset (concat (map snd post))"
    obtain out s1 where s1: "simple_sim_compaction flags task s = (Inr (), s1)"
      "mock_ok (so_max_levels o') (si_storage s1)" "ms_snapshot (si_storage s1) = f out"
      "ms_total_flushes (si_storage s1) = ms_total_flushes (si_storage s)"
      "length (ms_file_list (si_storage s1)) = length (ms_file_list (si_storage s))"
    proof (rule simple_sim_step [OF ok, where R = R and f = f and task = task and flags = flags])
      show "mset (all_files ?st) = mset (st_upper_level_sst_ids task @ st_lower_level_sst_ids task) + R"
        by (simp add: all_files_def lev R_def task_def)
      show "mset (all_files (f out)) = mset out + R" for out by (simp add: all_files_def f_def R_def)
      show "map fst (ls_levels (f out)) = map Suc [0..<so_max_levels o']" for out
        using nums lev numbered_split(1) [of "[]" x post "so_max_levels o'"] by (simp add: f_def)
      show "simple_apply ?st task out = Inr (f out, st_upper_level_sst_ids task @ st_lower_level_sst_ids task)" for out
        by (simp add: simple_apply_def task_def set_level_def checked_sub_def lev f_def)
    qed blast
    have "\<exists>k s'. simple_sim_rounds flags o' 1 s1 = (Inr k, s') \<and> k \<le> 1 + length post \<and> calm o' (si_storage s') \<and>
      ms_total_flushes (si_storage s') = ms_total_flushes (si_storage s1) \<and>
      length (ms_file_list (si_storage s')) = length (ms_file_list (si_storage s1))"
    proof (rule simple_cascade [OF s1(2), where pre = "[]" and x = "(1, out)"])
      show "length (ls_l0_sstables (ms_snapshot (si_storage s1))) < so_level0_file_num_compaction_trigger o'"
        using pos(2) by (simp add: s1(3) f_def)
      show "ls_levels (ms_snapshot (si_storage s1)) = [] @ (1, out) # post" by (simp add: s1(3) f_def)
      show "1 + length post < so_max_levels o' * 2" by (simp add: size)
    qed (simp_all add: post)
    moreover have "simple_sim_rounds flags o' 0 s = simple_sim_rounds flags o' 1 s1"
      using size by (subst sim_rounds.simps) (simp add: gen s1(1))
    ultimately show ?thesis using s1(4,5) size by fastforce
  qed
qed

lemma flush_sst_ok:
  assumes "calm o' m"
  shows "mock_ok (so_max_levels o') (snd (flush_sst_to_l0 m))"
    "quiet o' (ls_levels (ms_snapshot (snd (flush_sst_to_l0 m))))"
    "ms_total_flushes (snd (flush_sst_to_l0 m)) = ms_total_flushes m + 1"
    "length (ms_file_list (snd (flush_sst_to_l0 m))) = length (ms_file_list m) + 1"
proof -
  let ?n = "ms_next_sst_id m"
  have b: "\<forall>i \<in> set (file_keys m). i < ?n" using assms by (simp add: calm_def mock_ok_def files_ok_def)
  then have "?n \<notin> set (file_keys m)" by blast
  then have keys: "map fst (AList.update ?n ?n (ms_file_list m)) = file_keys m @ [?n]" by (simp add: update_keys)
  show "mock_ok (so_max_levels o') (snd (flush_sst_to_l0 m))"
    using assms b keys by (auto simp: calm_def mock_ok_def files_ok_def flush_sst_to_l0_def generate_sst_id_def all_files_def Let_def
        simp del: mset_map)
  show "quiet o' (ls_levels (ms_snapshot (snd (flush_sst_to_l0 m))))"
    using assms by (simp add: calm_def flush_sst_to_l0_def generate_sst_id_def Let_def)
  show "ms_total_flushes (snd (flush_sst_to_l0 m)) = ms_total_flushes m + 1"
    by (simp add: flush_sst_to_l0_def generate_sst_id_def Let_def)
  show "length (ms_file_list (snd (flush_sst_to_l0 m))) = length (ms_file_list m) + 1"
    using arg_cong [OF keys, of length] by (simp add: flush_sst_to_l0_def generate_sst_id_def Let_def)
qed

lemma simple_sim_iteration_ok:
  assumes "calm o' (si_storage s)" "0 < so_max_levels o'" "0 < so_level0_file_num_compaction_trigger o'"
  shows "\<exists>a s'. simple_sim_iteration flags o' s = (Inr a, s') \<and> ss_compactions a \<le> so_max_levels o' \<and>
    calm o' (si_storage s') \<and> ms_total_flushes (si_storage s') = ms_total_flushes (si_storage s) + 1 \<and>
    length (ms_file_list (si_storage s')) = length (ms_file_list (si_storage s)) + 1"
proof -
  let ?s = "s\<lparr>si_storage := snd (flush_sst_to_l0 (si_storage s))\<rparr>"
  note flush = flush_sst_ok [OF assms(1)]
  have "files_ok (si_storage ?s)" using flush(1) by (simp add: mock_ok_def)
  then obtain s1 where s1: "sim_print flags True False ?s = (Inr (), s1)" "si_storage s1 = si_storage ?s"
    by (rule sim_print_ok)
  have "mock_ok (so_max_levels o') (si_storage s1)" "quiet o' (ls_levels (ms_snapshot (si_storage s1)))"
    using flush(1,2) s1(2) by simp_all
  then obtain k s2 where "simple_sim_rounds flags o' 0 s1 = (Inr k, s2)" "k \<le> so_max_levels o'" "calm o' (si_storage s2)"
    "ms_total_flushes (si_storage s2) = ms_total_flushes (si_storage s1)"
    "length (ms_file_list (si_storage s2)) = length (ms_file_list (si_storage s1))"
    using simple_rounds_ok [OF _ _ assms(2,3), of s1 flags] by blast
  then show ?thesis
    using s1 flush(3,4)
    by (intro exI [of _ "sim_stats_of k (sim_see_space s2)"] exI [of _ "sim_see_space s2"])
      (simp add: simple_sim_iteration_def Let_def, simp add: sim_stats_of_def Let_def)
qed

lemma simple_iterations_ok:
  assumes "calm o' (si_storage s)" "0 < so_max_levels o'" "0 < so_level0_file_num_compaction_trigger o'"
  shows "\<exists>as s'. sim_iterations (\<lambda>_. simple_sim_iteration flags o') xs s = (Inr as, s') \<and> length as = length xs \<and>
    (\<forall>a \<in> set as. ss_compactions a \<le> so_max_levels o') \<and> calm o' (si_storage s') \<and>
    ms_total_flushes (si_storage s') = ms_total_flushes (si_storage s) + length xs \<and>
    length (ms_file_list (si_storage s')) = length (ms_file_list (si_storage s)) + length xs"
  using assms(1)
proof (induction xs arbitrary: s)
  case (Cons x xs)
  obtain a s1 where s1: "simple_sim_iteration flags o' s = (Inr a, s1)" "ss_compactions a \<le> so_max_levels o'"
    "calm o' (si_storage s1)" "ms_total_flushes (si_storage s1) = ms_total_flushes (si_storage s) + 1"
    "length (ms_file_list (si_storage s1)) = length (ms_file_list (si_storage s)) + 1"
    using simple_sim_iteration_ok [OF Cons.prems assms(2,3), of flags] by blast
  obtain as s' where "sim_iterations (\<lambda>_. simple_sim_iteration flags o') xs s1 = (Inr as, s')" "length as = length xs"
    "\<forall>a \<in> set as. ss_compactions a \<le> so_max_levels o'" "calm o' (si_storage s')"
    "ms_total_flushes (si_storage s') = ms_total_flushes (si_storage s1) + length xs"
    "length (ms_file_list (si_storage s')) = length (ms_file_list (si_storage s1)) + length xs"
    using Cons.IH [OF s1(3)] by blast
  then show ?case using s1 by (intro exI [of _ "a # as"] exI [of _ s']) simp
qed simp

lemma sim_start_calm:
  "0 < so_level0_file_num_compaction_trigger o' \<Longrightarrow> calm o' (si_storage (sim_start S (so_max_levels o')))"
proof -
  have "concat (map (\<lambda>i. [] :: nat list) xs) = []" for xs :: "nat list" by simp
  then show "0 < so_level0_file_num_compaction_trigger o' \<Longrightarrow> ?thesis"
    by (auto simp: calm_def mock_ok_def files_ok_def sim_start_def mock_new_def all_files_def o_def intro: quiet_empty)
qed

text \<open>
  C31: The simulation of simple leveled compaction never gives up. With a positive trigger and at
  least one level, any number of iterations ends without a panic: in each, after the flush, at most
  as many compactions run as there are levels, so that the guard against divergence is not met; and
  at the end the list of files is that of the levels, with one file for every flush.
\<close>

theorem simple_simulation_converges:
  assumes "0 < so_max_levels o'" "0 < so_level0_file_num_compaction_trigger o'"
  shows "\<exists>as s. simple_sim S flags o' iterations = (Inr as, s) \<and> length as = iterations \<and>
    (\<forall>a \<in> set as. ss_compactions a \<le> so_max_levels o') \<and>
    ms_total_flushes (si_storage s) = iterations \<and> length (ms_file_list (si_storage s)) = iterations \<and>
    mset (map fst (ms_file_list (si_storage s))) =
      mset (ls_l0_sstables (ms_snapshot (si_storage s)) @ concat (map snd (ls_levels (ms_snapshot (si_storage s)))))"
proof -
  let ?s = "sim_start S (so_max_levels o')"
  obtain as s where s: "simple_sim S flags o' iterations = (Inr as, s)" "length as = length [0..<iterations]"
    "\<forall>a \<in> set as. ss_compactions a \<le> so_max_levels o'" "calm o' (si_storage s)"
    "ms_total_flushes (si_storage s) = ms_total_flushes (si_storage ?s) + length [0..<iterations]"
    "length (ms_file_list (si_storage s)) = length (ms_file_list (si_storage ?s)) + length [0..<iterations]"
    using simple_iterations_ok [OF sim_start_calm [OF assms(2), of S] assms, of flags "[0..<iterations]"]
    unfolding simple_sim_def by blast
  moreover have "ms_total_flushes (si_storage ?s) = 0" "ms_file_list (si_storage ?s) = []"
    by (simp_all add: sim_start_def mock_new_def Let_def)
  ultimately show ?thesis
    by (intro exI [of _ as] exI [of _ s]) (simp add: calm_def mock_ok_def files_ok_def all_files_def del: mset_map)
qed

theorem simple_simulation_converges_witness:
  "\<exists>as s. sim_main rbt_ops (\<lambda>i. (i, i)) (default_simple_args \<lparr>sf_dump_real_id = False, sf_size_only = False\<rparr>) =
      (Inr as, s) \<and>
    length as = 50 \<and> length (ms_file_list (si_storage s)) = 50"
  using simple_simulation_converges
    [of "\<lparr>so_size_ratio_percent = 200, so_level0_file_num_compaction_trigger = 2, so_max_levels = 3\<rparr>" rbt_ops
      "\<lparr>sf_dump_real_id = False, sf_size_only = False\<rparr>" 50]
  by (auto simp: default_simple_args_def)

end
