(* ===== verification/SimTiered.thy ===== *)
theory SimTiered
  imports Simulator
begin

text \<open>
  The simulation of tiered compaction: it converges when every task merges at least two tiers, and
  the guard against divergence is met under options that allow tasks of one tier.
\<close>

section \<open>Tasks of two tiers\<close>

definition tiered_merges :: "tiered_options \<Rightarrow> bool" where
  "tiered_merges o' \<longleftrightarrow> 2 \<le> to_num_tiers o' \<and> 2 \<le> to_min_merge_width o' \<and>
     to_max_merge_width o' \<noteq> Some 0 \<and> to_max_merge_width o' \<noteq> Some 1"

lemma tiered_scan_min:
  "tiered_scan o' trigger k files ls = Some j \<Longrightarrow> to_min_merge_width o' \<le> j + 1"
  by (induction o' trigger k files ls rule: tiered_scan.induct) (auto simp: Let_def split: if_splits)

lemma tiered_task_width:
  assumes "tiered_merges o'" "tiered_generate o' st = Inr (Some task)"
  obtains n where "2 \<le> n" "n \<le> length (ls_levels st)" "tt_tiers task = take n (ls_levels st)"
proof -
  let ?ls = "ls_levels st"
  have o': "tiered_options_ok o'" using assms(1) by (auto simp: tiered_options_ok_def tiered_merges_def)
  have len: "2 \<le> length ?ls"
    using assms by (auto simp: tiered_generate_def tiered_merges_def res_simps Let_def split: if_splits)
  consider "tt_tiers task = take (length ?ls) ?ls"
    | k where "tiered_scan o' (size_ratio_trigger o') 0 0 ?ls = Some k" "tt_tiers task = take (k + 1) ?ls"
    | w where "to_max_merge_width o' = Some w" "tt_tiers task = take (min (length ?ls) w) ?ls"
    using assms(2)
    by (auto simp: tiered_generate_def res_simps checked_sub_def Let_def split: if_splits option.splits)
  then show thesis
  proof cases
    case 1
    then show ?thesis using len by (intro that [of "length ?ls"]) simp_all
  next
    case (2 k)
    then show ?thesis
      using assms(1) tiered_scan_min [OF 2(1)] tiered_scan_bound [OF 2(1)]
      by (intro that [of "k + 1"]) (simp_all add: tiered_merges_def)
  next
    case (3 w)
    then have "2 \<le> w" using assms(1) by (cases "w = 0 \<or> w = 1") (auto simp: tiered_merges_def)
    then show ?thesis using 3 len by (intro that [of "min (length ?ls) w"]) simp_all
  qed
qed

lemma tiered_generate_take:
  assumes "tiered_generate o' st = Inr (Some task)"
  shows "\<exists>rest. ls_levels st = tt_tiers task @ rest"
proof -
  have "\<exists>n. tt_tiers task = take n (ls_levels st)"
    using assms
    by (auto simp: tiered_generate_def res_simps checked_sub_def Let_def split: if_splits option.splits
        intro: exI [of _ "length (ls_levels st)"])
  then show ?thesis using append_take_drop_id by metis
qed

lemma tiered_generate_full:
  assumes "ls_l0_sstables st = []" "to_num_tiers o' \<le> length (ls_levels st)" "0 < to_num_tiers o'"
  shows "\<exists>task. tiered_generate o' st = Inr (Some task)"
proof (cases "f64_le (f64_of_nat (to_max_size_amplification_percent o')) (space_amp_ratio (ls_levels st))")
  case False
  then show ?thesis
    using assms by (cases "tiered_scan o' (size_ratio_trigger o') 0 0 (ls_levels st)")
      (simp_all add: tiered_generate_def checked_sub_def Let_def)
qed (use assms in \<open>simp add: tiered_generate_def checked_sub_def\<close>)

text \<open>What is generated depends on the sizes of the tiers only.\<close>

definition tier_sizes :: "(nat \<times> nat list) list \<Rightarrow> nat list" where
  "tier_sizes ls = map (\<lambda>l. length (snd l)) ls"

lemma tiered_scan_sizes:
  "tier_sizes ls = tier_sizes ls' \<Longrightarrow> tiered_scan o' trigger k files ls = tiered_scan o' trigger k files ls'"
proof (induction o' trigger k files ls arbitrary: ls' rule: tiered_scan.induct, goal_cases)
  case (1 o' trigger k files a b rest ls')
  obtain a' ls1 where ls1: "ls' = a' # ls1" "length (snd a') = length (snd a)" "tier_sizes (b # rest) = tier_sizes ls1"
    using 1(2) by (cases ls') (simp_all add: tier_sizes_def)
  obtain b' rest' where b': "ls1 = b' # rest'" "length (snd b') = length (snd b)"
    using ls1(3) by (cases ls1) (simp_all add: tier_sizes_def)
  show ?case using 1(1) [OF refl refl _ ls1(3)] unfolding ls1(1) b'(1) by (simp add: ls1(2) b'(2) Let_def)
next
  case (3 o' trigger k files v ls')
  then obtain l where "ls' = [l]" by (cases ls') (simp_all add: tier_sizes_def)
  then show ?case by simp
qed (simp add: tier_sizes_def)

lemma space_amp_sizes:
  assumes "tier_sizes ls = tier_sizes ls'"
  shows "space_amp_ratio ls = space_amp_ratio ls'"
proof (cases "ls = []")
  case False
  have len: "length ls = length ls'" using arg_cong [OF assms, of length] by (simp add: tier_sizes_def)
  have "files_of (butlast ls) = files_of (butlast ls')"
    using arg_cong [OF assms, of butlast] by (simp add: files_of_def tier_sizes_def map_butlast)
  moreover have "length (snd (last ls)) = length (snd (last ls'))"
    using arg_cong [OF assms, of last] False len by (cases ls') (simp_all add: tier_sizes_def last_map)
  ultimately show ?thesis by (simp add: space_amp_ratio_def)
qed (use assms in \<open>simp add: tier_sizes_def\<close>)

lemma tiered_generate_sizes:
  assumes "tiered_generate o' st = Inr (Some task)" "tier_sizes (ls_levels st') = tier_sizes (ls_levels st)"
    and "ls_l0_sstables st' = []"
  obtains task' where "tiered_generate o' st' = Inr (Some task')" "length (tt_tiers task') = length (tt_tiers task)"
proof -
  have len: "length (ls_levels st') = length (ls_levels st)"
    using arg_cong [OF assms(2), of length] by (simp add: tier_sizes_def)
  note same = tiered_scan_sizes [OF assms(2)] space_amp_sizes [OF assms(2)]
  show thesis
    using assms(1,3) that len
    by (auto simp: tiered_generate_def res_simps checked_sub_def same Let_def split: if_splits option.splits)
qed

section \<open>One compaction\<close>

definition tiers_ok :: "'m mock_storage \<Rightarrow> bool" where
  "tiers_ok m \<longleftrightarrow> files_ok m \<and> ls_l0_sstables (ms_snapshot m) = [] \<and>
     (\<forall>l \<in> set (ls_levels (ms_snapshot m)). snd l \<noteq> [] \<and> fst l = hd (snd l))"

definition tiers_calm :: "tiered_options \<Rightarrow> 'm mock_storage \<Rightarrow> bool" where
  "tiers_calm o' m \<longleftrightarrow> tiers_ok m \<and> length (ls_levels (ms_snapshot m)) < to_num_tiers o'"

lemma tiers_distinct:
  assumes "tiers_ok m"
  shows "distinct (map fst (ls_levels (ms_snapshot m)))"
proof (rule distinct_tiers)
  have "distinct (all_files (ms_snapshot m))"
    using assms mset_eq_imp_distinct_iff unfolding tiers_ok_def files_ok_def by blast
  then show "distinct (concat (map snd (ls_levels (ms_snapshot m))))" by (simp add: all_files_def)
qed (use assms in \<open>simp add: tiers_ok_def\<close>)

lemma tiered_sim_step:
  assumes ok: "tiers_ok (si_storage s)" and ls: "ls_levels (ms_snapshot (si_storage s)) = tt_tiers task @ rest"
    and ne: "tt_tiers task \<noteq> []"
  obtains s' where "tiered_sim_compaction flags task s = (Inr (), s')" "tiers_ok (si_storage s')"
    "tier_sizes (ls_levels (ms_snapshot (si_storage s'))) = files_of (tt_tiers task) # tier_sizes rest"
    "ms_total_flushes (si_storage s') = ms_total_flushes (si_storage s)"
    "length (ms_file_list (si_storage s')) = length (ms_file_list (si_storage s))"
proof -
  let ?m = "si_storage s" and ?rm = "concat (map snd (tt_tiers task))"
  let ?st = "ms_snapshot ?m" and ?out = "[ms_next_sst_id ?m..<ms_next_sst_id ?m + length ?rm]"
  have files: "files_ok ?m" and l0: "ls_l0_sstables ?st = []"
    and shape: "\<forall>l \<in> set (ls_levels ?st). snd l \<noteq> [] \<and> fst l = hd (snd l)"
    using ok by (simp_all add: tiers_ok_def)
  have "?rm \<noteq> []" using shape ls ne by (cases "tt_tiers task") auto
  then have out: "?out \<noteq> []" by simp
  define st' where "st' = ?st\<lparr>ls_levels := (hd ?out, ?out) # rest\<rparr>"
  have app: "tiered_apply ?st task ?out = Inr (st', ?rm)"
    using tiered_loop [of "[]" "tt_tiers task" rest ?out] tiers_distinct [OF ok] ls ne out l0
    by (simp add: tiered_apply_def st'_def del: upt_Suc)
  have old: "mset (all_files ?st) = mset ?rm + mset (concat (map snd rest))" by (simp add: all_files_def l0 ls)
  have new: "mset (all_files st') = mset ?out + mset (concat (map snd rest))" by (simp add: all_files_def l0 st'_def)
  obtain m1 m2 where m: "copy_files ?rm ?m = (?out, m1)" "ms_snapshot m1 = ?st"
    "mock_remove ?rm (m1\<lparr>ms_snapshot := st'\<rparr>) = (Inr (), m2)" "files_ok m2" "ms_snapshot m2 = st'"
    "ms_total_flushes m2 = ms_total_flushes ?m" "length (ms_file_list m2) = length (ms_file_list ?m)"
    by (rule mock_step_ok [OF files old new])
  have m2: "tiers_ok m2" using m(4) shape l0 out unfolding tiers_ok_def m(5) st'_def by (auto simp: ls)
  define s1 where "s1 = (sim_see_space (s\<lparr>si_storage := m1\<rparr>))\<lparr>si_storage := m2\<rparr>"
  have "files_ok (si_storage s1)" by (simp add: s1_def m(4))
  then obtain s' where s': "sim_print flags False False s1 = (Inr (), s')" "si_storage s' = si_storage s1"
    by (rule sim_print_ok)
  have "tiered_sim_compaction flags task s = (Inr (), s')"
    using s'(1) by (simp add: tiered_sim_compaction_def m(1) sim_apply_def app m(2,3) s1_def Let_def)
  moreover have "tier_sizes (ls_levels st') = files_of (tt_tiers task) # tier_sizes rest"
    by (simp add: st'_def tier_sizes_def files_of_def length_concat o_def)
  ultimately show thesis
    using m(5-7) m2 s'(2) by (intro that [of s']) (simp_all add: s1_def)
qed

section \<open>One iteration\<close>

abbreviation tiered_sim_rounds where
  "tiered_sim_rounds flags o' \<equiv>
     sim_rounds (\<lambda>s. tiered_generate o' (ms_snapshot (si_storage s))) (tiered_sim_compaction flags) (to_num_tiers o' * 3)"

lemma tiered_rounds_calm:
  assumes "tiers_calm o' (si_storage s)"
  shows "tiered_sim_rounds flags o' n s = (Inr n, s)"
  using assms by (subst sim_rounds.simps) (simp add: tiered_generate_def tiers_calm_def tiers_ok_def)

lemma tiered_rounds_ok:
  assumes o': "tiered_merges o'" and ok: "tiers_ok (si_storage s)"
    and len: "length (ls_levels (ms_snapshot (si_storage s))) \<le> to_num_tiers o'"
  shows "\<exists>k s'. tiered_sim_rounds flags o' 0 s = (Inr k, s') \<and> k \<le> 1 \<and> tiers_calm o' (si_storage s') \<and>
    ms_total_flushes (si_storage s') = ms_total_flushes (si_storage s) \<and>
    length (ms_file_list (si_storage s')) = length (ms_file_list (si_storage s))"
proof (cases "length (ls_levels (ms_snapshot (si_storage s))) < to_num_tiers o'")
  case True
  then have calm: "tiers_calm o' (si_storage s)" using ok by (simp add: tiers_calm_def)
  show ?thesis by (intro exI [of _ 0] exI [of _ s]) (simp add: tiered_rounds_calm [OF calm] calm)
next
  case False
  let ?st = "ms_snapshot (si_storage s)"
  have num: "length (ls_levels ?st) = to_num_tiers o'" using False len by simp
  obtain task where gen: "tiered_generate o' ?st = Inr (Some task)"
    using o' ok num tiered_generate_full [of ?st o'] by (auto simp: tiers_ok_def tiered_merges_def)
  obtain n where n: "2 \<le> n" "n \<le> length (ls_levels ?st)" "tt_tiers task = take n (ls_levels ?st)"
    by (rule tiered_task_width [OF o' gen])
  have ls: "ls_levels ?st = tt_tiers task @ drop n (ls_levels ?st)" using n(3) by simp
  have ne: "tt_tiers task \<noteq> []" using n by auto
  obtain s1 where s1: "tiered_sim_compaction flags task s = (Inr (), s1)" "tiers_ok (si_storage s1)"
    "tier_sizes (ls_levels (ms_snapshot (si_storage s1))) = files_of (tt_tiers task) # tier_sizes (drop n (ls_levels ?st))"
    "ms_total_flushes (si_storage s1) = ms_total_flushes (si_storage s)"
    "length (ms_file_list (si_storage s1)) = length (ms_file_list (si_storage s))"
    by (rule tiered_sim_step [OF ok ls ne])
  have calm: "tiers_calm o' (si_storage s1)"
    using s1(2) arg_cong [OF s1(3), of length] n(1,2) num by (simp add: tiers_calm_def tier_sizes_def)
  have "tiered_sim_rounds flags o' 0 s = (Inr 1, s1)"
    using o' tiered_rounds_calm [OF calm, of flags 1]
    by (subst sim_rounds.simps) (simp add: gen s1(1) tiered_merges_def)
  then show ?thesis using calm s1(4,5) by (intro exI [of _ 1] exI [of _ s1]) simp
qed

lemma flush_tier_ok:
  assumes "tiers_calm o' m"
  shows "tiers_ok (flush_sst_to_new_tier m)"
    "length (ls_levels (ms_snapshot (flush_sst_to_new_tier m))) \<le> to_num_tiers o'"
    "ms_total_flushes (flush_sst_to_new_tier m) = ms_total_flushes m + 1"
    "length (ms_file_list (flush_sst_to_new_tier m)) = length (ms_file_list m) + 1"
proof -
  let ?n = "ms_next_sst_id m"
  have b: "\<forall>i \<in> set (file_keys m). i < ?n" using assms by (simp add: tiers_calm_def tiers_ok_def files_ok_def)
  then have "?n \<notin> set (file_keys m)" by blast
  then have keys: "map fst (AList.update ?n ?n (ms_file_list m)) = file_keys m @ [?n]" by (simp add: update_keys)
  show "tiers_ok (flush_sst_to_new_tier m)"
    using assms b keys by (auto simp: tiers_calm_def tiers_ok_def files_ok_def flush_sst_to_new_tier_def
        generate_sst_id_def all_files_def Let_def simp del: mset_map)
  show "length (ls_levels (ms_snapshot (flush_sst_to_new_tier m))) \<le> to_num_tiers o'"
    using assms by (simp add: tiers_calm_def flush_sst_to_new_tier_def generate_sst_id_def Let_def)
  show "ms_total_flushes (flush_sst_to_new_tier m) = ms_total_flushes m + 1"
    by (simp add: flush_sst_to_new_tier_def generate_sst_id_def Let_def)
  show "length (ms_file_list (flush_sst_to_new_tier m)) = length (ms_file_list m) + 1"
    using arg_cong [OF keys, of length] by (simp add: flush_sst_to_new_tier_def generate_sst_id_def Let_def)
qed

lemma tiered_sim_iteration_ok:
  assumes "tiered_merges o'" "tiers_calm o' (si_storage s)"
  shows "\<exists>a s'. tiered_sim_iteration flags o' s = (Inr a, s') \<and> ss_compactions a \<le> 1 \<and>
    ss_read_amplification a < to_num_tiers o' \<and>
    tiers_calm o' (si_storage s') \<and> ms_total_flushes (si_storage s') = ms_total_flushes (si_storage s) + 1 \<and>
    length (ms_file_list (si_storage s')) = length (ms_file_list (si_storage s)) + 1"
proof -
  let ?s = "s\<lparr>si_storage := flush_sst_to_new_tier (si_storage s)\<rparr>"
  note flush = flush_tier_ok [OF assms(2)]
  have "files_ok (si_storage ?s)" using flush(1) by (simp add: tiers_ok_def)
  then obtain s1 where s1: "sim_print flags False False ?s = (Inr (), s1)" "si_storage s1 = si_storage ?s"
    by (rule sim_print_ok)
  have "tiers_ok (si_storage s1)" "length (ls_levels (ms_snapshot (si_storage s1))) \<le> to_num_tiers o'"
    using flush(1,2) s1(2) by simp_all
  then obtain k s2 where s2: "tiered_sim_rounds flags o' 0 s1 = (Inr k, s2)" "k \<le> 1" "tiers_calm o' (si_storage s2)"
    "ms_total_flushes (si_storage s2) = ms_total_flushes (si_storage s1)"
    "length (ms_file_list (si_storage s2)) = length (ms_file_list (si_storage s1))"
    using tiered_rounds_ok [OF assms(1), of s1 flags] by blast
  let ?ls = "ls_levels (ms_snapshot (si_storage s2))"
  have "length (filter (\<lambda>l. snd l \<noteq> []) ?ls) < to_num_tiers o'" "ls_l0_sstables (ms_snapshot (si_storage s2)) = []"
    using s2(3) length_filter_le [of "\<lambda>l. snd l \<noteq> []" ?ls] unfolding tiers_calm_def tiers_ok_def by linarith+
  then show ?thesis
    using s1 s2 flush(3,4)
    by (intro exI [of _ "sim_stats_of k (sim_see_space s2)"] exI [of _ "sim_see_space s2"])
      (simp add: tiered_sim_iteration_def Let_def, simp add: sim_stats_of_def Let_def)
qed

lemma tiered_iterations_ok:
  assumes "tiered_merges o'" "tiers_calm o' (si_storage s)"
  shows "\<exists>as s'. sim_iterations (\<lambda>_. tiered_sim_iteration flags o') xs s = (Inr as, s') \<and> length as = length xs \<and>
    (\<forall>a \<in> set as. ss_compactions a \<le> 1 \<and> ss_read_amplification a < to_num_tiers o') \<and>
    tiers_calm o' (si_storage s') \<and>
    ms_total_flushes (si_storage s') = ms_total_flushes (si_storage s) + length xs \<and>
    length (ms_file_list (si_storage s')) = length (ms_file_list (si_storage s)) + length xs"
  using assms(2)
proof (induction xs arbitrary: s)
  case (Cons x xs)
  obtain a s1 where s1: "tiered_sim_iteration flags o' s = (Inr a, s1)" "ss_compactions a \<le> 1"
    "ss_read_amplification a < to_num_tiers o'"
    "tiers_calm o' (si_storage s1)" "ms_total_flushes (si_storage s1) = ms_total_flushes (si_storage s) + 1"
    "length (ms_file_list (si_storage s1)) = length (ms_file_list (si_storage s)) + 1"
    using tiered_sim_iteration_ok [OF assms(1) Cons.prems, of flags] by blast
  obtain as s' where "sim_iterations (\<lambda>_. tiered_sim_iteration flags o') xs s1 = (Inr as, s')" "length as = length xs"
    "\<forall>a \<in> set as. ss_compactions a \<le> 1 \<and> ss_read_amplification a < to_num_tiers o'" "tiers_calm o' (si_storage s')"
    "ms_total_flushes (si_storage s') = ms_total_flushes (si_storage s1) + length xs"
    "length (ms_file_list (si_storage s')) = length (ms_file_list (si_storage s1)) + length xs"
    using Cons.IH [OF s1(4)] by blast
  then show ?case using s1 by (intro exI [of _ "a # as"] exI [of _ s']) simp
qed simp

lemma sim_start_tiers: "0 < to_num_tiers o' \<Longrightarrow> tiers_calm o' (si_storage (sim_start S 0))"
  by (simp add: tiers_calm_def tiers_ok_def files_ok_def sim_start_def mock_new_def all_files_def Let_def)

section \<open>Properties\<close>

text \<open>
  C32: The simulation of tiered compaction never gives up when every task merges: with at least two
  tiers before a compaction, a minimal merge width of at least two and no maximal one below it, any
  number of iterations ends without a panic. In each at most one compaction runs, after it there
  are fewer tiers than the trigger, and the list of files has one file for every flush.
\<close>

theorem tiered_simulation_converges:
  assumes "2 \<le> to_num_tiers o'" "2 \<le> to_min_merge_width o'" "\<forall>w. to_max_merge_width o' = Some w \<longrightarrow> 2 \<le> w"
  shows "\<exists>as s. tiered_sim S flags o' iterations = (Inr as, s) \<and> length as = iterations \<and>
    (\<forall>a \<in> set as. ss_compactions a \<le> 1 \<and> ss_read_amplification a < to_num_tiers o') \<and>
    ms_total_flushes (si_storage s) = iterations \<and> length (ms_file_list (si_storage s)) = iterations"
proof -
  let ?s = "sim_start S 0"
  have o': "tiered_merges o'" using assms by (force simp: tiered_merges_def)
  have calm: "tiers_calm o' (si_storage ?s)" using assms(1) by (intro sim_start_tiers) simp
  obtain as s where s: "tiered_sim S flags o' iterations = (Inr as, s)" "length as = length [0..<iterations]"
    "\<forall>a \<in> set as. ss_compactions a \<le> 1 \<and> ss_read_amplification a < to_num_tiers o'"
    "ms_total_flushes (si_storage s) = ms_total_flushes (si_storage ?s) + length [0..<iterations]"
    "length (ms_file_list (si_storage s)) = length (ms_file_list (si_storage ?s)) + length [0..<iterations]"
    using tiered_iterations_ok [OF o' calm, of flags "[0..<iterations]"] unfolding tiered_sim_def by blast
  moreover have "ms_total_flushes (si_storage ?s) = 0" "ms_file_list (si_storage ?s) = []"
    by (simp_all add: sim_start_def mock_new_def Let_def)
  ultimately show ?thesis by (intro exI [of _ as] exI [of _ s]) simp
qed

theorem tiered_simulation_converges_witness:
  "\<exists>as s. sim_main rbt_ops (\<lambda>i. (i, i)) (default_tiered_args \<lparr>sf_dump_real_id = False, sf_size_only = False\<rparr>) =
      (Inr as, s) \<and>
    length as = 50 \<and> length (ms_file_list (si_storage s)) = 50"
  using tiered_simulation_converges [of default_tiered_options rbt_ops "\<lparr>sf_dump_real_id = False, sf_size_only = False\<rparr>" 50]
  by (auto simp: default_tiered_args_def default_tiered_options_def)

text \<open>
  C33: A task of one tier repeats for ever. Such a task leaves the sizes of the tiers as they were, so
  that another one is generated after it, and the simulation gives up; outside the simulator the
  compaction thread rewrites this tier at every tick.
\<close>

theorem lone_tier_diverges:
  assumes "files_ok (si_storage s)" "ls_l0_sstables (ms_snapshot (si_storage s)) = []"
    and "\<forall>l \<in> set (ls_levels (ms_snapshot (si_storage s))). snd l \<noteq> [] \<and> fst l = hd (snd l)"
    and "tiered_generate o' (ms_snapshot (si_storage s)) = Inr (Some task)" "length (tt_tiers task) = 1"
  shows "fst (sim_rounds (\<lambda>s. tiered_generate o' (ms_snapshot (si_storage s))) (tiered_sim_compaction flags)
    (to_num_tiers o' * 3) n s) = Inl Panic"
proof -
  have "tiers_ok (si_storage s)" using assms(1-3) by (simp add: tiers_ok_def)
  then show ?thesis
    using assms(4,5)
  proof (induction "to_num_tiers o' * 3 - n" arbitrary: n s task rule: less_induct)
    case less
    let ?st = "ms_snapshot (si_storage s)"
    obtain l where l: "tt_tiers task = [l]" using less.prems(3) by (cases "tt_tiers task") auto
    obtain rest where ls: "ls_levels ?st = tt_tiers task @ rest" using tiered_generate_take [OF less.prems(2)] by blast
    obtain s1 where s1: "tiered_sim_compaction flags task s = (Inr (), s1)" "tiers_ok (si_storage s1)"
      "tier_sizes (ls_levels (ms_snapshot (si_storage s1))) = files_of (tt_tiers task) # tier_sizes rest"
      by (rule tiered_sim_step [OF less.prems(1) ls]) (use l in simp)
    have "tier_sizes (ls_levels (ms_snapshot (si_storage s1))) = tier_sizes (ls_levels ?st)"
      using s1(3) ls l by (simp add: tier_sizes_def files_of_def)
    then obtain task' where task': "tiered_generate o' (ms_snapshot (si_storage s1)) = Inr (Some task')"
      "length (tt_tiers task') = length (tt_tiers task)"
      using s1(2) by (auto simp: tiers_ok_def intro: tiered_generate_sizes [OF less.prems(2)])
    show ?case
    proof (cases "to_num_tiers o' * 3 \<le> n + 1")
      case True
      then show ?thesis by (subst sim_rounds.simps) (simp add: less.prems(2) s1(1))
    next
      case False
      then have "to_num_tiers o' * 3 - (n + 1) < to_num_tiers o' * 3 - n" by simp
      from less.hyps [OF this s1(2) task'(1)] show ?thesis
        using False less.prems(3) task'(2) by (subst sim_rounds.simps) (simp add: less.prems(2) s1(1))
    qed
  qed
qed

text \<open>A new tier of one file above one of two, and a minimal merge width of one.\<close>

definition lone_tier :: "(key, bytes) rbt sim" where
  "lone_tier =
     \<lparr>si_storage = \<lparr>ms_snapshot = three_tiers\<lparr>ls_levels := [(4, [4]), (3, [3, 2])]\<rparr>, ms_next_sst_id = 5,
        ms_file_list = [(4, 4), (3, 1), (2, 2)], ms_total_flushes = 3, ms_total_writes = 5\<rparr>,
      si_max_space = 4, si_dumps = []\<rparr>"

definition lone_options :: tiered_options where
  "lone_options = default_tiered_options\<lparr>to_num_tiers := 2, to_min_merge_width := 1\<rparr>"

lemma lone_ratios:
  "\<not> f64_le (f64_of_nat 200) (space_amp_ratio [(4, [4]), (3, [3, 2])])"
  "tiered_scan lone_options (size_ratio_trigger lone_options) 0 0 [(4, [4]), (3, [3, 2])] = Some 0"
  by code_simp+

theorem lone_tier_diverges_witness:
  "fst (sim_rounds (\<lambda>s. tiered_generate lone_options (ms_snapshot (si_storage s)))
    (tiered_sim_compaction \<lparr>sf_dump_real_id = False, sf_size_only = False\<rparr>) 6 0 lone_tier) = Inl Panic"
proof -
  have "tiered_generate lone_options (ms_snapshot (si_storage lone_tier)) =
      Inr (Some \<lparr>tt_tiers = [(4, [4])], tt_bottom_tier_included = False\<rparr>)"
    using lone_ratios
    by (simp add: tiered_generate_def lone_tier_def three_tiers_def checked_sub_def lone_options_def
        default_tiered_options_def Let_def)
  from lone_tier_diverges [OF _ _ _ this, of "\<lparr>sf_dump_real_id = False, sf_size_only = False\<rparr>" 0]
  show ?thesis
    by (simp add: lone_tier_def three_tiers_def files_ok_def all_files_def lone_options_def default_tiered_options_def)
qed

end
