(* ===== verification/Spec2Isabelle.thy ===== *)
theory Spec2Isabelle
  imports RecoveryFaults Failures Concurrent CliParse SimSimple SimTiered
begin

text \<open>
  A model of \<open>tiny-lsm\<close>, a log-structured merge-tree storage engine in Rust, with the theorems that
  make it correct and those that say where it is not.

  \<^bold>\<open>The program.\<close> A write goes as a batch with a fresh commit timestamp into the memtable and its
  write-ahead log (\<open>lsm_storage.rs\<close>, \<open>mem_table.rs\<close>, \<open>wal.rs\<close>). A memtable that has reached the target
  size is frozen; the flush thread writes the oldest frozen one as a sorted table to level 0 (or as
  a tier of its own). The compaction thread merges tables downwards as one of three controllers
  says (\<open>compact.rs\<close>, \<open>compact/\<close>). A table (\<open>table.rs\<close>, \<open>table/\<close>) is a file of prefix-compressed blocks
  (\<open>block.rs\<close>, \<open>block/\<close>) with a bloom filter. A read merges memtables, level 0 and the levels through
  a tower of iterators (\<open>iterators/\<close>, \<open>lsm_iterator.rs\<close>) and shows the newest version at its
  timestamp; a transaction (\<open>mvcc/txn.rs\<close>) reads at a fixed timestamp and lays its own writes on top.
  \<open>open\<close> rebuilds the state from the manifest, the logs and the tables. On top there are a
  command-line client and a simulator of the compaction strategies (\<open>bin/\<close>). Paths are below
  \<open>src/src/\<close> of the repository.

  \<^bold>\<open>Theories and sources.\<close>
  \<^item> \<open>Prelude\<close>: results, loops, codecs, sorted association lists; \<open>Format\<close>: \<open>format!\<close> of numbers;
    \<open>Floats\<close>: \<open>f64\<close> as the controllers use it.
  \<^item> \<open>Keys\<close>: \<open>key.rs\<close>. \<open>SkipMaps\<close>: the interface of the skip map crate. \<open>Blocks\<close>: \<open>block.rs\<close>,
    \<open>block/builder.rs\<close>, \<open>block/iterator.rs\<close>. \<open>BloomFilter\<close>: \<open>table/bloom.rs\<close>. \<open>Tables\<close>: \<open>table.rs\<close>,
    \<open>table/builder.rs\<close>. \<open>TableIter\<close>: \<open>table/iterator.rs\<close>. \<open>Iterators\<close>: \<open>iterators.rs\<close> and both merge
    iterators. \<open>ConcatIter\<close>: \<open>iterators/concat_iterator.rs\<close>. \<open>LsmIter\<close>: \<open>lsm_iterator.rs\<close>.
  \<^item> \<open>Wal\<close>: \<open>wal.rs\<close>. \<open>MemTable\<close>: \<open>mem_table.rs\<close>. \<open>State\<close>: the records of \<open>lsm_storage.rs\<close>, \<open>mvcc.rs\<close>,
    \<open>mvcc/watermark.rs\<close>, \<open>manifest.rs\<close> and the task types of \<open>compact.rs\<close>. \<open>Storage\<close>: reads.
    \<open>MvStore\<close>: the abstract specification. \<open>Writes\<close>: writes, freezing, flushing.
  \<^item> \<open>Compactor\<close>, \<open>Compaction\<close>: running a task (\<open>compact.rs\<close>). \<open>Strategy\<close>: the contract of a controller,
    kept by \<open>CompactSimple\<close>, \<open>CompactLeveled\<close>, \<open>CompactTiered\<close>. \<open>Trigger\<close>, \<open>Engine\<close>: the threads and the
    forced compaction.
  \<^item> \<open>Txn\<close>: \<open>mvcc/txn.rs\<close>. \<open>Recovery\<close>, \<open>RecoveryFaults\<close>: \<open>open\<close> and the directory. \<open>Failures\<close>: a manifest
    that refuses records. \<open>MiniLsm\<close>: the handle of the client with \<open>close\<close>. \<open>Concurrent\<close>: interleavings. \<open>Cli\<close>, \<open>CliParse\<close>: \<open>bin/tiny-lsm-cli.rs\<close>
    and \<open>debug.rs\<close>. \<open>Simulator\<close>, \<open>SimSimple\<close>, \<open>SimTiered\<close>: \<open>bin/compaction-simulator.rs\<close>.

  \<^bold>\<open>How code is modelled.\<close> A struct is a record with a prefix of its own, a method is a definition
  that takes the record and returns it updated. A result is \<open>err + 'a\<close>: \<open>Inl Panic\<close> for whatever
  aborts a debug build (assertion, index, slice, arithmetic underflow, \<open>unwrap\<close>), \<open>Inl Unimplemented\<close>
  for \<open>unimplemented!()\<close>, other values for errors that the code returns. A fallible method with an
  effect returns the result beside the new state, so that what an error leaves behind is modelled
  too. An iterator is its state with a record of methods, and generic code takes the record as an
  argument, as it takes a trait bound in Rust. Timestamps, checksums, hashes, offsets and lengths in
  files keep their width as words; \<open>usize\<close> is a natural number, with subtractions, divisions and the
  product of the configured base level size checked; sums of sizes in memory are exact.
  Shared ownership (\<open>Arc\<close>) of immutable tables is a value; a memtable is mutable and shared with
  snapshots, but no sequential method writes to one that it holds a snapshot of.

  \<^bold>\<open>Parameters.\<close> Code outside the repository is an argument of the definitions: \<open>crc\<close>, \<open>fp\<close> and \<open>h\<close>
  (checksum and hashes, about which nothing is assumed), the block cache (a table carries the
  answers of its cache, which hold blocks of that table), the skip map (locale \<open>skip_map\<close>, satisfied
  by red-black trees), the parser combinators (locale \<open>nom_parsers\<close>). The manifest is an argument
  because all its methods are unimplemented: \<open>manifest_works\<close> says that records are accepted, and
  \<open>manifest_repo\<close> is what the repository has. Writing a file succeeds; a read gives what was
  written, and what a crash leaves of a log is what had left its buffer.

  \<^bold>\<open>Interfaces.\<close> \<open>storage_iterator\<close>, \<open>sorted_iterator\<close> (an invariant and the entries still to come),
  interpreted by every iterator; \<open>merge_iterator\<close> over them; \<open>mv_store\<close> (what a client may rely on),
  interpreted by the storage with flushes, with flushes on a directory, and with compactions;
  \<open>compaction_strategy\<close>, interpreted by the three controllers.

  \<^bold>\<open>What is shown.\<close>
  \<^item> The whole engine refines a map with a clock: any run of batches, flushes and compactions answers
    reads like the map does, and old timestamps keep their answers (\<open>storage_refines_map\<close>,
    \<open>compaction_refines_map\<close>). Interleaved at the locks (a write is three steps: the memtable, the
    freeze, the clock; a flush is two), a writer and the flush thread still do
    (\<open>concurrent_writes_and_flushes\<close>), a compaction does not (\<open>compaction_loses_writes\<close>).
  \<^item> The life of a database: \<open>close\<close> with the log joins the threads and does not flush the logs. When
    the closed handle is then dropped, the directory opens again with the same contents; when the
    process exits right after \<open>close\<close>, as the client does, what the log still buffered is lost
    (\<open>open_run_close_open\<close>, \<open>reopen_after_exit\<close>, \<open>journal_in_step\<close>). A crash loses a suffix of the log
    at most (\<open>wal_crash_prefix\<close>); the clock may come back older (\<open>recovery_hides_newest\<close>), and without a
    log \<open>close\<close> waits for itself (\<open>close_returns_iff\<close>). A write that fails while freezing comes back
    with the next one (\<open>failed_write_comes_back\<close>).
  \<^item> Compactions keep the contents unless they reach the bottom with deleted keys
    (\<open>trigger_compaction_contents\<close>, \<open>full_compaction_contents\<close>, \<open>full_compaction_resurrects\<close>); the controllers
    generate valid tasks and keep levels sorted. These theorems ask that the input of a compaction
    to the bottom does not end in a tombstone, for which the code may build a table without a block,
    and for options the controllers can work with (\<open>tuned\<close>): the leveled controller panics when the
    base level size overflows a \<open>usize\<close> (\<open>leveled_task_valid\<close>).
  \<^item> Formats round-trip (\<open>block_roundtrip\<close>, \<open>table_roundtrip\<close>, \<open>memtable_recovery\<close>), iterators produce and
    seek exactly the entries of what they read (the overlap test of the table iterator, which the
    engine does not use, is characterised by \<open>range_overlap_exact\<close>), filters never deny a key, scans agree with point
    reads, transactions see their snapshot and their own writes.
  \<^item> The client stores what it says, and its parser reads what is typed; the simulations of simple
    and of tiered compaction end, the latter exactly when tasks merge (\<open>lone_tier_diverges\<close>).

  \<^bold>\<open>Bounds.\<close> A \<open>loop\<close> of the code is \<open>loop_until\<close>, whose value is \<open>Inl Diverges\<close> when it never breaks:
  a theorem that gives an \<open>Inr\<close> result proves termination. Draining an iterator takes as fuel the
  number of its entries and is shown to end exactly there. The rounds of the simulator end by the
  counter of the code. Other hypotheses are limits of the formats: keys and values below 64 KiB,
  blocks up to 64 KiB, tables below 4 GiB where they are opened again, fewer than \<open>2 ^ 64\<close> commits.

  \<^bold>\<open>Not modelled.\<close> \<open>Wal::put_batch\<close>, \<open>Transaction::commit\<close>, the watermark and the manifest have no
  body in the source and are errors here. The serialization of manifest records, command-line
  arguments, line editing and random numbers belong to other crates. Headings and the text of the
  statistics of the simulator, log output, \<open>Debug\<close> derivations, conversions between the owners of a
  key, the wrappers for tests and the tests themselves are left out. The interleavings do not model
  a writer that still holds a memtable a compaction has copied; the atomics of \<open>Relaxed\<close> order are
  plain state.

  \<^bold>\<open>Open.\<close> Convergence of the simulation of leveled compaction, which depends on random ranges that
  can be too small to split; the controllers under interleaved flushes; a bound on the size of
  the tables a compaction writes.
\<close>

end
